(* ===== verification/Prelude.thy ===== *)
theory Prelude
  imports Main "HOL-Library.Sublist"
begin

section \<open>Shared vocabulary: errors, results, and Python's strings\<close>

text \<open>
  What every component of the model uses: the exceptions of the program as one datatype, results
  as sums, and the operations of Python's \<^verbatim>\<open>str\<close> and \<^verbatim>\<open>os.path\<close> that the sources call.  Strings are
  lists of characters (code points below 256); the text of error messages is not modelled, the
  class of the exception is.
\<close>

named_theorems res_simps \<open>rewriting with results\<close>
named_theorems str_simps \<open>rewriting with strings\<close>

subsection \<open>Errors and results\<close>

text \<open>
  The exceptions that the modelled code raises or that Python raises for it.  \<open>UserError\<close> is
  \<^verbatim>\<open>debputy.util._error\<close>, which ends the process with status 1.
\<close>

datatype exn =
    ValueError | TypeErr | KeyError | IndexError | AttributeErr | AssertionErr | RuntimeErr
  | NotImplementedErr | RecursionErr | ReferenceErr | StructErr
  | UserError | FSIsROError | SymlinkLoopError | PureVirtualPathError | MetadataAccessError
  | SubstitutionError | ManifestParseError | TransformationError
  | PathAlreadyInstalledOrDiscarded | ExactPathMatchTwice | NoMatchForInstallPattern
  | IncompleteFileErr | OverlappingEdit | OSErr | CannotEmulateExecutableDHConfigFile
  | PluginConflictError | PluginAPIViolation | UnhandledPluginError | DebputyRuntimeErr | CyclicErr

type_synonym 'a res = "exn + 'a"

definition rbind :: "'a res \<Rightarrow> ('a \<Rightarrow> 'b res) \<Rightarrow> 'b res" where
  "rbind m f = (case m of Inl e \<Rightarrow> Inl e | Inr x \<Rightarrow> f x)"

lemma rbind_Inl [simp]: "rbind (Inl e) f = Inl e"
  by (simp add: rbind_def)

lemma rbind_Inr [simp]: "rbind (Inr x) f = f x"
  by (simp add: rbind_def)

lemma rbind_cong [fundef_cong]:
  "m = m' \<Longrightarrow> (\<And>x. m' = Inr x \<Longrightarrow> f x = g x) \<Longrightarrow> rbind m f = rbind m' g"
  by (cases m') (auto simp: rbind_def)

lemma rbind_eq_Inr [res_simps]: "rbind m f = Inr y \<longleftrightarrow> (\<exists>x. m = Inr x \<and> f x = Inr y)"
  by (cases m) auto

lemma rbind_eq_Inl [res_simps]:
  "rbind m f = Inl e \<longleftrightarrow> m = Inl e \<or> (\<exists>x. m = Inr x \<and> f x = Inl e)"
  by (cases m) auto

lemma rbind_InrE: "rbind m f = Inr y \<Longrightarrow> (\<And>x. m = Inr x \<Longrightarrow> f x = Inr y \<Longrightarrow> thesis) \<Longrightarrow> thesis"
  by (auto simp: rbind_eq_Inr)

lemma if_Inl_InrE: "(if b then Inl e else r) = Inr y \<Longrightarrow> (\<not> b \<Longrightarrow> r = Inr y \<Longrightarrow> thesis) \<Longrightarrow> thesis"
  by (simp split: if_splits)

lemma rbind_assoc: "rbind (rbind m f) g = rbind m (\<lambda>x. rbind (f x) g)"
  by (cases m) auto

definition rguard :: "bool \<Rightarrow> exn \<Rightarrow> unit res" where
  "rguard b e = (if b then Inr () else Inl e)"

lemma rguard_simps [simp]:
  "rguard True e = Inr ()"
  "rguard False e = Inl e"
  by (simp_all add: rguard_def)

lemma rguard_eq_Inr [res_simps]: "rguard b e = Inr u \<longleftrightarrow> b"
  by (simp add: rguard_def)

lemma rguard_eq_Inl [res_simps]: "rguard b e = Inl e' \<longleftrightarrow> \<not> b \<and> e = e'"
  by (auto simp: rguard_def)

definition rmap :: "('a \<Rightarrow> 'b) \<Rightarrow> 'a res \<Rightarrow> 'b res" where
  "rmap f m = rbind m (\<lambda>x. Inr (f x))"

lemma rmap_simps [simp]:
  "rmap f (Inl e) = Inl e"
  "rmap f (Inr x) = Inr (f x)"
  by (simp_all add: rmap_def)

lemma rmap_eq_Inr [res_simps]: "rmap f m = Inr y \<longleftrightarrow> (\<exists>x. m = Inr x \<and> y = f x)"
  by (cases m) auto

lemma rmap_eq_Inl [res_simps]: "rmap f m = Inl e \<longleftrightarrow> m = Inl e"
  by (cases m) auto

text \<open>A comprehension over a list whose body may raise: the first error wins.\<close>

fun rmapM :: "('a \<Rightarrow> 'b res) \<Rightarrow> 'a list \<Rightarrow> 'b list res" where
  "rmapM f [] = Inr []"
| "rmapM f (x # xs) = rbind (f x) (\<lambda>y. rmap (\<lambda>ys. y # ys) (rmapM f xs))"

lemma rmapM_cong [fundef_cong]:
  "xs = ys \<Longrightarrow> (\<And>x. x \<in> set ys \<Longrightarrow> f x = g x) \<Longrightarrow> rmapM f xs = rmapM g ys"
  by (induction xs arbitrary: ys) auto

lemma rmapM_Inr [simp]: "rmapM (\<lambda>x. Inr (f x)) xs = Inr (map f xs)"
  by (induction xs) auto

lemma rmapM_append: "rmapM f (xs @ ys) = rbind (rmapM f xs) (\<lambda>as. rmap (\<lambda>bs. as @ bs) (rmapM f ys))"
proof (induction xs)
  case Nil
  show ?case by (cases "rmapM f ys") auto
next
  case (Cons x xs)
  then show ?case
    by (cases "f x"; cases "rmapM f xs"; cases "rmapM f ys") auto
qed

lemma rmapM_eq_Inr: "rmapM f xs = Inr ys \<longleftrightarrow> list_all2 (\<lambda>x y. f x = Inr y) xs ys"
  by (induction xs arbitrary: ys) (auto simp: res_simps list_all2_Cons1)

lemma rmapM_member: "rmapM f xs = Inr ys \<Longrightarrow> y \<in> set ys \<Longrightarrow> \<exists>x \<in> set xs. f x = Inr y"
  by (induction xs arbitrary: ys) (auto simp: res_simps)

text \<open>A loop over a list whose body threads a state and may raise.\<close>

fun rfold :: "('a \<Rightarrow> 's \<Rightarrow> 's res) \<Rightarrow> 'a list \<Rightarrow> 's \<Rightarrow> 's res" where
  "rfold f [] s = Inr s"
| "rfold f (x # xs) s = rbind (f x s) (rfold f xs)"

lemma rfold_append: "rfold f (xs @ ys) s = rbind (rfold f xs s) (rfold f ys)"
proof (induction xs arbitrary: s)
  case (Cons x xs)
  then show ?case by (cases "f x s") auto
qed simp

lemma rfold_invariant:
  assumes "rfold f xs s = Inr t" and "P s"
    and "\<And>x s t. x \<in> set xs \<Longrightarrow> P s \<Longrightarrow> f x s = Inr t \<Longrightarrow> P t"
  shows "P t"
  using assms by (induction xs arbitrary: s) (auto simp: res_simps)

subsection \<open>Options\<close>

lemma if_SomeD: "(if P then Some x else None) = Some y \<Longrightarrow> P \<and> y = x"
  by (cases P) simp_all

lemma if_None_SomeD: "(if P then None else Some x) = Some y \<Longrightarrow> \<not> P \<and> y = x"
  by (cases P) simp_all

subsection \<open>Octal literals\<close>

text \<open>The file modes that the sources write in octal (\<^verbatim>\<open>0o755\<close> is \<open>o755\<close>).\<close>

abbreviation o700 :: int where "o700 \<equiv> 448"
abbreviation o400 :: int where "o400 \<equiv> 256"
abbreviation o600 :: int where "o600 \<equiv> 384"
abbreviation o644 :: int where "o644 \<equiv> 420"
abbreviation o755 :: int where "o755 \<equiv> 493"
abbreviation o111 :: int where "o111 \<equiv> 73"
abbreviation o1000 :: int where "o1000 \<equiv> 512"
abbreviation o2000 :: int where "o2000 \<equiv> 1024"
abbreviation o4000 :: int where "o4000 \<equiv> 2048"
abbreviation o7777 :: int where "o7777 \<equiv> 4095"
abbreviation o777 :: int where "o777 \<equiv> 511"

end
