(* ===== verification/PyStr.thy ===== *)
theory PyStr
  imports Prelude "HOL-Library.List_Lexorder" "HOL-Library.Char_ord"
begin

section \<open>Python's strings and \<^verbatim>\<open>os.path\<close>\<close>

text \<open>
  The methods of \<^verbatim>\<open>str\<close> and the functions of \<^verbatim>\<open>posixpath\<close> that the sources call, as executable
  functions on lists of characters, and the laws the components rely on (splitting undoes
  joining, what stripping leaves, how a path decomposes).
\<close>

subsection \<open>Characters\<close>

text \<open>\<^verbatim>\<open>str.isspace\<close> on the code points below 256, which is also what \<^verbatim>\<open>\s\<close> matches.\<close>

definition py_space :: "char \<Rightarrow> bool" where
  "py_space c \<longleftrightarrow>
     c \<in> set [CHR '' '', CHR 0x09, CHR 0x0A, CHR 0x0B, CHR 0x0C, CHR 0x0D,
              CHR 0x1C, CHR 0x1D, CHR 0x1E, CHR 0x1F, CHR 0x85, CHR 0xA0]"

definition ascii_digit :: "char \<Rightarrow> bool" where
  "ascii_digit c \<longleftrightarrow> c \<in> set ''0123456789''"

definition ascii_lower :: "char \<Rightarrow> bool" where
  "ascii_lower c \<longleftrightarrow> c \<in> set ''abcdefghijklmnopqrstuvwxyz''"

definition ascii_upper :: "char \<Rightarrow> bool" where
  "ascii_upper c \<longleftrightarrow> c \<in> set ''ABCDEFGHIJKLMNOPQRSTUVWXYZ''"

definition ascii_alnum :: "char \<Rightarrow> bool" where
  "ascii_alnum c \<longleftrightarrow> ascii_digit c \<or> ascii_lower c \<or> ascii_upper c"

text \<open>\<^verbatim>\<open>str.isdigit\<close> of one character: the superscripts of Latin-1 count.\<close>

definition py_isdigit_char :: "char \<Rightarrow> bool" where
  "py_isdigit_char c \<longleftrightarrow> ascii_digit c \<or> c \<in> set [CHR 0xB2, CHR 0xB3, CHR 0xB9]"

definition py_isdigit :: "string \<Rightarrow> bool" where
  "py_isdigit s \<longleftrightarrow> s \<noteq> [] \<and> list_all py_isdigit_char s"

lemmas char_class_defs =
  py_space_def ascii_digit_def ascii_lower_def ascii_upper_def ascii_alnum_def
  py_isdigit_char_def

abbreviation slash :: char where "slash \<equiv> CHR ''/''"
abbreviation dot :: char where "dot \<equiv> CHR ''.''"

subsection \<open>Prefixes, suffixes, search\<close>

definition startswith :: "string \<Rightarrow> string \<Rightarrow> bool" where
  "startswith s p \<longleftrightarrow> take (length p) s = p"

definition endswith :: "string \<Rightarrow> string \<Rightarrow> bool" where
  "endswith s p \<longleftrightarrow> length p \<le> length s \<and> drop (length s - length p) s = p"

lemma startswith_Nil [simp]: "startswith s []"
  by (simp add: startswith_def)

lemma startswith_append [simp]: "startswith (p @ s) p"
  by (simp add: startswith_def)

lemma startswith_Cons [simp]:
  "startswith (x # s) (y # p) \<longleftrightarrow> x = y \<and> startswith s p"
  "startswith [] (y # p) \<longleftrightarrow> False"
  by (auto simp: startswith_def)

lemma startswith_iff: "startswith s p \<longleftrightarrow> (\<exists>r. s = p @ r)"
  unfolding startswith_def by (metis append_eq_conv_conj append_take_drop_id)

lemma startswith_drop: "startswith s p \<Longrightarrow> p @ drop (length p) s = s"
  unfolding startswith_def by (metis append_take_drop_id)

lemma endswith_iff: "endswith s p \<longleftrightarrow> (\<exists>r. s = r @ p)"
  unfolding endswith_def
  by (metis append_take_drop_id append_eq_append_conv diff_diff_cancel le_add2 length_append
      length_drop)

lemma endswith_append [simp]: "endswith (r @ p) p"
  by (auto simp: endswith_iff)

lemma endswith_single: "endswith s [c] \<longleftrightarrow> s \<noteq> [] \<and> last s = c"
  by (metis append_butlast_last_id endswith_iff last_snoc not_Cons_self2 snoc_eq_iff_butlast)

fun infix_of :: "string \<Rightarrow> string \<Rightarrow> bool" where
  "infix_of p [] \<longleftrightarrow> p = []"
| "infix_of p (x # s) \<longleftrightarrow> startswith (x # s) p \<or> infix_of p s"

lemma infix_of_iff: "infix_of p s \<longleftrightarrow> (\<exists>a b. s = a @ p @ b)"
proof (induction s)
  case Nil
  then show ?case by auto
next
  case (Cons x s)
  show ?case
  proof
    assume "infix_of p (x # s)"
    then show "\<exists>a b. x # s = a @ p @ b"
    proof (simp only: infix_of.simps, elim disjE)
      assume "startswith (x # s) p"
      then obtain r where "x # s = p @ r" by (auto simp: startswith_iff)
      then have "x # s = [] @ p @ r" by simp
      then show ?thesis by blast
    next
      assume "infix_of p s"
      then obtain a b where "s = a @ p @ b" using Cons.IH by blast
      then have "x # s = (x # a) @ p @ b" by simp
      then show ?thesis by blast
    qed
  next
    assume "\<exists>a b. x # s = a @ p @ b"
    then obtain a b where ab: "x # s = a @ p @ b" by blast
    show "infix_of p (x # s)"
    proof (cases a)
      case Nil
      with ab have "startswith (x # s) p" by (auto simp: startswith_iff)
      then show ?thesis by simp
    next
      case (Cons y a')
      with ab have "s = a' @ p @ b" by simp
      with Cons.IH show ?thesis by auto
    qed
  qed
qed

lemma infix_of_single: "infix_of [c] s \<longleftrightarrow> c \<in> set s"
  by (induction s) auto

subsection \<open>Splitting and joining\<close>

text \<open>\<^verbatim>\<open>s.split(c)\<close> with a separator of one character.\<close>

fun split_on :: "char \<Rightarrow> string \<Rightarrow> string list" where
  "split_on c [] = [[]]"
| "split_on c (x # xs) =
     (if x = c then [] # split_on c xs
      else (case split_on c xs of [] \<Rightarrow> [[x]] | p # ps \<Rightarrow> (x # p) # ps))"

fun join :: "string \<Rightarrow> string list \<Rightarrow> string" where
  "join sep [] = []"
| "join sep [p] = p"
| "join sep (p # q # ps) = p @ sep @ join sep (q # ps)"

lemma join_Cons: "join sep (p # ps) = (if ps = [] then p else p @ sep @ join sep ps)"
  by (cases ps) auto

lemma join_append:
  "xs \<noteq> [] \<Longrightarrow> ys \<noteq> [] \<Longrightarrow> join sep (xs @ ys) = join sep xs @ sep @ join sep ys"
  by (induction xs) (auto simp: join_Cons)

lemma split_on_not_Nil [simp]: "split_on c s \<noteq> []"
  by (induction s) (auto split: list.splits)

lemma join_split_on [simp]: "join [c] (split_on c s) = s"
proof (induction s)
  case Nil
  then show ?case by simp
next
  case (Cons x xs)
  obtain p ps where ps: "split_on c xs = p # ps"
    by (cases "split_on c xs") auto
  with Cons show ?case
    by (cases ps) (auto simp: join_Cons split: if_splits)
qed

lemma split_on_no_sep: "p \<in> set (split_on c s) \<Longrightarrow> c \<notin> set p"
  by (induction s arbitrary: p) (auto split: list.splits if_splits)

lemma split_on_absent: "c \<notin> set p \<Longrightarrow> split_on c p = [p]"
  by (induction p) auto

lemma split_on_append_sep: "split_on c (a @ c # b) = split_on c a @ split_on c b"
  by (induction a) (auto split: list.splits)

lemma split_on_join:
  assumes "ps \<noteq> []" and "\<forall>p \<in> set ps. c \<notin> set p"
  shows "split_on c (join [c] ps) = ps"
  using assms
proof (induction ps)
  case (Cons p ps)
  show ?case
  proof (cases "ps = []")
    case True
    with Cons.prems show ?thesis by (simp add: split_on_absent)
  next
    case False
    have "split_on c (p @ c # join [c] ps) = [p] @ split_on c (join [c] ps)"
      using Cons.prems by (simp add: split_on_append_sep split_on_absent)
    with False Cons show ?thesis by (simp add: join_Cons)
  qed
qed simp

lemma set_split_on: "p \<in> set (split_on c s) \<Longrightarrow> set p \<subseteq> set s"
  by (induction s arbitrary: p) (fastforce split: list.splits if_splits)+

lemma set_join: "set (join sep ps) \<subseteq> set sep \<union> \<Union> (set ` set ps)"
  by (induction sep ps rule: join.induct) auto

text \<open>\<^verbatim>\<open>s.split(c, 1)\<close> and \<^verbatim>\<open>s.rsplit(c, 1)\<close>: the part before and, when the separator occurs, the part
  after its first (last) occurrence.\<close>

fun split1 :: "char \<Rightarrow> string \<Rightarrow> string \<times> string option" where
  "split1 c [] = ([], None)"
| "split1 c (x # xs) =
     (if x = c then ([], Some xs) else (let (a, b) = split1 c xs in (x # a, b)))"

definition rsplit1 :: "char \<Rightarrow> string \<Rightarrow> (string \<times> string) option" where
  "rsplit1 c s =
     (if c \<in> set s
      then Some (rev (tl (dropWhile (\<lambda>x. x \<noteq> c) (rev s))), rev (takeWhile (\<lambda>x. x \<noteq> c) (rev s)))
      else None)"

lemma split1_Some: "split1 c s = (a, Some b) \<Longrightarrow> s = a @ c # b \<and> c \<notin> set a"
  by (induction s arbitrary: a b) (auto split: if_splits prod.splits)

lemma split1_None: "split1 c s = (a, None) \<Longrightarrow> s = a \<and> c \<notin> set a"
  by (induction s arbitrary: a) (auto split: if_splits prod.splits)

lemma split1_append: "c \<notin> set a \<Longrightarrow> split1 c (a @ c # b) = (a, Some b)"
  by (induction a) auto

lemma rsplit1_Some:
  assumes "rsplit1 c s = Some (a, b)"
  shows "s = a @ c # b \<and> c \<notin> set b"
proof -
  from assms have c: "c \<in> set s"
    and a: "a = rev (tl (dropWhile (\<lambda>x. x \<noteq> c) (rev s)))"
    and b: "b = rev (takeWhile (\<lambda>x. x \<noteq> c) (rev s))"
    by (auto simp: rsplit1_def split: if_splits)
  let ?d = "dropWhile (\<lambda>x. x \<noteq> c) (rev s)"
  have ne: "?d \<noteq> []" using c by (simp add: dropWhile_eq_Nil_conv)
  then have "hd ?d = c" using hd_dropWhile[OF ne] by simp
  with ne have d: "?d = c # tl ?d" by (metis list.collapse)
  have "rev s = takeWhile (\<lambda>x. x \<noteq> c) (rev s) @ c # tl ?d"
    using d by (metis takeWhile_dropWhile_id)
  then have "s = a @ c # b" unfolding a b by (metis rev_append rev_rev_ident rev.simps(2) append_assoc append_Cons append_Nil)
  moreover have "c \<notin> set b" unfolding b using set_takeWhileD by fastforce
  ultimately show ?thesis by simp
qed

lemma rsplit1_append: "c \<notin> set b \<Longrightarrow> rsplit1 c (a @ c # b) = Some (a, b)"
  by (simp add: rsplit1_def takeWhile_append dropWhile_append)

subsection \<open>Stripping and words\<close>

definition lstrip :: "(char \<Rightarrow> bool) \<Rightarrow> string \<Rightarrow> string" where
  "lstrip P s = dropWhile P s"

definition rstrip :: "(char \<Rightarrow> bool) \<Rightarrow> string \<Rightarrow> string" where
  "rstrip P s = rev (dropWhile P (rev s))"

definition strip :: "(char \<Rightarrow> bool) \<Rightarrow> string \<Rightarrow> string" where
  "strip P s = rstrip P (lstrip P s)"

lemma rstrip_Nil [simp]: "rstrip P [] = []"
  by (simp add: rstrip_def)

lemma rstrip_snoc [simp]: "rstrip P (s @ [x]) = (if P x then rstrip P s else s @ [x])"
  by (simp add: rstrip_def)

lemma rstrip_last: "rstrip P s \<noteq> [] \<Longrightarrow> \<not> P (last (rstrip P s))"
  unfolding rstrip_def by (metis hd_dropWhile last_rev rev_is_Nil_conv)

lemma rstrip_hd: "rstrip P s \<noteq> [] \<Longrightarrow> hd (rstrip P s) = hd s"
  by (induction s rule: rev_induct) (auto split: if_splits simp: hd_append)

lemma rstrip_prefix: "\<exists>r. s = rstrip P s @ r \<and> list_all P r"
proof (induction s rule: rev_induct)
  case (snoc x xs)
  then obtain r where "xs = rstrip P xs @ r" "list_all P r" by blast
  then have r: "xs @ [x] = rstrip P xs @ (r @ [x])" by (metis append_assoc)
  show ?case
  proof (cases "P x")
    case True
    with r \<open>list_all P r\<close> show ?thesis by (auto intro!: exI[of _ "r @ [x]"])
  next
    case False
    then show ?thesis by simp
  qed
qed simp

lemma rstrip_id: "s = [] \<or> \<not> P (last s) \<Longrightarrow> rstrip P s = s"
  by (cases s rule: rev_cases) auto

lemma lstrip_id: "s = [] \<or> \<not> P (hd s) \<Longrightarrow> lstrip P s = s"
  by (cases s) (auto simp: lstrip_def)

lemma strip_ends:
  assumes "strip P s \<noteq> []"
  shows "\<not> P (hd (strip P s))" and "\<not> P (last (strip P s))"
proof -
  show "\<not> P (last (strip P s))" using assms by (simp add: strip_def rstrip_last)
  have ne: "lstrip P s \<noteq> []" using assms by (auto simp: strip_def)
  have "hd (strip P s) = hd (lstrip P s)" using assms by (simp add: strip_def rstrip_hd)
  also have "\<not> P (hd (lstrip P s))" using ne unfolding lstrip_def by (rule hd_dropWhile)
  finally show "\<not> P (hd (strip P s))" .
qed

lemma strip_id: "s = [] \<or> \<not> P (hd s) \<and> \<not> P (last s) \<Longrightarrow> strip P s = s"
  by (auto simp: strip_def lstrip_id rstrip_id)

lemma strip_idem [simp]: "strip P (strip P s) = strip P s"
  by (cases "strip P s = []") (auto intro!: strip_id dest: strip_ends)

lemma set_strip: "set (strip P s) \<subseteq> set s"
  unfolding strip_def rstrip_def lstrip_def
  by (auto dest!: set_dropWhileD)

text \<open>\<^verbatim>\<open>s.split()\<close>: the maximal runs of characters that are not space.\<close>

fun words_acc :: "string \<Rightarrow> string \<Rightarrow> string list" where
  "words_acc w [] = (if w = [] then [] else [rev w])"
| "words_acc w (x # xs) =
     (if py_space x then (if w = [] then words_acc [] xs else rev w # words_acc [] xs)
      else words_acc (x # w) xs)"

definition words :: "string \<Rightarrow> string list" where
  "words s = words_acc [] s"

lemma words_acc_word:
  assumes "list_all (\<lambda>c. \<not> py_space c) v"
  shows "words_acc w (v @ s) = words_acc (rev v @ w) s"
  using assms by (induction v arbitrary: w) auto

lemma words_acc_props:
  assumes "list_all (\<lambda>c. \<not> py_space c) w" and "v \<in> set (words_acc w s)"
  shows "v \<noteq> [] \<and> list_all (\<lambda>c. \<not> py_space c) v"
  using assms
proof (induction w s rule: words_acc.induct)
  case (1 w)
  then show ?case by (auto simp: list_all_iff split: if_splits)
next
  case (2 w x xs)
  show ?case
  proof (cases "py_space x")
    case True
    show ?thesis
    proof (cases "w = []")
      case True
      with \<open>py_space x\<close> 2 show ?thesis by simp
    next
      case False
      with \<open>py_space x\<close> 2 show ?thesis by (auto simp: list_all_iff)
    qed
  next
    case False
    with 2 show ?thesis by simp
  qed
qed

lemma words_props: "v \<in> set (words s) \<Longrightarrow> v \<noteq> [] \<and> list_all (\<lambda>c. \<not> py_space c) v"
  unfolding words_def by (rule words_acc_props) auto

text \<open>Splitting undoes joining with a blank.\<close>

definition py_word :: "string \<Rightarrow> bool" where
  "py_word w \<longleftrightarrow> w \<noteq> [] \<and> list_all (\<lambda>c. \<not> py_space c) w"

lemma words_join:
  assumes "list_all py_word ws"
  shows "words (join '' '' ws) = ws"
proof -
  have sp: "py_space CHR '' ''" by (simp add: py_space_def)
  have "words_acc [] (join '' '' ws) = ws" using assms
  proof (induction ws)
    case (Cons w ws)
    then have w: "w \<noteq> []" "list_all (\<lambda>c. \<not> py_space c) w" by (auto simp: py_word_def)
    show ?case
    proof (cases "ws = []")
      case True
      with w show ?thesis using words_acc_word[OF w(2), of "[]" "[]"] by simp
    next
      case False
      have "words_acc [] (w @ CHR '' '' # join '' '' ws) = words_acc (rev w) (CHR '' '' # join '' '' ws)"
        using words_acc_word[OF w(2), of "[]"] by simp
      also have "\<dots> = w # words_acc [] (join '' '' ws)" using w sp by simp
      finally show ?thesis using False Cons by (simp add: join_Cons)
    qed
  qed simp
  then show ?thesis by (simp add: words_def)
qed

text \<open>\<^verbatim>\<open>s.splitlines()\<close> on text whose only line breaks are newlines, and iteration over the lines
  of a text file (which keeps the newline).\<close>

fun lines_keep :: "string \<Rightarrow> string list" where
  "lines_keep [] = []"
| "lines_keep (x # xs) =
     (if x = CHR 0x0A then [x] # lines_keep xs
      else (case lines_keep xs of [] \<Rightarrow> [[x]] | l # ls \<Rightarrow> (x # l) # ls))"

lemma concat_lines_keep [simp]: "concat (lines_keep s) = s"
  by (induction s) (auto split: list.splits)

subsection \<open>Replacement of single characters\<close>

definition replace_char :: "char \<Rightarrow> string \<Rightarrow> string \<Rightarrow> string" where
  "replace_char c r s = concat (map (\<lambda>x. if x = c then r else [x]) s)"

lemma replace_char_absent: "c \<notin> set s \<Longrightarrow> replace_char c r s = s"
  by (induction s) (auto simp: replace_char_def)

subsection \<open>\<^verbatim>\<open>os.path\<close>\<close>

text \<open>\<^verbatim>\<open>os.path.split\<close>: everything up to the last slash (without trailing slashes, unless it is
  only slashes), and the rest.\<close>

definition path_tail :: "string \<Rightarrow> string" where
  "path_tail p = rev (takeWhile (\<lambda>c. c \<noteq> slash) (rev p))"

definition head_at :: "char \<Rightarrow> string \<Rightarrow> string" where
  "head_at k p =
     (let h = rev (dropWhile (\<lambda>c. c \<noteq> k) (rev p))
      in if list_all (\<lambda>c. c = k) h then h else rstrip (\<lambda>c. c = k) h)"

definition path_head :: "string \<Rightarrow> string" where
  "path_head p = head_at slash p"

definition path_join :: "string \<Rightarrow> string \<Rightarrow> string" where
  "path_join a b =
     (if startswith b [slash] then b
      else if a = [] \<or> endswith a [slash] then a @ b
      else a @ [slash] @ b)"

lemma path_tail_no_slash [simp]: "slash \<notin> set (path_tail p)"
  unfolding path_tail_def using set_takeWhileD by fastforce

lemma path_tail_append: "slash \<notin> set b \<Longrightarrow> path_tail (a @ slash # b) = b"
  by (simp add: path_tail_def takeWhile_append)

lemma tail_at_plain:
  assumes "k \<notin> set b"
  shows "rev (takeWhile (\<lambda>c. c \<noteq> k) (rev b)) = b"
proof -
  from assms have e: "takeWhile (\<lambda>c. c \<noteq> k) (rev b) = rev b" by auto
  show ?thesis unfolding e by simp
qed

lemma path_tail_plain: "slash \<notin> set b \<Longrightarrow> path_tail b = b"
  unfolding path_tail_def by (rule tail_at_plain)

lemma head_at_plain:
  assumes "k \<notin> set b"
  shows "head_at k b = []"
proof -
  from assms have e: "dropWhile (\<lambda>c. c \<noteq> k) (rev b) = []" by auto
  show ?thesis unfolding head_at_def Let_def e by simp
qed

lemma head_at_append:
  assumes "k \<notin> set b" and "a \<noteq> []" and "last a \<noteq> k"
  shows "head_at k (a @ k # b) = a"
proof -
  have d: "rev (dropWhile (\<lambda>c. c \<noteq> k) (rev (a @ k # b))) = a @ [k]"
    using assms(1) by (simp add: dropWhile_append)
  have "\<not> list_all (\<lambda>c. c = k) (a @ [k])"
    using assms(2,3) by (auto simp: list_all_iff)
  with d show ?thesis
    using assms(2,3) by (simp add: head_at_def Let_def rstrip_id)
qed

lemma path_head_plain: "slash \<notin> set b \<Longrightarrow> path_head b = []"
  unfolding path_head_def by (rule head_at_plain)

lemma path_head_append:
  "slash \<notin> set b \<Longrightarrow> a \<noteq> [] \<Longrightarrow> last a \<noteq> slash \<Longrightarrow> path_head (a @ slash # b) = a"
  unfolding path_head_def by (rule head_at_append)

end
