(* ===== verification/VirtFs.thy ===== *)
theory VirtFs
  imports PyStr "HOL-Library.AList"
begin

unbundle bit_operations_syntax

section \<open>The virtual file system (\<^verbatim>\<open>src/debputy/filesystem_scan.py\<close>): state and operations\<close>

text \<open>
  The tree of \<^verbatim>\<open>FSPath\<close> objects that a package's content is built in.  Objects live in a store and
  are named by their index, a \<^verbatim>\<open>Dict[str, FSPath]\<close> is an association list in insertion order, and
  a weak reference to a parent is an index (it always resolves: an object that could have been
  collected is detached either way).  An operation that raises has no resulting state, since an
  uncaught error ends the build.  Properties that recurse along the parents are partial functions;
  \<^verbatim>\<open>RecursionError\<close> stands for not returning.
\<close>

subsection \<open>State\<close>

text \<open>The classes of \<^verbatim>\<open>FSPath\<close> with the attributes only they have.\<close>

datatype node_class =
    FSRootDir "string option"
  | VirtualDirectoryFSPath
  | SymlinkVirtualPath string
  | FSBackedFilePath string bool

text \<open>What the code reads of the path that a new path is created after (\<^verbatim>\<open>reference_path\<close>).\<close>

record reference_path =
  ref_mode :: int
  ref_is_dir :: bool
  ref_has_fs_path :: bool

record fs_node =
  n_name :: string
  n_parent :: "nat option"
  n_children :: "(string \<times> nat) list option"
  n_class :: node_class
  n_mode :: int
  n_owner :: "string \<times> int"
  n_group :: "string \<times> int"
  n_mtime :: "int option"
  n_last_parent_path :: "string option"
  n_path_cache :: "string option"
  n_parent_path_cache :: "string option"
  n_reference :: "reference_path option"

record fs =
  nodes :: "fs_node list"
  fs_read_write :: bool

definition ROOT_DEFINITION :: "string \<times> int" where
  "ROOT_DEFINITION = (''root'', 0)"

text \<open>\<^verbatim>\<open>FSPath.__init__\<close> up to the assignment of the parent.\<close>

definition fs_path_init ::
    "string \<Rightarrow> (string \<times> nat) list option \<Rightarrow> node_class \<Rightarrow> int \<Rightarrow> reference_path option \<Rightarrow> fs_node" where
  "fs_path_init basename children c initial_mode reference =
     \<lparr> n_name = basename, n_parent = None, n_children = children, n_class = c,
       n_mode = initial_mode, n_owner = ROOT_DEFINITION, n_group = ROOT_DEFINITION,
       n_mtime = None, n_last_parent_path = None, n_path_cache = None,
       n_parent_path_cache = None, n_reference = reference \<rparr>"

text \<open>\<^verbatim>\<open>FSRootDir(fs_path)\<close>: a store with the root directory only.\<close>

definition new_root_dir :: "string option \<Rightarrow> fs" where
  "new_root_dir fs_path =
     \<lparr> nodes = [fs_path_init ''.'' (Some []) (FSRootDir fs_path) o755 None], fs_read_write = True \<rparr>"

definition no_node :: fs_node where
  "no_node = fs_path_init [] None (SymlinkVirtualPath []) 0 None"

definition node :: "fs \<Rightarrow> nat \<Rightarrow> fs_node" where
  "node fs i = (if i < length (nodes fs) then nodes fs ! i else no_node)"

definition set_node :: "nat \<Rightarrow> (fs_node \<Rightarrow> fs_node) \<Rightarrow> fs \<Rightarrow> fs" where
  "set_node i f fs = fs\<lparr>nodes := (nodes fs)[i := f (node fs i)]\<rparr>"

definition new_node :: "fs_node \<Rightarrow> fs \<Rightarrow> fs \<times> nat" where
  "new_node n fs = (fs\<lparr>nodes := nodes fs @ [n]\<rparr>, length (nodes fs))"

subsection \<open>Properties of a path\<close>

definition is_root :: "fs \<Rightarrow> nat \<Rightarrow> bool" where
  "is_root fs i = (case n_class (node fs i) of FSRootDir _ \<Rightarrow> True | _ \<Rightarrow> False)"

definition is_dir :: "fs \<Rightarrow> nat \<Rightarrow> bool" where
  "is_dir fs i =
     (case n_class (node fs i) of
        FSRootDir _ \<Rightarrow> True | VirtualDirectoryFSPath \<Rightarrow> True
      | SymlinkVirtualPath _ \<Rightarrow> False | FSBackedFilePath _ _ \<Rightarrow> False)"

definition is_file :: "fs \<Rightarrow> nat \<Rightarrow> bool" where
  "is_file fs i = (case n_class (node fs i) of FSBackedFilePath _ _ \<Rightarrow> True | _ \<Rightarrow> False)"

definition is_symlink :: "fs \<Rightarrow> nat \<Rightarrow> bool" where
  "is_symlink fs i = (case n_class (node fs i) of SymlinkVirtualPath _ \<Rightarrow> True | _ \<Rightarrow> False)"

definition readlink :: "fs \<Rightarrow> nat \<Rightarrow> string res" where
  "readlink fs i = (case n_class (node fs i) of SymlinkVirtualPath t \<Rightarrow> Inr t | _ \<Rightarrow> Inl TypeErr)"

definition has_fs_path :: "fs \<Rightarrow> nat \<Rightarrow> bool" where
  "has_fs_path fs i =
     (case n_class (node fs i) of
        FSRootDir p \<Rightarrow> p \<noteq> None
      | FSBackedFilePath _ _ \<Rightarrow> True
      | _ \<Rightarrow> (case n_reference (node fs i) of None \<Rightarrow> False | Some r \<Rightarrow> ref_has_fs_path r))"

definition iterdir :: "fs \<Rightarrow> nat \<Rightarrow> nat list" where
  "iterdir fs i = (case n_children (node fs i) of None \<Rightarrow> [] | Some cs \<Rightarrow> map snd cs)"

text \<open>\<^verbatim>\<open>path.get(key)\<close>, which is \<^verbatim>\<open>path[key]\<close> with \<^verbatim>\<open>KeyError\<close> read as \<^verbatim>\<open>None\<close>.\<close>

definition get_child :: "fs \<Rightarrow> nat \<Rightarrow> string \<Rightarrow> nat option" where
  "get_child fs i key = (case n_children (node fs i) of None \<Rightarrow> None | Some cs \<Rightarrow> map_of cs key)"

partial_function (option) is_detached_opt :: "fs \<Rightarrow> nat \<Rightarrow> bool option" where
  "is_detached_opt fs i =
     (if is_root fs i then Some False
      else (case n_parent (node fs i) of
              None \<Rightarrow> Some True
            | Some p \<Rightarrow> is_detached_opt fs p))"

text \<open>A call that does not return overflows the stack.\<close>

definition returns :: "'a option \<Rightarrow> 'a res" where
  "returns r = (case r of None \<Rightarrow> Inl RecursionErr | Some x \<Rightarrow> Inr x)"

definition is_detached :: "fs \<Rightarrow> nat \<Rightarrow> bool res" where
  "is_detached fs i = returns (is_detached_opt fs i)"

partial_function (option) is_read_write_opt :: "fs \<Rightarrow> nat \<Rightarrow> bool option" where
  "is_read_write_opt fs i =
     (if is_root fs i then Some (fs_read_write fs)
      else Option.bind (is_detached_opt fs i) (\<lambda>d.
        if d then Some True
        else (case n_parent (node fs i) of
                None \<Rightarrow> Some True
              | Some p \<Rightarrow> is_read_write_opt fs p)))"

definition rw_check :: "fs \<Rightarrow> nat \<Rightarrow> unit res" where
  "rw_check fs i = rbind (returns (is_read_write_opt fs i)) (\<lambda>rw. rguard rw FSIsROError)"

text \<open>\<^verbatim>\<open>FSPath.path\<close> without its cache, which is not modelled: the path of the parent, joined with the name.  The
  cache compares the path of the parent and not the name, so the code may state an old path for a detached
  object that was renamed; the properties about paths are about attached objects.
  The path of a detached object is computed from the last known path of its parent.\<close>

partial_function (option) path_opt :: "fs \<Rightarrow> nat \<Rightarrow> string res option" where
  "path_opt fs i =
     (if is_root fs i then Some (Inr (n_name (node fs i)))
      else Option.bind (is_detached_opt fs i) (\<lambda>d.
        if d then
          Some (case n_last_parent_path (node fs i) of
                  None \<Rightarrow> Inl ReferenceErr
                | Some pp \<Rightarrow> Inr (path_join pp (n_name (node fs i))))
        else (case n_parent (node fs i) of
                None \<Rightarrow> Some (Inl ReferenceErr)
              | Some p \<Rightarrow>
                  Option.bind (path_opt fs p) (\<lambda>r.
                    Some (rmap (\<lambda>pp. path_join pp (n_name (node fs i))) r)))))"

definition path :: "fs \<Rightarrow> nat \<Rightarrow> string res" where
  "path fs i = rbind (returns (path_opt fs i)) (\<lambda>r. r)"

text \<open>The getter \<^verbatim>\<open>parent_dir\<close>: \<^verbatim>\<open>None\<close> for the root, an error for an object without a parent.\<close>

definition parent_dir :: "fs \<Rightarrow> nat \<Rightarrow> nat option res" where
  "parent_dir fs i =
     (if is_root fs i then Inr None
      else (case n_parent (node fs i) of None \<Rightarrow> Inl ReferenceErr | Some p \<Rightarrow> Inr (Some p)))"

partial_function (option) root_opt :: "fs \<Rightarrow> nat \<Rightarrow> nat res option" where
  "root_opt fs i =
     (case parent_dir fs i of
        Inl e \<Rightarrow> Some (Inl e)
      | Inr None \<Rightarrow> Some (Inr i)
      | Inr (Some p) \<Rightarrow> root_opt fs p)"

definition root_of :: "fs \<Rightarrow> nat \<Rightarrow> nat res" where
  "root_of fs i = rbind (returns (root_opt fs i)) (\<lambda>r. r)"

subsection \<open>Looking up paths\<close>

text \<open>\<^verbatim>\<open>_split_path\<close>: whether the path is absolute, whether it has to be a directory, its parts.\<close>

definition split_path :: "string \<Rightarrow> bool \<times> bool \<times> string list" where
  "split_path p =
     (let must_be_dir = endswith p ''/'';
          absolute = startswith p ''/'';
          p' = (if absolute then ''.'' @ p else p);
          parts = split_on slash (rstrip (\<lambda>c. c = slash) p')
      in (absolute, must_be_dir, if must_be_dir then parts @ [''.''] else parts))"

text \<open>The paths that a lookup can still expand a symlink at.\<close>

definition unexpanded :: "fs \<Rightarrow> string list \<Rightarrow> string set" where
  "unexpanded fs exps = {p. \<exists>j < length (nodes fs). path fs j = Inr p} - set exps"

lemma finite_unexpanded [simp]: "finite (unexpanded fs exps)"
proof -
  have "{p. \<exists>j < length (nodes fs). path fs j = Inr p} \<subseteq>
      (\<lambda>j. projr (path fs j)) ` {..< length (nodes fs)}"
  proof
    fix p
    assume "p \<in> {p. \<exists>j < length (nodes fs). path fs j = Inr p}"
    then obtain j where "j < length (nodes fs)" "path fs j = Inr p" by blast
    then show "p \<in> (\<lambda>j. projr (path fs j)) ` {..< length (nodes fs)}"
      by (intro image_eqI[of _ _ j]) simp_all
  qed
  then have "finite {p. \<exists>j < length (nodes fs). path fs j = Inr p}"
    by (rule finite_subset) simp
  then show ?thesis unfolding unexpanded_def by simp
qed

lemma card_unexpanded:
  assumes "path fs j = Inr p" and "j < length (nodes fs)" and "p \<notin> set exps"
  shows "card (unexpanded fs (p # exps)) < card (unexpanded fs exps)"
proof (rule psubset_card_mono)
  show "unexpanded fs (p # exps) \<subset> unexpanded fs exps"
    using assms by (auto simp: unexpanded_def)
qed simp

lemma path_out_of_range: "\<not> j < length (nodes fs) \<Longrightarrow> path fs j = Inl ReferenceErr"
  by (simp add: path_def path_opt.simps[of fs j] is_detached_opt.simps[of fs j] returns_def
      is_root_def node_def no_node_def fs_path_init_def)

text \<open>
  The loop of \<^verbatim>\<open>attempt_lookup\<close>: \<open>exps\<close> are the symlinks that were followed.  The result is the last
  path reached and the parts that are missing below it.
\<close>

function (sequential) lookup_loop ::
    "fs \<Rightarrow> bool \<Rightarrow> nat \<Rightarrow> string list \<Rightarrow> string list \<Rightarrow> (nat \<times> string list) res" where
  "lookup_loop fs must_be_dir current [] exps = Inr (current, [])"
| "lookup_loop fs must_be_dir current (dir_part # parts) exps =
     (if dir_part = ''.'' then lookup_loop fs must_be_dir current parts exps
      else if dir_part = ''..'' then
        (case parent_dir fs current of
           Inl e \<Rightarrow> Inl e
         | Inr None \<Rightarrow> Inl ValueError
         | Inr (Some p) \<Rightarrow> lookup_loop fs must_be_dir p parts exps)
      else
        (case get_child fs current dir_part of
           None \<Rightarrow>
             Inr (current, if must_be_dir then butlast (dir_part # parts) else dir_part # parts)
         | Some child \<Rightarrow>
             if is_symlink fs child \<and> parts \<noteq> [] then
               (case path fs child of
                  Inl e \<Rightarrow> Inl e
                | Inr p \<Rightarrow>
                    if p \<in> set exps then Inl SymlinkLoopError
                    else
                      (case readlink fs child of
                         Inl e \<Rightarrow> Inl e
                       | Inr link_target \<Rightarrow>
                           (case split_path link_target of
                              (link_absolute, _, link_parts) \<Rightarrow>
                                (case (if link_absolute then rmap Some (root_of fs child)
                                       else parent_dir fs child) of
                                   Inl e \<Rightarrow> Inl e
                                 | Inr None \<Rightarrow> Inl AssertionErr
                                 | Inr (Some start) \<Rightarrow>
                                     lookup_loop fs must_be_dir start (link_parts @ parts) (p # exps)))))
             else lookup_loop fs must_be_dir child parts exps))"
  by pat_completeness auto
termination
proof (relation "measures [\<lambda>(fs, m, c, parts, exps). card (unexpanded fs exps),
    \<lambda>(fs, m, c, parts, exps). length parts]", goal_cases)
  case (4 fs must_be_dir current part parts exps child p)
  then have "child < length (nodes fs)" using path_out_of_range[of child fs] by (cases "child < length (nodes fs)") simp_all
  with 4 card_unexpanded show ?case by simp
qed simp_all

definition attempt_lookup :: "fs \<Rightarrow> nat \<Rightarrow> string \<Rightarrow> (nat \<times> string list) res" where
  "attempt_lookup fs i p =
     rbind (is_detached fs i) (\<lambda>d.
       if d then Inl ValueError
       else (case split_path p of
               (absolute, must_be_dir, parts) \<Rightarrow>
                 rbind (if absolute then root_of fs i else Inr i) (\<lambda>current.
                   lookup_loop fs must_be_dir current parts [])))"

definition lookup_path :: "fs \<Rightarrow> nat \<Rightarrow> string \<Rightarrow> nat option res" where
  "lookup_path fs i p =
     rmap (\<lambda>(match, missing). if missing \<noteq> [] then None else Some match) (attempt_lookup fs i p)"

subsection \<open>Changing the tree\<close>

text \<open>\<^verbatim>\<open>del assume_not_none(path._children)[key]\<close>\<close>

definition del_child :: "fs \<Rightarrow> nat \<Rightarrow> string \<Rightarrow> fs res" where
  "del_child fs i key =
     (case n_children (node fs i) of
        None \<Rightarrow> Inl ValueError
      | Some cs \<Rightarrow>
          if map_of cs key = None then Inl KeyError
          else Inr (set_node i (\<lambda>n. n\<lparr>n_children := Some (AList.delete key cs)\<rparr>) fs))"

text \<open>\<^verbatim>\<open>FSPath.__delitem__\<close>: unlike \<^verbatim>\<open>unlink\<close> it leaves the child's own parent reference alone.\<close>

definition delitem :: "fs \<Rightarrow> nat \<Rightarrow> string \<Rightarrow> fs res" where
  "delitem fs i key =
     rbind (rw_check fs i) (\<lambda>_.
       if n_children (node fs i) = None then Inl KeyError else del_child fs i key)"

text \<open>The setter \<^verbatim>\<open>parent_dir = None\<close>.\<close>

definition set_parent_none :: "fs \<Rightarrow> nat \<Rightarrow> fs res" where
  "set_parent_none fs i =
     (if is_root fs i then Inr fs
      else rbind (rw_check fs i) (\<lambda>_.
        rbind (is_detached fs i) (\<lambda>detached.
          let fs0 = set_node i (\<lambda>n. n\<lparr>n_last_parent_path := None\<rparr>) fs in
          if detached then
            Inr (set_node i (\<lambda>n. n\<lparr>n_parent := None, n_parent_path_cache := None\<rparr>) fs0)
          else
            (case n_parent (node fs0 i) of
               None \<Rightarrow> Inl ReferenceErr
             | Some old_parent \<Rightarrow>
                 rbind (del_child fs0 old_parent (n_name (node fs0 i))) (\<lambda>fs1.
                   rbind (is_detached fs1 old_parent) (\<lambda>old_detached.
                     rbind (if old_detached then Inr None else rmap Some (path fs1 old_parent)) (\<lambda>last.
                       Inr (set_node i (\<lambda>n. n\<lparr>n_last_parent_path := last, n_parent := None,
                                              n_parent_path_cache := None\<rparr>) fs1))))))))"

definition unlink :: "fs \<Rightarrow> nat \<Rightarrow> bool \<Rightarrow> fs res" where
  "unlink fs i recursive =
     (if is_root fs i then Inl TypeErr
      else rbind (is_detached fs i) (\<lambda>detached.
        if detached then Inr fs
        else if \<not> recursive \<and> iterdir fs i \<noteq> [] then Inl ValueError
        else set_parent_none fs i))"

definition add_child :: "fs \<Rightarrow> nat \<Rightarrow> nat \<Rightarrow> fs res" where
  "add_child fs i child =
     rbind (rw_check fs i) (\<lambda>_.
       if \<not> is_dir fs i then Inl TypeErr
       else
         let fs1 = (if n_children (node fs i) = None
                    then set_node i (\<lambda>n. n\<lparr>n_children := Some []\<rparr>) fs else fs);
             name = n_name (node fs1 child)
         in rbind (case get_child fs1 i name of
                     None \<Rightarrow> Inr fs1
                   | Some conflict_child \<Rightarrow> unlink fs1 conflict_child True) (\<lambda>fs2.
              Inr (set_node i
                (\<lambda>n. n\<lparr>n_children := map_option (AList.update name child) (n_children n)\<rparr>) fs2)))"

text \<open>The setter \<^verbatim>\<open>parent_dir = new_parent\<close>.\<close>

definition set_parent :: "fs \<Rightarrow> nat \<Rightarrow> nat \<Rightarrow> fs res" where
  "set_parent fs i new_parent =
     (if is_root fs i then Inl ValueError
      else rbind (rw_check fs i) (\<lambda>_.
        if \<not> is_dir fs new_parent then Inl ValueError
        else rbind (rw_check fs new_parent) (\<lambda>_.
          rbind (is_detached fs i) (\<lambda>detached.
            let fs0 = set_node i (\<lambda>n. n\<lparr>n_last_parent_path := None\<rparr>) fs in
            rbind (if detached then Inr fs0
                   else (case n_parent (node fs0 i) of
                           None \<Rightarrow> Inl ReferenceErr
                         | Some old_parent \<Rightarrow> del_child fs0 old_parent (n_name (node fs0 i)))) (\<lambda>fs1.
              let fs2 = set_node i (\<lambda>n. n\<lparr>n_parent := Some new_parent\<rparr>) fs1 in
              rmap (set_node i (\<lambda>n. n\<lparr>n_parent_path_cache := None\<rparr>))
                (add_child fs2 new_parent i))))))"

text \<open>The setter \<^verbatim>\<open>name = new_name\<close>.\<close>

definition set_name :: "fs \<Rightarrow> nat \<Rightarrow> string \<Rightarrow> fs res" where
  "set_name fs i new_name =
     rbind (rw_check fs i) (\<lambda>_.
       if new_name = n_name (node fs i) then Inr fs
       else rbind (is_detached fs i) (\<lambda>detached.
         let rename = set_node i (\<lambda>n. n\<lparr>n_name := new_name\<rparr>) in
         if detached then Inr (rename fs)
         else rbind (rw_check fs i) (\<lambda>_.
           rbind (parent_dir fs i) (\<lambda>parent.
             rbind (set_parent_none fs i) (\<lambda>fs1.
               case parent of
                 None \<Rightarrow> set_parent_none (rename fs1) i
               | Some p \<Rightarrow> set_parent (rename fs1) i p)))))"

definition chown :: "fs \<Rightarrow> nat \<Rightarrow> (string \<times> int) option \<Rightarrow> (string \<times> int) option \<Rightarrow> fs res" where
  "chown fs i owner grp =
     rbind (rw_check fs i) (\<lambda>_.
       Inr (set_node i (\<lambda>n. n\<lparr>n_owner := (case owner of None \<Rightarrow> n_owner n | Some d \<Rightarrow> d),
                              n_group := (case grp of None \<Rightarrow> n_group n | Some d \<Rightarrow> d)\<rparr>) fs))"

definition set_mode :: "fs \<Rightarrow> nat \<Rightarrow> int \<Rightarrow> fs res" where
  "set_mode fs i new_mode =
     rbind (rw_check fs i) (\<lambda>_.
       let min_bit = (if is_dir fs i then o700 else o400) in
       if new_mode AND min_bit \<noteq> min_bit then Inl ValueError
       else Inr (set_node i (\<lambda>n. n\<lparr>n_mode := new_mode\<rparr>) fs))"

definition set_mtime :: "fs \<Rightarrow> nat \<Rightarrow> int \<Rightarrow> fs res" where
  "set_mtime fs i new_mtime =
     rbind (rw_check fs i) (\<lambda>_. Inr (set_node i (\<lambda>n. n\<lparr>n_mtime := Some new_mtime\<rparr>) fs))"

text \<open>\<^verbatim>\<open>_ensure_min_mode\<close>; the \<^verbatim>\<open>chmod\<close> of the backing file is outside the model.\<close>

definition ensure_min_mode :: "fs \<Rightarrow> nat \<Rightarrow> fs res" where
  "ensure_min_mode fs i =
     (let min_bit = (if is_dir fs i then o700 else o600) in
      if has_fs_path fs i \<and> n_mode (node fs i) AND o600 \<noteq> o600
      then set_mode fs i (n_mode (node fs i) OR min_bit)
      else Inr fs)"

subsection \<open>Creating paths\<close>

definition bad_basename :: "string \<Rightarrow> bool" where
  "bad_basename name \<longleftrightarrow> slash \<in> set name \<or> name = ''.'' \<or> name = ''..''"

definition reference_mode :: "reference_path option \<Rightarrow> int \<Rightarrow> int" where
  "reference_mode reference default_mode =
     (case reference of None \<Rightarrow> default_mode | Some r \<Rightarrow> ref_mode r)"

text \<open>The constructor of a path with a parent.\<close>

definition create :: "fs \<Rightarrow> nat \<Rightarrow> fs_node \<Rightarrow> (fs \<times> nat) res" where
  "create fs parent n =
     (let (fs1, i) = new_node n fs in rmap (\<lambda>fs2. (fs2, i)) (set_parent fs1 i parent))"

definition mkdir :: "fs \<Rightarrow> nat \<Rightarrow> string \<Rightarrow> reference_path option \<Rightarrow> (fs \<times> nat) res" where
  "mkdir fs i name reference =
     (if bad_basename name then Inl ValueError
      else if \<not> is_dir fs i then Inl TypeErr
      else if (case reference of None \<Rightarrow> False | Some r \<Rightarrow> \<not> ref_is_dir r) then Inl ValueError
      else rbind (rw_check fs i) (\<lambda>_.
        if get_child fs i name \<noteq> None then Inl ValueError
        else rbind (create fs i (fs_path_init name None VirtualDirectoryFSPath
                                   (reference_mode reference o755) reference)) (\<lambda>(fs1, c).
          rmap (\<lambda>fs2. (fs2, c)) (ensure_min_mode fs1 c))))"

definition add_symlink ::
    "fs \<Rightarrow> nat \<Rightarrow> string \<Rightarrow> string \<Rightarrow> reference_path option \<Rightarrow> (fs \<times> nat) res" where
  "add_symlink fs i link_name link_target reference =
     (if bad_basename link_name then Inl ValueError
      else if \<not> is_dir fs i then Inl TypeErr
      else rbind (rw_check fs i) (\<lambda>_.
        rbind (case get_child fs i link_name of
                 None \<Rightarrow> Inr fs
               | Some existing \<Rightarrow> unlink fs existing False) (\<lambda>fs1.
          create fs1 i (fs_path_init link_name None (SymlinkVirtualPath link_target)
                          (reference_mode reference o777) reference))))"

text \<open>\<^verbatim>\<open>FSBackedFilePath(name, parent, fs_path, ...)\<close>\<close>

definition new_file ::
    "fs \<Rightarrow> nat \<Rightarrow> string \<Rightarrow> string \<Rightarrow> bool \<Rightarrow> int option \<Rightarrow> int option \<Rightarrow> reference_path option \<Rightarrow> (fs \<times> nat) res"
where
  "new_file fs parent name fs_path replaceable_inline initial_mode mtime reference =
     rbind (create fs parent (fs_path_init name None (FSBackedFilePath fs_path replaceable_inline)
                                (reference_mode reference o644) reference)) (\<lambda>(fs1, i).
       rbind (case initial_mode of None \<Rightarrow> Inr fs1 | Some m \<Rightarrow> set_mode fs1 i m) (\<lambda>fs2.
         let fs3 = (if mtime = None then fs2 else set_node i (\<lambda>n. n\<lparr>n_mtime := mtime\<rparr>) fs2) in
         if replaceable_inline \<and> \<not> infix_of ''debputy/scratch-dir/'' fs_path then Inl AssertionErr
         else rmap (\<lambda>fs4. (fs4, i)) (ensure_min_mode fs3 i)))"

text \<open>
  \<^verbatim>\<open>add_file\<close>: \<open>fs_path\<close> is the name of the fresh backing file, \<open>body\<close> what the caller does between
  entering and leaving the context, and \<open>still_file\<close> whether the backing file is then still a
  regular file without other links (\<^verbatim>\<open>_check_fs_path_is_file\<close>).
\<close>

definition reset_caches :: "nat \<Rightarrow> fs \<Rightarrow> fs" where
  "reset_caches i = set_node i (\<lambda>n. n\<lparr>n_mtime := None\<rparr>)"

definition add_file ::
    "fs \<Rightarrow> nat \<Rightarrow> string \<Rightarrow> bool \<Rightarrow> bool \<Rightarrow> int \<Rightarrow> int option \<Rightarrow> string \<Rightarrow> (fs \<Rightarrow> nat \<Rightarrow> fs res) \<Rightarrow> bool \<Rightarrow>
     (fs \<times> nat) res" where
  "add_file fs i name unlink_if_exists use_fs_path_mode mode mtime fs_path body still_file =
     (if bad_basename name then Inl ValueError
      else if \<not> is_dir fs i then Inl TypeErr
      else rbind (rw_check fs i) (\<lambda>_.
        rbind (case get_child fs i name of
                 None \<Rightarrow> Inr fs
               | Some existing \<Rightarrow>
                   if \<not> unlink_if_exists then Inl ValueError else unlink fs existing False) (\<lambda>fs1.
          rbind (new_file fs1 i name fs_path True None mtime None) (\<lambda>(fs2, child).
            rbind (body fs2 child) (\<lambda>fs3.
              if \<not> still_file then Inl TypeErr
              else
                let fs4 = reset_caches child fs3 in
                if use_fs_path_mode then Inr (fs4, child)
                else rmap (\<lambda>fs5. (fs5, child)) (set_mode fs4 child mode))))))"

text \<open>
  \<^verbatim>\<open>insert_file_from_fs_path\<close>: \<open>resolved\<close> is the path after \<^verbatim>\<open>realpath\<close> when symlinks are followed and
  \<open>is_reg\<close> whether it is a regular file (asked only when there is no reference path).
\<close>

definition insert_file_from_fs_path ::
    "fs \<Rightarrow> nat \<Rightarrow> string \<Rightarrow> string \<Rightarrow> string \<Rightarrow> bool \<Rightarrow> bool \<Rightarrow> bool \<Rightarrow> int \<Rightarrow> bool \<Rightarrow> bool \<Rightarrow>
     reference_path option \<Rightarrow> (fs \<times> nat) res" where
  "insert_file_from_fs_path fs i name fs_path resolved is_reg exist_ok use_fs_path_mode mode
       require_copy_on_write follow_symlinks reference =
     (if bad_basename name then Inl ValueError
      else if \<not> is_dir fs i then Inl TypeErr
      else rbind (rw_check fs i) (\<lambda>_.
        if get_child fs i name \<noteq> None \<and> \<not> exist_ok then Inl ValueError
        else if follow_symlinks \<and> reference \<noteq> None then Inl ValueError
        else
          let new_fs_path = (if follow_symlinks then resolved else fs_path);
              fmode = (if use_fs_path_mode then None else Some mode)
          in if reference = None \<and> \<not> is_reg then Inl ValueError
             else new_file fs i name new_fs_path (\<not> require_copy_on_write) fmode None reference))"

text \<open>\<^verbatim>\<open>mkdirs\<close>: the missing parts are created one below the other.\<close>

fun mkdir_parts :: "fs \<Rightarrow> nat \<Rightarrow> string list \<Rightarrow> (fs \<times> nat) res" where
  "mkdir_parts fs current [] = Inr (fs, current)"
| "mkdir_parts fs current (missing_part # missing_parts) =
     (if missing_part = ''.'' \<or> missing_part = ''..'' then Inl AssertionErr
      else rbind (mkdir fs current missing_part None) (\<lambda>(fs1, c). mkdir_parts fs1 c missing_parts))"

definition mkdirs :: "fs \<Rightarrow> nat \<Rightarrow> string \<Rightarrow> (fs \<times> nat) res" where
  "mkdirs fs i p =
     rbind (attempt_lookup fs i (if endswith p ''/'' then p else p @ ''/'')) (\<lambda>(current, missing_parts).
       if \<not> is_dir fs current then Inl ValueError
       else mkdir_parts fs current missing_parts)"

text \<open>\<^verbatim>\<open>prune_if_empty_dir\<close> climbs as long as the directories are empty; the root is left alone.\<close>

partial_function (option) prune_opt :: "fs \<Rightarrow> nat \<Rightarrow> fs res option" where
  "prune_opt fs i =
     (if is_root fs i then Some (Inr fs)
      else (case rw_check fs i of
              Inl e \<Rightarrow> Some (Inl e)
            | Inr _ \<Rightarrow>
                if \<not> is_dir fs i then Some (Inl TypeErr)
                else if iterdir fs i \<noteq> [] then Some (Inr fs)
                else (case parent_dir fs i of
                        Inl e \<Rightarrow> Some (Inl e)
                      | Inr None \<Rightarrow> Some (Inl ValueError)
                      | Inr (Some p) \<Rightarrow>
                          (case unlink fs i False of
                             Inl e \<Rightarrow> Some (Inl e)
                           | Inr fs1 \<Rightarrow> prune_opt fs1 p))))"

definition prune_if_empty_dir :: "fs \<Rightarrow> nat \<Rightarrow> fs res" where
  "prune_if_empty_dir fs i = rbind (returns (prune_opt fs i)) (\<lambda>r. r)"

subsection \<open>Listing\<close>

text \<open>\<^verbatim>\<open>sorted(current.iterdir, key=BY_BASENAME)\<close>: a stable sort by the code points of the name.\<close>

definition sorted_children :: "fs \<Rightarrow> nat \<Rightarrow> nat list" where
  "sorted_children fs i = sort_key (\<lambda>c. n_name (node fs c)) (iterdir fs i)"

text \<open>The stack of \<^verbatim>\<open>all_paths\<close>, top first, in a tree that the consumer does not change meanwhile.\<close>

partial_function (option) all_paths_loop :: "fs \<Rightarrow> nat list \<Rightarrow> nat list option" where
  "all_paths_loop fs stack =
     (case stack of
        [] \<Rightarrow> Some []
      | current # rest \<Rightarrow>
          Option.bind
            (if is_dir fs current then
               Option.bind (is_detached_opt fs current) (\<lambda>d.
                 all_paths_loop fs (if d then rest else sorted_children fs current @ rest))
             else all_paths_loop fs rest) (\<lambda>out. Some (current # out)))"

definition all_paths :: "fs \<Rightarrow> nat \<Rightarrow> nat list option" where
  "all_paths fs i =
     (if \<not> is_dir fs i then Some [i]
      else Option.bind (all_paths_loop fs (sorted_children fs i)) (\<lambda>out. Some (i # out)))"

text \<open>\<^verbatim>\<open>walk\<close> yields each path with its children.\<close>

partial_function (option) walk_loop :: "fs \<Rightarrow> nat list \<Rightarrow> (nat \<times> nat list) list option" where
  "walk_loop fs stack =
     (case stack of
        [] \<Rightarrow> Some []
      | current # rest \<Rightarrow>
          Option.bind (is_detached_opt fs current) (\<lambda>d.
            Option.bind (walk_loop fs (if d then rest else sorted_children fs current @ rest)) (\<lambda>out.
              Some ((current, sorted_children fs current) # out))))"

definition walk :: "fs \<Rightarrow> nat \<Rightarrow> (nat \<times> nat list) list option" where
  "walk fs i = (if \<not> is_dir fs i then Some [(i, [])] else walk_loop fs [i])"

declare is_detached_opt.simps [code] is_read_write_opt.simps [code] path_opt.simps [code]
  root_opt.simps [code] prune_opt.simps [code] all_paths_loop.simps [code] walk_loop.simps [code]

end
