(* ===== verification/VirtFsInv.thy ===== *)
theory VirtFsInv
  imports VirtFs
begin

section \<open>The virtual file system: invariant and safety\<close>

text \<open>
  The store is well formed when parents and children agree and following the parents ends.  Every
  operation on attached paths keeps that; a read-only tree cannot be changed; an unlinked directory
  is detached with all that is below it, and nothing else is.
\<close>

subsection \<open>Following the parents\<close>

definition kids :: "fs \<Rightarrow> nat \<Rightarrow> (string \<times> nat) list" where
  "kids fs i = (case n_children (node fs i) of None \<Rightarrow> [] | Some cs \<Rightarrow> cs)"

lemma get_child_kids: "get_child fs i k = map_of (kids fs i) k"
  by (simp add: get_child_def kids_def split: option.splits)

lemma iterdir_kids: "iterdir fs i = map snd (kids fs i)"
  by (simp add: iterdir_def kids_def split: option.splits)

lemma det_induct [consumes 1, case_names root orphan child]:
  assumes "is_detached_opt fs i = Some b"
    and root: "\<And>i. is_root fs i \<Longrightarrow> P i False"
    and orphan: "\<And>i. \<not> is_root fs i \<Longrightarrow> n_parent (node fs i) = None \<Longrightarrow> P i True"
    and child: "\<And>i p b. \<not> is_root fs i \<Longrightarrow> n_parent (node fs i) = Some p \<Longrightarrow>
      is_detached_opt fs p = Some b \<Longrightarrow> P p b \<Longrightarrow> P i b"
  shows "P i b"
proof -
  define Q where "Q gs j c \<longleftrightarrow> (gs = fs \<longrightarrow> is_detached_opt fs j = Some c \<and> P j c)" for gs j c
  have "Q fs i b"
  proof (rule is_detached_opt.raw_induct[where P = Q, OF _ assms(1)])
    fix f gs j c
    assume IH: "\<And>gs j c. f gs j = Some c \<Longrightarrow> Q gs j c"
      and eq: "(if is_root gs j then Some False
        else case n_parent (node gs j) of None \<Rightarrow> Some True | Some p \<Rightarrow> f gs p) = Some c"
    show "Q gs j c"
      unfolding Q_def
    proof
      assume gs: "gs = fs"
      show "is_detached_opt fs j = Some c \<and> P j c"
      proof (cases "is_root fs j")
        case True
        with eq gs root show ?thesis by (simp add: is_detached_opt.simps[of fs j])
      next
        case nr: False
        show ?thesis
        proof (cases "n_parent (node fs j)")
          case None
          with nr eq gs orphan show ?thesis by (simp add: is_detached_opt.simps[of fs j])
        next
          case (Some p)
          with nr eq gs have "f gs p = Some c" by simp
          with IH gs have "is_detached_opt fs p = Some c \<and> P p c" unfolding Q_def by blast
          with nr Some child show ?thesis by (simp add: is_detached_opt.simps[of fs j])
        qed
      qed
    qed
  qed
  then show ?thesis by (simp add: Q_def)
qed

definition parent_rel :: "fs \<Rightarrow> (nat \<times> nat) set" where
  "parent_rel fs = {(j, p). \<not> is_root fs j \<and> n_parent (node fs j) = Some p}"

text \<open>\<open>j\<close> is \<open>i\<close> or lies below it.\<close>

definition below :: "fs \<Rightarrow> nat \<Rightarrow> nat \<Rightarrow> bool" where
  "below fs i j \<longleftrightarrow> (j, i) \<in> (parent_rel fs)\<^sup>*"

lemma below_refl [simp]: "below fs i i"
  by (simp add: below_def)

lemma below_child:
  "\<not> is_root fs j \<Longrightarrow> n_parent (node fs j) = Some p \<Longrightarrow> below fs i j \<longleftrightarrow> j = i \<or> below fs i p"
  unfolding below_def parent_rel_def
  by (auto elim: converse_rtranclE intro: converse_rtrancl_into_rtrancl)

lemma below_top:
  "is_root fs j \<or> n_parent (node fs j) = None \<Longrightarrow> below fs i j \<longleftrightarrow> j = i"
  unfolding below_def parent_rel_def by (auto elim: converse_rtranclE)

text \<open>Acyclicity: what is strictly above is nearer to the end.\<close>

inductive depth :: "fs \<Rightarrow> nat \<Rightarrow> nat \<Rightarrow> bool" for fs where
  top: "is_root fs i \<or> n_parent (node fs i) = None \<Longrightarrow> depth fs i 0"
| step: "\<not> is_root fs i \<Longrightarrow> n_parent (node fs i) = Some p \<Longrightarrow> depth fs p d \<Longrightarrow> depth fs i (Suc d)"

inductive_cases depth_child: "depth fs i d"

lemma det_depth: "is_detached_opt fs i = Some b \<Longrightarrow> \<exists>d. depth fs i d"
  by (induction rule: det_induct) (auto intro: depth.intros)

lemma depth_unique: "depth fs i d \<Longrightarrow> depth fs i e \<Longrightarrow> d = e"
proof (induction arbitrary: e rule: depth.induct)
  case (top i)
  from top(2) top(1) show ?case by (auto elim: depth.cases)
next
  case (step i p d)
  from step(5) obtain e' where "e = Suc e'" "depth fs p e'"
    using step(1,2) by (cases rule: depth.cases) simp_all
  with step(4) show ?case by simp
qed

lemma depth_below: "(j, i) \<in> (parent_rel fs)\<^sup>* \<Longrightarrow> depth fs j d \<Longrightarrow> \<exists>e \<le> d. depth fs i e"
proof (induction arbitrary: d rule: converse_rtrancl_induct)
  case (step j p)
  then obtain e where "d = Suc e" "depth fs p e"
    by (auto simp: parent_rel_def elim: depth.cases)
  with step.IH show ?case by (meson le_SucI)
qed auto

lemma not_below_parent:
  assumes "is_detached_opt fs p = Some b" and "\<not> is_root fs i" and "n_parent (node fs i) = Some p"
  shows "\<not> below fs i p"
proof
  assume "below fs i p"
  obtain d where d: "depth fs p d" using assms(1) det_depth by blast
  then have i: "depth fs i (Suc d)" using assms(2,3) by (intro depth.step)
  from \<open>below fs i p\<close> d obtain e where "e \<le> d" "depth fs i e"
    unfolding below_def using depth_below by blast
  with i show False using depth_unique by fastforce
qed

subsection \<open>Changing one parent\<close>

text \<open>The effect of giving \<open>i\<close> another parent on who is detached.\<close>

definition reparented :: "fs \<Rightarrow> fs \<Rightarrow> nat \<Rightarrow> bool" where
  "reparented fs fs' i \<longleftrightarrow>
     (\<forall>j. is_root fs' j = is_root fs j) \<and> (\<forall>j. j \<noteq> i \<longrightarrow> n_parent (node fs' j) = n_parent (node fs j))"

lemma reparentedD:
  assumes "reparented fs fs' i"
  shows "is_root fs' j = is_root fs j" and "j \<noteq> i \<Longrightarrow> n_parent (node fs' j) = n_parent (node fs j)"
  using assms by (simp_all add: reparented_def)

lemma det_not_below:
  assumes rp: "reparented fs fs' i"
  shows "is_detached_opt fs j = Some b \<Longrightarrow> \<not> below fs i j \<Longrightarrow> is_detached_opt fs' j = Some b"
proof (induction rule: det_induct)
  case (root j)
  then show ?case using reparentedD[OF rp] by (simp add: is_detached_opt.simps[of fs' j])
next
  case (orphan j)
  then have "j \<noteq> i" by auto
  with orphan show ?case using reparentedD[OF rp] by (simp add: is_detached_opt.simps[of fs' j])
next
  case (child j p b)
  then have "j \<noteq> i" "\<not> below fs i p" by (auto simp: below_child)
  with child show ?case using reparentedD[OF rp] by (simp add: is_detached_opt.simps[of fs' j])
qed

lemma det_below:
  assumes rp: "reparented fs fs' i"
  shows "is_detached_opt fs j = Some b \<Longrightarrow> below fs i j \<Longrightarrow> is_detached_opt fs' j = is_detached_opt fs' i"
proof (induction rule: det_induct)
  case (child j p b)
  show ?case
  proof (cases "j = i")
    case False
    with child have "below fs i p" by (simp add: below_child)
    with False child show ?thesis
      using reparentedD[OF rp] by (simp add: is_detached_opt.simps[of fs' j])
  qed simp
qed (auto simp: below_top)

lemma below_mono:
  assumes rp: "reparented fs fs' i"
  shows "below fs i j \<Longrightarrow> below fs' i j"
  unfolding below_def
proof (induction rule: converse_rtrancl_induct)
  case (step j p)
  show ?case
  proof (cases "j = i")
    case False
    with step(1) have "(j, p) \<in> parent_rel fs'"
      using reparentedD[OF rp] by (auto simp: parent_rel_def)
    with step(3) show ?thesis by simp
  qed simp
qed simp

text \<open>A path moved below itself is on a cycle.\<close>

lemma det_cycle:
  assumes rp: "reparented fs fs' i"
    and "\<not> is_root fs i" and "n_parent (node fs' i) = Some p" and "is_detached_opt fs p = Some b"
    and "is_detached_opt fs' p \<noteq> None"
  shows "\<not> below fs i p" and "is_detached_opt fs' p = Some b"
proof -
  from assms(5) obtain c where "is_detached_opt fs' p = Some c" by blast
  then have "\<not> below fs' i p" using not_below_parent assms(2,3) reparentedD[OF rp] by metis
  then show "\<not> below fs i p" using below_mono[OF rp] by blast
  then show "is_detached_opt fs' p = Some b" using det_not_below[OF rp] assms(4) by blast
qed

subsection \<open>Well-formed stores\<close>

definition wf_node :: "fs \<Rightarrow> nat \<Rightarrow> bool" where
  "wf_node fs i \<longleftrightarrow>
     (i \<noteq> 0 \<longrightarrow> \<not> is_root fs i) \<and> is_detached_opt fs i \<noteq> None
     \<and> (case n_parent (node fs i) of
          None \<Rightarrow> True
        | Some p \<Rightarrow> p < length (nodes fs) \<and> is_dir fs p
            \<and> map_of (kids fs p) (n_name (node fs i)) = Some i)
     \<and> distinct (map fst (kids fs i))
     \<and> (\<forall>kc \<in> set (kids fs i). snd kc < length (nodes fs) \<and> n_name (node fs (snd kc)) = fst kc
          \<and> n_parent (node fs (snd kc)) = Some i)"

definition wf_fs :: "fs \<Rightarrow> bool" where
  "wf_fs fs \<longleftrightarrow>
     nodes fs \<noteq> [] \<and> is_root fs 0 \<and> n_parent (node fs 0) = None
     \<and> (\<forall>i \<in> set [0..<length (nodes fs)]. wf_node fs i)"

lemma node_out [simp]:
  assumes "\<not> i < length (nodes fs)"
  shows "node fs i = no_node"
  using assms by (simp add: node_def)

lemma no_node_simps [simp]:
  "n_parent no_node = None" "n_children no_node = None" "n_class no_node = SymlinkVirtualPath []"
  by (simp_all add: no_node_def fs_path_init_def)

lemma out_facts:
  assumes "\<not> i < length (nodes fs)"
  shows "kids fs i = []" "\<not> is_root fs i" "\<not> is_dir fs i" "is_detached_opt fs i = Some True"
  using assms
  by (simp_all add: kids_def is_root_def is_dir_def is_detached_opt.simps[of fs i])

lemma wf_node_all: "wf_fs fs \<Longrightarrow> wf_node fs i"
proof (cases "i < length (nodes fs)")
  case False
  then show ?thesis by (simp add: wf_node_def out_facts)
qed (simp add: wf_fs_def)

lemma wf_root: "wf_fs fs \<Longrightarrow> is_root fs i \<longleftrightarrow> i = 0"
  using wf_node_all[of fs i] by (cases "i = 0") (simp_all add: wf_fs_def wf_node_def)

lemma wf_root_parent: "wf_fs fs \<Longrightarrow> n_parent (node fs 0) = None"
  by (simp add: wf_fs_def)

lemma wf_zero: "wf_fs fs \<Longrightarrow> 0 < length (nodes fs)"
  by (simp add: wf_fs_def)

lemma wf_det: "wf_fs fs \<Longrightarrow> is_detached_opt fs i \<noteq> None"
  using wf_node_all[of fs i] by (simp add: wf_node_def)

lemma wf_parent:
  "wf_fs fs \<Longrightarrow> n_parent (node fs i) = Some p \<Longrightarrow>
    p < length (nodes fs) \<and> is_dir fs p \<and> map_of (kids fs p) (n_name (node fs i)) = Some i"
  using wf_node_all[of fs i] by (simp add: wf_node_def)

lemma wf_distinct: "wf_fs fs \<Longrightarrow> distinct (map fst (kids fs i))"
  using wf_node_all[of fs i] by (simp add: wf_node_def)

lemma wf_kid:
  "wf_fs fs \<Longrightarrow> (k, c) \<in> set (kids fs i) \<Longrightarrow>
    c < length (nodes fs) \<and> n_name (node fs c) = k \<and> n_parent (node fs c) = Some i"
  using wf_node_all[of fs i] by (force simp: wf_node_def)

lemma wf_kid_map: "wf_fs fs \<Longrightarrow> map_of (kids fs i) k = Some c \<Longrightarrow>
    c < length (nodes fs) \<and> n_name (node fs c) = k \<and> n_parent (node fs c) = Some i"
  by (auto dest: map_of_SomeD wf_kid)

lemma wf_fsI:
  assumes "0 < length (nodes fs)" and "\<And>i. is_root fs i \<longleftrightarrow> i = 0" and "n_parent (node fs 0) = None"
    and "\<And>i. is_detached_opt fs i \<noteq> None"
    and "\<And>i p. n_parent (node fs i) = Some p \<Longrightarrow> p < length (nodes fs) \<and> is_dir fs p
      \<and> map_of (kids fs p) (n_name (node fs i)) = Some i"
    and "\<And>i. distinct (map fst (kids fs i))"
    and "\<And>i k c. (k, c) \<in> set (kids fs i) \<Longrightarrow> c < length (nodes fs) \<and> n_name (node fs c) = k
      \<and> n_parent (node fs c) = Some i"
  shows "wf_fs fs"
proof -
  have "snd kc < length (nodes fs) \<and> n_name (node fs (snd kc)) = fst kc
      \<and> n_parent (node fs (snd kc)) = Some i" if "kc \<in> set (kids fs i)" for i kc
    using assms(7)[of "fst kc" "snd kc" i] that by simp
  then have "wf_node fs i" for i
    using assms(2)[of i] assms(4)[of i] assms(5)[of i] assms(6)[of i]
    unfolding wf_node_def by (simp split: option.splits)
  then show ?thesis using assms(1-3) by (simp add: wf_fs_def)
qed

lemma wf_not_below_parent:
  assumes "wf_fs fs" and "n_parent (node fs i) = Some p"
  shows "\<not> below fs i p" and "p \<noteq> i"
proof -
  have "\<not> is_root fs i" using assms wf_root wf_root_parent by (metis option.distinct(1))
  then show "\<not> below fs i p" using not_below_parent wf_det[OF assms(1)] assms(2) by blast
  then show "p \<noteq> i" by auto
qed

text \<open>Taking a path out of its directory.\<close>

lemma wf_detach:
  assumes wf: "wf_fs fs" and p: "n_parent (node fs i) = Some p"
    and len: "length (nodes fs') = length (nodes fs)"
    and same: "\<And>j. is_root fs' j = is_root fs j" "\<And>j. is_dir fs' j = is_dir fs j"
      "\<And>j. n_name (node fs' j) = n_name (node fs j)"
    and par: "\<And>j. n_parent (node fs' j) = (if j = i then None else n_parent (node fs j))"
    and kids: "\<And>j. kids fs' j =
      (if j = p then AList.delete (n_name (node fs i)) (kids fs p) else kids fs j)"
  shows "wf_fs fs'"
proof (rule wf_fsI)
  have rp: "reparented fs fs' i" using same par by (simp add: reparented_def)
  show "is_detached_opt fs' j \<noteq> None" for j
  proof (cases "below fs i j")
    case True
    have "\<not> is_root fs' i" using same p wf_root[OF wf] wf_root_parent[OF wf] by (metis option.distinct(1))
    then have "is_detached_opt fs' i = Some True" using par by (simp add: is_detached_opt.simps[of fs' i])
    with True det_below[OF rp] wf_det[OF wf] show ?thesis by fastforce
  next
    case False
    with det_not_below[OF rp] wf_det[OF wf] show ?thesis by fastforce
  qed
  show "n_parent (node fs' j) = Some q \<Longrightarrow> q < length (nodes fs') \<and> is_dir fs' q
      \<and> map_of (kids fs' q) (n_name (node fs' j)) = Some j" for j q
  proof -
    assume q: "n_parent (node fs' j) = Some q"
    then have j: "j \<noteq> i" "n_parent (node fs j) = Some q" using par by (auto split: if_splits)
    note f = wf_parent[OF wf j(2)]
    have "map_of (kids fs' q) (n_name (node fs j)) = Some j"
    proof (cases "q = p")
      case True
      with f j wf_parent[OF wf p] have "n_name (node fs j) \<noteq> n_name (node fs i)" by auto
      with f True show ?thesis using kids by (simp add: delete_conv')
    next
      case False
      with f show ?thesis using kids by simp
    qed
    with f show ?thesis using len same by simp
  qed
  show "distinct (map fst (kids fs' j))" for j
    using wf_distinct[OF wf] kids by (simp add: distinct_delete)
  show "(k, c) \<in> set (kids fs' j) \<Longrightarrow> c < length (nodes fs') \<and> n_name (node fs' c) = k
      \<and> n_parent (node fs' c) = Some j" for j k c
  proof -
    assume "(k, c) \<in> set (kids fs' j)"
    then have kc: "(k, c) \<in> set (kids fs j)" and nk: "j = p \<Longrightarrow> k \<noteq> n_name (node fs i)"
      using kids[of j] by (auto split: if_splits simp: AList.delete_eq)
    note f = wf_kid[OF wf kc]
    have "c \<noteq> i" using f nk p by auto
    with f show ?thesis using len same par by simp
  qed
qed (use wf_zero[OF wf] wf_root[OF wf] wf_root_parent[OF wf] len same par in \<open>auto split: if_splits\<close>)

text \<open>Putting a path without a parent into a directory that has no entry of its name.\<close>

lemma wf_attach:
  assumes wf: "wf_fs fs" and nr: "i \<noteq> 0" and i: "i < length (nodes fs)" and p: "p < length (nodes fs)" "is_dir fs p"
    and orphan: "n_parent (node fs i) = None" and free: "map_of (kids fs p) (n_name (node fs i)) = None"
    and det: "is_detached_opt fs' p \<noteq> None"
    and len: "length (nodes fs') = length (nodes fs)"
    and same: "\<And>j. is_root fs' j = is_root fs j" "\<And>j. is_dir fs' j = is_dir fs j"
      "\<And>j. n_name (node fs' j) = n_name (node fs j)"
    and par: "\<And>j. n_parent (node fs' j) = (if j = i then Some p else n_parent (node fs j))"
    and kids: "\<And>j. kids fs' j = (if j = p then kids fs p @ [(n_name (node fs i), i)] else kids fs j)"
  shows "wf_fs fs'"
proof (rule wf_fsI)
  have rp: "reparented fs fs' i" using same par by (simp add: reparented_def)
  have "\<not> is_root fs' i" using same wf_root[OF wf] nr by simp
  then have di: "is_detached_opt fs' i = is_detached_opt fs' p" using par by (simp add: is_detached_opt.simps[of fs' i])
  show "is_detached_opt fs' j \<noteq> None" for j
  proof (cases "below fs i j")
    case True
    with det_below[OF rp] wf_det[OF wf] det di show ?thesis by fastforce
  next
    case False
    with det_not_below[OF rp] wf_det[OF wf] show ?thesis by fastforce
  qed
  show "n_parent (node fs' j) = Some q \<Longrightarrow> q < length (nodes fs') \<and> is_dir fs' q
      \<and> map_of (kids fs' q) (n_name (node fs' j)) = Some j" for j q
  proof (cases "j = i")
    case True
    assume "n_parent (node fs' j) = Some q"
    with True have "q = p" using par by simp
    with True show ?thesis using p free len same kids by (simp add: map_add_def)
  next
    case False
    assume "n_parent (node fs' j) = Some q"
    with False have j: "n_parent (node fs j) = Some q" using par by simp
    note f = wf_parent[OF wf this]
    with False show ?thesis using len same kids by (auto simp: map_add_def split: option.splits)
  qed
  show "distinct (map fst (kids fs' j))" for j
    using wf_distinct[OF wf, of j] free kids by (auto simp: map_of_eq_None_iff)
  show "(k, c) \<in> set (kids fs' j) \<Longrightarrow> c < length (nodes fs') \<and> n_name (node fs' c) = k
      \<and> n_parent (node fs' c) = Some j" for j k c
  proof -
    assume "(k, c) \<in> set (kids fs' j)"
    then consider "(k, c) \<in> set (kids fs j)" | "j = p" "k = n_name (node fs i)" "c = i"
      using kids[of j] by (auto split: if_splits)
    then show ?thesis
    proof cases
      case 1
      note f = wf_kid[OF wf 1]
      then have "c \<noteq> i" using orphan by auto
      with f show ?thesis using len same par by simp
    next
      case 2
      with i show ?thesis using len same par by simp
    qed
  qed
qed (use wf_zero[OF wf] wf_root[OF wf] wf_root_parent[OF wf] nr len same par in \<open>auto split: if_splits\<close>)

subsection \<open>Elementary updates\<close>

lemma length_set_node [simp]: "length (nodes (set_node i f fs)) = length (nodes fs)"
  by (simp add: set_node_def)

lemma rw_set_node [simp]: "fs_read_write (set_node i f fs) = fs_read_write fs"
  by (simp add: set_node_def)

lemma node_set_node:
  "node (set_node i f fs) j = (if j = i \<and> i < length (nodes fs) then f (node fs i) else node fs j)"
  by (auto simp: set_node_def node_def)

lemma is_root_class: "n_class (node fs' j) = n_class (node fs i) \<Longrightarrow> is_root fs' j = is_root fs i"
  by (simp add: is_root_def)

lemma is_dir_class: "n_class (node fs' j) = n_class (node fs i) \<Longrightarrow> is_dir fs' j = is_dir fs i"
  by (simp add: is_dir_def)

text \<open>Stores that agree on everything the tree consists of.\<close>

definition same_tree :: "fs \<Rightarrow> fs \<Rightarrow> bool" where
  "same_tree fs fs' \<longleftrightarrow>
     length (nodes fs') = length (nodes fs) \<and>
     (\<forall>j. n_class (node fs' j) = n_class (node fs j) \<and> n_name (node fs' j) = n_name (node fs j)
       \<and> n_parent (node fs' j) = n_parent (node fs j) \<and> kids fs' j = kids fs j)"

lemma det_parents_Some:
  assumes "is_detached_opt fs j = Some b"
    and "\<And>j. is_root fs' j = is_root fs j" and "\<And>j. n_parent (node fs' j) = n_parent (node fs j)"
  shows "is_detached_opt fs' j = Some b"
  using assms by (induction rule: det_induct) (simp_all add: is_detached_opt.simps[of fs'])

lemma det_parents:
  assumes "\<And>j. is_root fs' j = is_root fs j" and "\<And>j. n_parent (node fs' j) = n_parent (node fs j)"
  shows "is_detached_opt fs' j = is_detached_opt fs j"
proof (cases "is_detached_opt fs j")
  case None
  show ?thesis
  proof (cases "is_detached_opt fs' j")
    case (Some b)
    then have "is_detached_opt fs j = Some b" by (rule det_parents_Some) (simp_all add: assms)
    with None show ?thesis by simp
  qed (simp add: None)
next
  case (Some b)
  then have "is_detached_opt fs' j = Some b" by (rule det_parents_Some) (simp_all add: assms)
  with Some show ?thesis by simp
qed

lemma same_tree_det: "same_tree fs fs' \<Longrightarrow> is_detached_opt fs' j = is_detached_opt fs j"
  by (rule det_parents) (simp_all add: same_tree_def is_root_def)

lemma same_tree_wf:
  assumes "same_tree fs fs'" and "wf_fs fs"
  shows "wf_fs fs'"
proof (rule wf_fsI)
  note s = assms(1)[unfolded same_tree_def]
  have r: "is_root fs' j = is_root fs j" "is_dir fs' j = is_dir fs j" for j
    using s is_root_class is_dir_class by blast+
  show "n_parent (node fs' i) = Some p \<Longrightarrow> p < length (nodes fs') \<and> is_dir fs' p \<and>
      map_of (kids fs' p) (n_name (node fs' i)) = Some i" for i p
    using s r wf_parent[OF assms(2), of i p] by simp
  show "(k, c) \<in> set (kids fs' i) \<Longrightarrow> c < length (nodes fs') \<and> n_name (node fs' c) = k \<and>
       n_parent (node fs' c) = Some i" for k c i
    using s wf_kid[OF assms(2), of k c i] by simp
  show "is_root fs' i \<longleftrightarrow> i = 0" for i using r wf_root[OF assms(2)] by simp
  show "is_detached_opt fs' i \<noteq> None" for i using same_tree_det assms wf_det by simp
  show "distinct (map fst (kids fs' i))" for i using s wf_distinct[OF assms(2)] by simp
qed (use assms wf_zero wf_root_parent in \<open>auto simp: same_tree_def\<close>)

lemma same_tree_refl [simp]: "same_tree fs fs"
  by (simp add: same_tree_def)

lemma same_tree_trans: "same_tree a b \<Longrightarrow> same_tree b c \<Longrightarrow> same_tree a c"
  by (simp add: same_tree_def)

lemma same_tree_set_node:
  assumes "\<And>n. n_class (f n) = n_class n" "\<And>n. n_name (f n) = n_name n"
    "\<And>n. n_parent (f n) = n_parent n" "\<And>n. n_children (f n) = n_children n"
  shows "same_tree fs (set_node i f fs)"
  using assms by (simp add: same_tree_def node_set_node kids_def)

lemma rw_det: "is_detached_opt fs i = Some b \<Longrightarrow> is_read_write_opt fs i = Some (b \<or> fs_read_write fs)"
proof (induction rule: det_induct)
  case (child i p b)
  then have "is_detached_opt fs i = Some b" by (simp add: is_detached_opt.simps[of fs i])
  with child show ?case by (auto simp: is_read_write_opt.simps[of fs i])
qed (simp_all add: is_read_write_opt.simps is_detached_opt.simps)

lemma rw_check_det:
  "is_detached_opt fs i = Some b \<Longrightarrow> rw_check fs i = rguard (b \<or> fs_read_write fs) FSIsROError"
  by (simp add: rw_check_def returns_def rw_det)

lemma rw_check_det_defined: "rw_check fs i = Inr u \<Longrightarrow> is_detached_opt fs i \<noteq> None"
  by (cases "is_root fs i"; cases "is_detached_opt fs i")
    (auto simp: rw_check_def returns_def is_read_write_opt.simps[of fs i] is_detached_opt.simps[of fs i])

lemma is_detached_simp: "is_detached_opt fs i = Some b \<Longrightarrow> is_detached fs i = Inr b"
  by (simp add: is_detached_def returns_def)

lemma det_root: "is_root fs i \<Longrightarrow> is_detached_opt fs i = Some False"
  by (simp add: is_detached_opt.simps[of fs i])

lemma root_attached: "wf_fs fs \<Longrightarrow> is_detached_opt fs 0 = Some False"
  using wf_root[of fs 0] det_root by simp

lemma det_orphan: "\<not> is_root fs i \<Longrightarrow> n_parent (node fs i) = None \<Longrightarrow> is_detached_opt fs i = Some True"
  by (simp add: is_detached_opt.simps[of fs i])

lemma det_child: "\<not> is_root fs i \<Longrightarrow> n_parent (node fs i) = Some p \<Longrightarrow> is_detached_opt fs i = is_detached_opt fs p"
  by (simp add: is_detached_opt.simps[of fs i])

lemma attached_parent:
  assumes "is_detached_opt fs i = Some False" and "\<not> is_root fs i"
  obtains p where "n_parent (node fs i) = Some p" "is_detached_opt fs p = Some False"
  using assms by (cases "n_parent (node fs i)") (auto simp: is_detached_opt.simps[of fs i])

lemma attached_in_range: "is_detached_opt fs i = Some False \<Longrightarrow> i < length (nodes fs)"
  using out_facts(4) by fastforce

subsection \<open>Unlinking\<close>

lemma set_parent_none_effect:
  assumes ok: "set_parent_none fs i = Inr fs'"
    and nr: "\<not> is_root fs i" and p: "n_parent (node fs i) = Some p" "i \<noteq> p" "p < length (nodes fs)"
    and att: "is_detached_opt fs i = Some False"
  shows "fs_read_write fs" and "fs_read_write fs' = fs_read_write fs"
    and "length (nodes fs') = length (nodes fs)"
    and "\<exists>l cs. n_children (node fs p) = Some cs \<and> map_of cs (n_name (node fs i)) \<noteq> None \<and>
      (\<forall>j. node fs' j =
        (if j = i then (node fs i)\<lparr>n_last_parent_path := l, n_parent := None, n_parent_path_cache := None\<rparr>
         else if j = p then (node fs p)\<lparr>n_children := Some (AList.delete (n_name (node fs i)) cs)\<rparr>
         else node fs j))"
proof -
  note i = attached_in_range[OF att]
  define fs0 where "fs0 = set_node i (\<lambda>n. n\<lparr>n_last_parent_path := None\<rparr>) fs"
  have p0: "n_parent (node fs0 i) = Some p" "n_name (node fs0 i) = n_name (node fs i)"
    "n_children (node fs0 p) = n_children (node fs p)"
    using p i by (simp_all add: fs0_def node_set_node)
  from ok att nr have rw: "fs_read_write fs"
    by (auto simp: set_parent_none_def rw_check_det res_simps)
  then show "fs_read_write fs" .
  from ok att nr p0 rw obtain fs1 where del: "del_child fs0 p (n_name (node fs i)) = Inr fs1"
    and rest: "rbind (is_detached fs1 p) (\<lambda>od.
        rbind (if od then Inr None else rmap Some (path fs1 p)) (\<lambda>last.
          Inr (set_node i (\<lambda>n. n\<lparr>n_last_parent_path := last, n_parent := None,
            n_parent_path_cache := None\<rparr>) fs1))) = Inr fs'"
    by (auto simp: set_parent_none_def rw_check_det is_detached_simp fs0_def[symmetric] res_simps)
  from rest obtain l where fs': "fs' = set_node i (\<lambda>n. n\<lparr>n_last_parent_path := l, n_parent := None,
            n_parent_path_cache := None\<rparr>) fs1" by (auto simp: res_simps)
  from del p0 obtain cs where cs: "n_children (node fs p) = Some cs" "map_of cs (n_name (node fs i)) \<noteq> None"
    and fs1: "fs1 = set_node p (\<lambda>n. n\<lparr>n_children := Some (AList.delete (n_name (node fs i)) cs)\<rparr>) fs0"
    by (auto simp: del_child_def split: option.splits if_splits)
  show "fs_read_write fs' = fs_read_write fs" "length (nodes fs') = length (nodes fs)"
    by (simp_all add: fs' fs1 fs0_def)
  have "node fs' j =
        (if j = i then (node fs i)\<lparr>n_last_parent_path := l, n_parent := None, n_parent_path_cache := None\<rparr>
         else if j = p then (node fs p)\<lparr>n_children := Some (AList.delete (n_name (node fs i)) cs)\<rparr>
         else node fs j)" for j
    using i p by (simp add: fs' fs1 fs0_def node_set_node)
  with cs show "\<exists>l cs. n_children (node fs p) = Some cs \<and> map_of cs (n_name (node fs i)) \<noteq> None \<and>
      (\<forall>j. node fs' j =
        (if j = i then (node fs i)\<lparr>n_last_parent_path := l, n_parent := None, n_parent_path_cache := None\<rparr>
         else if j = p then (node fs p)\<lparr>n_children := Some (AList.delete (n_name (node fs i)) cs)\<rparr>
         else node fs j))" by blast
qed

text \<open>What unlinking \<open>i\<close> from \<open>p\<close> does to the tree.\<close>

definition detaches :: "fs \<Rightarrow> fs \<Rightarrow> nat \<Rightarrow> nat \<Rightarrow> bool" where
  "detaches fs fs' i p \<longleftrightarrow>
     length (nodes fs') = length (nodes fs) \<and> fs_read_write fs' = fs_read_write fs \<and>
     (\<forall>j. n_class (node fs' j) = n_class (node fs j) \<and> n_name (node fs' j) = n_name (node fs j)
       \<and> n_parent (node fs' j) = (if j = i then None else n_parent (node fs j))
       \<and> kids fs' j = (if j = p then AList.delete (n_name (node fs i)) (kids fs p) else kids fs j)
       \<and> (j \<noteq> i \<longrightarrow> j \<noteq> p \<longrightarrow> node fs' j = node fs j))"

lemma set_parent_none_detaches:
  assumes "set_parent_none fs i = Inr fs'"
    and "\<not> is_root fs i" and "n_parent (node fs i) = Some p" "i \<noteq> p" "p < length (nodes fs)"
    and "is_detached_opt fs i = Some False"
  shows "detaches fs fs' i p" and "fs_read_write fs"
proof -
  note e = set_parent_none_effect[OF assms]
  from e(4) obtain l cs where cs: "n_children (node fs p) = Some cs"
    and n: "\<And>j. node fs' j =
        (if j = i then (node fs i)\<lparr>n_last_parent_path := l, n_parent := None, n_parent_path_cache := None\<rparr>
         else if j = p then (node fs p)\<lparr>n_children := Some (AList.delete (n_name (node fs i)) cs)\<rparr>
         else node fs j)" by blast
  have "kids fs' j = (if j = p then AList.delete (n_name (node fs i)) (kids fs p) else kids fs j)" for j
    using cs assms(4) by (simp add: kids_def n)
  then show "detaches fs fs' i p" using e(2,3) n unfolding detaches_def by simp
  show "fs_read_write fs" by (rule e(1))
qed

lemma detaches_wf:
  assumes "wf_fs fs" and "n_parent (node fs i) = Some p" and "detaches fs fs' i p"
  shows "wf_fs fs'"
  using assms(3)
  by (intro wf_detach[OF assms(1,2)]) (simp_all add: detaches_def is_root_def is_dir_def)

subsection \<open>Moving\<close>

lemma update_absent: "map_of al k = None \<Longrightarrow> AList.update k v al = al @ [(k, v)]"
  by (induction al) (auto split: if_splits)

lemma kids_update:
  "n_children (node fs p) \<noteq> None \<Longrightarrow>
   kids (set_node p (\<lambda>n. n\<lparr>n_children := map_option f (n_children n)\<rparr>) fs) j =
     (if j = p \<and> p < length (nodes fs) then f (kids fs p) else kids fs j)"
  by (auto simp: kids_def node_set_node)

text \<open>\<^verbatim>\<open>_add_child\<close>, for a child that has no entry yet.\<close>

lemma add_child_effect:
  assumes ok: "add_child fs p i = Inr fs'" and att: "is_detached_opt fs p = Some False"
    and conflict: "\<And>c. map_of (kids fs p) (n_name (node fs i)) = Some c \<Longrightarrow>
      \<not> is_root fs c \<and> n_parent (node fs c) = Some p \<and> c \<noteq> p \<and> c \<noteq> i"
  obtains fs3 where "fs_read_write fs" "is_dir fs p" "fs_read_write fs' = fs_read_write fs"
    "length (nodes fs') = length (nodes fs)"
    "\<And>j. n_class (node fs' j) = n_class (node fs j) \<and> n_name (node fs' j) = n_name (node fs j)"
    "(case map_of (kids fs p) (n_name (node fs i)) of
        None \<Rightarrow> same_tree fs fs3
      | Some c \<Rightarrow> detaches fs fs3 c p)"
    "\<And>j. n_parent (node fs' j) = n_parent (node fs3 j)"
    "\<And>j. kids fs' j = (if j = p then AList.update (n_name (node fs i)) i (kids fs3 p) else kids fs3 j)"
    "\<And>j. j \<noteq> p \<Longrightarrow> (\<forall>c. map_of (kids fs p) (n_name (node fs i)) = Some c \<longrightarrow> j \<noteq> c) \<Longrightarrow>
      node fs' j = node fs j"
proof -
  let ?nm = "n_name (node fs i)"
  note p = attached_in_range[OF att]
  define fs1 where "fs1 = (if n_children (node fs p) = None
                    then set_node p (\<lambda>n. n\<lparr>n_children := Some []\<rparr>) fs else fs)"
  have st: "same_tree fs fs1" by (auto simp: fs1_def same_tree_def node_set_node kids_def)
  have nodes1: "j \<noteq> p \<Longrightarrow> node fs1 j = node fs j" for j by (simp add: fs1_def node_set_node)
  have ch1: "n_children (node fs1 p) \<noteq> None" using p by (simp add: fs1_def node_set_node)
  have rw1: "fs_read_write fs1 = fs_read_write fs" by (simp add: fs1_def)
  note rwp = rw_check_det[OF att]
  from ok have rw: "fs_read_write fs" and dir: "is_dir fs p"
    by (auto simp: add_child_def rwp res_simps split: if_splits)
  from ok rw dir obtain fs2 where
    c: "(case get_child fs1 p (n_name (node fs1 i)) of None \<Rightarrow> Inr fs1
       | Some conflict_child \<Rightarrow> unlink fs1 conflict_child True) = Inr fs2"
    and fs': "fs' = set_node p (\<lambda>n. n\<lparr>n_children := map_option (AList.update (n_name (node fs1 i)) i) (n_children n)\<rparr>) fs2"
    by (auto simp: add_child_def rwp res_simps fs1_def[symmetric] Let_def)
  have nm: "n_name (node fs1 i) = ?nm" and k1: "kids fs1 p = kids fs p"
    using st by (simp_all add: same_tree_def)
  show thesis
  proof (cases "map_of (kids fs p) ?nm")
    case None
    with c nm k1 have fs2: "fs2 = fs1" by (simp add: get_child_kids)
    show thesis
    proof (rule that[of fs1])
      show "kids fs' j = (if j = p then AList.update ?nm i (kids fs1 p) else kids fs1 j)" for j
        using kids_update[OF ch1] st p unfolding fs' fs2 nm by (simp add: same_tree_def)
    qed (use None rw dir st rw1 nodes1 in \<open>simp_all add: fs' fs2 node_set_node same_tree_def\<close>)
  next
    case (Some x)
    note x = conflict[OF Some]
    have det1: "is_detached_opt fs1 j = is_detached_opt fs j" for j using st by (rule same_tree_det)
    have xr: "\<not> is_root fs1 x" "n_parent (node fs1 x) = Some p"
      using x st by (simp_all add: same_tree_def is_root_def)
    have xd: "is_detached_opt fs1 x = Some False" by (rule trans[OF det_child[OF xr]]) (simp add: det1 att)
    from c nm k1 Some xr xd have "set_parent_none fs1 x = Inr fs2"
      by (simp add: get_child_kids unlink_def is_detached_simp)
    note d = set_parent_none_detaches[OF this xr _ _ xd]
    have d: "detaches fs1 fs2 x p" using d(1) x p st by (simp add: same_tree_def)
    then have dd: "detaches fs fs2 x p"
      using st rw1 nodes1 unfolding detaches_def same_tree_def by simp
    have ch2: "n_children (node fs2 p) \<noteq> None"
    proof -
      from set_parent_none_effect(4)[OF \<open>set_parent_none fs1 x = Inr fs2\<close> xr _ _ xd] x p st
      obtain l cs where "\<And>j. node fs2 j =
        (if j = x then (node fs1 x)\<lparr>n_last_parent_path := l, n_parent := None, n_parent_path_cache := None\<rparr>
         else if j = p then (node fs1 p)\<lparr>n_children := Some (AList.delete (n_name (node fs1 x)) cs)\<rparr>
         else node fs1 j)" unfolding same_tree_def by (metis (no_types, lifting))
      with x show ?thesis by simp
    qed
    have l2: "length (nodes fs2) = length (nodes fs)" using dd by (simp add: detaches_def)
    show thesis
    proof (rule that[of fs2])
      show "kids fs' j = (if j = p then AList.update ?nm i (kids fs2 p) else kids fs2 j)" for j
        using kids_update[OF ch2] p l2 unfolding fs' nm by simp
    qed (use Some rw dir dd in \<open>simp_all add: fs' node_set_node detaches_def\<close>)
  qed
qed

lemma det_detaches:
  assumes "detaches fs fs' i p" and "is_detached_opt fs j = Some b" and "\<not> below fs i j"
  shows "is_detached_opt fs' j = Some b"
proof -
  have rp: "reparented fs fs' i"
    using assms(1) by (simp add: reparented_def detaches_def is_root_def)
  show ?thesis using det_not_below[OF rp] assms(2,3) by blast
qed

text \<open>The parents and entries after a path was put into a directory, in place of a conflicting entry.\<close>

lemma attach_wf:
  assumes wf: "wf_fs A" and i: "i \<noteq> 0" "i < length (nodes A)" "n_parent (node A i) = None"
    and p: "p < length (nodes A)" "is_dir A p"
    and conflict: "case map_of (kids A p) (n_name (node A i)) of None \<Rightarrow> same_tree A B | Some c \<Rightarrow> detaches A B c p"
    and det: "is_detached_opt fs' p \<noteq> None"
    and len: "length (nodes fs') = length (nodes A)"
    and same: "\<And>j. n_class (node fs' j) = n_class (node A j)" "\<And>j. n_name (node fs' j) = n_name (node A j)"
    and par: "\<And>j. n_parent (node fs' j) = (if j = i then Some p else n_parent (node B j))"
    and kids: "\<And>j. kids fs' j = (if j = p then AList.update (n_name (node A i)) i (kids B p) else kids B j)"
  shows "wf_fs fs'"
proof -
  let ?nm = "n_name (node A i)"
  have B: "wf_fs B" "map_of (kids B p) ?nm = None" "length (nodes B) = length (nodes A)"
    "\<And>j. n_class (node B j) = n_class (node A j)" "\<And>j. n_name (node B j) = n_name (node A j)"
    "n_parent (node B i) = None"
  proof -
    have "wf_fs B \<and> map_of (kids B p) ?nm = None \<and> length (nodes B) = length (nodes A) \<and>
      (\<forall>j. n_class (node B j) = n_class (node A j)) \<and> (\<forall>j. n_name (node B j) = n_name (node A j)) \<and>
      n_parent (node B i) = None"
    proof (cases "map_of (kids A p) ?nm")
      case None
      then show ?thesis using conflict same_tree_wf[of A B] wf i by (simp add: same_tree_def)
    next
      case (Some c)
      then have d: "detaches A B c p" and c: "n_parent (node A c) = Some p" "n_name (node A c) = ?nm"
        using conflict wf_kid_map[OF wf Some] by simp_all
      then have "wf_fs B" using detaches_wf[OF wf c(1)] by blast
      with d c i show ?thesis by (simp add: detaches_def delete_conv')
    qed
    then show "wf_fs B" "map_of (kids B p) ?nm = None" "length (nodes B) = length (nodes A)"
      "\<And>j. n_class (node B j) = n_class (node A j)" "\<And>j. n_name (node B j) = n_name (node A j)"
      "n_parent (node B i) = None" by blast+
  qed
  show ?thesis
  proof (rule wf_attach[of B i p])
    show "is_dir B p" using p(2) is_dir_class[of B p A p] B(4) by simp
    show "map_of (kids B p) (n_name (node B i)) = None" using B by simp
    show "is_root fs' j = is_root B j" "is_dir fs' j = is_dir B j" for j
      using same B by (simp_all add: is_root_def is_dir_def)
    show "kids fs' j = (if j = p then kids B p @ [(n_name (node B i), i)] else kids B j)" for j
      using kids update_absent[OF B(2)] B by simp
  qed (use B i p len same par det in auto)
qed

lemma set_parent_effect:
  assumes wf: "wf_fs fs" and ok: "set_parent fs i p = Inr fs'"
    and i: "i < length (nodes fs)" and p: "is_detached_opt fs p = Some False"
    and src: "is_detached_opt fs i = Some False \<or> n_parent (node fs i) = None"
  shows "wf_fs fs'" and "fs_read_write fs" and "fs_read_write fs' = fs_read_write fs"
    and "length (nodes fs') = length (nodes fs)" and "n_parent (node fs' i) = Some p"
    and "is_detached_opt fs' p = Some False"
    and "\<And>j. n_class (node fs' j) = n_class (node fs j) \<and> n_name (node fs' j) = n_name (node fs j)"
    and "\<not> below fs i p" and "is_dir fs p" and "i \<noteq> 0"
    and "\<And>j. j \<noteq> i \<Longrightarrow> n_parent (node fs' j) = n_parent (node fs j)
      \<or> n_parent (node fs j) = Some p \<and> n_name (node fs j) = n_name (node fs i) \<and> n_parent (node fs' j) = None"
proof -
  have "\<not> is_root fs i" using ok by (cases "is_root fs i") (simp_all add: set_parent_def)
  then have i0: "\<not> is_root fs i" "i \<noteq> 0" using wf_root[OF wf, of i] by simp_all
  then show "i \<noteq> 0" by simp
  note pl = attached_in_range[OF p]
  obtain b where b: "is_detached_opt fs i = Some b" using wf_det[OF wf] by blast
  note rwi = rw_check_det[OF b] and rwp = rw_check_det[OF p] and di = is_detached_simp[OF b]
  define fs0 where "fs0 = set_node i (\<lambda>n. n\<lparr>n_last_parent_path := None\<rparr>) fs"
  have st0: "same_tree fs fs0" unfolding fs0_def by (rule same_tree_set_node) simp_all
  have e: "set_parent fs i p = rbind (rguard (b \<or> fs_read_write fs) FSIsROError) (\<lambda>_.
      if \<not> is_dir fs p then Inl ValueError
      else rbind (rguard (False \<or> fs_read_write fs) FSIsROError) (\<lambda>_.
        rbind (if b then Inr fs0 else (case n_parent (node fs0 i) of None \<Rightarrow> Inl ReferenceErr
          | Some old_parent \<Rightarrow> del_child fs0 old_parent (n_name (node fs0 i)))) (\<lambda>fs1.
            rmap (set_node i (\<lambda>n. n\<lparr>n_parent_path_cache := None\<rparr>))
              (add_child (set_node i (\<lambda>n. n\<lparr>n_parent := Some p\<rparr>) fs1) p i))))"
    using i0(1) unfolding set_parent_def rwp rwi di fs0_def Let_def by simp
  show rw: "fs_read_write fs"
    using ok unfolding e by (cases "fs_read_write fs"; cases b; cases "is_dir fs p") simp_all
  show dir: "is_dir fs p"
    using ok rw unfolding e by (cases "is_dir fs p") simp_all
  from ok obtain fs1 fs3 where
    fs1: "(if b then Inr fs0 else (case n_parent (node fs0 i) of None \<Rightarrow> Inl ReferenceErr
        | Some old_parent \<Rightarrow> del_child fs0 old_parent (n_name (node fs0 i)))) = Inr fs1"
    and fs3: "add_child (set_node i (\<lambda>n. n\<lparr>n_parent := Some p\<rparr>) fs1) p i = Inr fs3"
    and fs': "fs' = set_node i (\<lambda>n. n\<lparr>n_parent_path_cache := None\<rparr>) fs3"
    unfolding e using rw dir by (simp only: res_simps rguard_simps rbind_Inr simp_thms if_True if_False) blast
  define A where "A = set_node i (\<lambda>n. n\<lparr>n_parent := None\<rparr>) fs1"
  define fs2 where "fs2 = set_node i (\<lambda>n. n\<lparr>n_parent := Some p\<rparr>) fs1"
  have "wf_fs A \<and> length (nodes fs1) = length (nodes fs) \<and>
        fs_read_write fs1 = fs_read_write fs \<and> (\<forall>j. n_class (node fs1 j) = n_class (node fs j) \<and>
        n_name (node fs1 j) = n_name (node fs j) \<and> n_parent (node fs1 j) = n_parent (node fs j))"
  proof (cases b)
      case True
      with src b have par: "n_parent (node fs i) = None" by simp
      from True fs1 have "fs1 = fs0" by simp
      moreover have "same_tree fs A"
        using st0 par \<open>fs1 = fs0\<close> by (auto simp: A_def same_tree_def node_set_node kids_def)
      ultimately show ?thesis
        using same_tree_wf wf st0 by (simp add: same_tree_def fs0_def)
    next
      case False
      with b i0 attached_parent obtain q where q: "n_parent (node fs i) = Some q" by metis
      have "n_parent (node fs0 i) = Some q" using q i by (simp add: fs0_def node_set_node)
      with False fs1 i have del: "del_child fs0 q (n_name (node fs i)) = Inr fs1"
        by (simp add: fs0_def node_set_node)
      then obtain cs where cs: "n_children (node fs0 q) = Some cs"
        and f1: "fs1 = set_node q (\<lambda>n. n\<lparr>n_children := Some (AList.delete (n_name (node fs i)) cs)\<rparr>) fs0"
        by (auto simp: del_child_def split: option.splits if_splits)
      have qi: "q \<noteq> i" using wf_not_below_parent[OF wf q] by simp
      have ql: "q < length (nodes fs)" using wf_parent[OF wf q] by simp
      have csq: "n_children (node fs q) = Some cs" using cs by (simp add: fs0_def node_set_node qi)
      have "detaches fs A i q"
        using i ql qi csq
        by (auto simp: detaches_def A_def f1 fs0_def node_set_node kids_def)
      then have "wf_fs A" using detaches_wf[OF wf q] by blast
      then show ?thesis
        by (simp add: f1 fs0_def node_set_node)
  qed
  then have A: "wf_fs A" "length (nodes fs1) = length (nodes fs)" "fs_read_write fs1 = fs_read_write fs"
    "\<And>j. n_class (node fs1 j) = n_class (node fs j) \<and> n_name (node fs1 j) = n_name (node fs j)
      \<and> n_parent (node fs1 j) = n_parent (node fs j)" by blast+
  have same2: "n_class (node fs2 j) = n_class (node A j)" "n_name (node fs2 j) = n_name (node A j)"
    "kids fs2 j = kids A j" "length (nodes fs2) = length (nodes A)" for j
    by (simp_all add: fs2_def A_def node_set_node kids_def)
  have par2: "n_parent (node fs2 j) = (if j = i then Some p else n_parent (node A j))" for j
    using i A(2) by (simp add: fs2_def A_def node_set_node)
  have rp: "reparented fs fs2 i"
    using A(4) by (simp add: reparented_def is_root_def fs2_def node_set_node)
  have det2: "is_detached_opt fs2 p \<noteq> None"
    using fs3 unfolding fs2_def[symmetric] add_child_def
    by (auto simp: res_simps dest!: rw_check_det_defined)
  have p2: "n_parent (node fs2 i) = Some p" using par2 by simp
  note cyc = det_cycle[OF rp i0(1) p2 p det2]
  show "\<not> below fs i p" by (rule cyc(1))
  then have ip: "i \<noteq> p" by auto
  have Ai: "n_parent (node A i) = None" "i < length (nodes A)" using i A(2) by (simp_all add: A_def node_set_node)
  have rootA: "is_root A j = is_root fs j" "is_dir A j = is_dir fs j" for j
    using A(4) by (simp_all add: A_def is_root_def is_dir_def node_set_node)
  have conf: "\<not> is_root fs2 c \<and> n_parent (node fs2 c) = Some p \<and> c \<noteq> p \<and> c \<noteq> i"
    if "map_of (kids fs2 p) (n_name (node fs2 i)) = Some c" for c
  proof -
    from that have m: "map_of (kids A p) (n_name (node A i)) = Some c" using same2 by simp
    note k = wf_kid_map[OF A(1) m]
    have "c \<noteq> i" using k Ai by auto
    moreover have "c \<noteq> p" using wf_not_below_parent[OF A(1)] k by blast
    moreover have "\<not> is_root A c" using k wf_root[OF A(1)] wf_root_parent[OF A(1)] by force
    ultimately show ?thesis using k same2 par2 by (simp add: is_root_def)
  qed
  obtain B where
    B: "fs_read_write fs3 = fs_read_write fs2" "length (nodes fs3) = length (nodes fs2)"
    "\<And>j. n_class (node fs3 j) = n_class (node fs2 j) \<and> n_name (node fs3 j) = n_name (node fs2 j)"
    and cB: "case map_of (kids fs2 p) (n_name (node fs2 i)) of
        None \<Rightarrow> same_tree fs2 B | Some c \<Rightarrow> detaches fs2 B c p"
    and pB: "\<And>j. n_parent (node fs3 j) = n_parent (node B j)"
    and kB: "\<And>j. kids fs3 j = (if j = p then AList.update (n_name (node fs2 i)) i (kids B p) else kids B j)"
    by (rule add_child_effect[OF fs3[folded fs2_def] cyc(2)], erule conf, rule that; assumption)
  text \<open>The same without the new parent of \<open>i\<close>.\<close>
  define B' where "B' = set_node i (\<lambda>n. n\<lparr>n_parent := None\<rparr>) B"
  have lB: "length (nodes B) = length (nodes fs2)"
    using cB by (simp add: same_tree_def detaches_def split: option.splits)
  have iB: "i < length (nodes B)" using lB Ai(2) same2(4) by simp
  have BP: "n_class (node B' j) = n_class (node B j)" "n_name (node B' j) = n_name (node B j)"
    "kids B' j = kids B j" "n_parent (node B' j) = (if j = i then None else n_parent (node B j))"
    "j \<noteq> i \<Longrightarrow> node B' j = node B j" for j
    using iB by (simp_all add: B'_def node_set_node kids_def)
  have AP: "n_parent (node A j) = (if j = i then None else n_parent (node fs2 j))"
    "j \<noteq> i \<Longrightarrow> node fs2 j = node A j" for j
    using Ai(1) par2[of j] by (simp_all add: A_def fs2_def node_set_node)
  have ii: "node B' i = (node B i)\<lparr>n_parent := None\<rparr>" "node A i = (node fs2 i)\<lparr>n_parent := None\<rparr>"
    using iB i A(2) by (simp_all add: B'_def A_def fs2_def node_set_node)
  have lens: "length (nodes B') = length (nodes A)" "fs_read_write B' = fs_read_write B"
    "fs_read_write fs2 = fs_read_write A"
    using lB same2(4) by (simp_all add: B'_def fs2_def A_def)
  have stB: "case map_of (kids A p) (n_name (node A i)) of None \<Rightarrow> same_tree A B' | Some c \<Rightarrow> detaches A B' c p"
  proof (cases "map_of (kids A p) (n_name (node A i))")
    case None
    then have "same_tree fs2 B" using cB by (simp only: same2(2,3) option.case)
    then have "same_tree A B'" unfolding same_tree_def BP AP lens same2 by simp
    with None show ?thesis by simp
  next
    case (Some c)
    then have d: "detaches fs2 B c p" using cB by (simp only: same2(2,3) option.case)
    have c: "c \<noteq> i" "c \<noteq> p" using conf Some same2 by simp_all
    have "node B' j = node A j" if "j \<noteq> c" "j \<noteq> p" for j
    proof -
      have "node B j = node fs2 j" using d that by (simp add: detaches_def)
      then show ?thesis using BP(5)[of j] AP(2)[of j] ii by (cases "j = i") simp_all
    qed
    then have "detaches A B' c p"
      using d c ip unfolding detaches_def lens same2(4) BP(1-4) AP(1) same2(1-3)
      by simp
    with Some show ?thesis by simp
  qed
  have det3: "is_detached_opt fs3 p = Some False"
  proof -
    have "is_detached_opt B p = Some False"
    proof (cases "map_of (kids fs2 p) (n_name (node fs2 i))")
      case None
      with cB cyc(2) show ?thesis using same_tree_det by simp
    next
      case (Some c)
      note k = conf[OF Some]
      have "\<not> below fs2 c p" using not_below_parent cyc(2) k by blast
      moreover have "detaches fs2 B c p" using cB Some by simp
      ultimately show ?thesis using det_detaches cyc(2) by blast
    qed
    moreover have "is_detached_opt fs3 p = is_detached_opt B p"
    proof (rule det_parents)
      have "n_class (node B j) = n_class (node fs2 j)" for j
        using cB by (simp add: same_tree_def detaches_def split: option.splits)
      then show "is_root fs3 j = is_root B j" for j using B(3) by (simp add: is_root_def)
    qed (rule pB)
    ultimately show ?thesis by simp
  qed
  have st': "same_tree fs3 fs'" unfolding fs' by (rule same_tree_set_node) simp_all
  have "wf_fs fs3"
  proof (rule attach_wf[OF A(1) i0(2) Ai(2,1) _ _ stB])
    show "p < length (nodes A)" "is_dir A p" using pl rootA dir A(2) by (simp_all add: A_def)
    have "n_parent (node B i) = Some p"
      using cB conf p2 by (auto simp: same_tree_def detaches_def split: option.splits)
    then show "n_parent (node fs3 j) = (if j = i then Some p else n_parent (node B' j))" for j
      using pB by (simp add: B'_def node_set_node)
    show "kids fs3 j = (if j = p then AList.update (n_name (node A i)) i (kids B' p) else kids B' j)" for j
      using kB same2 by (simp add: B'_def node_set_node kids_def)
  qed (use det3 B same2 in simp_all)
  with st' show "wf_fs fs'" using same_tree_wf by blast
  show "fs_read_write fs' = fs_read_write fs" "length (nodes fs') = length (nodes fs)"
    using B A by (simp_all add: fs' fs2_def)
  have "n_parent (node B i) = Some p"
    using cB conf p2 by (auto simp: same_tree_def detaches_def split: option.splits)
  then show "n_parent (node fs' i) = Some p" using pB iB B(2) lB by (simp add: fs' node_set_node)
  show "is_detached_opt fs' p = Some False" using det3 same_tree_det[OF st'] by simp
  show "n_class (node fs' j) = n_class (node fs j) \<and> n_name (node fs' j) = n_name (node fs j)" for j
    using B A by (simp add: fs' fs2_def node_set_node)
  show "n_parent (node fs' j) = n_parent (node fs j)
      \<or> n_parent (node fs j) = Some p \<and> n_name (node fs j) = n_name (node fs i) \<and> n_parent (node fs' j) = None"
    if "j \<noteq> i" for j
  proof -
    have e: "n_parent (node fs' j) = n_parent (node B j)" "n_parent (node fs2 j) = n_parent (node fs j)"
      "n_parent (node A j) = n_parent (node fs j)" "n_name (node A k) = n_name (node fs k)" for k
      using that pB A(4) by (simp_all add: fs' fs2_def A_def node_set_node)
    show ?thesis
    proof (cases "map_of (kids fs2 p) (n_name (node fs2 i))")
      case None
      with cB have "same_tree fs2 B" by simp
      then show ?thesis using e by (simp add: same_tree_def)
    next
      case (Some c)
      with cB have d: "detaches fs2 B c p" by simp
      show ?thesis
      proof (cases "j = c")
        case True
        have "map_of (kids A p) (n_name (node A i)) = Some c" using Some same2 by simp
        from wf_kid_map[OF A(1) this] e True d show ?thesis by (simp add: detaches_def)
      next
        case False
        with d e show ?thesis by (simp add: detaches_def)
      qed
    qed
  qed
qed

subsection \<open>Every operation keeps the store well formed\<close>

text \<open>A successful change: the store was writable, still is, and is well formed.\<close>

definition fs_ok :: "fs \<Rightarrow> fs \<Rightarrow> bool" where
  "fs_ok fs fs' \<longleftrightarrow>
     wf_fs fs' \<and> fs_read_write fs \<and> fs_read_write fs' \<and> length (nodes fs) \<le> length (nodes fs')"

lemma fs_ok_trans: "fs_ok a b \<Longrightarrow> fs_ok b c \<Longrightarrow> fs_ok a c"
  by (auto simp: fs_ok_def)

lemma wf_rename:
  fixes nm :: string
  assumes wf: "wf_fs fs" and orphan: "n_parent (node fs i) = None"
  defines "fs' \<equiv> set_node i (\<lambda>n. n\<lparr>n_name := nm\<rparr>) fs"
  shows "wf_fs fs'"
proof (rule wf_fsI)
  have f: "is_root fs' j = is_root fs j" "is_dir fs' j = is_dir fs j"
    "n_parent (node fs' j) = n_parent (node fs j)" "kids fs' j = kids fs j"
    "length (nodes fs') = length (nodes fs)" for j
    by (simp_all add: fs'_def node_set_node is_root_def is_dir_def kids_def)
  have nm: "j \<noteq> i \<Longrightarrow> n_name (node fs' j) = n_name (node fs j)" for j
    by (simp add: fs'_def node_set_node)
  show "is_detached_opt fs' j \<noteq> None" for j
    using det_parents[of fs' fs j] f wf_det[OF wf] by simp
  show "n_parent (node fs' j) = Some p \<Longrightarrow> p < length (nodes fs') \<and> is_dir fs' p \<and>
      map_of (kids fs' p) (n_name (node fs' j)) = Some j" for j p
    using f nm[of j] wf_parent[OF wf, of j p] orphan by (cases "j = i") simp_all
  show "(k, c) \<in> set (kids fs' j) \<Longrightarrow> c < length (nodes fs') \<and> n_name (node fs' c) = k \<and>
       n_parent (node fs' c) = Some j" for k c j
    using f nm[of c] wf_kid[OF wf, of k c j] orphan by (cases "c = i") simp_all
  show "is_root fs' j \<longleftrightarrow> j = 0" for j using f wf_root[OF wf] by simp
  show "distinct (map fst (kids fs' j))" for j using f wf_distinct[OF wf] by simp
  show "0 < length (nodes fs')" "n_parent (node fs' 0) = None"
    using f wf_zero[OF wf] wf_root_parent[OF wf] by simp_all
qed

lemma set_parent_none_ok:
  assumes wf: "wf_fs fs" and att: "is_detached_opt fs i = Some False" and i: "i \<noteq> 0"
    and ok: "set_parent_none fs i = Inr fs'"
  obtains p where "n_parent (node fs i) = Some p" "is_detached_opt fs p = Some False" "i \<noteq> p"
    "detaches fs fs' i p" "fs_ok fs fs'" "is_detached_opt fs' p = Some False"
proof -
  have nr: "\<not> is_root fs i" using wf_root[OF wf] i by simp
  obtain p where p: "n_parent (node fs i) = Some p" "is_detached_opt fs p = Some False"
    using attached_parent[OF att nr] by blast
  note ip = wf_not_below_parent[OF wf p(1)]
  have pl: "p < length (nodes fs)" using p(2) by (rule attached_in_range)
  note d = set_parent_none_detaches[OF ok nr p(1) ip(2)[symmetric] pl att]
  have "wf_fs fs'" using detaches_wf[OF wf p(1)] d by blast
  then have "fs_ok fs fs'" using d by (simp add: fs_ok_def detaches_def)
  with that p ip d det_detaches[OF d(1) p(2) ip(1)] show ?thesis by blast
qed

lemma unlink_ok:
  assumes wf: "wf_fs fs" and att: "is_detached_opt fs i = Some False"
    and ok: "unlink fs i r = Inr fs'"
  obtains p where "n_parent (node fs i) = Some p" "is_detached_opt fs p = Some False" "i \<noteq> p"
    "detaches fs fs' i p" "fs_ok fs fs'" "is_detached_opt fs' p = Some False" "i \<noteq> 0"
    "r \<or> kids fs i = []"
proof -
  have i: "i \<noteq> 0" using ok wf_root[OF wf, of i] by (cases "i = 0") (simp_all add: unlink_def)
  then have nr: "\<not> is_root fs i" using wf_root[OF wf] by simp
  have s: "set_parent_none fs i = Inr fs'" and r: "r \<or> kids fs i = []"
    using ok nr by (simp_all add: unlink_def is_detached_simp[OF att] iterdir_kids split: if_splits)
  show thesis
    by (rule set_parent_none_ok[OF wf att i s]) (rule that; (assumption | rule i | rule r))
qed

lemma set_parent_ok:
  assumes "wf_fs fs" and "set_parent fs i p = Inr fs'" and "i < length (nodes fs)"
    and "is_detached_opt fs p = Some False"
    and "is_detached_opt fs i = Some False \<or> n_parent (node fs i) = None"
  shows "fs_ok fs fs'"
  using set_parent_effect(1-4)[OF assms] by (simp add: fs_ok_def)

lemma set_name_effect:
  assumes wf: "wf_fs fs" and att: "is_detached_opt fs i = Some False"
    and ok: "set_name fs i nm = Inr fs'"
  shows "fs_ok fs fs' \<and> (i \<noteq> 0 \<longrightarrow> n_name (node fs' i) = nm \<and> n_parent (node fs' i) = n_parent (node fs i)
    \<and> is_detached_opt fs' i = Some False)"
proof -
  note rw = rw_check_det[OF att]
  have w: "fs_read_write fs"
    using ok by (cases "fs_read_write fs") (simp_all add: set_name_def rw)
  show ?thesis
  proof (cases "nm = n_name (node fs i)")
    case True
    then have "fs' = fs" using ok w by (simp add: set_name_def rw)
    with w wf True att show ?thesis by (simp add: fs_ok_def)
  next
    case nm: False
    show ?thesis
    proof (cases "i = 0")
      case True
      then have r: "is_root (set_node i f fs) i = is_root fs i" if "\<And>n. n_class (f n) = n_class n" for f
        using that by (simp add: is_root_def node_set_node)
      from True wf_root[OF wf] have "is_root fs i" by simp
      then have "fs' = set_node i (\<lambda>n. n\<lparr>n_name := nm\<rparr>) fs"
        using ok w nm r by (simp add: set_name_def rw is_detached_simp[OF att] parent_dir_def set_parent_none_def)
      then show ?thesis using wf_rename[OF wf, of i nm] wf_root_parent[OF wf] True w by (simp add: fs_ok_def)
    next
      case False
      then have nr: "\<not> is_root fs i" using wf_root[OF wf] by simp
      from att nr obtain q where q: "n_parent (node fs i) = Some q" using attached_parent by metis
      obtain fs1 where fs1: "set_parent_none fs i = Inr fs1"
        and fs': "set_parent (set_node i (\<lambda>n. n\<lparr>n_name := nm\<rparr>) fs1) i q = Inr fs'"
        using ok w nm nr q
        by (auto simp: set_name_def rw is_detached_simp[OF att] parent_dir_def res_simps)
      obtain p where p: "n_parent (node fs i) = Some p" "detaches fs fs1 i p" "fs_ok fs fs1"
        "is_detached_opt fs1 p = Some False"
        by (rule set_parent_none_ok[OF wf att False fs1]) (rule that; assumption)
      have pq: "q = p" using p q by simp
      define fs2 where "fs2 = set_node i (\<lambda>n. n\<lparr>n_name := nm\<rparr>) fs1"
      have orphan: "n_parent (node fs1 i) = None" using p(2) by (simp add: detaches_def)
      have wf2: "wf_fs fs2" unfolding fs2_def using p(3) orphan by (intro wf_rename) (simp_all add: fs_ok_def)
      have "is_detached_opt fs2 p = Some False"
        using p(4) det_parents[of fs2 fs1 p] by (simp add: fs2_def node_set_node is_root_def)
      moreover have "i < length (nodes fs2)"
        using attached_in_range[OF att] p(2) by (simp add: fs2_def detaches_def)
      moreover have "n_parent (node fs2 i) = None" using orphan by (simp add: fs2_def node_set_node)
      moreover have "set_parent fs2 i p = Inr fs'" using fs' pq by (simp add: fs2_def)
      ultimately have "fs_ok fs2 fs'" "n_parent (node fs' i) = Some p" "is_detached_opt fs' p = Some False"
        "n_name (node fs' i) = n_name (node fs2 i)"
        using set_parent_effect[OF wf2, of i p fs'] by (simp_all add: fs_ok_def)
      moreover have "fs_ok fs1 fs2" using p(3) wf2 by (simp add: fs_ok_def fs2_def)
      moreover have "\<not> is_root fs' i" using wf_root[of fs' i] False \<open>fs_ok fs2 fs'\<close> by (simp add: fs_ok_def)
      moreover have "i < length (nodes fs1)" using attached_in_range[OF att] p(2) by (simp add: detaches_def)
      ultimately show ?thesis using p(1,3) fs_ok_trans det_child[of fs' i p]
        by (auto simp: fs2_def node_set_node)
    qed
  qed
qed

lemma set_name_ok:
  assumes "wf_fs fs" and "is_detached_opt fs i = Some False" and "set_name fs i nm = Inr fs'"
  shows "fs_ok fs fs'"
  using set_name_effect[OF assms] by blast

text \<open>Changes that do not concern the tree.\<close>

lemma local_change_ok:
  assumes "wf_fs fs" and "is_detached_opt fs i = Some False" and "rw_check fs i = Inr u"
    and "same_tree fs fs'" and "fs_read_write fs' = fs_read_write fs"
  shows "fs_ok fs fs'"
  using assms same_tree_wf[OF assms(4,1)] rw_check_det[OF assms(2)]
  by (simp add: fs_ok_def same_tree_def res_simps)

lemma set_mode_ok:
  assumes "wf_fs fs" and "is_detached_opt fs i = Some False" and ok: "set_mode fs i m = Inr fs'"
  shows "fs_ok fs fs'" and "same_tree fs fs'"
proof -
  from ok obtain u where u: "rw_check fs i = Inr u"
    and fs': "fs' = set_node i (\<lambda>n. n\<lparr>n_mode := m\<rparr>) fs"
    by (auto simp: set_mode_def res_simps Let_def split: if_splits)
  show "same_tree fs fs'" unfolding fs' by (rule same_tree_set_node) simp_all
  then show "fs_ok fs fs'" using local_change_ok[OF assms(1,2) u] by (simp add: fs')
qed

lemma chown_ok:
  assumes "wf_fs fs" and "is_detached_opt fs i = Some False" and ok: "chown fs i a b = Inr fs'"
  shows "fs_ok fs fs'"
proof -
  from ok obtain u f where u: "rw_check fs i = Inr u" and fs': "fs' = set_node i f fs"
    and f: "\<And>n. n_class (f n) = n_class n \<and> n_name (f n) = n_name n \<and> n_parent (f n) = n_parent n
      \<and> n_children (f n) = n_children n"
    by (auto simp: chown_def res_simps)
  have "same_tree fs fs'" unfolding fs' by (rule same_tree_set_node) (simp_all add: f)
  then show ?thesis using local_change_ok[OF assms(1,2) u] by (simp add: fs')
qed

lemma set_mtime_ok:
  assumes "wf_fs fs" and "is_detached_opt fs i = Some False" and ok: "set_mtime fs i t = Inr fs'"
  shows "fs_ok fs fs'"
proof -
  from ok obtain u where u: "rw_check fs i = Inr u"
    and fs': "fs' = set_node i (\<lambda>n. n\<lparr>n_mtime := Some t\<rparr>) fs"
    by (auto simp: set_mtime_def res_simps)
  have "same_tree fs fs'" unfolding fs' by (rule same_tree_set_node) simp_all
  then show ?thesis using local_change_ok[OF assms(1,2) u] by (simp add: fs')
qed

text \<open>A new path, still without a parent.\<close>

definition fresh_node :: "fs_node \<Rightarrow> bool" where
  "fresh_node n \<longleftrightarrow> n_parent n = None \<and> n_children n = None \<and> (\<forall>p. n_class n \<noteq> FSRootDir p)"

lemma fresh_init [simp]: "fresh_node (fs_path_init nm None c m r) \<longleftrightarrow> (\<forall>p. c \<noteq> FSRootDir p)"
  by (simp add: fresh_node_def fs_path_init_def)

lemma init_simps [simp]:
  "n_class (fs_path_init nm cs c m r) = c"
  "n_name (fs_path_init nm cs c m r) = nm"
  "n_mode (fs_path_init nm cs c m r) = m"
  "n_parent (fs_path_init nm cs c m r) = None"
  "n_children (fs_path_init nm cs c m r) = cs"
  "n_reference (fs_path_init nm cs c m r) = r"
  by (simp_all add: fs_path_init_def)

lemma new_node_wf:
  assumes wf: "wf_fs fs" and n: "fresh_node n" and fs1: "new_node n fs = (fs1, i)"
  shows "wf_fs fs1" and "i = length (nodes fs)" and "length (nodes fs1) = Suc (length (nodes fs))"
    and "fs_read_write fs1 = fs_read_write fs" and "\<And>j. j \<noteq> i \<Longrightarrow> node fs1 j = node fs j" and "node fs1 i = n"
    and "\<And>j. is_detached_opt fs1 j = is_detached_opt fs j"
proof -
  from fs1 have fs1: "fs1 = fs\<lparr>nodes := nodes fs @ [n]\<rparr>" and i: "i = length (nodes fs)"
    by (simp_all add: new_node_def)
  show "i = length (nodes fs)" by (rule i)
  show len: "length (nodes fs1) = Suc (length (nodes fs))" and "fs_read_write fs1 = fs_read_write fs"
    by (simp_all add: fs1)
  show nj: "node fs1 j = node fs j" if "j \<noteq> i" for j
    using that by (auto simp: node_def fs1 i nth_append)
  show ni: "node fs1 i = n" by (simp add: node_def fs1 i)
  have out: "node fs i = no_node" by (simp add: i)
  have ri: "\<not> is_root fs1 i" "\<not> is_root fs i" "kids fs1 i = []" "kids fs i = []"
    "n_parent (node fs1 i) = None" "n_parent (node fs i) = None"
    using n out by (simp_all add: is_root_def ni fresh_node_def kids_def split: node_class.split)
  have r: "is_root fs1 j = is_root fs j" and p: "n_parent (node fs1 j) = n_parent (node fs j)"
    and k: "kids fs1 j = kids fs j" for j
    using nj[of j] ri by (cases "j = i"; simp add: is_root_def kids_def)+
  show det: "is_detached_opt fs1 j = is_detached_opt fs j" for j
    using r p by (rule det_parents)
  show "wf_fs fs1"
  proof (rule wf_fsI)
    show "n_parent (node fs1 j) = Some q \<Longrightarrow> q < length (nodes fs1) \<and> is_dir fs1 q \<and>
      map_of (kids fs1 q) (n_name (node fs1 j)) = Some j" for j q
    proof -
      assume "n_parent (node fs1 j) = Some q"
      then have pj: "n_parent (node fs j) = Some q" using p by simp
      note f = wf_parent[OF wf pj]
      have "j \<noteq> i" "q \<noteq> i" using pj ri f i by auto
      then show ?thesis using f nj k len by (simp add: is_dir_def)
    qed
    show "(k', c) \<in> set (kids fs1 j) \<Longrightarrow> c < length (nodes fs1) \<and> n_name (node fs1 c) = k' \<and>
       n_parent (node fs1 c) = Some j" for k' c j
    proof -
      assume "(k', c) \<in> set (kids fs1 j)"
      then have f: "c < length (nodes fs) \<and> n_name (node fs c) = k' \<and> n_parent (node fs c) = Some j"
        using k wf_kid[OF wf] by simp
      then have "c \<noteq> i" using i by simp
      then show ?thesis using f nj len by simp
    qed
    show "is_root fs1 j \<longleftrightarrow> j = 0" for j using r wf_root[OF wf] by simp
    show "is_detached_opt fs1 j \<noteq> None" for j using det wf_det[OF wf] by simp
    show "distinct (map fst (kids fs1 j))" for j using k wf_distinct[OF wf] by simp
    show "0 < length (nodes fs1)" by (simp add: len)
    show "n_parent (node fs1 0) = None" using p wf_root_parent[OF wf] by simp
  qed
qed

lemma create_ok:
  assumes wf: "wf_fs fs" and att: "is_detached_opt fs p = Some False" and n: "fresh_node n"
    and ok: "create fs p n = Inr (fs', c)"
  shows "fs_ok fs fs'" and "c = length (nodes fs)" and "n_parent (node fs' c) = Some p"
    and "is_detached_opt fs' c = Some False" and "is_detached_opt fs' p = Some False"
    and "n_class (node fs' c) = n_class n" and "n_name (node fs' c) = n_name n" and "is_dir fs p"
proof -
  obtain fs1 i where fs1: "new_node n fs = (fs1, i)" by (cases "new_node n fs")
  note w = new_node_wf[OF wf n fs1]
  have sp: "set_parent fs1 i p = Inr fs'" and ci: "c = i"
    using ok fs1 by (auto simp: create_def res_simps)
  show "c = length (nodes fs)" using ci w(2) by simp
  have "is_detached_opt fs1 p = Some False" using w(7) att by simp
  moreover have "n_parent (node fs1 i) = None" using w(6) n by (simp add: fresh_node_def)
  moreover have "i < length (nodes fs1)" using w(2,3) by simp
  ultimately have eff: "fs_read_write fs1" "wf_fs fs'" "fs_read_write fs' = fs_read_write fs1"
    "length (nodes fs') = length (nodes fs1)" "n_parent (node fs' i) = Some p"
    "is_detached_opt fs' p = Some False"
    "n_class (node fs' i) = n_class (node fs1 i) \<and> n_name (node fs' i) = n_name (node fs1 i)"
    "is_dir fs1 p"
    using set_parent_effect[OF w(1) sp] by blast+
  then show "fs_ok fs fs'" "n_parent (node fs' c) = Some p" "is_detached_opt fs' p = Some False"
    "n_class (node fs' c) = n_class n" "n_name (node fs' c) = n_name n"
    using w ci by (simp_all add: fs_ok_def)
  have "p \<noteq> i" using attached_in_range[OF att] w(2) by simp
  then show "is_dir fs p" using eff(8) w(5) by (simp add: is_dir_def)
  have "\<not> is_root fs' c"
    using eff(7) ci w(6) n by (simp add: is_root_def fresh_node_def split: node_class.split)
  then show "is_detached_opt fs' c = Some False"
    using det_child eff(5,6) ci by simp
qed

text \<open>Without a conflicting entry, a new object leaves all others attached.\<close>

lemma create_keeps_attached:
  assumes wf: "wf_fs fs" and att: "is_detached_opt fs p = Some False" and n: "fresh_node n"
    and free: "get_child fs p (n_name n) = None" and ok: "create fs p n = Inr (fs', c)"
    and j: "is_detached_opt fs j = Some False"
  shows "is_detached_opt fs' j = Some False"
proof -
  obtain fs1 i where fs1: "new_node n fs = (fs1, i)" by (cases "new_node n fs")
  note w = new_node_wf[OF wf n fs1]
  have sp: "set_parent fs1 i p = Inr fs'" using ok fs1 by (auto simp: create_def res_simps)
  have p1: "is_detached_opt fs1 p = Some False" using w(7) att by simp
  have orphan: "n_parent (node fs1 i) = None" using w(6) n by (simp add: fresh_node_def)
  have "i < length (nodes fs1)" using w(2,3) by simp
  note eff = set_parent_effect[OF w(1) sp this p1 disjI2[OF orphan]]
  have i: "\<not> is_root fs1 i" using wf_root[OF w(1), of i] eff(10) by simp
  have "n_parent (node fs' k) = n_parent (node fs1 k)" if "k \<noteq> i" for k
  proof (rule ccontr)
    assume "n_parent (node fs' k) \<noteq> n_parent (node fs1 k)"
    with eff(11)[OF that] w(5)[OF that] w(6) have "n_parent (node fs k) = Some p" "n_name (node fs k) = n_name n" by auto
    with wf_parent[OF wf] free show False by (force simp: get_child_kids)
  qed
  moreover have "is_root fs' k = is_root fs1 k" for k using eff(7)[of k] by (simp add: is_root_def)
  ultimately have rp: "reparented fs1 fs' i" by (simp add: reparented_def)
  have j1: "is_detached_opt fs1 j = Some False" using w(7) j by simp
  have "\<not> below fs1 i j"
  proof
    assume "below fs1 i j"
    then have "is_detached_opt fs1 j = is_detached_opt fs1 i"
      using det_below[of fs1 fs1 i j False] j1 by (simp add: reparented_def)
    with j1 det_orphan[OF i orphan] show False by simp
  qed
  with det_not_below[OF rp j1] show ?thesis by blast
qed

lemma ensure_min_mode_ok:
  assumes "wf_fs fs" and "is_detached_opt fs i = Some False" and "ensure_min_mode fs i = Inr fs'"
    and "fs_read_write fs"
  shows "fs_ok fs fs'" and "same_tree fs fs'"
  using assms set_mode_ok[OF assms(1,2)]
  by (auto simp: ensure_min_mode_def Let_def fs_ok_def split: if_splits)

lemma mkdir_ok:
  assumes wf: "wf_fs fs" and att: "is_detached_opt fs p = Some False"
    and ok: "mkdir fs p nm r = Inr (fs', c)"
  shows "fs_ok fs fs'" and "c = length (nodes fs)" and "n_parent (node fs' c) = Some p"
    and "is_detached_opt fs' c = Some False" and "is_dir fs' c" and "n_name (node fs' c) = nm"
    and "get_child fs p nm = None" and "\<not> bad_basename nm" and "is_dir fs p"
    and "\<And>j. is_detached_opt fs j = Some False \<Longrightarrow> is_detached_opt fs' j = Some False"
proof -
  from ok obtain fs1 where c: "create fs p (fs_path_init nm None VirtualDirectoryFSPath
        (reference_mode r o755) r) = Inr (fs1, c)"
    and e: "ensure_min_mode fs1 c = Inr fs'" and nm: "get_child fs p nm = None" "\<not> bad_basename nm"
    by (auto simp: mkdir_def res_simps split: if_splits)
  show "get_child fs p nm = None" "\<not> bad_basename nm" by (rule nm)+
  have fr: "fresh_node (fs_path_init nm None VirtualDirectoryFSPath (reference_mode r o755) r)" by simp
  note k = create_ok[OF wf att fr c]
  have k: "fs_ok fs fs1" "c = length (nodes fs)" "n_parent (node fs1 c) = Some p"
    "is_detached_opt fs1 c = Some False" "n_class (node fs1 c) = VirtualDirectoryFSPath"
    "n_name (node fs1 c) = nm" "is_dir fs p"
    using k by simp_all
  then show "c = length (nodes fs)" "is_dir fs p" by blast+
  have w: "wf_fs fs1" "fs_read_write fs1" using k(1) by (simp_all add: fs_ok_def)
  note m = ensure_min_mode_ok[OF w(1) k(4) e w(2)]
  then show "fs_ok fs fs'" using k(1) fs_ok_trans by blast
  show "n_parent (node fs' c) = Some p" "n_name (node fs' c) = nm" "is_dir fs' c"
    using m(2) k by (simp_all add: same_tree_def is_dir_def)
  show "is_detached_opt fs' c = Some False" using same_tree_det[OF m(2)] k(4) by simp
  show "is_detached_opt fs' j = Some False" if "is_detached_opt fs j = Some False" for j
  proof -
    have "is_detached_opt fs1 j = Some False"
      using create_keeps_attached[OF wf att fr _ c that] nm(1) by simp
    then show ?thesis using same_tree_det[OF m(2)] by simp
  qed
qed

lemma unlink_existing_ok:
  assumes wf: "wf_fs fs" and att: "is_detached_opt fs p = Some False"
    and e: "(case get_child fs p nm of None \<Rightarrow> Inr fs | Some x \<Rightarrow> unlink fs x r) = Inr fs'"
    and rw: "fs_read_write fs"
  shows "fs_ok fs fs' \<and> is_detached_opt fs' p = Some False \<and> is_dir fs' p = is_dir fs p"
proof (cases "get_child fs p nm")
  case None
  with e wf rw att show ?thesis by (simp add: fs_ok_def)
next
  case (Some x)
  with e have u: "unlink fs x r = Inr fs'" by simp
  have k: "n_parent (node fs x) = Some p" using wf_kid_map[OF wf] Some by (simp add: get_child_kids)
  then have "\<not> is_root fs x" using wf_root[OF wf] wf_root_parent[OF wf] by force
  then have xa: "is_detached_opt fs x = Some False" using k att det_child by simp
  show ?thesis
  proof (rule unlink_ok[OF wf xa u])
    fix q
    assume "n_parent (node fs x) = Some q" "detaches fs fs' x q" "fs_ok fs fs'"
      "is_detached_opt fs' q = Some False"
    then show ?thesis using k by (simp add: detaches_def is_dir_def)
  qed
qed

lemma add_symlink_ok:
  assumes wf: "wf_fs fs" and att: "is_detached_opt fs p = Some False"
    and ok: "add_symlink fs p nm t r = Inr (fs', c)"
  shows "fs_ok fs fs'"
proof -
  from ok have rw: "fs_read_write fs"
    using rw_check_det[OF att] by (cases "fs_read_write fs") (auto simp: add_symlink_def split: if_splits)
  from ok obtain fs1 where u: "(case get_child fs p nm of None \<Rightarrow> Inr fs | Some x \<Rightarrow> unlink fs x False) = Inr fs1"
    and c: "create fs1 p (fs_path_init nm None (SymlinkVirtualPath t) (reference_mode r o777) r) = Inr (fs', c)"
    by (auto simp: add_symlink_def res_simps split: if_splits)
  from unlink_existing_ok[OF wf att u rw] have "fs_ok fs fs1" "is_detached_opt fs1 p = Some False" by simp_all
  moreover from this have "fs_ok fs1 fs'" using create_ok(1)[OF _ _ _ c] by (simp add: fs_ok_def)
  ultimately show ?thesis using fs_ok_trans by blast
qed

lemma new_file_ok:
  assumes wf: "wf_fs fs" and att: "is_detached_opt fs p = Some False"
    and ok: "new_file fs p nm path0 inl m t r = Inr (fs', c)"
  shows "fs_ok fs fs' \<and> is_detached_opt fs' c = Some False"
proof -
  obtain fs1 fs2 where c: "create fs p (fs_path_init nm None (FSBackedFilePath path0 inl) (reference_mode r o644) r) = Inr (fs1, c)"
    and m: "(case m of None \<Rightarrow> Inr fs1 | Some m \<Rightarrow> set_mode fs1 c m) = Inr fs2"
    and e: "ensure_min_mode (if t = None then fs2 else set_node c (\<lambda>n. n\<lparr>n_mtime := t\<rparr>) fs2) c = Inr fs'"
    using ok by (auto simp: new_file_def res_simps Let_def split: if_splits)
  define fs3 where "fs3 = (if t = None then fs2 else set_node c (\<lambda>n. n\<lparr>n_mtime := t\<rparr>) fs2)"
  have fr: "fresh_node (fs_path_init nm None (FSBackedFilePath path0 inl) (reference_mode r o644) r)" by simp
  note k = create_ok[OF wf att fr c]
  have w1: "wf_fs fs1" "fs_read_write fs1" using k(1) by (simp_all add: fs_ok_def)
  have s2: "fs_ok fs1 fs2" "same_tree fs1 fs2"
    using m set_mode_ok[OF w1(1) k(4)] w1 by (auto simp: fs_ok_def split: option.splits)
  have s3: "same_tree fs2 fs3" unfolding fs3_def by (auto intro!: same_tree_set_node)
  then have s13: "same_tree fs1 fs3" using s2(2) same_tree_trans by blast
  have w3: "wf_fs fs3" "fs_read_write fs3" "is_detached_opt fs3 c = Some False"
    using same_tree_wf[OF s13 w1(1)] same_tree_det[OF s13] k(4) s2(1)
    by (simp_all add: fs3_def fs_ok_def)
  note e = ensure_min_mode_ok[OF w3(1,3) e[folded fs3_def] w3(2)]
  have "fs_ok fs1 fs3" using s13 w1 w3 by (simp add: fs_ok_def same_tree_def)
  then have "fs_ok fs fs'" using k(1) e(1) fs_ok_trans by blast
  then show ?thesis using same_tree_det[OF e(2)] w3(3) by simp
qed

lemma insert_file_ok:
  assumes "wf_fs fs" and "is_detached_opt fs p = Some False"
    and "insert_file_from_fs_path fs p nm path0 resolved isreg exist usem m cow foll r = Inr (fs', c)"
  shows "fs_ok fs fs'"
  using assms(3) new_file_ok[OF assms(1,2)]
  by (auto simp: insert_file_from_fs_path_def res_simps Let_def split: if_splits)

lemma add_file_ok:
  assumes wf: "wf_fs fs" and att: "is_detached_opt fs p = Some False"
    and body: "\<And>fs1 fs2 c. wf_fs fs1 \<Longrightarrow> fs_read_write fs1 \<Longrightarrow> is_detached_opt fs1 c = Some False \<Longrightarrow> body fs1 c = Inr fs2 \<Longrightarrow>
      fs_ok fs1 fs2 \<and> is_detached_opt fs2 c = Some False"
    and ok: "add_file fs p nm unl usem m t path0 body still = Inr (fs', c)"
  shows "fs_ok fs fs'"
proof -
  from ok have rw: "fs_read_write fs"
    using rw_check_det[OF att] by (cases "fs_read_write fs") (auto simp: add_file_def split: if_splits)
  from ok obtain fs1 fs2 fs3 where
    u: "(case get_child fs p nm of None \<Rightarrow> Inr fs | Some x \<Rightarrow> if \<not> unl then Inl ValueError else unlink fs x False) = Inr fs1"
    and n: "new_file fs1 p nm path0 True None t None = Inr (fs2, c)"
    and b: "body fs2 c = Inr fs3"
    and m: "(if usem then fs' = reset_caches c fs3 else set_mode (reset_caches c fs3) c m = Inr fs')"
    by (auto simp: add_file_def res_simps Let_def split: if_splits)
  have "(case get_child fs p nm of None \<Rightarrow> Inr fs | Some x \<Rightarrow> unlink fs x False) = Inr fs1"
    using u by (auto split: option.splits if_splits)
  from unlink_existing_ok[OF wf att this rw]
  have s1: "fs_ok fs fs1" "wf_fs fs1" "is_detached_opt fs1 p = Some False" by (simp_all add: fs_ok_def)
  from new_file_ok[OF s1(2,3) n]
  have s2: "fs_ok fs1 fs2" "wf_fs fs2" "fs_read_write fs2" "is_detached_opt fs2 c = Some False"
    by (simp_all add: fs_ok_def)
  from body[OF s2(2-4) b] have s3: "fs_ok fs2 fs3" "is_detached_opt fs3 c = Some False" by simp_all
  define fs4 where "fs4 = reset_caches c fs3"
  have st: "same_tree fs3 fs4"
    unfolding fs4_def reset_caches_def by (rule same_tree_set_node) simp_all
  have s4: "fs_ok fs3 fs4" "wf_fs fs4" "is_detached_opt fs4 c = Some False"
    using s3 same_tree_wf[OF st] same_tree_det[OF st]
    by (simp_all add: fs_ok_def fs4_def reset_caches_def)
  have "fs_ok fs4 fs'"
    using m set_mode_ok(1)[OF s4(2,3)] s4(1) unfolding fs4_def[symmetric]
    by (auto simp: fs_ok_def split: if_splits)
  then show ?thesis using s1 s2 s3 s4 fs_ok_trans by blast
qed

subsection \<open>Lookups stay in the tree\<close>

lemma root_opt_root: "root_opt fs i = Some r \<Longrightarrow> \<forall>k. r = Inr k \<longrightarrow> is_root fs k"
proof (rule root_opt.raw_induct[where P = "\<lambda>fs i r. \<forall>k. r = Inr k \<longrightarrow> is_root fs k"])
  fix f :: "fs \<Rightarrow> nat \<Rightarrow> nat res option" and fs i r
  assume IH: "\<And>fs i r. f fs i = Some r \<Longrightarrow> \<forall>k. r = Inr k \<longrightarrow> is_root fs k"
    and eq: "(case parent_dir fs i of Inl e \<Rightarrow> Some (Inl e) | Inr None \<Rightarrow> Some (Inr i)
      | Inr (Some p) \<Rightarrow> f fs p) = Some r"
  show "\<forall>k. r = Inr k \<longrightarrow> is_root fs k"
    using eq IH by (auto simp: parent_dir_def split: if_splits option.splits)
qed

lemma root_of_root: "root_of fs i = Inr k \<Longrightarrow> is_root fs k"
  using root_opt_root[of fs i] by (auto simp: root_of_def returns_def res_simps split: option.splits)

lemma parent_dir_attached:
  assumes "is_detached_opt fs i = Some False" and "parent_dir fs i = Inr (Some p)"
  shows "is_detached_opt fs p = Some False"
  using assms attached_parent[OF assms(1)]
  by (auto simp: parent_dir_def det_child split: if_splits option.splits)

lemma child_attached:
  assumes "wf_fs fs" and "is_detached_opt fs i = Some False" and "get_child fs i k = Some c"
  shows "is_detached_opt fs c = Some False" and "n_parent (node fs c) = Some i" and "n_name (node fs c) = k"
    and "c \<noteq> 0"
proof -
  have k: "n_parent (node fs c) = Some i" "n_name (node fs c) = k"
    using wf_kid_map[OF assms(1)] assms(3) by (simp_all add: get_child_kids)
  then show "n_parent (node fs c) = Some i" "n_name (node fs c) = k" by simp_all
  from k(1) have c0: "\<not> is_root fs c" using wf_root[OF assms(1)] wf_root_parent[OF assms(1)] by force
  then show "c \<noteq> 0" using wf_root[OF assms(1)] by simp
  show "is_detached_opt fs c = Some False" using det_child[OF c0 k(1)] assms(2) by simp
qed

lemma lookup_loop_attached:
  assumes "wf_fs fs"
  shows "is_detached_opt fs cur = Some False \<Longrightarrow> lookup_loop fs mbd cur parts exps = Inr (m, rest) \<Longrightarrow>
    is_detached_opt fs m = Some False"
  using assms
proof (induction fs mbd cur parts exps rule: lookup_loop.induct)
  case (2 fs mbd cur part parts exps)
  note wf = 2(7) and att = 2(5) and eq = 2(6)
  note IH_dot = 2(1) and IH_up = 2(2) and IH_link = 2(3) and IH_down = 2(4)
  consider "part = ''.''" | "part = ''..''" | "part \<noteq> ''.''" "part \<noteq> ''..''" by blast
  then show ?case
  proof cases
    case 1
    then show ?thesis using IH_dot att eq wf by simp
  next
    case 2
    with eq obtain p where p: "parent_dir fs cur = Inr (Some p)" "lookup_loop fs mbd p parts exps = Inr (m, rest)"
      by (auto split: sum.splits option.splits)
    then show ?thesis using IH_up[OF _ 2 p(1) refl] 2 parent_dir_attached[OF att] wf by simp
  next
    case 3
    show ?thesis
    proof (cases "get_child fs cur part")
      case None
      then show ?thesis using 3 att eq by simp
    next
      case (Some child)
      note ca = child_attached[OF wf att Some]
      show ?thesis
      proof (cases "is_symlink fs child \<and> parts \<noteq> []")
        case False
        then have "lookup_loop fs mbd child parts exps = Inr (m, rest)"
          using eq 3 Some by (cases "parts = []") simp_all
        then show ?thesis using IH_down[OF _ _ Some] 3 False ca(1) wf by simp
      next
        case True
        then obtain p t a b ps s where q: "path fs child = Inr p" "p \<notin> set exps" "readlink fs child = Inr t"
          "split_path t = (a, b, ps)"
          "(if a then rmap Some (root_of fs child) else parent_dir fs child) = Inr (Some s)"
          "lookup_loop fs mbd s (ps @ parts) (p # exps) = Inr (m, rest)"
          using eq 3 Some by (auto split: sum.splits option.splits prod.splits if_splits)
        have "is_detached_opt fs s = Some False"
          using q(5) parent_dir_attached[OF ca(1)] root_of_root det_root
          by (auto simp: res_simps split: if_splits)
        then show ?thesis
          using IH_link[OF _ _ Some True q(1,2,3) q(4)[symmetric] refl q(5) refl] 3 q(6) wf by simp
      qed
    qed
  qed
qed auto

lemma attempt_lookup_attached:
  assumes "wf_fs fs" and "is_detached_opt fs i = Some False" and "attempt_lookup fs i p = Inr (m, rest)"
  shows "is_detached_opt fs m = Some False"
proof -
  from assms(3) obtain s a b ps where "(if a then root_of fs i else Inr i) = Inr s"
    "lookup_loop fs b s ps [] = Inr (m, rest)"
    by (auto simp: attempt_lookup_def is_detached_simp[OF assms(2)] res_simps split: prod.splits)
  moreover from this(1) have "is_detached_opt fs s = Some False"
    using assms(2) root_of_root det_root by (auto split: if_splits)
  ultimately show ?thesis using lookup_loop_attached[OF assms(1)] by blast
qed

subsection \<open>Operations that loop\<close>

text \<open>Nothing happened, or a successful change.\<close>

definition fs_unchanged_or_ok :: "fs \<Rightarrow> fs \<Rightarrow> bool" where
  "fs_unchanged_or_ok fs fs' \<longleftrightarrow> fs' = fs \<or> fs_ok fs fs'"

lemma mkdir_parts_ok:
  "wf_fs fs \<Longrightarrow> is_detached_opt fs i = Some False \<Longrightarrow> mkdir_parts fs i ps = Inr (fs', c) \<Longrightarrow>
   fs_unchanged_or_ok fs fs' \<and> is_detached_opt fs' c = Some False"
proof (induction fs i ps rule: mkdir_parts.induct)
  case (2 fs i part ps)
  then obtain fs1 c1 where m: "mkdir fs i part None = Inr (fs1, c1)" "part \<noteq> ''.''" "part \<noteq> ''..''"
    and r: "mkdir_parts fs1 c1 ps = Inr (fs', c)"
    by (auto simp: res_simps split: if_splits)
  note k = mkdir_ok[OF 2(2,3) m(1)]
  have "\<not> (part = ''.'' \<or> part = ''..'')" using m by simp
  then have "fs_unchanged_or_ok fs1 fs' \<and> is_detached_opt fs' c = Some False"
    using 2(1)[of "(fs1, c1)" fs1 c1] k(1,4) r m(1) by (simp add: fs_ok_def)
  then show ?case using k(1) fs_ok_trans unfolding fs_unchanged_or_ok_def by blast
qed (simp add: fs_unchanged_or_ok_def)

lemma mkdirs_ok:
  assumes "wf_fs fs" and "is_detached_opt fs i = Some False" and "mkdirs fs i p = Inr (fs', c)"
  shows "fs_unchanged_or_ok fs fs'" and "is_detached_opt fs' c = Some False"
proof -
  obtain cur ps where l: "attempt_lookup fs i (if endswith p ''/'' then p else p @ ''/'') = Inr (cur, ps)"
    and m: "mkdir_parts fs cur ps = Inr (fs', c)"
    using assms(3) by (auto simp: mkdirs_def res_simps split: if_splits)
  from attempt_lookup_attached[OF assms(1,2) l] mkdir_parts_ok[OF assms(1) _ m]
  show "fs_unchanged_or_ok fs fs'" and "is_detached_opt fs' c = Some False" by blast+
qed

lemma prune_opt_ok:
  "prune_opt fs i = Some r \<Longrightarrow>
   wf_fs fs \<longrightarrow> is_detached_opt fs i = Some False \<longrightarrow> (\<forall>fs'. r = Inr fs' \<longrightarrow> fs_unchanged_or_ok fs fs')"
proof (rule prune_opt.raw_induct[where P = "\<lambda>fs i r. wf_fs fs \<longrightarrow> is_detached_opt fs i = Some False \<longrightarrow>
    (\<forall>fs'. r = Inr fs' \<longrightarrow> fs_unchanged_or_ok fs fs')"], intro impI allI)
  fix f :: "fs \<Rightarrow> nat \<Rightarrow> fs res option" and fs i r fs'
  assume IH: "\<And>fs i r. f fs i = Some r \<Longrightarrow> wf_fs fs \<longrightarrow> is_detached_opt fs i = Some False \<longrightarrow>
      (\<forall>fs'. r = Inr fs' \<longrightarrow> fs_unchanged_or_ok fs fs')"
    and eq: "(if is_root fs i then Some (Inr fs)
      else (case rw_check fs i of
              Inl e \<Rightarrow> Some (Inl e)
            | Inr _ \<Rightarrow>
                if \<not> is_dir fs i then Some (Inl TypeErr)
                else if iterdir fs i \<noteq> [] then Some (Inr fs)
                else (case parent_dir fs i of
                        Inl e \<Rightarrow> Some (Inl e)
                      | Inr None \<Rightarrow> Some (Inl ValueError)
                      | Inr (Some p) \<Rightarrow>
                          (case unlink fs i False of
                             Inl e \<Rightarrow> Some (Inl e)
                           | Inr fs1 \<Rightarrow> f fs1 p)))) = Some r"
    and wf: "wf_fs fs" and att: "is_detached_opt fs i = Some False" and r: "r = Inr fs'"
  consider (stop) "fs' = fs" | (up) p fs1 where "parent_dir fs i = Inr (Some p)"
      "unlink fs i False = Inr fs1" "f fs1 p = Some r"
    using eq r by (auto split: if_splits sum.splits option.splits)
  then show "fs_unchanged_or_ok fs fs'"
  proof cases
    case (up p fs1)
    show ?thesis
    proof (rule unlink_ok[OF wf att up(2)])
      fix q
      assume q: "n_parent (node fs i) = Some q" "fs_ok fs fs1" "is_detached_opt fs1 q = Some False"
      then have "p = q" using up(1) by (auto simp: parent_dir_def split: if_splits option.splits)
      with q IH[OF up(3)] r have "fs_unchanged_or_ok fs1 fs'" by (simp add: fs_ok_def)
      then show ?thesis using q(2) fs_ok_trans unfolding fs_unchanged_or_ok_def by blast
    qed
  qed (simp add: fs_unchanged_or_ok_def)
qed

lemma prune_ok:
  assumes "wf_fs fs" and "is_detached_opt fs i = Some False" and "prune_if_empty_dir fs i = Inr fs'"
  shows "fs_unchanged_or_ok fs fs'"
  using prune_opt_ok[of fs i "Inr fs'"] assms
  by (auto simp: prune_if_empty_dir_def returns_def res_simps split: option.splits)

end
