(* ===== verification/PathUtil.thy ===== *)
theory PathUtil
  imports PyStr
begin

section \<open>Path normalisation (\<^verbatim>\<open>src/debputy/util.py\<close>)\<close>

text \<open>
  \<^verbatim>\<open>_clean_path\<close>, \<^verbatim>\<open>_normalize_path\<close>, \<^verbatim>\<open>_normalize_link_target\<close> and
  \<^verbatim>\<open>debian_policy_normalize_symlink_target\<close>, with the facts the rest of the model uses: a
  normalised path is canonical, normalising is idempotent, and rewriting a symlink target for
  Debian Policy keeps what the link points to.
\<close>

subsection \<open>The code\<close>

text \<open>\<^verbatim>\<open>SLASH_PRUNE.sub("/", s)\<close>: every run of slashes becomes one.\<close>

fun slash_prune :: "string \<Rightarrow> string" where
  "slash_prune (x # y # s) =
     (if x = slash \<and> y = slash then slash_prune (y # s) else x # slash_prune (y # s))"
| "slash_prune s = s"

definition clean_path :: "string \<Rightarrow> string res" where
  "clean_path orig =
     (let p = slash_prune orig in
      if dot \<in> set p then
        (let path_base = (if startswith p ''./'' then drop 2 p else p) in
         if startswith p ''./'' \<and> path_base = [] then Inl AssertionErr
         else if \<exists>segment \<in> set (split_on slash path_base). segment = ''.'' \<or> segment = ''..''
           then Inl ValueError
         else Inr p)
      else Inr p)"

definition normalize_path :: "string \<Rightarrow> bool \<Rightarrow> string res" where
  "normalize_path path0 with_prefix =
     (let path = strip (\<lambda>c. c = slash) path0 in
      if path = [] \<or> path = ''.'' then Inr ''.''
      else rbind (if infix_of ''//'' path \<or> dot \<in> set path then clean_path path else Inr path)
        (\<lambda>path.
          if with_prefix \<noteq> startswith path ''./''
          then Inr (if with_prefix then ''./'' @ path else drop 2 path)
          else Inr path))"

text \<open>The loop of \<^verbatim>\<open>_normalize_link_target\<close> over the segments, with its \<^verbatim>\<open>result\<close> list.\<close>

fun link_segments :: "string list \<Rightarrow> string list \<Rightarrow> string list" where
  "link_segments [] result = result"
| "link_segments (segment # segs) result =
     (if segment = ''.'' \<or> segment = [] then link_segments segs result
      else if segment = ''..'' then link_segments segs (butlast result)
      else link_segments segs (result @ [segment]))"

definition normalize_link_target :: "string \<Rightarrow> string" where
  "normalize_link_target link_target =
     join ''/'' (link_segments
       (split_on slash (slash_prune (lstrip (\<lambda>c. c = slash) link_target))) [])"

text \<open>The loop that counts the segments two paths share, from \<^verbatim>\<open>common_segment_count = n\<close> on.\<close>

function common_segments :: "string list \<Rightarrow> string list \<Rightarrow> nat \<Rightarrow> nat" where
  "common_segments ts ls n =
     (if n < min (length ts) (length ls) \<and> ts ! n = ls ! n then common_segments ts ls (Suc n)
      else n)"
  by pat_completeness auto
termination
  by (relation "measure (\<lambda>(ts, ls, n). length ts - n)") auto

declare common_segments.simps [simp del]

definition policy_relative_target :: "string list \<Rightarrow> string list \<Rightarrow> string" where
  "policy_relative_target link_path_parts link_target_parts =
     (let common_segment_count = common_segments link_target_parts link_path_parts 1;
          shortest_path_length = min (length link_target_parts) (length link_path_parts) in
      if common_segment_count = shortest_path_length
         \<and> int (length link_path_parts) - 1 = int (length link_target_parts)
      then ''.''
      else
        (let up_dir_count = int (length link_path_parts) - 1 - int common_segment_count;
             up_dir_part = concat (replicate (nat up_dir_count) ''../'')
         in join ''/''
              ((if up_dir_count \<noteq> 0 then [rstrip (\<lambda>c. c = slash) up_dir_part] else [])
               @ drop common_segment_count link_target_parts)))"

definition policy_symlink_target :: "string \<Rightarrow> string \<Rightarrow> bool \<Rightarrow> string res" where
  "policy_symlink_target link_path0 link_target0 normalize_link_path =
     rbind (if normalize_link_path then normalize_path link_path0 True
            else if startswith link_path0 ''./'' then Inr link_path0 else Inl ValueError)
       (\<lambda>link_path1.
         let link_path = drop 2 link_path1;
             link_target =
               (if startswith link_target0 ''/'' then link_target0
                else ''/'' @ path_head link_path @ ''/'' @ link_target0);
             link_path_parts = split_on slash link_path;
             link_target_parts =
               filter (\<lambda>s. s \<noteq> ''.'') (split_on slash (normalize_link_target link_target))
         in if link_target_parts \<noteq> [] \<and> hd link_path_parts = hd link_target_parts
            then Inr (policy_relative_target link_path_parts link_target_parts)
            else Inr (''/'' @ join ''/'' link_target_parts))"

subsection \<open>Segments\<close>

definition plain_segment :: "string \<Rightarrow> bool" where
  "plain_segment s \<longleftrightarrow> s \<noteq> [] \<and> slash \<notin> set s \<and> s \<noteq> ''.'' \<and> s \<noteq> ''..''"

definition canonical_path :: "string \<Rightarrow> bool" where
  "canonical_path p \<longleftrightarrow>
     p = ''.'' \<or> startswith p ''./'' \<and> list_all plain_segment (split_on slash (drop 2 p))"

lemma slash_prune_id: "\<not> infix_of ''//'' s \<Longrightarrow> slash_prune s = s"
  by (induction s rule: slash_prune.induct) (auto split: if_splits)

lemma slash_prune_hd [simp]: "hd (slash_prune s) = hd s"
  by (induction s rule: slash_prune.induct) auto

lemma slash_prune_Nil [simp]: "slash_prune s = [] \<longleftrightarrow> s = []"
  by (induction s rule: slash_prune.induct) auto

lemma slash_prune_last [simp]: "last (slash_prune s) = last s"
  by (induction s rule: slash_prune.induct) auto

lemma slash_prune_set [simp]: "set (slash_prune s) = set s"
  by (induction s rule: slash_prune.induct) auto

lemma startswith_single: "startswith s [c] \<longleftrightarrow> s \<noteq> [] \<and> hd s = c"
  by (cases s) auto

lemma slash_prune_no_double: "\<not> infix_of ''//'' (slash_prune s)"
proof (induction s rule: slash_prune.induct)
  case (1 x y s)
  have "hd (slash_prune (y # s)) = y" by simp
  then show ?case using 1 by (cases "slash_prune (y # s)") auto
qed auto

lemma split_on_tl_empty:
  "[] \<in> set (tl (split_on c s)) \<Longrightarrow> last s = c \<or> infix_of [c, c] s"
proof (induction s)
  case (Cons x xs)
  have hd: "hd (split_on c xs) = [] \<longleftrightarrow> xs = [] \<or> hd xs = c"
    by (cases xs) (auto split: list.splits)
  show ?case
  proof (cases "x = c")
    case True
    with Cons.prems have "[] \<in> set (split_on c xs)" by simp
    then consider "hd (split_on c xs) = []" | "[] \<in> set (tl (split_on c xs))"
      by (cases "split_on c xs") auto
    then show ?thesis
    proof cases
      case 1
      with hd True show ?thesis by (cases xs) auto
    next
      case 2
      with Cons.IH have "last xs = c \<or> infix_of [c, c] xs" by simp
      moreover from 2 have "xs \<noteq> []" by auto
      ultimately show ?thesis by auto
    qed
  next
    case False
    with Cons.prems have t: "[] \<in> set (tl (split_on c xs))" by (auto split: list.splits)
    with Cons.IH have "last xs = c \<or> infix_of [c, c] xs" by simp
    moreover from t have "xs \<noteq> []" by auto
    ultimately show ?thesis by auto
  qed
qed simp

lemma split_on_no_empty:
  assumes "s \<noteq> []" and "hd s \<noteq> c" and "last s \<noteq> c" and "\<not> infix_of [c, c] s"
  shows "[] \<notin> set (split_on c s)"
proof
  assume "[] \<in> set (split_on c s)"
  moreover have "hd (split_on c s) \<noteq> []"
    using assms(1,2) by (cases s) (auto split: list.splits)
  ultimately have "[] \<in> set (tl (split_on c s))"
    by (cases "split_on c s") auto
  with assms show False using split_on_tl_empty by blast
qed

lemma infix_of_drop: "\<not> infix_of p s \<Longrightarrow> \<not> infix_of p (drop n s)"
  unfolding infix_of_iff by (metis append.assoc append_take_drop_id)

lemma plain_segmentsI:
  assumes "s \<noteq> []" and "hd s \<noteq> slash" and "last s \<noteq> slash" and "\<not> infix_of ''//'' s"
    and "\<And>x. x \<in> set (split_on slash s) \<Longrightarrow> x \<noteq> ''.'' \<and> x \<noteq> ''..''"
  shows "list_all plain_segment (split_on slash s)"
  using assms(5) split_on_no_empty[OF assms(1-4)] split_on_no_sep[of _ slash s]
  unfolding list_all_iff plain_segment_def by metis

lemma no_dot_segments: "dot \<notin> set s \<Longrightarrow> x \<in> set (split_on slash s) \<Longrightarrow> x \<noteq> ''.'' \<and> x \<noteq> ''..''"
  using set_split_on[of x slash s] by auto

text \<open>What is left after stripping and cleaning: the pruned path, whose segments are plain after
  an optional \<^verbatim>\<open>./\<close>.\<close>

lemma clean_path_Inr:
  assumes "clean_path p = Inr q"
  shows "q = slash_prune p"
    and "x \<in> set (split_on slash (if startswith q ''./'' then drop 2 q else q)) \<Longrightarrow> x \<noteq> ''.'' \<and> x \<noteq> ''..''"
proof -
  show q: "q = slash_prune p" using assms by (auto simp: clean_path_def Let_def split: if_splits)
  assume x: "x \<in> set (split_on slash (if startswith q ''./'' then drop 2 q else q))"
  show "x \<noteq> ''.'' \<and> x \<noteq> ''..''"
  proof (cases "dot \<in> set q")
    case True
    then show ?thesis using assms x unfolding q
      by (simp only: clean_path_def Let_def slash_prune_set if_True split: if_splits) auto
  next
    case False
    then have "\<not> startswith q ''./''" by (auto simp: startswith_iff)
    with x no_dot_segments[OF False] show ?thesis by simp
  qed
qed

definition cleaned :: "string \<Rightarrow> string res" where
  "cleaned path = (if infix_of ''//'' path \<or> dot \<in> set path then clean_path path else Inr path)"

lemma cleaned_Inr:
  assumes "cleaned p = Inr q"
  shows "q = slash_prune p"
    and "x \<in> set (split_on slash (if startswith q ''./'' then drop 2 q else q)) \<Longrightarrow> x \<noteq> ''.'' \<and> x \<noteq> ''..''"
proof -
  show q: "q = slash_prune p"
    using assms clean_path_Inr(1) by (auto simp: cleaned_def slash_prune_id split: if_splits)
  assume x: "x \<in> set (split_on slash (if startswith q ''./'' then drop 2 q else q))"
  show "x \<noteq> ''.'' \<and> x \<noteq> ''..''"
  proof (cases "infix_of ''//'' p \<or> dot \<in> set p")
    case True
    with assms have "clean_path p = Inr q" by (simp add: cleaned_def)
    then show ?thesis using x by (rule clean_path_Inr(2))
  next
    case False
    then have d: "dot \<notin> set q" unfolding q by simp
    then have "\<not> startswith q ''./''" by (auto simp: startswith_iff)
    with x no_dot_segments[OF d] show ?thesis by simp
  qed
qed

lemma cleaned_plain:
  assumes "cleaned p = Inr q" and "p \<noteq> []" and "hd p \<noteq> slash" and "last p \<noteq> slash"
  shows "list_all plain_segment (split_on slash (if startswith q ''./'' then drop 2 q else q))"
proof -
  have q: "q = slash_prune p" by (rule cleaned_Inr(1)[OF assms(1)])
  have nd: "\<not> infix_of ''//'' q" unfolding q by (rule slash_prune_no_double)
  have ne: "q \<noteq> []" "hd q \<noteq> slash" "last q \<noteq> slash" unfolding q using assms(2-4) by simp_all
  let ?r = "if startswith q ''./'' then drop 2 q else q"
  have "?r \<noteq> [] \<and> hd ?r \<noteq> slash \<and> last ?r \<noteq> slash \<and> \<not> infix_of ''//'' ?r"
  proof (cases "startswith q ''./''")
    case True
    then obtain r where r: "q = CHR ''.'' # slash # r" by (auto simp: startswith_iff)
    with ne(3) have "r \<noteq> []" by auto
    moreover from this r ne(3) have "last r \<noteq> slash" by auto
    moreover from nd r have "\<not> infix_of ''//'' r" by auto
    moreover from nd r \<open>r \<noteq> []\<close> have "hd r \<noteq> slash" by (cases r) auto
    ultimately show ?thesis using r by simp
  next
    case False
    with ne nd show ?thesis by simp
  qed
  with cleaned_Inr(2)[OF assms(1)] show ?thesis
    by (intro plain_segmentsI) blast+
qed

lemma strip_slash_ends:
  assumes "strip (\<lambda>c. c = slash) p \<noteq> []"
  shows "hd (strip (\<lambda>c. c = slash) p) \<noteq> slash" and "last (strip (\<lambda>c. c = slash) p) \<noteq> slash"
  using strip_ends[OF assms] by simp_all

lemma normalize_path_cases:
  assumes "normalize_path p w = Inr q"
  obtains (root) "strip (\<lambda>c. c = slash) p = [] \<or> strip (\<lambda>c. c = slash) p = ''.''" "q = ''.''"
  | (below) segs where "segs \<noteq> []" "list_all plain_segment segs"
      "q = (if w then ''./'' else []) @ join ''/'' segs"
proof (cases "strip (\<lambda>c. c = slash) p = [] \<or> strip (\<lambda>c. c = slash) p = ''.''")
  case True
  with assms have "q = ''.''" by (simp add: normalize_path_def)
  with True that(1) show ?thesis by blast
next
  case False
  let ?s = "strip (\<lambda>c. c = slash) p"
  from False have ne: "?s \<noteq> []" by simp
  from False assms
  have "rbind (cleaned ?s) (\<lambda>c. Inr (if w \<noteq> startswith c ''./'' then if w then ''./'' @ c else drop 2 c else c)) = Inr q"
    unfolding normalize_path_def cleaned_def Let_def
    by (simp only: if_False if_distrib[of Inr] if_distribR cong: if_cong)
  then obtain c where c: "cleaned ?s = Inr c"
    and q: "q = (if w \<noteq> startswith c ''./'' then if w then ''./'' @ c else drop 2 c else c)"
    unfolding rbind_eq_Inr by blast
  let ?r = "if startswith c ''./'' then drop 2 c else c"
  have "list_all plain_segment (split_on slash ?r)"
    by (rule cleaned_plain[OF c ne strip_slash_ends[OF ne]])
  moreover have "q = (if w then ''./'' else []) @ join ''/'' (split_on slash ?r)"
    using q startswith_drop[of c "''./''"] by (auto simp: numeral_2_eq_2 split: if_splits)
  ultimately show ?thesis using that(2)[of "split_on slash ?r"] by simp
qed

lemma plain_join_ends:
  assumes "segs \<noteq> []" and "list_all plain_segment segs"
  shows "join ''/'' segs \<noteq> []" and "hd (join ''/'' segs) \<noteq> slash" and "last (join ''/'' segs) \<noteq> slash"
proof -
  have "join ''/'' segs \<noteq> [] \<and> hd (join ''/'' segs) \<noteq> slash \<and> last (join ''/'' segs) \<noteq> slash"
    using assms
  proof (induction segs)
    case (Cons s segs)
    then have s: "s \<noteq> []" "slash \<notin> set s" by (auto simp: plain_segment_def)
    then have "hd s \<noteq> slash" "last s \<noteq> slash" using hd_in_set last_in_set by metis+
    with s Cons show ?case by (cases "segs = []") (auto simp: join_Cons hd_append last_append)
  qed simp
  then show "join ''/'' segs \<noteq> []" and "hd (join ''/'' segs) \<noteq> slash" and "last (join ''/'' segs) \<noteq> slash"
    by simp_all
qed

lemma split_plain_join:
  "segs \<noteq> [] \<Longrightarrow> list_all plain_segment segs \<Longrightarrow> split_on slash (join ''/'' segs) = segs"
  by (rule split_on_join) (auto simp: list_all_iff plain_segment_def)

lemma canonical_path_iff:
  "canonical_path p \<longleftrightarrow>
     p = ''.'' \<or> (\<exists>segs. segs \<noteq> [] \<and> list_all plain_segment segs \<and> p = ''./'' @ join ''/'' segs)"
proof
  assume c: "canonical_path p"
  show "p = ''.'' \<or> (\<exists>segs. segs \<noteq> [] \<and> list_all plain_segment segs \<and> p = ''./'' @ join ''/'' segs)"
  proof (cases "p = ''.''")
    case False
    with c have "startswith p ''./''" "list_all plain_segment (split_on slash (drop 2 p))"
      by (auto simp: canonical_path_def)
    moreover from this(1) have "p = ''./'' @ join ''/'' (split_on slash (drop 2 p))"
      using startswith_drop[of p "''./''"] by (simp add: numeral_2_eq_2)
    ultimately show ?thesis using split_on_not_Nil by blast
  qed simp
next
  assume "p = ''.'' \<or> (\<exists>segs. segs \<noteq> [] \<and> list_all plain_segment segs \<and> p = ''./'' @ join ''/'' segs)"
  then show "canonical_path p" using split_plain_join by (auto simp: canonical_path_def)
qed

lemma no_double_slash: "[] \<notin> set (split_on c s) \<Longrightarrow> \<not> infix_of [c, c] s"
proof
  assume e: "[] \<notin> set (split_on c s)" and "infix_of [c, c] s"
  then obtain a b where "s = a @ [c, c] @ b" by (auto simp: infix_of_iff)
  then have "split_on c s = split_on c a @ [] # split_on c b"
    using split_on_append_sep[of c a "c # b"] by simp
  with e show False by simp
qed

lemma canonical_not_pruned:
  assumes "segs \<noteq> []" and "list_all plain_segment segs"
  shows "slash_prune (''./'' @ join ''/'' segs) = ''./'' @ join ''/'' segs"
proof -
  have "split_on slash (''./'' @ join ''/'' segs) = ''.'' # segs"
    using split_plain_join[OF assms] by simp
  moreover have "[] \<notin> set segs" using assms(2) by (auto simp: list_all_iff plain_segment_def)
  ultimately show ?thesis by (intro slash_prune_id no_double_slash) auto
qed

lemma clean_path_canonical:
  assumes segs: "segs \<noteq> []" "list_all plain_segment segs"
  shows "clean_path (''./'' @ join ''/'' segs) = Inr (''./'' @ join ''/'' segs)"
proof -
  have "x \<noteq> ''.'' \<and> x \<noteq> ''..''" if "x \<in> set segs" for x
    using segs(2) that by (auto simp: list_all_iff plain_segment_def)
  then show ?thesis
    using canonical_not_pruned[OF segs] split_plain_join[OF segs] plain_join_ends(1)[OF segs]
    unfolding clean_path_def Let_def by auto
qed

lemma normalize_no_prefix:
  assumes segs: "segs \<noteq> []" "list_all plain_segment segs"
  shows "normalize_path (''./'' @ join ''/'' segs) False = Inr (join ''/'' segs)"
proof -
  let ?q = "''./'' @ join ''/'' segs"
  have "last ?q \<noteq> slash" "hd ?q \<noteq> slash" using plain_join_ends[OF segs] by auto
  then have s: "strip (\<lambda>c. c = slash) ?q = ?q" by (intro strip_id) auto
  show ?thesis
    using s clean_path_canonical[OF segs] plain_join_ends(1)[OF segs] by (simp add: normalize_path_def)
qed

lemma normalize_canonical:
  assumes "canonical_path q"
  shows "normalize_path q True = Inr q"
proof (cases "q = ''.''")
  case True
  then show ?thesis by (simp add: normalize_path_def strip_id)
next
  case False
  with assms obtain segs where segs: "segs \<noteq> []" "list_all plain_segment segs"
    and q: "q = ''./'' @ join ''/'' segs" by (auto simp: canonical_path_iff)
  have ends: "last q \<noteq> slash" "hd q \<noteq> slash" using plain_join_ends[OF segs] q by auto
  then have s: "strip (\<lambda>c. c = slash) q = q" by (intro strip_id) auto
  have "clean_path q = Inr q" unfolding q using segs by (rule clean_path_canonical)
  with s q plain_join_ends(1)[OF segs] show ?thesis by (simp add: normalize_path_def)
qed

subsection \<open>What a link points to\<close>

text \<open>
  The segments of the directory entry that \<open>t\<close>, read as a symlink target in the directory with the
  segments \<open>dir\<close>, names: absolute targets start at the root, \<^verbatim>\<open>..\<close> steps up and stops at the root.
\<close>

definition resolve_link :: "string list \<Rightarrow> string \<Rightarrow> string list" where
  "resolve_link dir t = link_segments (split_on slash t) (if startswith t ''/'' then [] else dir)"

lemma link_segments_append: "link_segments (as @ bs) r = link_segments bs (link_segments as r)"
  by (induction as r rule: link_segments.induct) auto

lemma link_segments_nonempty: "link_segments (filter (\<lambda>s. s \<noteq> []) segs) r = link_segments segs r"
  by (induction segs r rule: link_segments.induct) auto

lemma link_segments_plain: "list_all plain_segment segs \<Longrightarrow> link_segments segs r = r @ segs"
  by (induction segs arbitrary: r) (auto simp: plain_segment_def)

lemma link_segments_up: "u \<le> length r \<Longrightarrow> link_segments (replicate u ''..'') r = take (length r - u) r"
proof (induction u arbitrary: r)
  case (Suc u)
  then show ?case by (simp add: butlast_conv_take)
qed simp

lemma link_segments_wf:
  assumes "list_all plain_segment r" and "\<forall>s \<in> set segs. slash \<notin> set s"
  shows "list_all plain_segment (link_segments segs r)"
  using assms
proof (induction segs r rule: link_segments.induct)
  case (2 segment segs result)
  have "list_all plain_segment (butlast result)"
    using 2(4) by (auto simp: list_all_iff dest: in_set_butlastD)
  moreover have "plain_segment segment" if "segment \<noteq> []" "segment \<noteq> ''.''" "segment \<noteq> ''..''"
    using 2(5) that by (simp add: plain_segment_def)
  ultimately show ?case using 2 by simp
qed simp

lemma filter_hd_tl:
  "xs \<noteq> [] \<Longrightarrow> ys \<noteq> [] \<Longrightarrow> hd xs = hd ys \<Longrightarrow> filter P (tl xs) = filter P (tl ys) \<Longrightarrow>
   filter P xs = filter P ys"
  by (cases xs; cases ys) auto

lemma split_prune:
  "hd (split_on slash (slash_prune s)) = hd (split_on slash s) \<and>
   filter (\<lambda>s. s \<noteq> []) (tl (split_on slash (slash_prune s))) = filter (\<lambda>s. s \<noteq> []) (tl (split_on slash s))"
proof (induction s rule: slash_prune.induct)
  case (1 x y s)
  show ?case
  proof (cases "x = slash \<and> y = slash")
    case True
    with 1(1) show ?thesis by auto
  next
    case False
    with 1(2) have IH: "hd (split_on slash (slash_prune (y # s))) = hd (split_on slash (y # s))"
      "filter (\<lambda>s. s \<noteq> []) (tl (split_on slash (slash_prune (y # s)))) =
       filter (\<lambda>s. s \<noteq> []) (tl (split_on slash (y # s)))" by blast+
    then have f: "filter (\<lambda>s. s \<noteq> []) (split_on slash (slash_prune (y # s))) =
       filter (\<lambda>s. s \<noteq> []) (split_on slash (y # s))"
      by (rule filter_hd_tl[OF split_on_not_Nil split_on_not_Nil])
    have p: "slash_prune (x # y # s) = x # slash_prune (y # s)" using False by simp
    have sp: "split_on slash (x # z) =
        (if x = slash then [] # split_on slash z
         else (x # hd (split_on slash z)) # tl (split_on slash z))" for z
      by (cases "split_on slash z") auto
    show ?thesis using IH f unfolding p sp[of "slash_prune (y # s)"] sp[of "y # s"] by simp
  qed
qed auto

lemma link_segments_prune:
  "link_segments (split_on slash (slash_prune s)) r = link_segments (split_on slash s) r"
proof -
  have "filter (\<lambda>s. s \<noteq> []) (split_on slash (slash_prune s)) = filter (\<lambda>s. s \<noteq> []) (split_on slash s)"
    by (rule filter_hd_tl) (simp_all add: split_prune)
  then have "link_segments (filter (\<lambda>s. s \<noteq> []) (split_on slash (slash_prune s))) r =
      link_segments (filter (\<lambda>s. s \<noteq> []) (split_on slash s)) r" by (rule arg_cong)
  then show ?thesis unfolding link_segments_nonempty .
qed

lemma link_segments_lstrip:
  "link_segments (split_on slash (lstrip (\<lambda>c. c = slash) s)) r = link_segments (split_on slash s) r"
  by (induction s) (auto simp: lstrip_def)

lemma normalize_link_target_segments:
  "normalize_link_target t = join ''/'' (link_segments (split_on slash t) [])"
  by (simp add: normalize_link_target_def link_segments_prune link_segments_lstrip)

lemma common_segments_bounds:
  assumes "n \<le> min (length ts) (length ls)" and "take n ts = take n ls"
  shows "n \<le> common_segments ts ls n \<and> common_segments ts ls n \<le> min (length ts) (length ls)
    \<and> take (common_segments ts ls n) ts = take (common_segments ts ls n) ls"
  using assms
proof (induction ts ls n rule: common_segments.induct)
  case (1 ts ls n)
  show ?case
  proof (cases "n < min (length ts) (length ls) \<and> ts ! n = ls ! n")
    case True
    then have "take (Suc n) ts = take (Suc n) ls"
      using "1.prems"(2) by (auto simp: take_Suc_conv_app_nth)
    with True "1.IH" show ?thesis by (subst (1 2 3 4) common_segments.simps) simp
  next
    case False
    then have "common_segments ts ls n = n" by (subst common_segments.simps) auto
    with "1.prems" show ?thesis by simp
  qed
qed

lemma rstrip_up_dirs:
  assumes "0 < u"
  shows "rstrip (\<lambda>c. c = slash) (concat (replicate u ''../'')) = join ''/'' (replicate u ''..'')"
proof -
  have j: "concat (replicate (Suc u) ''../'') = join ''/'' (replicate (Suc u) ''..'') @ [slash]" for u
    by (induction u) auto
  have l: "last (join ''/'' (replicate (Suc u) ''..'')) = dot \<and> join ''/'' (replicate (Suc u) ''..'') \<noteq> []" for u
    by (induction u) auto
  from assms obtain v where u: "u = Suc v" by (cases u) auto
  show ?thesis unfolding u j using l[of v] by (simp only: rstrip_snoc) (simp add: rstrip_id)
qed

text \<open>The relative target is \<^verbatim>\<open>..\<close> as often as needed, then the rest of the target.\<close>

lemma policy_relative_form:
  fixes dir :: "string list"
  assumes ls: "ls = dir @ [name]" and ne: "ts \<noteq> []" and hd: "hd ls = hd ts"
    and np: "\<not> prefix ls ts"
  obtains m where "m \<le> length dir" "take m ts = take m dir" "0 < m" "m \<le> length ts"
    "policy_relative_target ls ts =
       (if ts = dir then ''.'' else join ''/'' (replicate (length dir - m) ''..'' @ drop m ts))"
    "ts \<noteq> dir \<Longrightarrow> replicate (length dir - m) ''..'' @ drop m ts \<noteq> []"
proof -
  define m where "m = common_segments ts ls 1"
  have "ls \<noteq> []" using ls by simp
  then have "take 1 ts = take 1 ls" using ne hd by (cases ls; cases ts) auto
  moreover have "1 \<le> min (length ts) (length ls)" using ls ne by (cases ts) auto
  ultimately have m: "1 \<le> m" "m \<le> length ts" "m \<le> length ls" "take m ts = take m ls"
    using common_segments_bounds[of 1 ts ls] unfolding m_def by auto
  have "m \<noteq> length ls" using m(4) np by (metis take_all_iff order_refl take_is_prefix)
  with m ls have md: "m \<le> length dir" by auto
  with m ls have td: "take m ts = take m dir" by simp
  have nd: "m = min (length ts) (length ls) \<and> int (length ls) - 1 = int (length ts) \<longleftrightarrow> ts = dir"
  proof
    assume "m = min (length ts) (length ls) \<and> int (length ls) - 1 = int (length ts)"
    with ls td show "ts = dir" by auto
  next
    assume d: "ts = dir"
    have "m = length dir"
    proof (rule ccontr)
      assume "m \<noteq> length dir"
      with md have lt: "m < length dir" by simp
      have "common_segments dir (dir @ [name]) k = length dir" if "k \<le> length dir" for k
        using that by (induction "length dir - k" arbitrary: k)
          (subst common_segments.simps; force simp: nth_append)+
      from this[of 1] m(1) lt d ls show False unfolding m_def by simp
    qed
    with d ls show "m = min (length ts) (length ls) \<and> int (length ls) - 1 = int (length ts)" by auto
  qed
  have ne2: "replicate (length dir - m) ''..'' @ drop m ts \<noteq> []" if "ts \<noteq> dir"
  proof
    assume "replicate (length dir - m) ''..'' @ drop m ts = []"
    then have "length dir \<le> m" "length ts \<le> m" by auto
    with td md have "ts = dir" by (metis take_all)
    with that show False by simp
  qed
  have up: "int (length ls) - 1 - int m = int (length dir - m)" using ls md by simp
  have "policy_relative_target ls ts =
       (if ts = dir then ''.'' else join ''/'' (replicate (length dir - m) ''..'' @ drop m ts))"
  proof (cases "ts = dir")
    case False
    with nd have f: "\<not> (m = min (length ts) (length ls) \<and> int (length ls) - 1 = int (length ts))"
      by blast
    show ?thesis
    proof (cases "length dir - m = 0")
      case True
      with f False show ?thesis
        unfolding policy_relative_target_def m_def[symmetric] Let_def up by simp
    next
      case c: False
      have "join ''/'' ([join ''/'' (replicate (length dir - m) ''..'')] @ drop m ts) =
          join ''/'' (replicate (length dir - m) ''..'' @ drop m ts)"
        using c by (cases "drop m ts = []") (simp_all add: join_append join_Cons del: drop_eq_Nil)
      with c f False show ?thesis
        unfolding policy_relative_target_def m_def[symmetric] Let_def up nat_int if_not_P[OF f]
        by (simp add: rstrip_up_dirs)
    qed
  next
    case True
    with nd show ?thesis unfolding policy_relative_target_def m_def[symmetric] Let_def by simp
  qed
  with that md td m ne2 show ?thesis by simp
qed

lemma relative_target_resolves:
  assumes "list_all plain_segment ts" and "segs = replicate u ''..'' @ ts" and "segs \<noteq> []"
    and "u \<le> length dir"
  shows "resolve_link dir (join ''/'' segs) = take (length dir - u) dir @ ts"
    and "\<not> startswith (join ''/'' segs) ''/''"
proof -
  have "\<forall>x \<in> set ts. x \<noteq> [] \<and> slash \<notin> set x"
    using assms(1) unfolding list_all_iff plain_segment_def by blast
  then have ns: "\<forall>x \<in> set segs. x \<noteq> [] \<and> slash \<notin> set x"
    unfolding assms(2) set_append ball_Un by simp
  obtain y ys where y: "segs = y # ys" using assms(3) by (cases segs) auto
  with ns have "y \<noteq> []" "slash \<notin> set y" by simp_all
  then obtain c cs where c: "y = c # cs" "c \<noteq> slash" by (cases y) auto
  then show n: "\<not> startswith (join ''/'' segs) ''/''" using y by (simp add: join_Cons)
  have "split_on slash (join ''/'' segs) = segs" using assms(3) ns by (intro split_on_join) auto
  then show "resolve_link dir (join ''/'' segs) = take (length dir - u) dir @ ts"
    using n assms by (simp add: resolve_link_def link_segments_append link_segments_up link_segments_plain)
qed

text \<open>The directory of the link, and the target the code computes for it.\<close>

lemma policy_target_segments:
  assumes "segs \<noteq> []" and "list_all plain_segment segs"
  shows "normalize_link_target
      (if startswith t ''/'' then t else ''/'' @ path_head (join ''/'' segs) @ ''/'' @ t) =
    join ''/'' (resolve_link (butlast segs) t)"
proof (cases "startswith t ''/''")
  case True
  then show ?thesis by (simp add: normalize_link_target_segments resolve_link_def)
next
  case False
  let ?d = "butlast segs"
  have pl: "list_all plain_segment ?d" using assms(2) by (auto simp: list_all_iff dest: in_set_butlastD)
  have lastp: "slash \<notin> set (last segs)"
    using assms by (auto simp: list_all_iff plain_segment_def)
  have segs: "segs = ?d @ [last segs]" using assms(1) by simp
  have h: "path_head (join ''/'' segs) = join ''/'' ?d"
  proof (cases "?d = []")
    case True
    then have "join ''/'' segs = last segs" using segs by (metis append_Nil join.simps(2))
    with True lastp show ?thesis by (simp add: path_head_plain)
  next
    case False
    have "join ''/'' segs = join ''/'' ?d @ slash # last segs"
      using join_append[of ?d "[last segs]" "''/''"] False segs by simp
    then show ?thesis
      using path_head_append[OF lastp plain_join_ends(1)[OF False pl] plain_join_ends(3)[OF False pl]]
      by simp
  qed
  have "link_segments (split_on slash (join ''/'' ?d)) [] = ?d"
    using pl by (cases "?d = []") (simp_all add: split_plain_join link_segments_plain)
  then show ?thesis
    using False unfolding h
    by (simp add: normalize_link_target_segments resolve_link_def split_on_append_sep link_segments_append)
qed

lemma resolve_link_plain:
  "list_all plain_segment dir \<Longrightarrow> list_all plain_segment (resolve_link dir t)"
  unfolding resolve_link_def by (rule link_segments_wf) (auto dest: split_on_no_sep)

definition policy_link_path :: "string \<Rightarrow> bool \<Rightarrow> string res" where
  "policy_link_path p n =
     (if n then normalize_path p True else if startswith p ''./'' then Inr p else Inl ValueError)"

lemma policy_symlink_target_eq:
  fixes t :: string
  assumes "policy_link_path p n = Inr (''./'' @ join ''/'' segs)" and "segs \<noteq> []"
    and "list_all plain_segment segs"
  defines "ts \<equiv> resolve_link (butlast segs) t"
  shows "policy_symlink_target p t n =
    Inr (if ts \<noteq> [] \<and> hd segs = hd ts then policy_relative_target segs ts else ''/'' @ join ''/'' ts)"
proof -
  have "list_all plain_segment (butlast segs)"
    using assms(3) by (auto simp: list_all_iff dest: in_set_butlastD)
  then have ts: "list_all plain_segment ts" unfolding ts_def by (rule resolve_link_plain)
  have f: "filter (\<lambda>s. s \<noteq> ''.'') (split_on slash (join ''/'' ts)) = (if ts = [] then [[]] else ts)"
  proof (cases "ts = []")
    case False
    with ts show ?thesis by (simp add: split_plain_join plain_segment_def list_all_iff)
  qed simp
  have hd: "hd segs \<noteq> []" using assms(2,3) by (cases segs) (auto simp: plain_segment_def)
  have d: "drop 2 (''./'' @ join ''/'' segs) = join ''/'' segs" by simp
  show ?thesis
    using hd
    unfolding policy_symlink_target_def policy_link_path_def[symmetric] assms(1) rbind_Inr Let_def d
      policy_target_segments[OF assms(2,3), of t, folded ts_def] f split_plain_join[OF assms(2,3)]
    by (cases "ts = []") simp_all
qed

lemma canonical_segs:
  assumes "canonical_path l" and "l \<noteq> ''.''"
  obtains segs where "segs \<noteq> []" "list_all plain_segment segs" "l = ''./'' @ join ''/'' segs"
    "split_on slash (drop 2 l) = segs"
  using assms split_plain_join unfolding canonical_path_iff by force

subsection \<open>Properties\<close>

text \<open>C6: a path that \<^verbatim>\<open>_normalize_path\<close> accepts comes out canonical: either the root \<^verbatim>\<open>.\<close> or \<^verbatim>\<open>./\<close>
  followed by segments none of which is empty, \<^verbatim>\<open>.\<close>, \<^verbatim>\<open>..\<close> or contains a slash; and normalising a
  normalised path changes nothing, so a package path has one spelling.\<close>

theorem normalize_path_canonical:
  assumes "normalize_path p True = Inr q"
  shows "canonical_path q \<and> normalize_path q True = Inr q"
proof -
  from assms have "canonical_path q"
    by (rule normalize_path_cases) (auto simp: canonical_path_iff)
  then show ?thesis using normalize_canonical by blast
qed

lemma normalize_path_canonical_witness:
  "canonical_path ''./usr/share'' \<and> normalize_path ''./usr/share'' True = Inr ''./usr/share''"
proof (rule normalize_path_canonical)
  show "normalize_path ''/usr//share/'' True = Inr ''./usr/share''" by code_simp
qed

text \<open>C7: rewriting the target of a symlink for Debian Policy keeps what the link points to, and the
  rewritten target is absolute exactly when the link and its target are in different top-level
  directories (Policy 10.5).  The link must not be an ancestor of its own target.\<close>

theorem policy_symlink_target_same:
  fixes p t l r :: string
  assumes "policy_link_path p n = Inr l" and "canonical_path l" and "l \<noteq> ''.''"
    and "policy_symlink_target p t n = Inr r"
  defines "link \<equiv> split_on slash (drop 2 l)"
  defines "ts \<equiv> resolve_link (butlast link) t"
  assumes "\<not> prefix link ts"
  shows "resolve_link (butlast link) r = ts \<and>
    (startswith r ''/'' \<longleftrightarrow> ts = [] \<or> hd link \<noteq> hd ts)"
proof -
  obtain segs where segs: "segs \<noteq> []" "list_all plain_segment segs" and l: "l = ''./'' @ join ''/'' segs"
    and link: "link = segs"
    using canonical_segs[OF assms(2,3)] unfolding link_def by metis
  have pd: "list_all plain_segment (butlast segs)"
    using segs(2) by (auto simp: list_all_iff dest: in_set_butlastD)
  have pt: "list_all plain_segment ts" unfolding ts_def link by (rule resolve_link_plain[OF pd])
  note eq = policy_symlink_target_eq[OF assms(1)[unfolded l] segs, of t, folded link, folded ts_def]
  show ?thesis
  proof (cases "ts \<noteq> [] \<and> hd link = hd ts")
    case True
    have lk: "link = butlast link @ [last link]" using segs(1) link by simp
    obtain m where m: "m \<le> length (butlast link)" "take m ts = take m (butlast link)" "m \<le> length ts"
      and r: "policy_relative_target link ts = (if ts = butlast link then ''.''
        else join ''/'' (replicate (length (butlast link) - m) ''..'' @ drop m ts))"
      and ne: "ts \<noteq> butlast link \<Longrightarrow> replicate (length (butlast link) - m) ''..'' @ drop m ts \<noteq> []"
      using policy_relative_form[OF lk _ _ assms(7)] True by metis
    from eq True assms(4) r have req: "r = (if ts = butlast link then ''.''
        else join ''/'' (replicate (length (butlast link) - m) ''..'' @ drop m ts))" by simp
    show ?thesis
    proof (cases "ts = butlast link")
      case True
      with req \<open>ts \<noteq> [] \<and> hd link = hd ts\<close> show ?thesis by (simp add: resolve_link_def)
    next
      case False
      have "list_all plain_segment (drop m ts)"
        using pt by (auto simp: list_all_iff dest: in_set_dropD)
      note rr = relative_target_resolves[OF this refl ne[OF False], of "butlast link"]
      have "take (length (butlast link) - (length (butlast link) - m)) (butlast link) @ drop m ts = ts"
        using m by (metis append_take_drop_id diff_diff_cancel)
      with rr req False \<open>ts \<noteq> [] \<and> hd link = hd ts\<close> show ?thesis by simp
    qed
  next
    case False
    with eq assms(4) have r: "r = ''/'' @ join ''/'' ts" by auto
    have "resolve_link (butlast link) r = ts"
      using pt unfolding r
      by (cases "ts = []") (simp_all add: resolve_link_def split_plain_join link_segments_plain)
    with r False show ?thesis by auto
  qed
qed

lemma policy_symlink_target_same_witness:
  "resolve_link (butlast (split_on slash (drop 2 ''./usr/lib/x''))) ''../share/a'' =
     resolve_link (butlast (split_on slash (drop 2 ''./usr/lib/x''))) ''/usr/share/a'' \<and>
   (startswith ''../share/a'' ''/'' \<longleftrightarrow>
     resolve_link (butlast (split_on slash (drop 2 ''./usr/lib/x''))) ''/usr/share/a'' = [] \<or>
     hd (split_on slash (drop 2 ''./usr/lib/x'')) \<noteq>
     hd (resolve_link (butlast (split_on slash (drop 2 ''./usr/lib/x''))) ''/usr/share/a''))"
  by (rule policy_symlink_target_same[where p = "''usr/lib/x''" and n = True]) code_simp+

text \<open>A link whose target lies below the link itself: the number of \<^verbatim>\<open>..\<close> is then -1, which is
  truthy, so an empty part is prepended and the target comes out absolute and wrong.\<close>

lemma policy_symlink_target_below:
  "policy_symlink_target ''./usr/a'' ''/usr/a/b'' False = Inr ''/b''"
  by code_simp

end
