(* ===== verification/VirtFsProps.thy ===== *)
theory VirtFsProps
  imports VirtFsInv PathUtil
begin

section \<open>The virtual file system: what a user of it can rely on\<close>

text \<open>
  The calls that plugins and the installation code make, as a step relation, with the invariant, the
  read-only guarantee, what unlinking does, and that a path is found under its own name.
\<close>

subsection \<open>Calls\<close>

datatype fs_call =
    Mkdir nat string "reference_path option"
  | Mkdirs nat string
  | AddSymlink nat string string "reference_path option"
  | AddFile nat string bool bool int "int option" string
  | InsertFile nat string string string bool bool bool int bool bool "reference_path option"
  | Unlink nat bool
  | PruneIfEmptyDir nat
  | SetName nat string
  | SetParentDir nat nat
  | SetMode nat int
  | Chown nat "(string \<times> int) option" "(string \<times> int) option"
  | SetMtime nat int

fun run_call :: "fs_call \<Rightarrow> fs \<Rightarrow> fs res" where
  "run_call (Mkdir i nm r) fs = rmap fst (mkdir fs i nm r)"
| "run_call (Mkdirs i p) fs = rmap fst (mkdirs fs i p)"
| "run_call (AddSymlink i nm t r) fs = rmap fst (add_symlink fs i nm t r)"
| "run_call (AddFile i nm u usem m t p) fs = rmap fst (add_file fs i nm u usem m t p (\<lambda>fs c. Inr fs) True)"
| "run_call (InsertFile i nm p res reg ex usem m cow fol r) fs =
     rmap fst (insert_file_from_fs_path fs i nm p res reg ex usem m cow fol r)"
| "run_call (Unlink i rec) fs = unlink fs i rec"
| "run_call (PruneIfEmptyDir i) fs = prune_if_empty_dir fs i"
| "run_call (SetName i nm) fs = set_name fs i nm"
| "run_call (SetParentDir i p) fs = set_parent fs i p"
| "run_call (SetMode i m) fs = set_mode fs i m"
| "run_call (Chown i a b) fs = chown fs i a b"
| "run_call (SetMtime i t) fs = set_mtime fs i t"

text \<open>The path a call is made on, and for a move also the new parent.\<close>

fun call_paths :: "fs_call \<Rightarrow> nat list" where
  "call_paths (Mkdir i _ _) = [i]"
| "call_paths (Mkdirs i _) = [i]"
| "call_paths (AddSymlink i _ _ _) = [i]"
| "call_paths (AddFile i _ _ _ _ _ _) = [i]"
| "call_paths (InsertFile i _ _ _ _ _ _ _ _ _ _) = [i]"
| "call_paths (Unlink i _) = [i]"
| "call_paths (PruneIfEmptyDir i) = [i]"
| "call_paths (SetName i _) = [i]"
| "call_paths (SetParentDir i p) = [i, p]"
| "call_paths (SetMode i _) = [i]"
| "call_paths (Chown i _ _) = [i]"
| "call_paths (SetMtime i _) = [i]"

text \<open>The calls are made on paths of the tree (not on detached ones).\<close>

definition attached_call :: "fs \<Rightarrow> fs_call \<Rightarrow> bool" where
  "attached_call fs c \<longleftrightarrow> (\<forall>i \<in> set (call_paths c). is_detached fs i = Inr False)"

lemma is_detached_Inr: "is_detached fs i = Inr b \<longleftrightarrow> is_detached_opt fs i = Some b"
  by (simp add: is_detached_def returns_def split: option.splits)

lemma run_call_ok:
  assumes wf: "wf_fs fs" and att: "attached_call fs c" and ok: "run_call c fs = Inr fs'"
  shows "fs_unchanged_or_ok fs fs'"
proof (cases c)
  case (Mkdir i nm r)
  with att ok show ?thesis using mkdir_ok(1)[OF wf, of i nm r fs']
    by (auto simp: attached_call_def is_detached_Inr res_simps fs_unchanged_or_ok_def)
next
  case (Mkdirs i p)
  with att ok show ?thesis using mkdirs_ok(1)[OF wf, of i p fs']
    by (auto simp: attached_call_def is_detached_Inr res_simps)
next
  case (AddSymlink i nm t r)
  with att ok show ?thesis using add_symlink_ok[OF wf, of i nm t r fs']
    by (auto simp: attached_call_def is_detached_Inr res_simps fs_unchanged_or_ok_def)
next
  case (AddFile i nm u usem m t p)
  have "\<And>fs1 fs2 c. wf_fs fs1 \<Longrightarrow> fs_read_write fs1 \<Longrightarrow> is_detached_opt fs1 c = Some False \<Longrightarrow> Inr fs1 = (Inr fs2 :: fs res) \<Longrightarrow>
      fs_ok fs1 fs2 \<and> is_detached_opt fs2 c = Some False" by (simp add: fs_ok_def)
  with AddFile att ok show ?thesis
    using add_file_ok[OF wf, of i "\<lambda>fs c. Inr fs" nm u usem m t p True fs']
    by (auto simp: attached_call_def is_detached_Inr res_simps fs_unchanged_or_ok_def)
next
  case (InsertFile i nm p res reg ex usem m cow fol r)
  with att ok show ?thesis
    using insert_file_ok[OF wf, of i nm p res reg ex usem m cow fol r fs']
    by (auto simp: attached_call_def is_detached_Inr res_simps fs_unchanged_or_ok_def)
next
  case (Unlink i r)
  then have "unlink fs i r = Inr fs'" "is_detached_opt fs i = Some False"
    using att ok by (simp_all add: attached_call_def is_detached_Inr)
  then show ?thesis using unlink_ok[OF wf] unfolding fs_unchanged_or_ok_def by metis
next
  case (PruneIfEmptyDir i)
  with att ok show ?thesis using prune_ok[OF wf, of i fs']
    by (simp add: attached_call_def is_detached_Inr)
next
  case (SetName i nm)
  with att ok show ?thesis using set_name_ok[OF wf, of i nm fs']
    by (simp add: attached_call_def is_detached_Inr fs_unchanged_or_ok_def)
next
  case (SetParentDir i p)
  with att ok show ?thesis using set_parent_ok[OF wf, of i p fs'] attached_in_range[of fs i]
    by (simp add: attached_call_def is_detached_Inr fs_unchanged_or_ok_def)
next
  case (SetMode i m)
  with att ok show ?thesis using set_mode_ok(1)[OF wf, of i m fs']
    by (simp add: attached_call_def is_detached_Inr fs_unchanged_or_ok_def)
next
  case (Chown i a b)
  with att ok show ?thesis using chown_ok[OF wf, of i a b fs']
    by (simp add: attached_call_def is_detached_Inr fs_unchanged_or_ok_def)
next
  case (SetMtime i t)
  with att ok show ?thesis using set_mtime_ok[OF wf, of i t fs']
    by (simp add: attached_call_def is_detached_Inr fs_unchanged_or_ok_def)
qed

text \<open>The stores that calls on attached paths lead to, from a new root directory.\<close>

inductive reachable_fs :: "fs \<Rightarrow> bool" where
  new: "reachable_fs (new_root_dir fs_path)"
| call: "reachable_fs fs \<Longrightarrow> attached_call fs c \<Longrightarrow> run_call c fs = Inr fs' \<Longrightarrow> reachable_fs fs'"
| freeze: "reachable_fs fs \<Longrightarrow> reachable_fs (fs\<lparr>fs_read_write := rw\<rparr>)"

lemma wf_new_root: "wf_fs (new_root_dir fs_path)"
proof (rule wf_fsI)
  let ?fs = "new_root_dir fs_path"
  have n: "node ?fs i = (if i = 0 then fs_path_init ''.'' (Some []) (FSRootDir fs_path) o755 None else no_node)" for i
    by (simp add: node_def new_root_dir_def)
  show "is_root ?fs i \<longleftrightarrow> i = 0" for i by (simp add: is_root_def n)
  then show "is_detached_opt ?fs i \<noteq> None" for i
    using det_root[of ?fs i] det_orphan[of ?fs i] by (cases "i = 0") (simp_all add: n)
qed (simp_all add: new_root_dir_def node_def kids_def split: if_splits)

lemma wf_freeze:
  assumes "wf_fs fs"
  shows "wf_fs (fs\<lparr>fs_read_write := rw\<rparr>)"
  by (rule same_tree_wf[OF _ assms]) (simp add: same_tree_def node_def kids_def)

lemma reachable_wf: "reachable_fs fs \<Longrightarrow> wf_fs fs"
proof (induction rule: reachable_fs.induct)
  case (call fs c fs')
  then have "fs_unchanged_or_ok fs fs'" using run_call_ok by blast
  with call.IH show ?case by (auto simp: fs_unchanged_or_ok_def fs_ok_def)
qed (simp_all add: wf_new_root wf_freeze)


definition demo_fs :: fs where
  "demo_fs = projr (rbind (run_call (Mkdirs 0 ''usr/share'') (new_root_dir None))
                          (run_call (AddSymlink 1 ''lnk'' ''share'' None)))"

lemma demo_fs_reachable: "reachable_fs demo_fs"
proof -
  obtain fs1 where fs1: "run_call (Mkdirs 0 ''usr/share'') (new_root_dir None) = Inr fs1"
    "attached_call fs1 (AddSymlink 1 ''lnk'' ''share'' None)"
    "run_call (AddSymlink 1 ''lnk'' ''share'' None) fs1 = Inr demo_fs"
  proof (rule that[of "projr (run_call (Mkdirs 0 ''usr/share'') (new_root_dir None))"])
  qed code_simp+
  have "attached_call (new_root_dir None) (Mkdirs 0 ''usr/share'')" by code_simp
  with fs1 reachable_fs.intros show ?thesis by blast
qed


text \<open>C2: the read-only guarantee: once \<^verbatim>\<open>is_read_write\<close> of the root is off, a call on attached paths
  either raises or leaves the store as it was.\<close>

theorem read_only_fs_unchanged:
  assumes "reachable_fs fs" and "\<not> fs_read_write fs" and "attached_call fs c"
    and "run_call c fs = Inr fs'"
  shows "fs' = fs"
proof -
  have "wf_fs fs" using assms(1) by (rule reachable_wf)
  then have "fs_unchanged_or_ok fs fs'" using run_call_ok assms(3,4) by blast
  with assms(2) show ?thesis by (simp add: fs_unchanged_or_ok_def fs_ok_def)
qed

lemma read_only_fs_unchanged_witness:
  "projr (run_call (Mkdirs 0 ''usr/share'') (demo_fs\<lparr>fs_read_write := False\<rparr>)) = demo_fs\<lparr>fs_read_write := False\<rparr>"
proof (rule read_only_fs_unchanged)
  show "reachable_fs (demo_fs\<lparr>fs_read_write := False\<rparr>)"
    using demo_fs_reachable by (rule reachable_fs.freeze)
  show "attached_call (demo_fs\<lparr>fs_read_write := False\<rparr>) (Mkdirs 0 ''usr/share'')" by code_simp
qed code_simp+

subsection \<open>Unlinking\<close>

lemma filter_entries:
  assumes "\<And>kc. kc \<in> set xs \<Longrightarrow> (fst kc = k) = (snd kc = i)"
  shows "map snd (filter (\<lambda>kc. k \<noteq> fst kc) xs) = filter (\<lambda>c. c \<noteq> i) (map snd xs)"
  using assms by (induction xs) auto

text \<open>C3: unlinking a path detaches it with everything below it and nothing else, takes exactly it
  out of the directory listings, and without \<^verbatim>\<open>recursive\<close> happens only to an empty directory or a
  non-directory.  The root cannot be unlinked.\<close>

theorem unlink_detaches_subtree:
  assumes "wf_fs fs" and "is_detached fs i = Inr False" and "unlink fs i r = Inr fs'"
  shows "(\<forall>j b. is_detached fs j = Inr b \<longrightarrow> is_detached fs' j = Inr (b \<or> below fs i j))
    \<and> (\<forall>j. iterdir fs' j = filter (\<lambda>c. c \<noteq> i) (iterdir fs j))
    \<and> (r \<or> iterdir fs i = []) \<and> i \<noteq> 0"
proof -
  have att: "is_detached_opt fs i = Some False" using assms(2) by (simp add: is_detached_Inr)
  show ?thesis
  proof (rule unlink_ok[OF assms(1) att assms(3)])
    fix p
    assume p: "n_parent (node fs i) = Some p" and d: "detaches fs fs' i p" and r: "r \<or> kids fs i = []"
      and ok: "fs_ok fs fs'" and i0: "i \<noteq> 0"
    have rp: "reparented fs fs' i" using d by (simp add: reparented_def detaches_def is_root_def)
    have ri: "\<not> is_root fs' i" using wf_root[of fs' i] ok i0 by (simp add: fs_ok_def)
    have pi: "n_parent (node fs' i) = None" using d by (simp add: detaches_def)
    have "is_detached_opt fs' j = Some (b \<or> below fs i j)" if "is_detached_opt fs j = Some b" for j b
      using det_below[OF rp that] det_not_below[OF rp that] det_orphan[OF ri pi]
      by (cases "below fs i j"; cases b) simp_all
    moreover have "iterdir fs' j = filter (\<lambda>c. c \<noteq> i) (iterdir fs j)" for j
    proof (cases "j = p")
      case True
      have m: "map_of (kids fs p) (n_name (node fs i)) = Some i" using wf_parent[OF assms(1) p] by simp
      have "(fst kc = n_name (node fs i)) = (snd kc = i)" if "kc \<in> set (kids fs p)" for kc
      proof -
        have kc: "(fst kc, snd kc) \<in> set (kids fs p)" using that by simp
        then have "map_of (kids fs p) (fst kc) = Some (snd kc)"
          using wf_distinct[OF assms(1)] by (rule map_of_is_SomeI[rotated])
        with m wf_kid[OF assms(1) kc] show ?thesis by auto
      qed
      then have "map snd (filter (\<lambda>kc. n_name (node fs i) \<noteq> fst kc) (kids fs p)) =
          filter (\<lambda>c. c \<noteq> i) (map snd (kids fs p))"
        by (rule filter_entries)
      with True d show ?thesis
        by (simp add: iterdir_kids detaches_def AList.delete_eq case_prod_beta')
    next
      case False
      have "i \<notin> set (map snd (kids fs j))"
        using wf_kid[OF assms(1)] p False by fastforce
      then have "filter (\<lambda>c. c \<noteq> i) (map snd (kids fs j)) = map snd (kids fs j)"
        by (intro filter_True) auto
      with False d show ?thesis by (simp add: iterdir_kids detaches_def)
    qed
    ultimately show ?thesis using r i0 by (auto simp: is_detached_Inr iterdir_kids)
  qed
qed

lemma unlink_detaches_subtree_witness:
  "iterdir (projr (unlink demo_fs 2 False)) 1 = filter (\<lambda>c. c \<noteq> 2) (iterdir demo_fs 1)"
proof -
  have "is_detached demo_fs 2 = Inr False" by code_simp
  moreover have "unlink demo_fs 2 False = Inr (projr (unlink demo_fs 2 False))" by code_simp
  ultimately show ?thesis
    using unlink_detaches_subtree[OF reachable_wf[OF demo_fs_reachable], of 2 False] by blast
qed

subsection \<open>Looking up a path's own name\<close>

definition tree_names :: "fs \<Rightarrow> bool" where
  "tree_names fs \<longleftrightarrow>
     n_name (node fs 0) = ''.'' \<and>
     (\<forall>i \<in> set [0..<length (nodes fs)]. i \<noteq> 0 \<longrightarrow> plain_segment (n_name (node fs i)))"

lemma path_root: "is_root fs i \<Longrightarrow> path fs i = Inr (n_name (node fs i))"
  by (simp add: path_def returns_def path_opt.simps[of fs i])

lemma path_opt_det: "is_detached_opt fs i = Some b \<Longrightarrow> path_opt fs i \<noteq> None"
proof (induction rule: det_induct)
  case (child i p b)
  then show ?case
    by (cases b) (auto simp: path_opt.simps[of fs i] is_detached_opt.simps[of fs i])
qed (simp_all add: path_opt.simps is_detached_opt.simps)

lemma path_child:
  assumes "is_detached_opt fs i = Some False" and "\<not> is_root fs i" and "n_parent (node fs i) = Some p"
  shows "path fs i = rmap (\<lambda>pp. path_join pp (n_name (node fs i))) (path fs p)"
proof -
  have "is_detached_opt fs p = Some False" using assms det_child by simp
  then obtain r where "path_opt fs p = Some r" using path_opt_det by blast
  with assms show ?thesis
    by (simp add: path_def returns_def path_opt.simps[of fs i])
qed

lemma dot_join_ends:
  assumes "list_all plain_segment ns"
  shows "join ''/'' (''.'' # ns) \<noteq> [] \<and> last (join ''/'' (''.'' # ns)) \<noteq> slash
    \<and> hd (join ''/'' (''.'' # ns)) = dot"
  using assms plain_join_ends[of ns] by (cases "ns = []") (simp_all add: join_Cons)

lemma path_join_segment:
  assumes "list_all plain_segment ns" and "plain_segment n"
  shows "path_join (join ''/'' (''.'' # ns)) n = join ''/'' (''.'' # (ns @ [n]))"
proof -
  have "\<not> startswith n ''/''" using assms(2) by (cases n) (auto simp: plain_segment_def)
  moreover have "join ''/'' ((''.'' # ns) @ [n]) = join ''/'' (''.'' # ns) @ ''/'' @ n"
    by (subst join_append) simp_all
  ultimately show ?thesis
    using dot_join_ends[OF assms(1)] by (simp add: path_join_def endswith_single)
qed

lemma attached_path:
  assumes wf: "wf_fs fs" and nm: "tree_names fs"
  shows "is_detached_opt fs i = Some b \<Longrightarrow> b = False \<Longrightarrow>
    \<exists>ns. list_all plain_segment ns \<and> path fs i = Inr (join ''/'' (''.'' # ns)) \<and>
      (\<forall>mbd rest exps. rest = [] \<or> is_dir fs i \<longrightarrow>
        lookup_loop fs mbd 0 (ns @ rest) exps = lookup_loop fs mbd i rest exps)"
proof (induction rule: det_induct)
  case (root i)
  then have "i = 0" using wf_root[OF wf] by simp
  moreover from root have "path fs i = Inr (join ''/'' (''.'' # []))"
    using path_root[OF root(1)] nm \<open>i = 0\<close> by (simp add: tree_names_def)
  ultimately show ?case by (intro exI[of _ "[]"]) simp
next
  case (child i p b)
  then obtain ns where ns: "list_all plain_segment ns" "path fs p = Inr (join ''/'' (''.'' # ns))"
    and l: "\<And>mbd rest exps. rest = [] \<or> is_dir fs p \<Longrightarrow>
        lookup_loop fs mbd 0 (ns @ rest) exps = lookup_loop fs mbd p rest exps" by blast
  have att: "is_detached_opt fs i = Some False" using child det_child by simp
  have il: "i < length (nodes fs)" using att by (rule attached_in_range)
  have i0: "i \<noteq> 0" using child(1) wf_root[OF wf] by simp
  have plain: "plain_segment (n_name (node fs i))" using nm il i0 by (simp add: tree_names_def)
  note pf = wf_parent[OF wf child(2)]
  have "path fs i = Inr (join ''/'' (''.'' # (ns @ [n_name (node fs i)])))"
    using path_child[OF att child(1,2)] ns path_join_segment[OF ns(1) plain] by simp
  moreover have "lookup_loop fs mbd 0 ((ns @ [n_name (node fs i)]) @ rest) exps = lookup_loop fs mbd i rest exps"
    if r: "rest = [] \<or> is_dir fs i" for mbd rest exps
  proof -
    have "lookup_loop fs mbd 0 (ns @ (n_name (node fs i) # rest)) exps =
        lookup_loop fs mbd p (n_name (node fs i) # rest) exps" using l pf by blast
    also have "\<dots> = lookup_loop fs mbd i rest exps"
    proof -
      have "rest = [] \<or> \<not> is_symlink fs i"
        using r by (auto simp: is_dir_def is_symlink_def split: node_class.splits)
      then show ?thesis
        using plain pf unfolding plain_segment_def by (auto simp: get_child_kids)
    qed
    finally show ?thesis by simp
  qed
  ultimately show ?case using ns(1) plain by (intro exI[of _ "ns @ [n_name (node fs i)]"]) simp
qed simp

text \<open>C4: in a tree with proper names, looking up the path of an attached object finds that object,
  so \<^verbatim>\<open>path\<close> and \<^verbatim>\<open>lookup\<close> are inverse to each other.\<close>

theorem lookup_own_path:
  assumes "wf_fs fs" and "tree_names fs" and "is_detached fs i = Inr False"
  shows "\<exists>p. path fs i = Inr p \<and> lookup_path fs 0 p = Inr (Some i)"
proof -
  have att: "is_detached_opt fs i = Some False" using assms(3) by (simp add: is_detached_Inr)
  obtain ns where ns: "list_all plain_segment ns" "path fs i = Inr (join ''/'' (''.'' # ns))"
    and l: "lookup_loop fs False 0 (ns @ []) [] = lookup_loop fs False i [] []"
    using attached_path[OF assms(1,2) att] by blast
  let ?p = "join ''/'' (''.'' # ns)"
  note e = dot_join_ends[OF ns(1)]
  have "\<not> startswith ?p ''/''" using e by (cases ?p) auto
  moreover have "\<not> endswith ?p ''/''" using e by (simp add: endswith_single)
  moreover have "split_on slash ?p = ''.'' # ns"
    using ns(1) by (intro split_on_join) (auto simp: list_all_iff plain_segment_def)
  ultimately have "split_path ?p = (False, False, ''.'' # ns)"
    using e by (simp add: split_path_def rstrip_id)
  moreover have "is_detached fs 0 = Inr False"
    using wf_root[OF assms(1), of 0] det_root by (simp add: is_detached_Inr)
  ultimately have "attempt_lookup fs 0 ?p = Inr (i, [])"
    using l by (simp add: attempt_lookup_def)
  with ns(2) show ?thesis by (simp add: lookup_path_def)
qed

lemma lookup_own_path_witness:
  "\<exists>p. path demo_fs 3 = Inr p \<and> lookup_path demo_fs 0 p = Inr (Some 3)"
proof (rule lookup_own_path[OF reachable_wf[OF demo_fs_reachable]])
qed code_simp+

subsection \<open>Listing a tree\<close>

lemma all_paths_loop_Nil [simp]: "all_paths_loop fs [] = Some []"
  by (simp add: all_paths_loop.simps)

lemma finite_parent_rel: "wf_fs fs \<Longrightarrow> finite (parent_rel fs)"
proof (rule finite_subset)
  assume wf: "wf_fs fs"
  show "parent_rel fs \<subseteq> {..<length (nodes fs)} \<times> {..<length (nodes fs)}"
  proof
    fix jp
    assume "jp \<in> parent_rel fs"
    then obtain j p where jp: "jp = (j, p)" "n_parent (node fs j) = Some p" by (auto simp: parent_rel_def)
    have "j < length (nodes fs)"
    proof (rule ccontr)
      assume "\<not> j < length (nodes fs)"
      then show False using jp(2) by simp
    qed
    moreover have "p < length (nodes fs)" using wf_parent[OF wf jp(2)] by blast
    ultimately show "jp \<in> {..<length (nodes fs)} \<times> {..<length (nodes fs)}" unfolding jp(1) by blast
  qed
qed simp

lemma acyclic_parent_rel:
  assumes "wf_fs fs"
  shows "acyclic (parent_rel fs)"
proof (rule acyclicI, rule allI, rule notI)
  fix j
  assume "(j, j) \<in> (parent_rel fs)\<^sup>+"
  then obtain p where p: "(j, p) \<in> parent_rel fs" "(p, j) \<in> (parent_rel fs)\<^sup>*"
    by (meson tranclD)
  then show False
    using wf_not_below_parent(1)[OF assms, of j p] by (auto simp: below_def parent_rel_def)
qed

lemma wf_parent_rel: "wf_fs fs \<Longrightarrow> wf (parent_rel fs)"
  using finite_parent_rel acyclic_parent_rel by (rule finite_acyclic_wf)

lemma below_siblings:
  assumes wf: "wf_fs fs" and "n_parent (node fs c) = Some p" and "n_parent (node fs d) = Some p"
    and "below fs c j" and "below fs d j"
  shows "c = d"
proof -
  have nr: "\<not> is_root fs c" "\<not> is_root fs d"
    using assms(2,3) wf_root[OF wf] wf_root_parent[OF wf] by force+
  have sv: "single_valued (parent_rel fs)" by (auto simp: single_valued_def parent_rel_def)
  have "(c, d) \<in> (parent_rel fs)\<^sup>* \<or> (d, c) \<in> (parent_rel fs)\<^sup>*"
    using assms(4,5) single_valued_confluent[OF sv] unfolding below_def by blast
  then have "below fs d c \<or> below fs c d" by (simp add: below_def)
  then have "c = d \<or> below fs d p \<or> below fs c p"
    using below_child[OF nr(1) assms(2), of d] below_child[OF nr(2) assms(3), of c] by blast
  then show ?thesis
    using wf_not_below_parent(1)[OF wf assms(2)] wf_not_below_parent(1)[OF wf assms(3)] by blast
qed

lemma below_via_child:
  assumes "wf_fs fs"
  shows "below fs i j \<longleftrightarrow> j = i \<or> (\<exists>c \<in> set (iterdir fs i). below fs c j)"
proof
  assume b: "below fs i j"
  show "j = i \<or> (\<exists>c \<in> set (iterdir fs i). below fs c j)"
  proof (cases "j = i")
    case False
    with b obtain c where c: "(j, c) \<in> (parent_rel fs)\<^sup>*" "(c, i) \<in> parent_rel fs"
      unfolding below_def by (meson rtranclE)
    then have "n_parent (node fs c) = Some i" by (simp add: parent_rel_def)
    then have "c \<in> set (iterdir fs i)"
      using wf_parent[OF assms] by (force simp: iterdir_kids dest: map_of_SomeD)
    with c show ?thesis by (auto simp: below_def)
  qed simp
next
  assume "j = i \<or> (\<exists>c \<in> set (iterdir fs i). below fs c j)"
  then show "below fs i j"
  proof
    assume "\<exists>c \<in> set (iterdir fs i). below fs c j"
    then obtain c k where c: "(k, c) \<in> set (kids fs i)" "below fs c j" by (auto simp: iterdir_kids)
    then have p: "n_parent (node fs c) = Some i" using wf_kid[OF assms] by blast
    then have "\<not> is_root fs c" using wf_root[OF assms] wf_root_parent[OF assms] by force
    with p have "(c, i) \<in> parent_rel fs" by (simp add: parent_rel_def)
    with c(2) show ?thesis unfolding below_def by (rule rtrancl_into_rtrancl)
  qed simp
qed

text \<open>What the loop of \<^verbatim>\<open>all_paths\<close> yields for the entry on top of the stack.\<close>

definition lists_subtree :: "fs \<Rightarrow> nat \<Rightarrow> nat list \<Rightarrow> bool" where
  "lists_subtree fs i out \<longleftrightarrow>
     (\<forall>rest ro. all_paths_loop fs rest = Some ro \<longrightarrow> all_paths_loop fs (i # rest) = Some (out @ ro))
     \<and> distinct out \<and> set out = {j. below fs i j}"

lemma lists_children:
  assumes wf: "wf_fs fs" and "\<forall>c \<in> set cs. n_parent (node fs c) = Some p" and "distinct cs"
    and "\<forall>c \<in> set cs. \<exists>out. lists_subtree fs c out"
  shows "\<exists>out. (\<forall>rest ro. all_paths_loop fs rest = Some ro \<longrightarrow> all_paths_loop fs (cs @ rest) = Some (out @ ro))
     \<and> distinct out \<and> set out = {j. \<exists>c \<in> set cs. below fs c j}"
  using assms(2-4)
proof (induction cs)
  case (Cons c cs)
  then obtain out where out:
    "\<And>rest ro. all_paths_loop fs rest = Some ro \<Longrightarrow> all_paths_loop fs (cs @ rest) = Some (out @ ro)"
    "distinct out" "set out = {j. \<exists>c \<in> set cs. below fs c j}" by auto
  from Cons.prems(3) obtain oc where oc:
    "\<And>rest ro. all_paths_loop fs rest = Some ro \<Longrightarrow> all_paths_loop fs (c # rest) = Some (oc @ ro)"
    "distinct oc" "set oc = {j. below fs c j}" by (auto simp: lists_subtree_def)
  have "set oc \<inter> set out = {}"
    using oc(3) out(3) below_siblings[OF wf] Cons.prems(1,2) by fastforce
  then show ?case
    using oc out by (intro exI[of _ "oc @ out"]) auto
qed simp

lemma lists_subtree_ex:
  assumes wf: "wf_fs fs"
  shows "is_detached_opt fs i = Some False \<Longrightarrow> \<exists>out. lists_subtree fs i out"
proof (induction i rule: wf_induct_rule[OF wf_parent_rel[OF wf]])
  case (1 i)
  have kid: "n_parent (node fs c) = Some i \<and> (c, i) \<in> parent_rel fs \<and> is_detached_opt fs c = Some False"
    if "c \<in> set (iterdir fs i)" for c
  proof -
    from that obtain k where "(k, c) \<in> set (kids fs i)" by (auto simp: iterdir_kids)
    then have p: "n_parent (node fs c) = Some i" using wf_kid[OF wf] by blast
    then have "\<not> is_root fs c" using wf_root[OF wf] wf_root_parent[OF wf] by force
    with p 1(2) show ?thesis by (simp add: parent_rel_def det_child)
  qed
  have dist: "distinct (iterdir fs i)"
    unfolding iterdir_kids distinct_map
  proof (intro conjI inj_onI)
    show "distinct (kids fs i)" using wf_distinct[OF wf, of i] by (simp add: distinct_map)
    fix a b
    assume ab: "a \<in> set (kids fs i)" "b \<in> set (kids fs i)" and e: "snd a = snd b"
    from ab have "(fst a, snd a) \<in> set (kids fs i)" "(fst b, snd b) \<in> set (kids fs i)" by simp_all
    from this[THEN wf_kid[OF wf]] have "fst a = fst b" unfolding e by metis
    with e show "a = b" by (intro prod_eqI)
  qed
  show ?case
  proof (cases "is_dir fs i")
    case True
    have "\<forall>c \<in> set (sorted_children fs i). \<exists>out. lists_subtree fs c out"
      using 1(1) kid by (simp add: sorted_children_def)
    with lists_children[OF wf, of "sorted_children fs i" i] kid dist
    obtain out where out:
      "\<And>rest ro. all_paths_loop fs rest = Some ro \<Longrightarrow> all_paths_loop fs (sorted_children fs i @ rest) = Some (out @ ro)"
      "distinct out" "set out = {j. \<exists>c \<in> set (iterdir fs i). below fs c j}"
      by (auto simp: sorted_children_def)
    have "i \<notin> set out"
      using out(3) kid wf_not_below_parent(1)[OF wf] by auto
    moreover have "all_paths_loop fs (i # rest) = Some (i # out @ ro)"
      if "all_paths_loop fs rest = Some ro" for rest ro
      using out(1)[OF that] True 1(2) by (simp add: all_paths_loop.simps[of fs "i # rest"])
    ultimately have "lists_subtree fs i (i # out)"
      using out(2,3) below_via_child[OF wf, of i] by (auto simp: lists_subtree_def)
    then show ?thesis by blast
  next
    case False
    have "iterdir fs i = []"
    proof (rule ccontr)
      assume "iterdir fs i \<noteq> []"
      then obtain c where "c \<in> set (iterdir fs i)" using list.set_sel(1) by blast
      then show False using kid wf_parent[OF wf] False by blast
    qed
    then have "lists_subtree fs i [i]"
      using False below_via_child[OF wf, of i]
      by (auto simp: lists_subtree_def all_paths_loop.simps[of fs "i # _"])
    then show ?thesis by blast
  qed
qed

text \<open>C5: \<^verbatim>\<open>all_paths\<close> returns, starts with the path itself, and yields every path at or below it
  exactly once.\<close>

theorem all_paths_lists_subtree:
  assumes "wf_fs fs" and "is_detached fs i = Inr False"
  shows "\<exists>out. all_paths fs i = Some out \<and> hd out = i \<and> distinct out \<and> set out = {j. below fs i j}"
proof -
  have att: "is_detached_opt fs i = Some False" using assms(2) by (simp add: is_detached_Inr)
  obtain out where out: "all_paths_loop fs [i] = Some (out @ [])" "distinct out" "set out = {j. below fs i j}"
    using lists_subtree_ex[OF assms(1) att] unfolding lists_subtree_def by fastforce
  show ?thesis
  proof (cases "is_dir fs i")
    case True
    with out(1) att obtain o' where "all_paths_loop fs (sorted_children fs i) = Some o'" "out = i # o'"
      by (auto simp: all_paths_loop.simps[of fs "[i]"] bind_eq_Some_conv)
    with True out show ?thesis by (simp add: all_paths_def)
  next
    case False
    with out(1) have "out = [i]" by (simp add: all_paths_loop.simps[of fs "[i]"])
    with False out show ?thesis by (simp add: all_paths_def)
  qed
qed

lemma all_paths_lists_subtree_witness:
  "\<exists>out. all_paths demo_fs 0 = Some out \<and> hd out = 0 \<and> distinct out \<and> set out = {j. below demo_fs 0 j}"
proof (rule all_paths_lists_subtree[OF reachable_wf[OF demo_fs_reachable]])
qed code_simp

end
