(* ===== verification/Util.thy ===== *)
theory Util
  imports PyStr
begin

section \<open>Shell quoting, globs, argument lists and build profiles (\<^verbatim>\<open>src/debputy/util.py\<close>)\<close>

text \<open>
  The helpers of \<^verbatim>\<open>util.py\<close> that other components call: \<^verbatim>\<open>escape_shell\<close>, \<^verbatim>\<open>glob_escape\<close>,
  \<^verbatim>\<open>_split_xargs_args\<close>, and the evaluation of \<^verbatim>\<open>Build-Profiles\<close>.
\<close>

subsection \<open>Globs\<close>

text \<open>\<^verbatim>\<open>glob.has_magic\<close> of the standard library.\<close>

definition glob_has_magic :: "string \<Rightarrow> bool" where
  "glob_has_magic s \<longleftrightarrow> list_ex (\<lambda>c. c \<in> set ''*?['') s"

definition has_glob_magic :: "string \<Rightarrow> bool" where
  "has_glob_magic pattern \<longleftrightarrow> glob_has_magic pattern \<or> CHR ''{'' \<in> set pattern"

definition glob_escape :: "string \<Rightarrow> string" where
  "glob_escape v =
     (if \<not> glob_has_magic v \<or> CHR ''{'' \<notin> set v then v
      else replace_char CHR ''}'' ''[}]'' (replace_char CHR ''{'' ''[{]''
            (replace_char CHR ''?'' ''[?]'' (replace_char CHR ''*'' ''[*]''
              (replace_char CHR '']'' ''[]]'' (replace_char CHR ''['' ''[[]'' v))))))"

subsection \<open>Quoting for the shell\<close>

text \<open>\<^verbatim>\<open>\w\<close> on the code points below 256.\<close>

definition re_word_char :: "char \<Rightarrow> bool" where
  "re_word_char c \<longleftrightarrow> ascii_alnum c \<or> c = CHR ''_''
     \<or> (let n = (of_char c :: nat) in n \<in> set [170, 178, 179, 181, 185, 186, 188, 189, 190]
          \<or> 192 \<le> n \<and> n \<noteq> 215 \<and> n \<noteq> 247)"

abbreviation backslash :: char where "backslash \<equiv> CHR 0x5C"
abbreviation dquote :: char where "dquote \<equiv> CHR 0x22"

definition escape_with :: "(char \<Rightarrow> bool) \<Rightarrow> string \<Rightarrow> string" where
  "escape_with P w = concat (map (\<lambda>c. if P c then [backslash, c] else [c]) w)"

definition double_escapee :: "char \<Rightarrow> bool" where
  "double_escapee c \<longleftrightarrow> c \<in> set [CHR 0x0A, CHR 0x60, CHR ''$'', dquote, backslash]"

definition regular_escapee :: "char \<Rightarrow> bool" where
  "regular_escapee c \<longleftrightarrow> py_space c
     \<or> c \<in> set [CHR ''!'', dquote, CHR ''$'', CHR ''('', CHR '')'', CHR ''*'', CHR ''+'', CHR ''#'',
               CHR '';'', CHR ''<'', CHR ''>'', CHR ''?'', CHR ''@'', CHR 0x27, CHR ''['', CHR '']'',
               backslash, CHR 0x60, CHR ''|'', CHR ''~'']"

text \<open>The length of the match of \<^verbatim>\<open>_WORD_EQUAL\<close> (\<^verbatim>\<open>^-*[\w_\-]+=\<close>), if it matches.\<close>

definition word_equal :: "string \<Rightarrow> nat option" where
  "word_equal w =
     (let run = takeWhile (\<lambda>c. re_word_char c \<or> c = CHR ''-'') w in
      if run \<noteq> [] \<and> startswith (drop (length run) w) ''='' then Some (length run + 1) else None)"

definition escape_shell_word :: "string \<Rightarrow> string" where
  "escape_shell_word w =
     (if list_ex py_space w then
        (case (if CHR ''='' \<in> set w then word_equal w else None) of
           Some n \<Rightarrow> take n w @ [dquote] @ escape_with double_escapee (drop n w) @ [dquote]
         | None \<Rightarrow> [dquote] @ escape_with double_escapee w @ [dquote])
      else escape_with regular_escapee w)"

definition escape_shell :: "string list \<Rightarrow> string" where
  "escape_shell args = join '' '' (map escape_shell_word args)"

subsection \<open>Splitting an argument list\<close>

text \<open>The length of the UTF-8 encoding of a text of characters below 256.\<close>

definition utf8_length :: "string \<Rightarrow> nat" where
  "utf8_length s = sum_list (map (\<lambda>c. if (of_char c :: nat) < 128 then 1 else 2) s)"

text \<open>The loop of \<^verbatim>\<open>_split_xargs_args\<close> (an argument counts its bytes and a blank).\<close>

fun split_xargs_loop ::
    "string list \<Rightarrow> int \<Rightarrow> string list \<Rightarrow> int \<Rightarrow> string list \<Rightarrow> string list list res" where
  "split_xargs_loop static_cmd max_len pending remaining [] =
     Inr (if length pending > length static_cmd then [pending] else [])"
| "split_xargs_loop static_cmd max_len pending remaining (arg # varargs) =
     (let arg_len = int (utf8_length arg) + 1;
          remaining' = remaining - arg_len in
      if remaining' = 0 then
        (if length pending \<le> length static_cmd then Inl ValueError
         else rmap (\<lambda>chunks. pending # chunks)
                (split_xargs_loop static_cmd max_len (static_cmd @ [arg]) (max_len - arg_len) varargs))
      else split_xargs_loop static_cmd max_len (pending @ [arg]) remaining' varargs)"

definition split_xargs_args :: "string list \<Rightarrow> int \<Rightarrow> string list \<Rightarrow> string list list res" where
  "split_xargs_args static_cmd max_len varargs =
     split_xargs_loop static_cmd max_len static_cmd max_len varargs"

definition xargs :: "string list \<Rightarrow> int option \<Rightarrow> (string \<times> string) list \<Rightarrow> string list \<Rightarrow> string list list res" where
  "xargs static_cmd sc_arg_max env varargs =
     (let cmd_len = int (length static_cmd) - 1 + int (sum_list (map utf8_length static_cmd)) in
      case sc_arg_max of
        Some m \<Rightarrow>
          split_xargs_args static_cmd
            (m - (cmd_len + int (sum_list (map (\<lambda>(k, v). utf8_length k + utf8_length v + 2) env)) + 2 * 4096)) varargs
      | None \<Rightarrow> split_xargs_args static_cmd (20000 - cmd_len) varargs)"

subsection \<open>Build profiles\<close>

text \<open>\<^verbatim>\<open>_PROFILE_GROUP_SPLIT.split\<close>: at every \<^verbatim>\<open>>\<close>, blanks, \<^verbatim>\<open><\<close>.\<close>

definition group_sep :: "string \<Rightarrow> string option" where
  "group_sep s =
     (let sp = takeWhile py_space (tl s); r = dropWhile py_space (tl s) in
      if startswith s ''>'' \<and> sp \<noteq> [] \<and> startswith r ''<'' then Some (tl r) else None)"

function split_groups :: "string \<Rightarrow> string list" where
  "split_groups s =
     (if s = [] then [[]]
      else (case group_sep s of
              Some r \<Rightarrow> [] # split_groups r
            | None \<Rightarrow>
                (case split_groups (tl s) of [] \<Rightarrow> [] | g # gs \<Rightarrow> (hd s # g) # gs)))"
  by pat_completeness auto
termination
proof (relation "measure length", goal_cases)
  case (3 s r)
  then have r: "r = tl (dropWhile py_space (tl s))"
    by (auto simp: group_sep_def Let_def split: if_splits)
  have "length (tl (dropWhile py_space (tl s))) \<le> length (dropWhile py_space (tl s))" by simp
  also have "\<dots> \<le> length (tl s)" by (rule length_dropWhile_le)
  also have "\<dots> < length s" using 3(1) by simp
  finally show ?case using r by simp
qed auto

declare split_groups.simps [simp del]

definition profile_groups :: "string \<Rightarrow> string list list res" where
  "profile_groups raw =
     (let p = strip py_space raw in
      if p = [] then Inl IndexError
      else if hd p \<noteq> CHR ''<'' \<or> last p \<noteq> CHR ''>'' \<or> p = ''<>'' then Inl ValueError
      else Inr (map words (split_groups (drop 1 (butlast p)))))"

fun profile_term :: "string set \<Rightarrow> string \<Rightarrow> bool" where
  "profile_term active [] \<longleftrightarrow> [] \<in> active"
| "profile_term active (c # name) \<longleftrightarrow>
     (if c = CHR ''!'' then name \<notin> active else c # name \<in> active)"

definition active_profiles_match :: "string \<Rightarrow> string set \<Rightarrow> bool res" where
  "active_profiles_match raw active =
     rmap (list_ex (list_all (profile_term active))) (profile_groups raw)"

definition parse_build_profiles :: "string \<Rightarrow> string set set res" where
  "parse_build_profiles raw = rmap (\<lambda>gs. set ` set gs) (profile_groups raw)"

record cross_check_package =
  cc_should_be_acted_on :: bool
  cc_is_arch_all :: bool
  cc_build_profiles :: string
  cc_declared_architecture :: string

definition package_cross_check_precheck ::
    "cross_check_package \<Rightarrow> cross_check_package \<Rightarrow> (bool \<times> bool) res" where
  "package_cross_check_precheck a b =
     (if \<not> cc_should_be_acted_on a \<or> \<not> cc_should_be_acted_on b then Inr (False, False)
      else if cc_is_arch_all a \<noteq> cc_is_arch_all b then Inr (False, False)
      else
        (let a_bp = cc_build_profiles a; b_bp = cc_build_profiles b in
         rbind (if a_bp \<noteq> b_bp then
                  rbind (if a_bp \<noteq> [] then parse_build_profiles a_bp else Inr {}) (\<lambda>as.
                    rbind (if b_bp \<noteq> [] then parse_build_profiles b_bp else Inr {}) (\<lambda>bs.
                      Inr (as - bs = {}, bs - as = {})))
                else Inr (True, True)) (\<lambda>(a_may_see_b, b_may_see_a).
           if cc_declared_architecture a \<noteq> cc_declared_architecture b then
             let b_may_see_a' = (if cc_declared_architecture a \<noteq> ''any'' then False else b_may_see_a);
                 a_may_see_b' = (if cc_declared_architecture a \<noteq> ''any'' then False else a_may_see_b)
             in Inr (a_may_see_b', b_may_see_a')
           else Inr (a_may_see_b, b_may_see_a))))"

subsection \<open>Quoting is undone by the shell\<close>

text \<open>
  The words that a POSIX shell reads from a simple command without expansions: blanks separate
  words, a backslash or double quotes take away the meaning of special characters.  A character
  that would start an expansion, a redirection or another command gives no result.
\<close>

definition sh_active :: "char \<Rightarrow> bool" where
  "sh_active c \<longleftrightarrow>
     c \<in> set [CHR 0x0A, CHR ''$'', CHR 0x60, CHR ''&'', CHR '';'', CHR ''|'', CHR ''<'', CHR ''>'',
              CHR ''('', CHR '')'', CHR ''*'', CHR ''?'', CHR ''['', CHR ''#'', CHR ''~'', CHR 0x27]"

definition sh_add :: "string option \<Rightarrow> string \<Rightarrow> string option" where
  "sh_add w v = Some ((case w of None \<Rightarrow> [] | Some u \<Rightarrow> u) @ v)"

fun sh_read :: "bool \<Rightarrow> string option \<Rightarrow> string \<Rightarrow> string list option" where
  "sh_read quoted w [] =
     (if quoted then None else Some (case w of None \<Rightarrow> [] | Some v \<Rightarrow> [v]))"
| "sh_read quoted w (c # s) =
     (if c = backslash then
        (case s of
           [] \<Rightarrow> None
         | d # s' \<Rightarrow>
             if d = CHR 0x0A then sh_read quoted w s'
             else if quoted \<and> \<not> double_escapee d then sh_read quoted (sh_add w [c, d]) s'
             else sh_read quoted (sh_add w [d]) s')
      else if c = dquote then sh_read (\<not> quoted) (sh_add w []) s
      else if quoted then (if double_escapee c \<and> c \<noteq> CHR 0x0A then None else sh_read quoted (sh_add w [c]) s)
      else if c = CHR '' '' \<or> c = CHR 0x09 then
        (case w of
           None \<Rightarrow> sh_read False None s
         | Some v \<Rightarrow> map_option (\<lambda>ws. v # ws) (sh_read False None s))
      else if sh_active c then None
      else sh_read quoted (sh_add w [c]) s)"

lemma sh_add_add [simp]: "sh_add (sh_add w a) b = sh_add w (a @ b)"
  by (simp add: sh_add_def)

lemma sh_add_Some [simp]: "sh_add (Some v) b = Some (v @ b)"
  by (simp add: sh_add_def)

lemma escape_with_simps [simp]:
  "escape_with P [] = []"
  "escape_with P (c # w) = (if P c then [backslash, c] else [c]) @ escape_with P w"
  by (simp_all add: escape_with_def)

lemma sh_read_char:
  assumes "c \<noteq> backslash" "c \<noteq> dquote" "\<not> py_space c" "\<not> sh_active c"
  shows "sh_read False w (c # s) = sh_read False (sh_add w [c]) s"
  using assms by (simp add: py_space_def)

lemma sh_read_plain:
  assumes "\<forall>c \<in> set v. c \<noteq> backslash \<and> c \<noteq> dquote \<and> \<not> py_space c \<and> \<not> sh_active c" and "v \<noteq> []"
  shows "sh_read False w (v @ r) = sh_read False (sh_add w v) r"
  using assms
proof (induction v arbitrary: w)
  case (Cons c v)
  have "sh_read False w ((c # v) @ r) = sh_read False (sh_add w [c]) (v @ r)"
    using Cons.prems(1) by (simp only: append_Cons) (rule sh_read_char; simp)
  also have "\<dots> = sh_read False (sh_add w (c # v)) r"
    using Cons by (cases "v = []") (simp_all del: sh_read.simps)
  finally show ?case .
qed simp

lemma active_escaped: "sh_active c \<Longrightarrow> c \<noteq> CHR ''&'' \<Longrightarrow> regular_escapee c"
  by (auto simp: sh_active_def regular_escapee_def py_space_def)

lemma sh_read_regular:
  assumes "\<forall>c \<in> set v. \<not> py_space c \<and> c \<noteq> CHR ''&''" and "v \<noteq> []"
  shows "sh_read False w (escape_with regular_escapee v @ r) = sh_read False (sh_add w v) r"
  using assms
proof (induction v arbitrary: w)
  case (Cons c v)
  have "sh_read False w (escape_with regular_escapee (c # v) @ r) =
      sh_read False (sh_add w [c]) (escape_with regular_escapee v @ r)"
  proof (cases "regular_escapee c")
    case True
    moreover have "c \<noteq> CHR 0x0A" using Cons.prems(1) by (auto simp: py_space_def)
    ultimately show ?thesis by simp
  next
    case False
    then have "\<not> sh_active c" "c \<noteq> backslash" "c \<noteq> dquote"
      using active_escaped[of c] Cons.prems(1) by (auto simp: regular_escapee_def)
    then show ?thesis
      using False sh_read_char[of c w "escape_with regular_escapee v @ r"] Cons.prems(1) by simp
  qed
  also have "\<dots> = sh_read False (sh_add w (c # v)) r"
    using Cons by (cases "v = []") (simp_all del: sh_read.simps)
  finally show ?case .
qed simp

lemma sh_read_double:
  assumes "CHR 0x0A \<notin> set v"
  shows "sh_read True w (escape_with double_escapee v @ dquote # r) = sh_read False (sh_add w v) r"
  using assms
proof (induction v arbitrary: w)
  case (Cons c v)
  have "sh_read True w (escape_with double_escapee (c # v) @ dquote # r) =
      sh_read True (sh_add w [c]) (escape_with double_escapee v @ dquote # r)"
  proof (cases "double_escapee c")
    case True
    moreover have "c \<noteq> CHR 0x0A" using Cons.prems by auto
    ultimately show ?thesis by simp
  next
    case False
    then have "c \<noteq> backslash" "c \<noteq> dquote" by (auto simp: double_escapee_def)
    with False show ?thesis by simp
  qed
  also have "\<dots> = sh_read False (sh_add w (c # v)) r"
    using Cons by (simp del: sh_read.simps)
  finally show ?case .
qed simp

lemma word_equal_prefix:
  assumes "word_equal w = Some n" and "c \<in> set (take n w)"
  shows "re_word_char c \<or> c = CHR ''-'' \<or> c = CHR ''=''"
proof -
  let ?run = "takeWhile (\<lambda>c. re_word_char c \<or> c = CHR ''-'') w"
  note m = if_SomeD[OF assms(1)[unfolded word_equal_def Let_def]]
  have n: "n = length ?run + 1" using m by (rule conjunct2)
  have e: "startswith (drop (length ?run) w) ''=''" using m by (rule conjunct1[THEN conjunct2])
  have "take (length ?run) w = ?run" by (rule takeWhile_eq_take[symmetric])
  then have "take n w = ?run @ take 1 (drop (length ?run) w)"
    unfolding n take_add by (simp only:)
  also have "take 1 (drop (length ?run) w) = ''=''"
    using e by (auto simp: startswith_iff)
  finally show ?thesis using assms(2) by (auto dest: set_takeWhileD)
qed

definition sh_special :: "char list" where
  "sh_special =
     [backslash, dquote, CHR '' '', CHR 0x09, CHR 0x0A, CHR 0x0B, CHR 0x0C, CHR 0x0D, CHR 0x1C,
      CHR 0x1D, CHR 0x1E, CHR 0x1F, CHR 0x85, CHR 0xA0, CHR ''$'', CHR 0x60, CHR ''&'', CHR '';'',
      CHR ''|'', CHR ''<'', CHR ''>'', CHR ''('', CHR '')'', CHR ''*'', CHR ''?'', CHR ''['', CHR ''#'',
      CHR ''~'', CHR 0x27]"

lemma sh_special_no_word:
  "list_all (\<lambda>c. \<not> (re_word_char c \<or> c = CHR ''-'' \<or> c = CHR ''='')) sh_special"
  by code_simp

lemma sh_specialI: "c = backslash \<or> c = dquote \<or> py_space c \<or> sh_active c \<Longrightarrow> c \<in> set sh_special"
  unfolding py_space_def sh_active_def sh_special_def
  by (simp only: list.set insert_iff empty_iff, elim disjE) simp_all

lemma word_char_plain:
  assumes "re_word_char c \<or> c = CHR ''-'' \<or> c = CHR ''=''"
  shows "c \<noteq> backslash \<and> c \<noteq> dquote \<and> \<not> py_space c \<and> \<not> sh_active c"
  using sh_special_no_word sh_specialI[of c] assms unfolding list_all_iff by blast

definition sh_safe :: "string \<Rightarrow> bool" where
  "sh_safe w \<longleftrightarrow> w \<noteq> [] \<and> CHR 0x0A \<notin> set w \<and> (CHR ''&'' \<in> set w \<longrightarrow> list_ex py_space w)"

lemma sh_read_word:
  assumes "sh_safe w"
  shows "sh_read False None (escape_shell_word w @ r) = sh_read False (Some w) r"
proof (cases "list_ex py_space w")
  case False
  then have "\<forall>c \<in> set w. \<not> py_space c \<and> c \<noteq> CHR ''&''"
    using assms by (auto simp: sh_safe_def list_ex_iff)
  from sh_read_regular[OF this, of None r] False assms show ?thesis
    by (simp add: escape_shell_word_def sh_safe_def sh_add_def del: sh_read.simps)
next
  case sp: True
  have nl: "CHR 0x0A \<notin> set w" using assms by (simp add: sh_safe_def)
  show ?thesis
  proof (cases "if CHR ''='' \<in> set w then word_equal w else None")
    case None
    have "sh_read False None (dquote # escape_with double_escapee w @ dquote # r) =
        sh_read True (Some []) (escape_with double_escapee w @ dquote # r)"
      by (simp add: sh_add_def)
    with sp None sh_read_double[OF nl, of "Some []" r] show ?thesis
      by (simp add: escape_shell_word_def del: sh_read.simps)
  next
    case (Some n)
    then have n: "word_equal w = Some n" by (simp split: if_splits)
    have pre: "\<forall>c \<in> set (take n w). c \<noteq> backslash \<and> c \<noteq> dquote \<and> \<not> py_space c \<and> \<not> sh_active c"
      using word_equal_prefix[OF n] word_char_plain by blast
    have ne: "take n w \<noteq> []"
      using n assms by (auto simp: word_equal_def sh_safe_def Let_def split: if_splits)
    have nl': "CHR 0x0A \<notin> set (drop n w)" using nl by (meson in_set_dropD)
    let ?q = "dquote # escape_with double_escapee (drop n w) @ dquote # r"
    have "sh_read False None (take n w @ ?q) = sh_read False (Some (take n w)) ?q"
      using sh_read_plain[OF pre ne, of None ?q] by (simp add: sh_add_def del: sh_read.simps)
    also have "\<dots> = sh_read True (Some (take n w)) (escape_with double_escapee (drop n w) @ dquote # r)"
      by simp
    also have "\<dots> = sh_read False (Some (take n w @ drop n w)) r"
      using sh_read_double[OF nl', of "Some (take n w)" r] by simp
    finally show ?thesis using sp Some by (simp add: escape_shell_word_def del: sh_read.simps)
  qed
qed

text \<open>C8: a command line that \<^verbatim>\<open>escape_shell\<close> prints is read back by a POSIX shell as the same
  arguments, if no argument is empty or contains a newline, and an ampersand occurs only next to a
  blank (an ampersand in a word without blanks is not quoted).\<close>

theorem escape_shell_roundtrip:
  assumes "list_all sh_safe args"
  shows "sh_read False None (escape_shell args) = Some args"
  using assms
proof (induction args)
  case (Cons w args)
  then have w: "sh_safe w" by simp
  show ?case
  proof (cases "args = []")
    case True
    then show ?thesis
      using sh_read_word[OF w, of "[]"] by (simp add: escape_shell_def)
  next
    case False
    have "sh_read False None (escape_shell_word w @ CHR '' '' # escape_shell args) =
        sh_read False (Some w) (CHR '' '' # escape_shell args)"
      by (rule sh_read_word[OF w])
    also have "\<dots> = Some (w # args)" using Cons by simp
    finally show ?thesis using False by (simp add: escape_shell_def join_Cons)
  qed
qed (simp add: escape_shell_def)

lemma escape_shell_roundtrip_witness:
  "sh_read False None (escape_shell [''--opt=a b'', ''x$y'', ''p & q'']) = Some [''--opt=a b'', ''x$y'', ''p & q'']"
proof (rule escape_shell_roundtrip)
qed code_simp

text \<open>An ampersand is left unquoted, and an empty argument disappears.\<close>

lemma escape_shell_ampersand: "escape_shell [''echo'', ''a&b''] = ''echo a&b''"
  by code_simp

lemma escape_shell_empty: "sh_read False None (escape_shell [''echo'', '''', ''a'']) = Some [''echo'', ''a'']"
  by code_simp

subsection \<open>Argument lists are split without loss\<close>

lemma split_xargs_loop_chunks:
  "split_xargs_loop st m (st @ p) rem va = Inr chunks \<Longrightarrow>
   concat (map (drop (length st)) chunks) = p @ va \<and>
   (\<forall>c \<in> set chunks. take (length st) c = st \<and> length st < length c)"
proof (induction va arbitrary: p rem chunks)
  case Nil
  then show ?case by (auto split: if_splits)
next
  case (Cons arg va)
  show ?case
  proof (cases "rem - (int (utf8_length arg) + 1) = 0")
    case True
    then obtain cs where cs: "split_xargs_loop st m (st @ [arg]) (m - (int (utf8_length arg) + 1)) va = Inr cs"
      "chunks = (st @ p) # cs" "p \<noteq> []"
      using Cons.prems by (auto simp: res_simps Let_def split: if_splits)
    from Cons.IH[of "[arg]", OF cs(1)[unfolded append.assoc]] cs(2,3) show ?thesis by auto
  next
    case False
    then have "split_xargs_loop st m (st @ (p @ [arg])) (rem - (int (utf8_length arg) + 1)) va = Inr chunks"
      using Cons.prems by (simp add: Let_def)
    from Cons.IH[OF this] show ?thesis by simp
  qed
qed

text \<open>The command lines that \<^verbatim>\<open>_split_xargs_args\<close> yields all start with the static part, have at
  least one argument, and together pass every argument once and in order.\<close>

theorem split_xargs_lossless:
  assumes "split_xargs_args st m va = Inr chunks"
  shows "concat (map (drop (length st)) chunks) = va \<and>
    (\<forall>c \<in> set chunks. take (length st) c = st \<and> length st < length c)"
  using split_xargs_loop_chunks[of st m "[]" m va chunks] assms by (simp add: split_xargs_args_def)

lemma split_xargs_lossless_witness:
  "concat (map (drop (length [''rm''])) [[''rm'', ''a'', ''b''], [''rm'', ''c'']]) = [''a'', ''b'', ''c''] \<and>
   list_all (\<lambda>c. take (length [''rm'']) c = [''rm''] \<and> length [''rm''] < length c) [[''rm'', ''a'', ''b''], [''rm'', ''c'']]"
proof -
  have "split_xargs_args [''rm''] 6 [''a'', ''b'', ''c''] = Inr [[''rm'', ''a'', ''b''], [''rm'', ''c'']]"
    by code_simp
  from split_xargs_lossless[OF this] show ?thesis unfolding list_all_iff .
qed

text \<open>The limit itself is not kept: the code starts a new command line only when the remaining length
  is exactly zero.\<close>

lemma split_xargs_limit_ignored:
  "split_xargs_args [''rm''] 4 [''aa'', ''bb'', ''cc''] = Inr [[''rm'', ''aa'', ''bb'', ''cc'']]"
  by code_simp

subsection \<open>Build profiles are evaluated as a disjunction of conjunctions\<close>

lemma split_groups_plain: "CHR ''>'' \<notin> set s \<Longrightarrow> split_groups s = [s]"
proof (induction s)
  case Nil
  then show ?case by (simp add: split_groups.simps)
next
  case (Cons c s)
  from Cons.prems have "c \<noteq> CHR ''>''" by auto
  then have "group_sep (c # s) = None" by (simp add: group_sep_def Let_def)
  with Cons show ?case by (subst split_groups.simps) simp
qed

lemma split_groups_sep:
  "CHR ''>'' \<notin> set s \<Longrightarrow> split_groups (s @ ''> <'' @ r) = s # split_groups r"
proof (induction s)
  case Nil
  have "py_space CHR '' ''" "\<not> py_space CHR ''<''" by (simp_all add: py_space_def)
  then have "group_sep (''> <'' @ r) = Some r" by (simp add: group_sep_def)
  then show ?case by (subst split_groups.simps) simp
next
  case (Cons c s)
  from Cons.prems have "c \<noteq> CHR ''>''" by auto
  then have "group_sep ((c # s) @ ''> <'' @ r) = None" by (simp add: group_sep_def Let_def)
  with Cons show ?case by (subst split_groups.simps) simp
qed

lemma split_groups_join:
  assumes "gs \<noteq> []" and "\<forall>g \<in> set gs. CHR ''>'' \<notin> set g"
  shows "split_groups (join ''> <'' gs) = gs"
  using assms
proof (induction gs)
  case (Cons g gs)
  then show ?case
    by (cases "gs = []") (simp_all add: join_Cons split_groups_plain split_groups_sep[of g, simplified])
qed simp

definition profile_word :: "string \<Rightarrow> bool" where
  "profile_word w \<longleftrightarrow> py_word w \<and> CHR ''>'' \<notin> set w"

definition profile_formula :: "string list list \<Rightarrow> string" where
  "profile_formula gs = ''<'' @ join ''> <'' (map (join '' '') gs) @ ''>''"

lemma join_words_chars:
  assumes "list_all profile_word g"
  shows "CHR ''>'' \<notin> set (join '' '' g)"
  using set_join[of "'' ''" g] assms by (auto simp: list_all_iff profile_word_def)

lemma profile_groups_formula:
  assumes "gs \<noteq> []" and "\<forall>g \<in> set gs. g \<noteq> [] \<and> list_all profile_word g"
  shows "profile_groups (profile_formula gs) = Inr gs"
proof -
  let ?b = "join ''> <'' (map (join '' '') gs)"
  have "strip py_space (profile_formula gs) = profile_formula gs"
    unfolding profile_formula_def by (rule strip_id) (simp add: py_space_def)
  moreover have "?b \<noteq> []"
  proof -
    obtain g gs' where g: "gs = g # gs'" using assms(1) by (cases gs) auto
    then obtain w ws where "g = w # ws" "w \<noteq> []"
      using assms(2) by (cases g) (auto simp: profile_word_def py_word_def)
    with g show ?thesis by (simp add: join_Cons)
  qed
  moreover have "split_groups ?b = map (join '' '') gs"
    using assms join_words_chars by (intro split_groups_join) auto
  moreover have "map words (map (join '' '') gs) = gs"
    unfolding map_map o_def
    using assms(2) by (intro map_idI words_join) (auto simp: list_all_iff profile_word_def)
  ultimately show ?thesis
    by (simp add: profile_groups_def Let_def profile_formula_def butlast_append)
qed

text \<open>A well-formed \<^verbatim>\<open>Build-Profiles\<close> value matches exactly when in some group every term holds: a
  profile is active, or, after \<^verbatim>\<open>!\<close>, is not.\<close>

theorem active_profiles_dnf:
  assumes "gs \<noteq> []" and "\<forall>g \<in> set gs. g \<noteq> [] \<and> list_all profile_word g"
  shows "active_profiles_match (profile_formula gs) active =
    Inr (\<exists>g \<in> set gs. \<forall>t \<in> set g.
      if hd t = CHR ''!'' then tl t \<notin> active else t \<in> active)"
proof -
  have "profile_term active t \<longleftrightarrow> (if hd t = CHR ''!'' then tl t \<notin> active else t \<in> active)"
    if "g \<in> set gs" "t \<in> set g" for g t
    using assms(2) that by (cases t) (auto simp: list_all_iff profile_word_def py_word_def)
  then show ?thesis
    using profile_groups_formula[OF assms]
    by (auto simp: active_profiles_match_def list_ex_iff list_all_iff)
qed

lemma active_profiles_dnf_witness:
  "active_profiles_match (profile_formula [[''!nodoc'', ''cross''], [''stage1'']]) {''stage1''} = Inr True"
proof -
  have "active_profiles_match (profile_formula [[''!nodoc'', ''cross''], [''stage1'']]) {''stage1''} =
    Inr (\<exists>g \<in> set [[''!nodoc'', ''cross''], [''stage1'']]. \<forall>t \<in> set g.
      if hd t = CHR ''!'' then tl t \<notin> {''stage1''} else t \<in> {''stage1''})"
    by (rule active_profiles_dnf) code_simp+
  then show ?thesis by simp
qed

text \<open>The second architecture test of \<^verbatim>\<open>package_cross_check_precheck\<close> looks at the first package again,
  so a package for any architecture is told that it may see the files of one restricted to amd64.\<close>

lemma cross_check_any_sees_amd64:
  "package_cross_check_precheck
     \<lparr>cc_should_be_acted_on = True, cc_is_arch_all = False, cc_build_profiles = '''', cc_declared_architecture = ''any''\<rparr>
     \<lparr>cc_should_be_acted_on = True, cc_is_arch_all = False, cc_build_profiles = '''', cc_declared_architecture = ''amd64''\<rparr>
   = Inr (True, True)"
  by (simp add: package_cross_check_precheck_def)

text \<open>\<^verbatim>\<open>glob_escape\<close> returns the value unescaped unless it has both glob characters and a brace.\<close>

lemma glob_escape_star: "glob_escape ''a*b'' = ''a*b''"
  by code_simp

end
