(* ===== verification/Subst.thy ===== *)
theory Subst
  imports Util "HOL-Library.AList"
begin

section \<open>Variable substitution (\<^verbatim>\<open>src/debputy/substitution.py\<close>)\<close>

text \<open>
  \<^verbatim>\<open>SubstitutionImpl\<close> objects form a chain through \<^verbatim>\<open>_parent\<close>; a chain is a list of scopes, the
  innermost first.  Using a variable changes the scopes (the set of used variables, and values that
  a plugin resolved are cached), so the operations return the chain.  The table of
  \<^verbatim>\<open>dpkg-architecture\<close>, the environment and the resolvers of plugins are parameters.
\<close>

subsection \<open>State\<close>

datatype variable_name_state = UNDEFINED | RESERVED | DEFINED

text \<open>\<^verbatim>\<open>VariableNameState\<close> is an \<^verbatim>\<open>IntEnum\<close>: it is ordered by value.\<close>

fun state_value :: "variable_name_state \<Rightarrow> nat" where
  "state_value UNDEFINED = 1"
| "state_value RESERVED = 2"
| "state_value DEFINED = 3"

instantiation variable_name_state :: linorder
begin

definition less_eq_variable_name_state :: "variable_name_state \<Rightarrow> variable_name_state \<Rightarrow> bool" where
  "less_eq_variable_name_state a b \<longleftrightarrow> state_value a \<le> state_value b"

definition less_variable_name_state :: "variable_name_state \<Rightarrow> variable_name_state \<Rightarrow> bool" where
  "less_variable_name_state a b \<longleftrightarrow> state_value a < state_value b"

instance
proof
  fix a b c :: variable_name_state
  show "(a < b) = (a \<le> b \<and> \<not> b \<le> a)"
    by (auto simp: less_eq_variable_name_state_def less_variable_name_state_def)
  show "a \<le> a" by (simp add: less_eq_variable_name_state_def)
  show "a \<le> b \<Longrightarrow> b \<le> c \<Longrightarrow> a \<le> c" by (simp add: less_eq_variable_name_state_def)
  show "a \<le> b \<Longrightarrow> b \<le> a \<Longrightarrow> a = b"
    by (cases a; cases b) (simp_all add: less_eq_variable_name_state_def)
  show "a \<le> b \<or> b \<le> a" by (auto simp: less_eq_variable_name_state_def)
qed

end

record manifest_variable =
  is_documentation_placeholder :: bool
  resolve_variable :: "string res"

record subst_scope =
  s_used :: "string list"
  s_features :: "(string \<times> manifest_variable) list option"
  s_static :: "(string \<times> string) list option"
  s_unresolvable :: "string list"
  s_arch_table :: "(string \<times> string) list"
  s_env :: "(string \<times> string) list"

definition static_has :: "subst_scope \<Rightarrow> string \<Rightarrow> bool" where
  "static_has s key = (case s_static s of None \<Rightarrow> False | Some d \<Rightarrow> map_of d key \<noteq> None)"

definition feature :: "subst_scope \<Rightarrow> string \<Rightarrow> manifest_variable option" where
  "feature s key = (case s_features s of None \<Rightarrow> None | Some d \<Rightarrow> map_of d key)"

subsection \<open>Resolving a name\<close>

fun variable_state :: "subst_scope list \<Rightarrow> string \<Rightarrow> variable_name_state" where
  "variable_state [] key = UNDEFINED"
| "variable_state (s # parents) key =
     (if startswith key ''DEB_'' then
        (if map_of (s_arch_table s) key \<noteq> None then DEFINED else RESERVED)
      else if feature s key \<noteq> None then DEFINED
      else if startswith key ''env:'' then
        (if map_of (s_env s) (drop 4 key) \<noteq> None then DEFINED else RESERVED)
      else if static_has s key then DEFINED
      else if key \<in> set (s_unresolvable s) then RESERVED
      else variable_state parents key)"

fun is_used :: "subst_scope list \<Rightarrow> string \<Rightarrow> bool" where
  "is_used [] name = False"
| "is_used (s # parents) name = (if name \<in> set (s_used s) then True else is_used parents name)"

definition add_used :: "string \<Rightarrow> subst_scope \<Rightarrow> subst_scope" where
  "add_used name s = s\<lparr>s_used := List.insert name (s_used s)\<rparr>"

text \<open>The loop of \<^verbatim>\<open>_mark_used\<close> over the parents: the first one that has the variable is marked, and
  in turn marks its own parents.\<close>

definition owns_variable :: "subst_scope \<Rightarrow> string \<Rightarrow> bool" where
  "owns_variable s name \<longleftrightarrow>
     static_has s name
     \<or> (case feature s name of None \<Rightarrow> False | Some v \<Rightarrow> \<not> is_documentation_placeholder v)"

fun mark_parents :: "subst_scope list \<Rightarrow> string \<Rightarrow> subst_scope list" where
  "mark_parents [] name = []"
| "mark_parents (p # ps) name =
     (if owns_variable p name then add_used name p # mark_parents ps name
      else p # mark_parents ps name)"

fun mark_used :: "subst_scope list \<Rightarrow> string \<Rightarrow> subst_scope list" where
  "mark_used [] name = []"
| "mark_used (s # parents) name = add_used name s # mark_parents parents name"

definition cache_value :: "string \<Rightarrow> string \<Rightarrow> subst_scope \<Rightarrow> subst_scope" where
  "cache_value key v s =
     s\<lparr>s_static := Some (AList.update key v (case s_static s of None \<Rightarrow> [] | Some d \<Rightarrow> d))\<rparr>"

fun replacement :: "subst_scope list \<Rightarrow> string \<Rightarrow> (subst_scope list \<times> string) res" where
  "replacement [] key = Inl SubstitutionError"
| "replacement (s # parents) key =
     (if startswith key ''DEB_'' \<and> map_of (s_arch_table s) key \<noteq> None
      then Inr (s # parents, the (map_of (s_arch_table s) key))
      else if startswith key ''env:'' then
        (case map_of (s_env s) (drop 4 key) of
           Some v \<Rightarrow> Inr (s # parents, v)
         | None \<Rightarrow> Inl SubstitutionError)
      else
        (case (case s_static s of None \<Rightarrow> None | Some d \<Rightarrow> map_of d key) of
           Some v \<Rightarrow> Inr (s # parents, v)
         | None \<Rightarrow>
             (case feature s key of
                Some pv \<Rightarrow>
                  (if \<not> is_documentation_placeholder pv
                   then rmap (\<lambda>v. (cache_value key v s # parents, v)) (resolve_variable pv)
                   else if key \<in> set (s_unresolvable s) then Inl SubstitutionError
                   else rmap (\<lambda>(ps, v). (s # ps, v)) (replacement parents key))
              | None \<Rightarrow>
                  (if key \<in> set (s_unresolvable s) then Inl SubstitutionError
                   else rmap (\<lambda>(ps, v). (s # ps, v)) (replacement parents key)))))"

definition with_extra_substitutions :: "(string \<times> string) list \<Rightarrow> subst_scope list \<Rightarrow> subst_scope list" where
  "with_extra_substitutions extra chain =
     (if extra = [] then chain
      else \<lparr>s_used = [], s_features = None, s_static = Some extra, s_unresolvable = [],
            s_arch_table = s_arch_table (hd chain), s_env = s_env (hd chain)\<rparr> # chain)"

definition with_unresolvable_substitutions :: "string list \<Rightarrow> subst_scope list \<Rightarrow> subst_scope list" where
  "with_unresolvable_substitutions extra chain =
     (if extra = [] then chain
      else \<lparr>s_used = [], s_features = None, s_static = None, s_unresolvable = extra,
            s_arch_table = s_arch_table (hd chain), s_env = s_env (hd chain)\<rparr> # chain)"

subsection \<open>Finding the variables in a text\<close>

definition is_name_sep :: "char \<Rightarrow> bool" where
  "is_name_sep c \<longleftrightarrow> c \<in> set ''-_:''"

text \<open>\<^verbatim>\<open>(?:[-_:][A-Za-z0-9]+)*\<close>: what it matches, and what follows.\<close>

function name_parts :: "string \<Rightarrow> string \<times> string" where
  "name_parts s =
     (if s \<noteq> [] \<and> is_name_sep (hd s) \<and> takeWhile ascii_alnum (tl s) \<noteq> [] then
        (case name_parts (dropWhile ascii_alnum (tl s)) of
           (a, r) \<Rightarrow> (hd s # takeWhile ascii_alnum (tl s) @ a, r))
      else ([], s))"
  by pat_completeness auto
termination
proof (relation "measure length", goal_cases)
  case (2 s)
  have "length (dropWhile ascii_alnum (tl s)) \<le> length (tl s)" by (rule length_dropWhile_le)
  also have "\<dots> < length s" using 2 by simp
  finally show ?case by simp
qed simp

declare name_parts.simps [simp del]

definition variable_name :: "string \<Rightarrow> (string \<times> string) option" where
  "variable_name s =
     (let u = (if startswith s ''_'' then ''_'' else []);
          s1 = drop (length u) s;
          run = takeWhile ascii_alnum s1
      in if run = [] then None
         else (case name_parts (dropWhile ascii_alnum s1) of (a, r) \<Rightarrow> Some (u @ run @ a, r)))"

text \<open>A match of \<^verbatim>\<open>SUBST_VAR_RE\<close> at the start of the text: its three groups, and what follows.\<close>

definition subst_var_match :: "string \<Rightarrow> (string \<times> string \<times> string \<times> string) option" where
  "subst_var_match s =
     (if startswith s ''{{'' then
        (let sp = takeWhile (\<lambda>c. c = CHR '' '') (drop 2 s) in
         case variable_name (drop (2 + length sp) s) of
           None \<Rightarrow> None
         | Some (key, r) \<Rightarrow>
             (let sp2 = takeWhile (\<lambda>c. c = CHR '' '') r; r2 = drop (length sp2) r in
              if startswith r2 ''}}'' then Some (''{{'' @ sp, key, sp2 @ ''}}'', drop 2 r2) else None))
      else None)"

lemma name_parts_split: "name_parts s = (a, r) \<Longrightarrow> s = a @ r"
proof (induction s arbitrary: a r rule: name_parts.induct)
  case (1 s)
  show ?case
  proof (cases "s \<noteq> [] \<and> is_name_sep (hd s) \<and> takeWhile ascii_alnum (tl s) \<noteq> []")
    case True
    obtain b q where b: "name_parts (dropWhile ascii_alnum (tl s)) = (b, q)" by fastforce
    have np: "name_parts s = (hd s # takeWhile ascii_alnum (tl s) @ b, q)"
      by (subst name_parts.simps) (simp only: if_P[OF True] b prod.case)
    with "1.prems" have ar: "a = hd s # takeWhile ascii_alnum (tl s) @ b" "r = q" by simp_all
    have "dropWhile ascii_alnum (tl s) = b @ q" by (rule "1.IH"[OF True b])
    then have "tl s = takeWhile ascii_alnum (tl s) @ b @ q" by (metis takeWhile_dropWhile_id)
    with True have "s = hd s # takeWhile ascii_alnum (tl s) @ b @ q" by (metis list.collapse)
    with ar show ?thesis by simp
  next
    case False
    have "name_parts s = ([], s)" by (subst name_parts.simps) (simp only: if_not_P[OF False])
    with "1.prems" show ?thesis by simp
  qed
qed

lemma variable_name_split: "variable_name s = Some (k, r) \<Longrightarrow> s = k @ r \<and> k \<noteq> []"
proof -
  assume m: "variable_name s = Some (k, r)"
  define u :: string where "u = (if startswith s ''_'' then ''_'' else [])"
  let ?s1 = "drop (length u) s"
  obtain a q where a: "name_parts (dropWhile ascii_alnum ?s1) = (a, q)" by fastforce
  have su: "s = u @ ?s1"
    using startswith_drop[of s "''_''"] unfolding u_def by (cases "startswith s ''_''") simp_all
  have "(if takeWhile ascii_alnum ?s1 = [] then None else Some (u @ takeWhile ascii_alnum ?s1 @ a, q)) = Some (k, r)"
    using m unfolding variable_name_def u_def[symmetric] Let_def a prod.case .
  then have "takeWhile ascii_alnum ?s1 \<noteq> []" "k = u @ takeWhile ascii_alnum ?s1 @ a" "r = q"
    by (cases "takeWhile ascii_alnum ?s1 = []"; simp)+
  moreover have "?s1 = takeWhile ascii_alnum ?s1 @ a @ q"
    using name_parts_split[OF a] by (metis takeWhile_dropWhile_id)
  ultimately show ?thesis using su by (metis append.assoc append_is_Nil_conv)
qed

lemma take_blanks: "drop (length (takeWhile P s)) s = dropWhile P s"
  by (simp add: dropWhile_eq_drop)

lemma subst_var_match_split:
  assumes "subst_var_match s = Some (p, k, f, r)"
  shows "s = p @ k @ f @ r" and "p \<noteq> []" and "k \<noteq> []"
proof -
  define sp where "sp = takeWhile (\<lambda>c. c = CHR '' '') (drop 2 s)"
  have st: "startswith s ''{{''" using assms unfolding subst_var_match_def by (cases "startswith s ''{{''") simp_all
  then obtain key q where q: "variable_name (drop (2 + length sp) s) = Some (key, q)"
    using assms unfolding subst_var_match_def sp_def[symmetric] Let_def
    by (cases "variable_name (drop (2 + length sp) s)") auto
  define sp2 where "sp2 = takeWhile (\<lambda>c. c = CHR '' '') q"
  have "(if startswith (drop (length sp2) q) ''}}'' then
      Some (''{{'' @ sp, key, sp2 @ ''}}'', drop 2 (drop (length sp2) q)) else None) = Some (p, k, f, r)"
    using assms unfolding subst_var_match_def sp_def[symmetric] Let_def if_P[OF st] q option.case prod.case
      sp2_def[symmetric] .
  then have e: "startswith (drop (length sp2) q) ''}}''" and
    pk: "p = ''{{'' @ sp" "k = key" "f = sp2 @ ''}}''" "r = drop 2 (drop (length sp2) q)"
    by (cases "startswith (drop (length sp2) q) ''}}''"; simp)+
  have "s = ''{{'' @ drop 2 s" using startswith_drop[OF st] by (simp add: numeral_2_eq_2)
  moreover have "drop 2 s = sp @ drop (length sp) (drop 2 s)"
    unfolding sp_def take_blanks by (rule takeWhile_dropWhile_id[symmetric])
  moreover have "drop (2 + length sp) s = drop (length sp) (drop 2 s)" by (simp add: add.commute)
  moreover have "drop (2 + length sp) s = key @ q" "key \<noteq> []" using variable_name_split[OF q] by simp_all
  moreover have "q = sp2 @ drop (length sp2) q"
    unfolding sp2_def take_blanks by (rule takeWhile_dropWhile_id[symmetric])
  moreover have "drop (length sp2) q = ''}}'' @ r"
    using startswith_drop[OF e] pk by (simp add: numeral_2_eq_2)
  ultimately show "s = p @ k @ f @ r" "k \<noteq> []" using pk by (metis append.assoc)+
  show "p \<noteq> []" using pk by simp
qed

subsection \<open>Replacing\<close>

text \<open>\<^verbatim>\<open>pattern.finditer(value)\<close>: the position and the groups of each match.\<close>

function subst_finditer :: "nat \<Rightarrow> string \<Rightarrow> (nat \<times> string \<times> string \<times> string) list" where
  "subst_finditer pos s =
     (if s = [] then []
      else (case subst_var_match s of
              None \<Rightarrow> subst_finditer (Suc pos) (tl s)
            | Some (p, k, f, r) \<Rightarrow>
                (pos, p, k, f) # subst_finditer (pos + length p + length k + length f) r))"
  by pat_completeness auto
termination
proof (relation "measure (\<lambda>(pos, s). length s)", goal_cases)
  case (3 pos s m p x k y f r)
  then have "subst_var_match s = Some (p, k, f, r)" by simp
  from subst_var_match_split[OF this] show ?case by simp
qed auto

declare subst_finditer.simps [simp del]

text \<open>The loop of \<^verbatim>\<open>_apply_substitution\<close>: \<open>offset\<close> is how far the result has shifted.\<close>

fun apply_matches ::
    "bool \<Rightarrow> (nat \<times> string \<times> string \<times> string) list \<Rightarrow> string \<Rightarrow> int \<Rightarrow> subst_scope list \<Rightarrow>
     (subst_scope list \<times> string) res" where
  "apply_matches escape_glob_characters [] result offset chain = Inr (chain, result)"
| "apply_matches escape_glob_characters ((pos, pre, matched_key, suf) # matches) result offset chain =
     rbind (replacement chain matched_key) (\<lambda>(chain1, value0).
       let chain2 = mark_used chain1 matched_key;
           replacement_value = (if escape_glob_characters then glob_escape value0 else value0);
           s = int pos + offset;
           e = int (pos + length pre + length matched_key + length suf) + offset;
           result' = take (nat s) result @ replacement_value @ drop (nat e) result;
           token_fluff_len = int (length pre) + int (length suf);
           offset' = offset + (int (length replacement_value) - int (length matched_key) - token_fluff_len)
       in apply_matches escape_glob_characters matches result' offset' chain2)"

definition apply_substitution :: "bool \<Rightarrow> string \<Rightarrow> subst_scope list \<Rightarrow> (subst_scope list \<times> string) res" where
  "apply_substitution escape_glob_characters value chain =
     apply_matches escape_glob_characters (subst_finditer 0 value) value 0 chain"

definition substitute :: "bool \<Rightarrow> string \<Rightarrow> subst_scope list \<Rightarrow> (subst_scope list \<times> string) res" where
  "substitute escape_glob_characters value chain =
     (if \<not> infix_of ''{{'' value then Inr (chain, value)
      else apply_substitution escape_glob_characters value chain)"

subsection \<open>Substituting is replacing each variable where it stands\<close>

text \<open>The specification: read the text from left to right and put the value in place of each match.\<close>

function expand :: "bool \<Rightarrow> subst_scope list \<Rightarrow> string \<Rightarrow> (subst_scope list \<times> string) res" where
  "expand esc chain s =
     (if s = [] then Inr (chain, [])
      else (case subst_var_match s of
              None \<Rightarrow> rmap (\<lambda>(ch, t). (ch, hd s # t)) (expand esc chain (tl s))
            | Some (p, k, f, r) \<Rightarrow>
                rbind (replacement chain k) (\<lambda>(chain1, v).
                  rmap (\<lambda>(ch, t). (ch, (if esc then glob_escape v else v) @ t))
                    (expand esc (mark_used chain1 k) r))))"
  by pat_completeness auto
termination
proof (relation "measure (\<lambda>(esc, chain, s). length s)", goal_cases)
  case (3 esc chain s m p x k y f r)
  then have "subst_var_match s = Some (p, k, f, r)" by simp
  from subst_var_match_split[OF this] show ?case by simp
qed auto

declare expand.simps [simp del]

lemma apply_matches_expand:
  "apply_matches esc (subst_finditer pos s) (before @ s) (int (length before) - int pos) chain =
   rmap (\<lambda>(ch, t). (ch, before @ t)) (expand esc chain s)"
proof (induction esc chain s arbitrary: pos before rule: expand.induct)
  case (1 esc chain s)
  consider (empty) "s = []" | (plain) "s \<noteq> []" "subst_var_match s = None"
    | (var) p k f r where "s \<noteq> []" "subst_var_match s = Some (p, k, f, r)"
    by (cases "subst_var_match s") auto
  then show ?case
  proof cases
    case empty
    then show ?thesis by (simp add: expand.simps[of esc chain "[]"] subst_finditer.simps[of pos "[]"])
  next
    case plain
    have s: "s = hd s # tl s" using plain(1) by simp
    have "apply_matches esc (subst_finditer (Suc pos) (tl s)) ((before @ [hd s]) @ tl s)
        (int (length (before @ [hd s])) - int (Suc pos)) chain =
      rmap (\<lambda>(ch, t). (ch, (before @ [hd s]) @ t)) (expand esc chain (tl s))"
      by (rule 1(1)[OF plain])
    moreover have "(before @ [hd s]) @ tl s = before @ s" using s by simp
    moreover have "int (length (before @ [hd s])) - int (Suc pos) = int (length before) - int pos" by simp
    moreover have "subst_finditer pos s = subst_finditer (Suc pos) (tl s)"
      using plain by (simp add: subst_finditer.simps[of pos s])
    moreover have "expand esc chain s = rmap (\<lambda>(ch, t). (ch, hd s # t)) (expand esc chain (tl s))"
      using plain by (simp add: expand.simps[of esc chain s])
    ultimately show ?thesis by (cases "expand esc chain (tl s)") auto
  next
    case var
    note sp = subst_var_match_split[OF var(2)]
    let ?pos = "pos + length p + length k + length f"
    have fi: "subst_finditer pos s = (pos, p, k, f) # subst_finditer ?pos r"
      using var by (simp add: subst_finditer.simps[of pos s])
    show ?thesis
    proof (cases "replacement chain k")
      case (Inl e)
      with var show ?thesis by (simp add: fi expand.simps[of esc chain s])
    next
      case (Inr cv)
      obtain c1 v where cv: "cv = (c1, v)" by (cases cv)
      let ?v = "if esc then glob_escape v else v"
      have IH: "apply_matches esc (subst_finditer ?pos r) ((before @ ?v) @ r)
          (int (length (before @ ?v)) - int ?pos) (mark_used c1 k) =
        rmap (\<lambda>(ch, t). (ch, (before @ ?v) @ t)) (expand esc (mark_used c1 k) r)"
        by (rule 1(2)[OF var(1) var(2) refl refl refl Inr cv[symmetric]])
      have t: "take (nat (int pos + (int (length before) - int pos))) (before @ s) = before"
        by simp
      have "nat (int ?pos + (int (length before) - int pos)) = length before + length (p @ k @ f)" by simp
      then have d: "drop (nat (int ?pos + (int (length before) - int pos))) (before @ s) = r"
        using sp(1) by simp
      have o: "int (length before) - int pos + (int (length ?v) - int (length k) - (int (length p) + int (length f)))
          = int (length (before @ ?v)) - int ?pos" by simp
      have "apply_matches esc (subst_finditer pos s) (before @ s) (int (length before) - int pos) chain =
          apply_matches esc (subst_finditer ?pos r) (before @ ?v @ r) (int (length (before @ ?v)) - int ?pos)
            (mark_used c1 k)"
        unfolding fi apply_matches.simps Inr cv rbind_Inr prod.case Let_def t d o ..
      also have "\<dots> = rmap (\<lambda>(ch, t). (ch, (before @ ?v) @ t)) (expand esc (mark_used c1 k) r)"
        using IH by simp
      also have "\<dots> = rmap (\<lambda>(ch, t). (ch, before @ t)) (expand esc chain s)"
        using var Inr cv by (cases "expand esc (mark_used c1 k) r") (auto simp: expand.simps[of esc chain s])
      finally show ?thesis .
    qed
  qed
qed

lemma subst_var_match_brace: "subst_var_match s \<noteq> None \<Longrightarrow> infix_of ''{{'' s"
proof -
  assume "subst_var_match s \<noteq> None"
  then have "startswith s ''{{''" unfolding subst_var_match_def by (cases "startswith s ''{{''") simp_all
  then show ?thesis by (cases s) (simp_all add: startswith_iff)
qed

lemma expand_no_brace: "\<not> infix_of ''{{'' s \<Longrightarrow> expand esc chain s = Inr (chain, s)"
proof (induction s)
  case Nil
  then show ?case by (simp add: expand.simps)
next
  case (Cons c s)
  have "subst_var_match (c # s) = None" using subst_var_match_brace Cons.prems by blast
  moreover have "\<not> infix_of ''{{'' s" using Cons.prems by simp
  ultimately show ?case using Cons.IH by (simp add: expand.simps[of esc chain "c # s"])
qed

text \<open>C9: \<^verbatim>\<open>substitute\<close>, with its early exit and its arithmetic on offsets, puts the value of each
  variable in the place of its \<^verbatim>\<open>{{...}}\<close> and changes nothing else.\<close>

theorem substitute_expands: "substitute esc value chain = expand esc chain value"
proof (cases "infix_of ''{{'' value")
  case True
  have "apply_matches esc (subst_finditer 0 value) value 0 chain = rmap (\<lambda>(ch, t). (ch, t)) (expand esc chain value)"
    using apply_matches_expand[of esc 0 "value" "[]" chain] by simp
  also have "\<dots> = expand esc chain value" by (cases "expand esc chain value") auto
  finally show ?thesis using True by (simp add: substitute_def apply_substitution_def)
next
  case False
  then show ?thesis by (simp add: substitute_def expand_no_brace)
qed

subsection \<open>States, use and caching\<close>

text \<open>A scope without documentation placeholders and whose plugin variables all resolve.\<close>

definition resolvable_scope :: "subst_scope \<Rightarrow> bool" where
  "resolvable_scope s \<longleftrightarrow>
     (case s_features s of
        None \<Rightarrow> True
      | Some d \<Rightarrow> list_all (\<lambda>(k, v). \<not> is_documentation_placeholder v \<and> (case resolve_variable v of Inl _ \<Rightarrow> False | Inr _ \<Rightarrow> True)
          \<and> \<not> startswith k ''env:'') d)"

lemma resolvable_feature:
  assumes "resolvable_scope s" and "feature s k = Some v"
  shows "\<not> is_documentation_placeholder v" and "\<exists>x. resolve_variable v = Inr x" and "\<not> startswith k ''env:''"
proof -
  from assms(2) obtain d where d: "s_features s = Some d" "(k, v) \<in> set d"
    by (auto simp: feature_def split: option.splits dest: map_of_SomeD)
  with assms(1) have "\<not> is_documentation_placeholder v \<and> (case resolve_variable v of Inl _ \<Rightarrow> False | Inr _ \<Rightarrow> True)
      \<and> \<not> startswith k ''env:''"
    by (auto simp: resolvable_scope_def list_all_iff simp del: sum.case)
  then show "\<not> is_documentation_placeholder v" "\<exists>x. resolve_variable v = Inr x" "\<not> startswith k ''env:''"
    by (cases "resolve_variable v"; simp)+
qed

lemma replacement_parent_ex:
  "(\<exists>y. rmap (\<lambda>(ps, v). (s # ps, v)) m = Inr y) \<longleftrightarrow> (\<exists>x. m = Inr x)"
  by (cases m) auto

text \<open>A variable whose state is \<^verbatim>\<open>DEFINED\<close> can be substituted, and only those can: the two orders of
  lookup agree, except for \<^verbatim>\<open>DEB_\<close> names that \<^verbatim>\<open>dpkg-architecture\<close> does not know (which a static
  variable may still provide) and for placeholders that only document a variable.\<close>

theorem defined_iff_replaceable:
  assumes "list_all resolvable_scope chain"
    and "startswith key ''DEB_'' \<Longrightarrow> chain \<noteq> [] \<and> map_of (s_arch_table (hd chain)) key \<noteq> None"
  shows "variable_state chain key = DEFINED \<longleftrightarrow> (\<exists>r. replacement chain key = Inr r)"
proof (cases "startswith key ''DEB_''")
  case True
  with assms(2) obtain s ps where "chain = s # ps" "map_of (s_arch_table s) key \<noteq> None"
    by (cases chain) auto
  with True show ?thesis by auto
next
  case nd: False
  show ?thesis using assms(1)
  proof (induction chain)
    case (Cons s ps)
    have IH: "variable_state ps key = DEFINED \<longleftrightarrow> (\<exists>r. replacement ps key = Inr r)"
      using Cons by simp
    have rs: "resolvable_scope s" using Cons.prems by simp
    show ?case
    proof (cases "feature s key")
      case None
      then show ?thesis
        using nd IH replacement_parent_ex[of s "replacement ps key"]
        by (simp add: static_has_def split: option.split del: split_paired_Ex)
    next
      case (Some v)
      note r = resolvable_feature[OF rs Some]
      with nd Some show ?thesis by (auto split: option.splits)
    qed
  qed simp
qed

definition demo_chain :: "subst_scope list" where
  "demo_chain =
     [\<lparr>s_used = [], s_features = None, s_static = Some [(''PACKAGE'', ''foo'')], s_unresolvable = [],
       s_arch_table = [], s_env = []\<rparr>,
      \<lparr>s_used = [], s_features = Some [(''token:NL'', \<lparr>is_documentation_placeholder = False, resolve_variable = Inr [CHR 0x0A]\<rparr>)],
       s_static = None, s_unresolvable = [''PRE''], s_arch_table = [], s_env = []\<rparr>]"

lemma defined_iff_replaceable_witness:
  "variable_state demo_chain ''token:NL'' = DEFINED \<longleftrightarrow> (\<exists>r. replacement demo_chain ''token:NL'' = Inr r)"
proof (rule defined_iff_replaceable)
  show "list_all resolvable_scope demo_chain" by code_simp
  assume "startswith ''token:NL'' ''DEB_''"
  then show "demo_chain \<noteq> [] \<and> map_of (s_arch_table (hd demo_chain)) ''token:NL'' \<noteq> None" by simp
qed

text \<open>A variable that is only documented is reported as defined, but has no value.\<close>

lemma placeholder_defined_not_replaceable:
  "let chain = [\<lparr>s_used = [], s_features = Some [(''path:X'', \<lparr>is_documentation_placeholder = True, resolve_variable = Inl SubstitutionError\<rparr>)],
       s_static = None, s_unresolvable = [], s_arch_table = [], s_env = []\<rparr>]
   in variable_state chain ''path:X'' = DEFINED \<and> replacement chain ''path:X'' = Inl SubstitutionError"
  by code_simp

lemma is_used_mark_parents: "is_used ps n \<Longrightarrow> is_used (mark_parents ps k) n"
  by (induction ps) (auto simp: add_used_def)

lemma is_used_mark: "is_used chain n \<Longrightarrow> is_used (mark_used chain k) n"
  by (cases chain) (auto simp: add_used_def is_used_mark_parents)

lemma is_used_marked: "chain \<noteq> [] \<Longrightarrow> is_used (mark_used chain k) k"
  by (cases chain) (auto simp: add_used_def)

lemma replacement_props:
  "replacement chain k = Inr (chain', v) \<Longrightarrow>
   is_used chain' n = is_used chain n \<and> length chain' = length chain \<and> chain \<noteq> [] \<and>
   replacement chain' k = Inr (chain', v)"
proof (induction chain arbitrary: chain')
  case (Cons s ps)
  show ?case
  proof (cases "startswith k ''DEB_'' \<and> map_of (s_arch_table s) k \<noteq> None")
    case True
    with Cons.prems show ?thesis by auto
  next
    case nd: False
    show ?thesis
    proof (cases "startswith k ''env:''")
      case True
      with nd Cons.prems show ?thesis by (auto split: option.splits)
    next
      case ne: False
      show ?thesis
      proof (cases "case s_static s of None \<Rightarrow> None | Some d \<Rightarrow> map_of d k")
        case (Some w)
        with nd ne Cons.prems show ?thesis by auto
      next
        case ns: None
        have up: "is_used chain' n = is_used (s # ps) n \<and> length chain' = length (s # ps) \<and>
            replacement chain' k = Inr (chain', v)"
          if u: "k \<notin> set (s_unresolvable s)" "rmap (\<lambda>(ps, v). (s # ps, v)) (replacement ps k) = Inr (chain', v)"
            and f: "\<And>pv. feature s k = Some pv \<Longrightarrow> is_documentation_placeholder pv"
        proof -
          from u obtain ps' where "replacement ps k = Inr (ps', v)" "chain' = s # ps'"
            by (auto simp: res_simps)
          with Cons.IH[of ps'] nd ne ns u f show ?thesis by (auto split: option.splits)
        qed
        show ?thesis
        proof (cases "feature s k")
          case None
          with Cons.prems nd ne ns up show ?thesis by (auto split: if_splits)
        next
          case (Some pv)
          show ?thesis
          proof (cases "is_documentation_placeholder pv")
            case True
            with Some Cons.prems nd ne ns up show ?thesis by (auto split: if_splits)
          next
            case False
            with Some Cons.prems nd ne ns have "chain' = cache_value k v s # ps"
              by (auto simp: res_simps)
            with nd ne show ?thesis by (auto simp: cache_value_def update_conv split: option.splits)
          qed
        qed
      qed
    qed
  qed
qed simp

text \<open>Resolving a variable (which may cache the value of a plugin) does not change what it or the
  used set say afterwards: a second resolution gives the same value and changes nothing more; and
  once a variable was substituted it counts as used, which nothing undoes.\<close>

theorem replacement_cached:
  assumes "replacement chain k = Inr (chain', v)"
  shows "replacement chain' k = Inr (chain', v) \<and> is_used (mark_used chain' k) k \<and>
    (is_used chain n \<longrightarrow> is_used (mark_used chain' k) n)"
proof -
  have "chain' \<noteq> []" using replacement_props[OF assms] by (metis length_0_conv)
  then show ?thesis using replacement_props[OF assms, of n] is_used_marked is_used_mark by blast
qed

lemma replacement_cached_witness:
  "let chain' = fst (projr (replacement demo_chain ''token:NL'')) in
   replacement chain' ''token:NL'' = Inr (chain', [CHR 0x0A]) \<and> is_used (mark_used chain' ''token:NL'') ''token:NL''"
proof -
  have "replacement demo_chain ''token:NL'' = Inr (fst (projr (replacement demo_chain ''token:NL'')), [CHR 0x0A])"
    by code_simp
  from replacement_cached[OF this] show ?thesis by (simp add: Let_def)
qed

end
