(* ===== verification/PathMatch.thy ===== *)
theory PathMatch
  imports Subst PathUtil VirtFsProps
begin

section \<open>Path and glob matching (\<^verbatim>\<open>src/debputy/path_matcher.py\<close>)\<close>

text \<open>
  Match rules, their construction from a pattern, and the paths they select.  The matcher uses a tree
  only through the interface of \<^verbatim>\<open>VirtualPath\<close>; the record of those operations is a parameter, and the
  virtual file system is one instance of it.
\<close>

subsection \<open>\<^verbatim>\<open>fnmatch\<close>\<close>

text \<open>What the standard library's \<^verbatim>\<open>fnmatch.translate\<close> compiles a pattern to.\<close>

datatype glob_token = GStar | GAny | GSet bool "(char \<times> char) list" | GLit char

text \<open>The inside of a bracket: single characters and ranges.\<close>

fun bracket_items :: "string \<Rightarrow> (char \<times> char) list" where
  "bracket_items (x # y # z # s) =
     (if y = CHR ''-'' then (x, z) # bracket_items s else (x, x) # bracket_items (y # z # s))"
| "bracket_items (x # s) = (x, x) # bracket_items s"
| "bracket_items [] = []"

text \<open>The bracket that starts a text (after its \<^verbatim>\<open>[\<close>): negation, content and the rest after its \<^verbatim>\<open>]\<close>.\<close>

definition bracket :: "string \<Rightarrow> (bool \<times> string \<times> string) option" where
  "bracket s =
     (let neg = startswith s ''!'';
          s1 = (if neg then drop 1 s else s);
          first = (if startswith s1 '']'' then '']'' else []);
          s2 = drop (length first) s1;
          body = takeWhile (\<lambda>c. c \<noteq> CHR '']'') s2;
          rest = dropWhile (\<lambda>c. c \<noteq> CHR '']'') s2
      in if rest = [] then None else Some (neg, first @ body, tl rest))"

lemma bracket_shorter: "bracket s = Some (n, b, r) \<Longrightarrow> length r < length s"
proof -
  assume b: "bracket s = Some (n, b, r)"
  define s1 where "s1 = (if startswith s ''!'' then drop 1 s else s)"
  define first :: string where "first = (if startswith s1 '']'' then '']'' else [])"
  let ?rest = "dropWhile (\<lambda>c. c \<noteq> CHR '']'') (drop (length first) s1)"
  note m = if_None_SomeD[OF b[unfolded bracket_def Let_def, folded s1_def, folded first_def]]
  have ne: "?rest \<noteq> []" using m by (rule conjunct1)
  have r: "r = tl ?rest" using m by (simp only: prod.inject)
  have "length ?rest \<le> length (drop (length first) s1)" by (rule length_dropWhile_le)
  also have "\<dots> \<le> length s" by (simp add: s1_def)
  finally have "length ?rest \<le> length s" .
  moreover have "length r < length ?rest" using ne r by (cases ?rest) simp_all
  ultimately show ?thesis by simp
qed

function glob_tokens :: "string \<Rightarrow> glob_token list" where
  "glob_tokens [] = []"
| "glob_tokens (c # s) =
     (if c = CHR ''*'' then GStar # glob_tokens s
      else if c = CHR ''?'' then GAny # glob_tokens s
      else if c = CHR ''['' then
        (case bracket s of
           None \<Rightarrow> GLit c # glob_tokens s
         | Some (neg, body, rest) \<Rightarrow> GSet neg (bracket_items body) # glob_tokens rest)
      else GLit c # glob_tokens s)"
  by pat_completeness auto
termination
  by (relation "measure length") (auto dest: bracket_shorter)

fun glob_match :: "glob_token list \<Rightarrow> string \<Rightarrow> bool" where
  "glob_match [] s \<longleftrightarrow> s = []"
| "glob_match (GStar # ts) s \<longleftrightarrow> list_ex (\<lambda>n. glob_match ts (drop n s)) [0..<Suc (length s)]"
| "glob_match (GAny # ts) s \<longleftrightarrow> s \<noteq> [] \<and> glob_match ts (tl s)"
| "glob_match (GSet neg items # ts) s \<longleftrightarrow>
     s \<noteq> [] \<and> (list_ex (\<lambda>(a, b). a \<le> hd s \<and> hd s \<le> b) items \<noteq> neg) \<and> glob_match ts (tl s)"
| "glob_match (GLit c # ts) s \<longleftrightarrow> s \<noteq> [] \<and> hd s = c \<and> glob_match ts (tl s)"

definition fnmatch :: "string \<Rightarrow> string \<Rightarrow> bool" where
  "fnmatch pattern s = glob_match (glob_tokens pattern) s"

subsection \<open>Compiling a basename glob\<close>

text \<open>The matcher of \<^verbatim>\<open>_compile_basename_glob\<close>, without the text for the shell.\<close>

datatype basename_matcher =
    MatchEqual string
  | MatchInfix string
  | MatchSuffix string
  | MatchPrefix string
  | MatchSlow string

definition compile_basename_glob :: "string \<Rightarrow> basename_matcher" where
  "compile_basename_glob g =
     (if \<not> glob_has_magic g then MatchEqual g
      else
        (let star = startswith g ''*'';
             remainder =
               (if star then (if endswith g ''*'' then drop 1 (butlast g) else drop 1 g) else butlast g);
             quick =
               (if star then (if endswith g ''*'' then MatchInfix remainder else MatchSuffix remainder)
                else MatchPrefix remainder)
         in if \<not> glob_has_magic remainder then quick else MatchSlow g))"

fun run_matcher :: "basename_matcher \<Rightarrow> string \<Rightarrow> bool" where
  "run_matcher (MatchEqual g) x \<longleftrightarrow> x = g"
| "run_matcher (MatchInfix r) x \<longleftrightarrow> infix_of r x"
| "run_matcher (MatchSuffix r) x \<longleftrightarrow> endswith x r"
| "run_matcher (MatchPrefix r) x \<longleftrightarrow> startswith x r"
| "run_matcher (MatchSlow g) x \<longleftrightarrow> fnmatch g x"

subsection \<open>Rules\<close>

datatype path_type = FILE | DIRECTORY | SYMLINK

datatype match_rule_type = DIRECT_CHILDREN_OF_DIR | ANYTHING_BENEATH_DIR

datatype match_rule =
    MatchAnything
  | ExactFileSystemPath string
  | DirectoryBasedMatch match_rule_type string "path_type option"
  | BasenameGlobMatch string "string option" "path_type option" bool
  | GenericGlobImplementation string "path_type option"

text \<open>\<^verbatim>\<open>[{][^},.]*(?:,|[.][.])[^},.]*[}]\<close> somewhere in the text.\<close>

definition brace_plain :: "char \<Rightarrow> bool" where
  "brace_plain c \<longleftrightarrow> c \<notin> set ''},.''"

fun brace_expansion :: "string \<Rightarrow> bool" where
  "brace_expansion [] = False"
| "brace_expansion (c # s) =
     ((c = CHR ''{'' \<and>
        (let r = dropWhile brace_plain s;
             after = (if startswith r '','' then drop 1 r else if startswith r ''..'' then drop 2 r else [])
         in startswith (dropWhile brace_plain after) ''}''))
      \<or> brace_expansion s)"

definition new_directory_match :: "match_rule_type \<Rightarrow> string \<Rightarrow> path_type option \<Rightarrow> match_rule res" where
  "new_directory_match rt directory pt =
     (if endswith directory ''/'' then Inl AssertionErr
      else Inr (DirectoryBasedMatch rt directory pt))"

definition new_basename_glob ::
    "string \<Rightarrow> string option \<Rightarrow> path_type option \<Rightarrow> bool \<Rightarrow> match_rule res" where
  "new_basename_glob g directory pt recursive =
     (if (case directory of None \<Rightarrow> False | Some d \<Rightarrow> endswith d ''/'') \<or> slash \<in> set g \<or> infix_of ''**'' g
      then Inl AssertionErr
      else Inr (BasenameGlobMatch g directory pt (directory = None \<or> recursive)))"

definition new_generic_glob :: "string \<Rightarrow> path_type option \<Rightarrow> match_rule res" where
  "new_generic_glob g0 pt =
     (let g = (if startswith g0 ''./'' then drop 2 g0 else g0) in
      if infix_of ''**'' g \<or> \<not> glob_has_magic g \<or> slash \<notin> set g \<or> strip (\<lambda>c. c = slash) g \<noteq> g
      then Inl AssertionErr
      else Inr (GenericGlobImplementation g pt))"

text \<open>\<open>subst esc s\<close> is \<^verbatim>\<open>substitution.substitute(s, ..., escape_glob_characters=esc)\<close>.\<close>

definition from_path_or_glob ::
    "(bool \<Rightarrow> string \<Rightarrow> string res) \<Rightarrow> path_type option \<Rightarrow> string \<Rightarrow> match_rule res" where
  "from_path_or_glob subst pt path_or_glob =
     rbind (normalize_path path_or_glob False) (\<lambda>normalized_no_prefix.
       if path_or_glob \<in> set [''*'', ''**/*'', ''.'', ''/''] then
         (if pt \<noteq> None then Inl AssertionErr else Inr MatchAnything)
       else if CHR ''{'' \<in> set path_or_glob \<and> brace_expansion path_or_glob then Inl UserError
       else
         (let with_prefix = ''./'' @ normalized_no_prefix in
          if \<not> glob_has_magic with_prefix then
            (if pt \<noteq> None then Inl AssertionErr
             else rmap ExactFileSystemPath (subst False with_prefix))
          else
            (let directory = path_head with_prefix; basename = path_tail with_prefix in
             if (infix_of ''**'' directory \<and> directory \<noteq> ''./**'') \<or> infix_of ''**'' basename
             then Inl ValueError
             else if basename = ''*'' \<and> \<not> glob_has_magic directory then
               rbind (subst False directory) (\<lambda>d. new_directory_match DIRECT_CHILDREN_OF_DIR d pt)
             else if directory = ''./**'' \<or> \<not> glob_has_magic directory then
               rbind (subst True basename) (\<lambda>g.
                 if directory = ''.'' \<or> directory = ''./**'' then new_basename_glob g None pt True
                 else rbind (subst False directory) (\<lambda>d. new_basename_glob g (Some d) pt False))
             else new_generic_glob with_prefix pt)))"

definition recursive_beneath_directory ::
    "(bool \<Rightarrow> string \<Rightarrow> string res) \<Rightarrow> path_type option \<Rightarrow> string \<Rightarrow> match_rule res" where
  "recursive_beneath_directory subst pt directory =
     (if directory = ''.'' \<or> directory = ''/'' then Inr MatchAnything
      else if glob_has_magic directory then Inl AssertionErr
      else rbind (normalize_path directory True) (\<lambda>n.
        rbind (subst False n) (\<lambda>d. new_directory_match ANYTHING_BENEATH_DIR d pt)))"

subsection \<open>Selecting paths\<close>

text \<open>What the matcher calls of a \<^verbatim>\<open>VirtualPath\<close>.\<close>

record 'p path_ops =
  op_lookup :: "'p \<Rightarrow> string \<Rightarrow> 'p option res"
  op_all_paths :: "'p \<Rightarrow> 'p list res"
  op_iterdir :: "'p \<Rightarrow> 'p list"
  op_name :: "'p \<Rightarrow> string"
  op_is_dir :: "'p \<Rightarrow> bool"
  op_is_file :: "'p \<Rightarrow> bool"
  op_is_symlink :: "'p \<Rightarrow> bool"
  op_is_root :: "'p \<Rightarrow> bool"

definition lookup_in_root :: "('p, 'm) path_ops_scheme \<Rightarrow> 'p \<Rightarrow> string \<Rightarrow> 'p option res" where
  "lookup_in_root ops fs_root p =
     (if \<not> startswith p ''./'' then Inl ValueError
      else if op_name ops fs_root \<noteq> ''.'' \<or> \<not> op_is_root ops fs_root then Inl ValueError
      else op_lookup ops fs_root (drop 2 p))"

definition match_file_type :: "('p, 'm) path_ops_scheme \<Rightarrow> path_type \<Rightarrow> 'p \<Rightarrow> bool" where
  "match_file_type ops pt p =
     (case pt of FILE \<Rightarrow> op_is_file ops p | DIRECTORY \<Rightarrow> op_is_dir ops p | SYMLINK \<Rightarrow> op_is_symlink ops p)"

definition keeps_type :: "('p, 'm) path_ops_scheme \<Rightarrow> path_type option \<Rightarrow> 'p \<Rightarrow> bool" where
  "keeps_type ops pt p = (case pt of None \<Rightarrow> True | Some t \<Rightarrow> match_file_type ops t p)"

definition not_ignored :: "('p \<Rightarrow> bool) option \<Rightarrow> 'p \<Rightarrow> bool" where
  "not_ignored ignore p = (case ignore of None \<Rightarrow> True | Some f \<Rightarrow> \<not> f p)"

text \<open>
  One part of a generic glob: a literal part is looked up.  For a part with glob characters the code
  stores the pair that \<^verbatim>\<open>_compile_basename_glob\<close> returns, and calls it as a function on each child.
\<close>

definition apply_match :: "('p, 'm) path_ops_scheme \<Rightarrow> string \<Rightarrow> 'p \<Rightarrow> 'p list res" where
  "apply_match ops part p =
     (if glob_has_magic part then (if op_iterdir ops p = [] then Inr [] else Inl TypeErr)
      else rmap (\<lambda>m. case m of None \<Rightarrow> [] | Some q \<Rightarrow> [q]) (op_lookup ops p part))"

fun glob_layers :: "('p, 'm) path_ops_scheme \<Rightarrow> string list \<Rightarrow> 'p list \<Rightarrow> 'p list res" where
  "glob_layers ops [] search_history = Inr search_history"
| "glob_layers ops (part # parts) search_history =
     rbind (rmap concat (rmapM (apply_match ops part) search_history)) (\<lambda>next_layer.
       if next_layer = [] then Inr [] else glob_layers ops parts next_layer)"

definition finditer_anything ::
    "('p, 'm) path_ops_scheme \<Rightarrow> 'p \<Rightarrow> ('p \<Rightarrow> bool) option \<Rightarrow> 'p list res" where
  "finditer_anything ops fs_root ignore =
     rmap (\<lambda>ps. (if ignore = None then [] else filter (not_ignored ignore) ps) @ ps) (op_all_paths ops fs_root)"

definition finditer_exact ::
    "('p, 'm) path_ops_scheme \<Rightarrow> 'p \<Rightarrow> ('p \<Rightarrow> bool) option \<Rightarrow> string \<Rightarrow> 'p list res" where
  "finditer_exact ops fs_root ignore p =
     rmap (\<lambda>m. case m of None \<Rightarrow> [] | Some q \<Rightarrow> filter (not_ignored ignore) [q]) (lookup_in_root ops fs_root p)"

definition finditer_directory ::
    "('p, 'm) path_ops_scheme \<Rightarrow> 'p \<Rightarrow> ('p \<Rightarrow> bool) option \<Rightarrow> match_rule_type \<Rightarrow> string \<Rightarrow> path_type option \<Rightarrow>
     'p list res" where
  "finditer_directory ops fs_root ignore rt directory pt =
     rbind (lookup_in_root ops fs_root directory) (\<lambda>m.
       case m of
         None \<Rightarrow> Inr []
       | Some p \<Rightarrow>
           if \<not> op_is_dir ops p then Inr []
           else rmap (filter (\<lambda>q. not_ignored ignore q \<and> keeps_type ops pt q))
                  (case rt of ANYTHING_BENEATH_DIR \<Rightarrow> op_all_paths ops p
                            | DIRECT_CHILDREN_OF_DIR \<Rightarrow> Inr (op_iterdir ops p)))"

definition finditer_basename ::
    "('p, 'm) path_ops_scheme \<Rightarrow> 'p \<Rightarrow> ('p \<Rightarrow> bool) option \<Rightarrow> string \<Rightarrow> string option \<Rightarrow> path_type option \<Rightarrow> bool \<Rightarrow>
     'p list res" where
  "finditer_basename ops fs_root ignore g directory pt recursive =
     rbind (case directory of
              None \<Rightarrow> Inr (Some fs_root)
            | Some d \<Rightarrow> rmap (\<lambda>m. case m of None \<Rightarrow> None | Some p \<Rightarrow> if op_is_dir ops p then Some p else None)
                          (lookup_in_root ops fs_root d)) (\<lambda>search_root.
       case search_root of
         None \<Rightarrow> Inr []
       | Some r \<Rightarrow>
           rmap (filter (\<lambda>q. not_ignored ignore q \<and> run_matcher (compile_basename_glob g) (op_name ops q)
                          \<and> keeps_type ops pt q))
             (if recursive then op_all_paths ops r else Inr (op_iterdir ops r)))"

definition finditer_generic ::
    "('p, 'm) path_ops_scheme \<Rightarrow> 'p \<Rightarrow> ('p \<Rightarrow> bool) option \<Rightarrow> string \<Rightarrow> path_type option \<Rightarrow> 'p list res" where
  "finditer_generic ops fs_root ignore g pt =
     rmap (filter (\<lambda>q. not_ignored ignore q \<and> keeps_type ops pt q)) (glob_layers ops (split_on slash g) [fs_root])"

lemmas finditer_defs [simp] =
  finditer_anything_def finditer_exact_def finditer_directory_def finditer_basename_def finditer_generic_def

fun finditer :: "('p, 'm) path_ops_scheme \<Rightarrow> 'p \<Rightarrow> ('p \<Rightarrow> bool) option \<Rightarrow> match_rule \<Rightarrow> 'p list res" where
  "finditer ops fs_root ignore MatchAnything = finditer_anything ops fs_root ignore"
| "finditer ops fs_root ignore (ExactFileSystemPath p) = finditer_exact ops fs_root ignore p"
| "finditer ops fs_root ignore (DirectoryBasedMatch rt directory pt) =
     finditer_directory ops fs_root ignore rt directory pt"
| "finditer ops fs_root ignore (BasenameGlobMatch g directory pt recursive) =
     finditer_basename ops fs_root ignore g directory pt recursive"
| "finditer ops fs_root ignore (GenericGlobImplementation g pt) = finditer_generic ops fs_root ignore g pt"

subsection \<open>The quick matchers agree with \<^verbatim>\<open>fnmatch\<close>\<close>

lemma glob_tokens_plain:
  "\<not> glob_has_magic s \<Longrightarrow> glob_tokens (s @ r) = map GLit s @ glob_tokens r"
  by (induction s) (simp_all add: glob_has_magic_def)

lemma glob_match_literal:
  "glob_match (map GLit s @ ts) x \<longleftrightarrow> startswith x s \<and> glob_match ts (drop (length s) x)"
proof (induction s arbitrary: x)
  case (Cons c s)
  then show ?case by (cases x) auto
qed simp

lemma glob_match_star: "glob_match (GStar # ts) x \<longleftrightarrow> (\<exists>n \<le> length x. glob_match ts (drop n x))"
  by (auto simp: list_ex_iff less_Suc_eq_le simp del: upt_Suc)

lemma glob_match_exact: "glob_match (map GLit r) y \<longleftrightarrow> y = r"
  using glob_match_literal[of r "[]" y] by (auto simp: startswith_iff)

lemma infix_of_Nil [simp]: "infix_of [] s"
  by (cases s) simp_all

lemma glob_match_star_end: "glob_match [GStar] x"
  unfolding glob_match_star by (rule exI[of _ "length x"]) simp

lemma fnmatch_equal: "\<not> glob_has_magic g \<Longrightarrow> fnmatch g x \<longleftrightarrow> x = g"
  using glob_tokens_plain[of g "[]"] glob_match_literal[of g "[]" x]
  by (auto simp: fnmatch_def startswith_iff)

lemma fnmatch_prefix: "\<not> glob_has_magic r \<Longrightarrow> fnmatch (r @ ''*'') x \<longleftrightarrow> startswith x r"
  using glob_tokens_plain[of r "''*''"] glob_match_literal[of r "[GStar]" x] glob_match_star_end
  by (simp add: fnmatch_def del: glob_match.simps(2))

lemma fnmatch_suffix: "\<not> glob_has_magic r \<Longrightarrow> fnmatch (''*'' @ r) x \<longleftrightarrow> endswith x r"
proof -
  assume r: "\<not> glob_has_magic r"
  then have "fnmatch (''*'' @ r) x \<longleftrightarrow> (\<exists>n \<le> length x. glob_match (map GLit r) (drop n x))"
    using glob_tokens_plain[OF r, of "[]"] unfolding fnmatch_def by (simp add: glob_match_star del: glob_match.simps(2))
  also have "\<dots> \<longleftrightarrow> (\<exists>n \<le> length x. drop n x = r)"
    unfolding glob_match_exact ..
  also have "\<dots> \<longleftrightarrow> endswith x r"
  proof
    assume "\<exists>n \<le> length x. drop n x = r"
    then show "endswith x r" unfolding endswith_iff by (metis append_take_drop_id)
  next
    assume "endswith x r"
    then obtain p where "x = p @ r" by (auto simp: endswith_iff)
    then show "\<exists>n \<le> length x. drop n x = r" by (intro exI[of _ "length p"]) simp
  qed
  finally show ?thesis .
qed

lemma fnmatch_infix: "\<not> glob_has_magic r \<Longrightarrow> fnmatch (''*'' @ r @ ''*'') x \<longleftrightarrow> infix_of r x"
proof -
  assume r: "\<not> glob_has_magic r"
  have "fnmatch (''*'' @ r @ ''*'') x \<longleftrightarrow> (\<exists>n \<le> length x. glob_match (map GLit r @ [GStar]) (drop n x))"
    using glob_tokens_plain[OF r, of "''*''"] unfolding fnmatch_def by (simp add: glob_match_star del: glob_match.simps(2))
  also have "\<dots> \<longleftrightarrow> (\<exists>n \<le> length x. startswith (drop n x) r)"
    unfolding glob_match_literal by (simp only: glob_match_star_end simp_thms)
  also have "\<dots> \<longleftrightarrow> infix_of r x"
  proof
    assume "\<exists>n \<le> length x. startswith (drop n x) r"
    then obtain n b where "drop n x = r @ b" by (auto simp: startswith_iff)
    then have "x = take n x @ r @ b" by (metis append_take_drop_id)
    then show "infix_of r x" unfolding infix_of_iff by blast
  next
    assume "infix_of r x"
    then obtain a b where "x = a @ r @ b" by (auto simp: infix_of_iff)
    then show "\<exists>n \<le> length x. startswith (drop n x) r" by (intro exI[of _ "length a"]) simp
  qed
  finally show ?thesis .
qed

text \<open>C10: for a glob that starts or ends with \<^verbatim>\<open>*\<close> (or has no glob character) the quick matcher of
  \<^verbatim>\<open>_compile_basename_glob\<close> accepts exactly the names that \<^verbatim>\<open>fnmatch\<close> accepts.\<close>

theorem quick_matcher_correct:
  assumes "startswith g ''*'' \<or> endswith g ''*'' \<or> \<not> glob_has_magic g"
  shows "run_matcher (compile_basename_glob g) x \<longleftrightarrow> fnmatch g x"
proof (cases "glob_has_magic g")
  case False
  then show ?thesis using fnmatch_equal by (simp add: compile_basename_glob_def)
next
  case magic: True
  show ?thesis
  proof (cases "startswith g ''*''")
    case star: True
    then obtain r where r: "g = ''*'' @ r" by (auto simp: startswith_iff)
    show ?thesis
    proof (cases "endswith g ''*''")
      case True
      show ?thesis
      proof (cases "r = []")
        case True
        have "compile_basename_glob ''*'' = MatchInfix []" by code_simp
        with r True have "compile_basename_glob g = MatchInfix []" by simp
        moreover have "fnmatch g x" using True r glob_match_star_end by (simp add: fnmatch_def)
        ultimately show ?thesis by simp
      next
        case False
        with True r have "last r = CHR ''*''" by (simp add: endswith_single)
        with False have "r = butlast r @ ''*''" by (metis append_butlast_last_id)
        with r have g: "g = ''*'' @ butlast r @ ''*''" by simp
        show ?thesis
        proof (cases "glob_has_magic (butlast r)")
          case True
          then show ?thesis using magic star \<open>endswith g ''*''\<close> r False
            by (simp add: compile_basename_glob_def Let_def)
        next
          case nm: False
          have "compile_basename_glob g = MatchInfix (butlast r)"
            using magic star \<open>endswith g ''*''\<close> r False nm by (simp add: compile_basename_glob_def Let_def)
          then show ?thesis using fnmatch_infix[OF nm, of x] g by simp
        qed
      qed
    next
      case False
      then show ?thesis using magic star r fnmatch_suffix[of r x]
        by (simp add: compile_basename_glob_def Let_def)
    qed
  next
    case False
    with assms magic have e: "endswith g ''*''" by simp
    then obtain r where r: "g = r @ ''*''" by (auto simp: endswith_iff)
    with False magic show ?thesis using fnmatch_prefix[of r x]
      by (simp add: compile_basename_glob_def Let_def)
  qed
qed

lemma quick_matcher_correct_witness:
  "run_matcher (compile_basename_glob ''lib*'') ''libfoo'' \<longleftrightarrow> fnmatch ''lib*'' ''libfoo''"
proof (rule quick_matcher_correct)
  show "startswith ''lib*'' ''*'' \<or> endswith ''lib*'' ''*'' \<or> \<not> glob_has_magic ''lib*''" by code_simp
qed

text \<open>A glob whose only glob character is at its end and is not a star is taken as a prefix: \<^verbatim>\<open>fo?\<close> then
  selects \<^verbatim>\<open>foobar\<close>.\<close>

lemma quick_matcher_prefix_bug:
  "run_matcher (compile_basename_glob ''fo?'') ''foobar'' \<and> \<not> fnmatch ''fo?'' ''foobar''"
  by code_simp

subsection \<open>What a rule selects\<close>

text \<open>
  The laws of a tree that the matcher relies on: \<open>valid\<close> are the objects that are in the tree, \<open>under p q\<close>
  holds when \<open>q\<close> is \<open>p\<close> or below it.
\<close>

locale path_tree =
  fixes ops :: "('p, 'm) path_ops_scheme" and valid :: "'p \<Rightarrow> bool" and under :: "'p \<Rightarrow> 'p \<Rightarrow> bool"
  assumes all_paths_law: "valid p \<Longrightarrow>
      \<exists>ps. op_all_paths ops p = Inr ps \<and> distinct ps \<and> set ps = {q. under p q}"
    and lookup_law: "valid p \<Longrightarrow> op_lookup ops p s = Inr (Some q) \<Longrightarrow> valid q"
    and iterdir_law: "valid p \<Longrightarrow> q \<in> set (op_iterdir ops p) \<Longrightarrow> under p q"
    and under_law: "valid p \<Longrightarrow> under p q \<Longrightarrow> valid q"
begin

lemma lookup_in_root_valid: "valid r \<Longrightarrow> lookup_in_root ops r s = Inr (Some q) \<Longrightarrow> valid q"
  using lookup_law by (auto simp: lookup_in_root_def split: if_splits)

lemma beneath_directory:
  assumes "valid r" and "lookup_in_root ops r d = Inr (Some p)" and "op_is_dir ops p"
  shows "\<exists>qs. finditer ops r ignore (DirectoryBasedMatch ANYTHING_BENEATH_DIR d pt) = Inr qs \<and> distinct qs
    \<and> set qs = {q. under p q \<and> not_ignored ignore q \<and> keeps_type ops pt q}"
proof -
  obtain ps where "op_all_paths ops p = Inr ps" "distinct ps" "set ps = {q. under p q}"
    using all_paths_law[OF lookup_in_root_valid[OF assms(1,2)]] by blast
  with assms(2,3) show ?thesis by auto
qed

lemma glob_layers_valid:
  "list_all valid ps \<Longrightarrow> glob_layers ops parts ps = Inr qs \<Longrightarrow> list_all valid qs"
proof (induction parts arbitrary: ps)
  case (Cons part parts)
  then obtain rs where rs: "rmapM (apply_match ops part) ps = Inr rs"
    and n: "(if concat rs = [] then Inr [] else glob_layers ops parts (concat rs)) = Inr qs"
    unfolding glob_layers.simps rbind_eq_Inr rmap_eq_Inr by blast
  have "list_all valid (concat rs)"
    unfolding list_all_iff
  proof
    fix q
    assume "q \<in> set (concat rs)"
    then obtain l where l: "l \<in> set rs" "q \<in> set l" by auto
    then obtain k where k: "k < length rs" "l = rs ! k" by (auto simp: in_set_conv_nth)
    then have p: "ps ! k \<in> set ps" "apply_match ops part (ps ! k) = Inr l"
      using rs unfolding rmapM_eq_Inr by (auto simp: list_all2_conv_all_nth)
    with l(2) have "op_lookup ops (ps ! k) part = Inr (Some q)"
      by (auto simp: apply_match_def res_simps split: if_splits option.splits)
    with p(1) Cons.prems(1) show "valid q" using lookup_law by (auto simp: list_all_iff)
  qed
  with n Cons.IH show ?case by (auto split: if_splits)
qed simp

lemma selected_paths:
  assumes "valid r" and "finditer ops r ignore rule = Inr qs" and "q \<in> set qs"
  shows "valid q \<and> (rule \<noteq> MatchAnything \<longrightarrow> not_ignored ignore q)"
proof (cases rule)
  case MatchAnything
  then obtain ps where "op_all_paths ops r = Inr ps" "q \<in> set ps"
    using assms(2,3) by (auto simp: res_simps split: if_splits)
  then show ?thesis using all_paths_law[OF assms(1)] under_law[OF assms(1)] MatchAnything by auto
next
  case (ExactFileSystemPath p)
  then show ?thesis using assms lookup_in_root_valid
    by (auto simp: res_simps split: option.splits if_splits)
next
  case (DirectoryBasedMatch rt d pt)
  let ?ps = "\<lambda>p. case rt of ANYTHING_BENEATH_DIR \<Rightarrow> op_all_paths ops p | DIRECT_CHILDREN_OF_DIR \<Rightarrow> Inr (op_iterdir ops p)"
  from assms(2)[unfolded DirectoryBasedMatch finditer.simps finditer_defs rbind_eq_Inr] obtain m where m: "lookup_in_root ops r d = Inr m"
    "(case m of None \<Rightarrow> Inr [] | Some p \<Rightarrow> if \<not> op_is_dir ops p then Inr []
        else rmap (filter (\<lambda>q. not_ignored ignore q \<and> keeps_type ops pt q)) (?ps p)) = Inr qs"
    by (elim exE conjE)
  with assms(3) obtain p ps where p': "m = Some p" "?ps p = Inr ps" "q \<in> set ps" "not_ignored ignore q"
    by (cases m) (auto simp: rmap_eq_Inr split: if_splits)
  then have p: "valid p" "q \<in> set ps" "not_ignored ignore q" "?ps p = Inr ps"
    using lookup_in_root_valid[OF assms(1)] m(1) by simp_all
  then have "under p q"
    using all_paths_law[OF p(1)] iterdir_law[OF p(1)] by (auto split: match_rule_type.splits)
  then show ?thesis using under_law[OF p(1)] p(3) by blast
next
  case (BasenameGlobMatch g d pt rec)
  from assms(2)[unfolded BasenameGlobMatch finditer.simps finditer_defs rbind_eq_Inr] obtain m where
    m: "(case d of None \<Rightarrow> Inr (Some r)
            | Some d \<Rightarrow> rmap (\<lambda>m. case m of None \<Rightarrow> None | Some p \<Rightarrow> if op_is_dir ops p then Some p else None)
                          (lookup_in_root ops r d)) = Inr m"
    and n: "(case m of None \<Rightarrow> Inr [] | Some p \<Rightarrow>
        rmap (filter (\<lambda>q. not_ignored ignore q \<and> run_matcher (compile_basename_glob g) (op_name ops q)
                          \<and> keeps_type ops pt q))
             (if rec then op_all_paths ops p else Inr (op_iterdir ops p))) = Inr qs"
    by (elim exE conjE)
  from n assms(3) obtain p ps where p': "m = Some p" "(if rec then op_all_paths ops p else Inr (op_iterdir ops p)) = Inr ps"
    "q \<in> set ps" "not_ignored ignore q"
    by (cases m) (auto simp: rmap_eq_Inr)
  have "valid p"
    using m p'(1) assms(1) lookup_in_root_valid[OF assms(1)]
    by (cases d) (auto simp: rmap_eq_Inr split: option.splits if_splits)
  with p' have p: "valid p" "q \<in> set ps" "not_ignored ignore q"
    "(if rec then op_all_paths ops p else Inr (op_iterdir ops p)) = Inr ps" by simp_all
  then have "under p q"
    using all_paths_law[OF p(1)] iterdir_law[OF p(1)] by (auto split: if_splits)
  then show ?thesis using under_law[OF p(1)] p(3) by blast
next
  case (GenericGlobImplementation g pt)
  then obtain ps where "glob_layers ops (split_on slash g) [r] = Inr ps" "q \<in> set ps" "not_ignored ignore q"
    using assms(2,3) by (auto simp: res_simps)
  then show ?thesis using glob_layers_valid[of "[r]"] assms(1) by (auto simp: list_all_iff)
qed

end

subsection \<open>The virtual file system as such a tree\<close>

definition fs_ops :: "fs \<Rightarrow> nat path_ops" where
  "fs_ops fs =
     \<lparr> op_lookup = lookup_path fs, op_all_paths = (\<lambda>i. returns (all_paths fs i)), op_iterdir = iterdir fs,
       op_name = (\<lambda>i. n_name (node fs i)), op_is_dir = is_dir fs, op_is_file = is_file fs,
       op_is_symlink = is_symlink fs, op_is_root = is_root fs \<rparr>"

definition fs_valid :: "fs \<Rightarrow> nat \<Rightarrow> bool" where
  "fs_valid fs i \<longleftrightarrow> wf_fs fs \<and> is_detached_opt fs i = Some False"

lemma below_attached:
  assumes "wf_fs fs"
  shows "below fs i j \<Longrightarrow> is_detached_opt fs i = Some False \<Longrightarrow> is_detached_opt fs j = Some False"
  unfolding below_def
proof (induction rule: converse_rtrancl_induct)
  case (step j k)
  then show ?case using det_child by (auto simp: parent_rel_def)
qed

interpretation fs_tree: path_tree "fs_ops fs" "fs_valid fs" "below fs" for fs
proof
  show "\<exists>ps. op_all_paths (fs_ops fs) p = Inr ps \<and> distinct ps \<and> set ps = {q. below fs p q}"
    if "fs_valid fs p" for p
  proof -
    from that have "wf_fs fs" "is_detached_opt fs p = Some False" by (simp_all add: fs_valid_def)
    then obtain out where "lists_subtree fs p out" using lists_subtree_ex by blast
    then have o: "all_paths_loop fs [p] = Some (out @ [])" "distinct out" "set out = {q. below fs p q}"
      unfolding lists_subtree_def by simp_all
    have "all_paths fs p = Some out"
      using o(1) that by (auto simp: all_paths_def all_paths_loop.simps[of fs "[p]"] fs_valid_def bind_eq_Some_conv
          split: if_splits)
    with o show ?thesis by (simp add: fs_ops_def returns_def)
  qed
  show "fs_valid fs q" if "fs_valid fs p" "op_lookup (fs_ops fs) p s = Inr (Some q)" for p s q
  proof -
    from that(2) obtain m where "attempt_lookup fs p s = Inr (q, m)"
      by (auto simp: fs_ops_def lookup_path_def res_simps split: if_splits)
    with that(1) attempt_lookup_attached show ?thesis by (auto simp: fs_valid_def)
  qed
  show "below fs p q" if "fs_valid fs p" "q \<in> set (op_iterdir (fs_ops fs) p)" for p q
    using that below_via_child[of fs p q] by (auto simp: fs_ops_def fs_valid_def below_def)
  show "fs_valid fs q" if "fs_valid fs p" "below fs p q" for p q
    using that below_attached by (auto simp: fs_valid_def)
qed

subsection \<open>Properties of the rules over the virtual file system\<close>

lemma fs_valid_root: "wf_fs fs \<Longrightarrow> fs_valid fs 0"
  using wf_root[of fs 0] det_root by (simp add: fs_valid_def)

lemma lookup_segments:
  assumes "wf_fs fs" and "ns \<noteq> []" and "list_all plain_segment ns"
    and "lookup_loop fs False 0 (ns @ []) [] = lookup_loop fs False i [] []"
  shows "lookup_path fs 0 (join ''/'' ns) = Inr (Some i)"
proof -
  let ?p = "join ''/'' ns"
  note e = plain_join_ends[OF assms(2,3)]
  have "\<not> startswith ?p ''/''" using e by (cases ?p) auto
  moreover have "\<not> endswith ?p ''/''" using e by (simp add: endswith_single)
  ultimately have "split_path ?p = (False, False, ns)"
    using e split_plain_join[OF assms(2,3)] by (simp add: split_path_def rstrip_id)
  moreover have "is_detached fs 0 = Inr False"
    using wf_root[OF assms(1), of 0] det_root by (simp add: is_detached_Inr)
  ultimately have "attempt_lookup fs 0 ?p = Inr (i, [])"
    using assms(4) by (simp add: attempt_lookup_def)
  then show ?thesis by (simp add: lookup_path_def)
qed

text \<open>The rule that \<^verbatim>\<open>MatchRule.from_path_or_glob\<close> makes of the own path of an attached object (other
  than the root, and whose path holds no glob character, brace expansion or variable) selects that
  object and nothing else.\<close>

theorem own_path_rule_selects_it:
  assumes wf: "wf_fs fs" and nm: "tree_names fs" and att: "is_detached fs i = Inr False" and ne: "path fs i \<noteq> Inr ''.''"
    and p: "path fs i = Inr p"
    and plain: "\<not> glob_has_magic p" "\<not> brace_expansion p" "\<not> infix_of ''{{'' p"
  shows "rbind (from_path_or_glob (\<lambda>esc v. rmap snd (substitute esc v chain)) None p)
           (finditer (fs_ops fs) 0 None) = Inr [i]"
proof -
  have att': "is_detached_opt fs i = Some False" using att by (simp add: is_detached_Inr)
  obtain ns where ns: "list_all plain_segment ns" "path fs i = Inr (join ''/'' (''.'' # ns))"
    and l: "lookup_loop fs False 0 (ns @ []) [] = lookup_loop fs False i [] []"
    using attached_path[OF wf nm att' refl] by blast
  have n0: "ns \<noteq> []" using ne ns(2) by auto
  then have pe: "p = ''./'' @ join ''/'' ns" using p ns(2) by (simp add: join_Cons)
  note e = plain_join_ends[OF n0 ns(1)]
  have nomatch: "p \<notin> set [''*'', ''**/*'', ''.'', ''/'']"
    using e(1) by (simp add: pe)
  have "from_path_or_glob (\<lambda>esc v. rmap snd (substitute esc v chain)) None p = Inr (ExactFileSystemPath p)"
    using plain nomatch normalize_no_prefix[OF n0 ns(1)]
    by (simp add: from_path_or_glob_def pe substitute_def del: append_Cons)
  moreover have "lookup_in_root (fs_ops fs) 0 p = Inr (Some i)"
    using lookup_segments[OF wf n0 ns(1) l] wf_root[OF wf, of 0] nm
    by (simp add: lookup_in_root_def fs_ops_def pe tree_names_def is_root_def)
  ultimately show ?thesis by (simp add: not_ignored_def)
qed

text \<open>\<^verbatim>\<open>MatchRule.finditer\<close> on the root of a tree only yields objects that are attached to the tree, and,
  except for \<^verbatim>\<open>MatchAnything\<close>, none that \<^verbatim>\<open>ignore_paths\<close> rejects.\<close>

theorem finditer_yields_attached:
  assumes "wf_fs fs" and "finditer (fs_ops fs) 0 ignore rule = Inr qs" and "q \<in> set qs"
  shows "is_detached fs q = Inr False \<and> (rule \<noteq> MatchAnything \<longrightarrow> not_ignored ignore q)"
  using fs_tree.selected_paths[OF fs_valid_root[OF assms(1)] assms(2,3)] by (simp add: fs_valid_def is_detached_Inr)

text \<open>C11: a recursive directory rule returns; beneath the directory it yields every object exactly once that is
  neither ignored nor of another type, and the only other object it can yield is the directory itself, which it
  does under the same conditions.\<close>

theorem directory_rule_complete:
  assumes "wf_fs fs" and "lookup_in_root (fs_ops fs) 0 d = Inr (Some p)" and "is_dir fs p"
  shows "\<exists>qs. finditer (fs_ops fs) 0 ignore (DirectoryBasedMatch ANYTHING_BENEATH_DIR d pt) = Inr qs \<and> distinct qs
    \<and> {q \<in> set qs. q \<noteq> p}
        = {q. below fs p q \<and> q \<noteq> p \<and> not_ignored ignore q \<and> keeps_type (fs_ops fs) pt q}
    \<and> (p \<in> set qs \<longleftrightarrow> not_ignored ignore p \<and> keeps_type (fs_ops fs) pt p)"
proof -
  have "op_is_dir (fs_ops fs) p" using assms(3) by (simp add: fs_ops_def)
  from fs_tree.beneath_directory[OF fs_valid_root[OF assms(1)] assms(2) this] below_refl show ?thesis by blast
qed

text \<open>The manual (\<^verbatim>\<open>foo/**/*\<close> matches any path beneath \<^verbatim>\<open>foo\<close>, but not \<^verbatim>\<open>foo\<close>) and the rule's own description
  (anything below the directory) leave the directory out; the code yields it, since \<^verbatim>\<open>all_paths\<close> starts with it.\<close>

lemma directory_rule_yields_directory:
  "finditer (fs_ops demo_fs) 0 None (DirectoryBasedMatch ANYTHING_BENEATH_DIR ''./usr'' None) = Inr [1, 3, 2]
   \<and> lookup_in_root (fs_ops demo_fs) 0 ''./usr'' = Inr (Some 1)"
  by code_simp

lemma demo_fs_wf: "wf_fs demo_fs"
  using demo_fs_reachable by (rule reachable_wf)

lemma own_path_rule_selects_it_witness:
  "rbind (from_path_or_glob (\<lambda>esc v. rmap snd (substitute esc v [])) None ''./usr/share'')
     (finditer (fs_ops demo_fs) 0 None) = Inr [2]"
proof (rule own_path_rule_selects_it[OF demo_fs_wf])
  show "tree_names demo_fs" "is_detached demo_fs 2 = Inr False" "path demo_fs 2 \<noteq> Inr ''.''"
    "path demo_fs 2 = Inr ''./usr/share''" "\<not> glob_has_magic ''./usr/share''"
    "\<not> brace_expansion ''./usr/share''" "\<not> infix_of ''{{'' ''./usr/share''" by code_simp+
qed

lemma finditer_yields_attached_witness: "is_detached demo_fs 2 = Inr False \<and> not_ignored None (2::nat)"
proof -
  have "finditer (fs_ops demo_fs) 0 None (BasenameGlobMatch ''s*'' None None True) = Inr [2]" by code_simp
  from finditer_yields_attached[OF demo_fs_wf this, of 2] show ?thesis by simp
qed

lemma directory_rule_complete_witness:
  "\<exists>qs. finditer (fs_ops demo_fs) 0 None (DirectoryBasedMatch ANYTHING_BENEATH_DIR ''./usr'' None) = Inr qs \<and> distinct qs
    \<and> {q \<in> set qs. q \<noteq> 1}
        = {q. below demo_fs 1 q \<and> q \<noteq> 1 \<and> not_ignored None q \<and> keeps_type (fs_ops demo_fs) None q}
    \<and> 1 \<in> set qs"
proof -
  have "lookup_in_root (fs_ops demo_fs) 0 ''./usr'' = Inr (Some 1)" "is_dir demo_fs 1" by code_simp+
  from directory_rule_complete[OF demo_fs_wf this, of None None] show ?thesis
    by (simp add: not_ignored_def keeps_type_def)
qed

text \<open>A glob character in any part of a generic glob ends in an exception when the part is applied to a directory
  with an entry; and \<^verbatim>\<open>MatchAnything\<close> with \<^verbatim>\<open>ignore_paths\<close> yields the ignored paths all the same.\<close>

lemma generic_glob_raises:
  "op_iterdir ops r \<noteq> [] \<Longrightarrow> glob_has_magic part \<Longrightarrow>
     finditer ops r ignore (GenericGlobImplementation (part @ slash # rest) pt) = Inl TypeErr
       \<or> slash \<in> set part"
proof (cases "slash \<in> set part")
  case False
  assume "op_iterdir ops r \<noteq> []" "glob_has_magic part"
  then have "glob_layers ops (part # ps) [r] = Inl TypeErr" for ps by (simp add: apply_match_def)
  moreover have "split_on slash (part @ slash # rest) = part # split_on slash rest"
    using False by (simp add: split_on_append_sep split_on_absent)
  ultimately show ?thesis by simp
qed simp

lemma match_anything_ignores_nothing:
  "finditer (fs_ops demo_fs) 0 (Some (is_symlink demo_fs)) MatchAnything
     = Inr [0, 1, 2, 0, 1, 3, 2]"
  by code_simp

end
