(* ===== verification/PyInt.thy ===== *)
theory PyInt
  imports Prelude PyStr
begin

section \<open>Python's \<^verbatim>\<open>int(text, base)\<close>\<close>

text \<open>
  The syntax that \<^verbatim>\<open>int\<close> accepts for a base up to ten, over Latin-1 text: white space around the number, a
  sign, single underscores between digits, and for base 8 the prefix \<^verbatim>\<open>0o\<close>.
\<close>

definition digit_value :: "char \<Rightarrow> int" where
  "digit_value c = int (of_char c) - 48"

text \<open>Digits, with single underscores between them.\<close>

fun int_digits :: "int \<Rightarrow> int \<Rightarrow> string \<Rightarrow> int option" where
  "int_digits base acc [] = None"
| "int_digits base acc (c # s) =
     (if ascii_digit c \<and> digit_value c < base then
        (let v = acc * base + digit_value c in
         case s of
           [] \<Rightarrow> Some v
         | d # s' \<Rightarrow> if d = CHR ''_'' then int_digits base v s' else int_digits base v s)
      else None)"

definition drop_octal_prefix :: "int \<Rightarrow> string \<Rightarrow> string" where
  "drop_octal_prefix base s =
     (if base = 8 \<and> (startswith s ''0o'' \<or> startswith s ''0O'')
      then (if startswith (drop 2 s) ''_'' then drop 3 s else drop 2 s)
      else s)"

definition py_int :: "int \<Rightarrow> string \<Rightarrow> int res" where
  "py_int base s =
     (let t = strip py_space s;
          neg = startswith t ''-'';
          u = (if neg \<or> startswith t ''+'' then drop 1 t else t)
      in case int_digits base 0 (drop_octal_prefix base u) of
           None \<Rightarrow> Inl ValueError
         | Some v \<Rightarrow> Inr (if neg then - v else v))"

lemma digit_value_nonneg: "ascii_digit c \<Longrightarrow> 0 \<le> digit_value c"
  by (auto simp: ascii_digit_def digit_value_def)

lemma int_digits_nonneg: "int_digits base acc s = Some v \<Longrightarrow> 0 \<le> base \<Longrightarrow> 0 \<le> acc \<Longrightarrow> 0 \<le> v"
proof (induction base acc s rule: int_digits.induct)
  case (2 base acc c s)
  from 2(3) have d: "ascii_digit c" "digit_value c < base"
    and r: "(case s of [] \<Rightarrow> Some (acc * base + digit_value c)
             | d # s' \<Rightarrow> if d = CHR ''_'' then int_digits base (acc * base + digit_value c) s'
                         else int_digits base (acc * base + digit_value c) s) = Some v"
    by (simp_all add: Let_def split: if_splits)
  have n: "0 \<le> acc * base + digit_value c" using digit_value_nonneg[OF d(1)] 2(4,5) by simp
  show ?case
  proof (cases s)
    case Nil
    with r n show ?thesis by simp
  next
    case (Cons e s')
    with r d n 2(1,2) 2(4) show ?thesis by (simp split: if_splits)
  qed
qed simp

lemma py_int_nonneg: "py_int base s = Inr v \<Longrightarrow> 0 \<le> base \<Longrightarrow> \<not> startswith (strip py_space s) ''-'' \<Longrightarrow> 0 \<le> v"
  by (auto simp: py_int_def Let_def intro: int_digits_nonneg split: option.splits)

end
