(* ===== verification/FsMode.thy ===== *)
theory FsMode
  imports PyInt
begin

unbundle bit_operations_syntax

section \<open>File modes and owners (\<^verbatim>\<open>manifest_parser/util.py\<close>, \<^verbatim>\<open>manifest_parser/base_types.py\<close>)\<close>

text \<open>
  Symbolic and octal modes as the manifest writes them and their effect on a mode, and the owner and
  group declarations with their resolution in the tables of \<^verbatim>\<open>base-passwd\<close> (which are parameters).
  Modes are Python integers; the bit operations are those of \<^typ>\<open>int\<close>.
\<close>

subsection \<open>Symbolic modes\<close>

record mode_segment =
  base_mode :: int
  base_mask :: int
  cap_x_mode :: int
  cap_x_mask :: int

definition apply_segment :: "mode_segment \<Rightarrow> int \<Rightarrow> bool \<Rightarrow> int" where
  "apply_segment g current_mode is_dir =
     (let (chosen_mode, mode_mask) =
            (if current_mode AND o111 \<noteq> 0 \<or> is_dir then (cap_x_mode g, cap_x_mask g)
             else (base_mode g, base_mask g))
      in (current_mode AND mode_mask) OR chosen_mode)"

definition symbolic_mode_bit_inverse :: "int \<Rightarrow> int" where
  "symbolic_mode_bit_inverse v = NOT v AND o7777"

text \<open>\<^verbatim>\<open>subject_mask_and_shift\<close> and \<^verbatim>\<open>bits\<close>.\<close>

definition subject_shift :: "char \<Rightarrow> nat" where
  "subject_shift s = (if s = CHR ''u'' then 6 else if s = CHR ''g'' then 3 else 0)"

definition permission_bits :: "char \<Rightarrow> (int \<times> int) option" where
  "permission_bits c =
     map_of [(CHR ''r'', (4, 4)), (CHR ''w'', (2, 2)), (CHR ''x'', (1, 1)), (CHR ''X'', (0, 1)),
             (CHR ''s'', (0, 0)), (CHR ''t'', (0, 0))] c"

fun parse_subjects :: "string \<Rightarrow> char list \<Rightarrow> char list \<times> string" where
  "parse_subjects [] subjects = (subjects, [])"
| "parse_subjects (c # s) subjects =
     (if c \<in> set ''ugoa''
      then parse_subjects s (if c = CHR ''a'' then ''ugo'' else List.insert c subjects)
      else (subjects, c # s))"

text \<open>What the loop over the permission letters collects.\<close>

record perm_state =
  s_bit_seen :: bool
  t_bit_seen :: bool
  p_base :: int
  p_cap_x :: int

text \<open>The code compares the whole rest of the part with \<^verbatim>\<open>"s"\<close>, \<^verbatim>\<open>"t"\<close>, \<^verbatim>\<open>"u"\<close>, \<^verbatim>\<open>"g"\<close> and \<^verbatim>\<open>"o"\<close>.\<close>

fun parse_permissions :: "string \<Rightarrow> perm_state \<Rightarrow> (perm_state \<times> string) res" where
  "parse_permissions [] st = Inr (st, [])"
| "parse_permissions (c # s) st =
     (case permission_bits c of
        None \<Rightarrow> Inr (st, c # s)
      | Some (b, x) \<Rightarrow>
          if c # s = ''s'' then parse_permissions s (st\<lparr>s_bit_seen := True\<rparr>)
          else if c # s = ''t'' then parse_permissions s (st\<lparr>t_bit_seen := True\<rparr>)
          else if c # s = ''u'' \<or> c # s = ''g'' \<or> c # s = ''o'' then Inl NotImplementedErr
          else parse_permissions s (st\<lparr>p_base := p_base st OR b, p_cap_x := p_cap_x st OR x\<rparr>))"

definition shifted :: "int \<Rightarrow> char list \<Rightarrow> int" where
  "shifted m subjects = fold (\<lambda>s a. a OR push_bit (subject_shift s) m) subjects 0"

definition new_segment :: "char \<Rightarrow> char list \<Rightarrow> perm_state \<Rightarrow> mode_segment" where
  "new_segment modifier subjects st =
     (let setuid = (if CHR ''u'' \<in> set subjects then o4000 else 0);
          setgid = (if CHR ''g'' \<in> set subjects then o2000 else 0);
          sticky = (if CHR ''o'' \<in> set subjects then o1000 else 0);
          segment_mask =
            (if modifier = CHR ''='' then shifted 7 subjects OR setuid OR setgid OR sticky
             else shifted 7 subjects);
          special = (if s_bit_seen st then setuid OR setgid else 0) OR (if t_bit_seen st then o1000 else 0);
          final_base_mode = shifted (p_base st) subjects OR special;
          final_cap_x_mode = shifted (p_cap_x st) subjects OR special
      in if modifier = CHR ''+'' then
           \<lparr>base_mode = final_base_mode, base_mask = NOT 0, cap_x_mode = final_cap_x_mode, cap_x_mask = NOT 0\<rparr>
         else if modifier = CHR ''-'' then
           \<lparr>base_mode = 0, base_mask = symbolic_mode_bit_inverse final_base_mode,
            cap_x_mode = 0, cap_x_mask = symbolic_mode_bit_inverse final_cap_x_mode\<rparr>
         else
           \<lparr>base_mode = final_base_mode, base_mask = symbolic_mode_bit_inverse segment_mask,
            cap_x_mode = final_cap_x_mode, cap_x_mask = symbolic_mode_bit_inverse segment_mask\<rparr>)"

definition parse_segment :: "string \<Rightarrow> mode_segment res" where
  "parse_segment orig_part =
     (let (given, part) = parse_subjects orig_part [];
          subjects = (if given = [] then ''ugo'' else given)
      in case part of
           [] \<Rightarrow> Inl ValueError
         | modifier # rest \<Rightarrow>
             if modifier \<notin> set ''+-='' then Inl ValueError
             else rbind (parse_permissions rest \<lparr>s_bit_seen = False, t_bit_seen = False, p_base = 0, p_cap_x = 0\<rparr>)
                    (\<lambda>(st, remaining).
                      if remaining \<noteq> [] then Inl ValueError else Inr (new_segment modifier subjects st)))"

definition parse_symbolic_mode :: "string \<Rightarrow> mode_segment list res" where
  "parse_symbolic_mode symbolic_mode = rmapM parse_segment (split_on CHR '','' symbolic_mode)"

datatype fs_mode = SymbolicMode string "mode_segment list" | OctalMode int

definition parse_octal :: "string \<Rightarrow> fs_mode res" where
  "parse_octal mode_raw =
     (case py_int 8 mode_raw of Inl _ \<Rightarrow> Inl ManifestParseError | Inr m \<Rightarrow> Inr (OctalMode m))"

definition parse_symbolic :: "string \<Rightarrow> fs_mode res" where
  "parse_symbolic mode_raw = rmap (SymbolicMode mode_raw) (parse_symbolic_mode mode_raw)"

definition parse_filesystem_mode :: "string \<Rightarrow> fs_mode res" where
  "parse_filesystem_mode mode_raw =
     (if mode_raw \<noteq> [] \<and> py_isdigit_char (hd mode_raw) then parse_octal mode_raw else parse_symbolic mode_raw)"

fun compute_mode :: "fs_mode \<Rightarrow> int \<Rightarrow> bool \<Rightarrow> int" where
  "compute_mode (SymbolicMode raw segments) current_mode is_dir =
     fold (\<lambda>g final_mode. apply_segment g final_mode is_dir) segments current_mode"
| "compute_mode (OctalMode m) current_mode is_dir = m"

subsection \<open>Owners and groups\<close>

datatype raw_owner = OwnerName string | OwnerId int

text \<open>An \<^verbatim>\<open>OwnershipDefinition\<close> is a name with an id.\<close>

definition parse_ownership :: "raw_owner \<Rightarrow> (string option \<times> int option) res" where
  "parse_ownership v =
     (case v of
        OwnerId i \<Rightarrow> Inr (None, Some i)
      | OwnerName s \<Rightarrow>
          if CHR '':'' \<in> set s then
            (if s = '':'' then Inl ManifestParseError
             else case split_on CHR '':'' s of
                    [entity_name, entity_id] \<Rightarrow>
                      rmap (\<lambda>i. (if entity_name = [] then None else Some entity_name, i))
                        (if entity_id = [] then Inr None else rmap Some (py_int 10 entity_id))
                  | _ \<Rightarrow> Inl ValueError)
          else if py_isdigit s then Inl ManifestParseError
          else Inr (Some s, None))"

type_synonym owner_tables = "(string \<times> (string \<times> int)) list \<times> (int \<times> (string \<times> int)) list"

definition resolve_owner :: "owner_tables \<Rightarrow> string option \<Rightarrow> int option \<Rightarrow> (string \<times> int) res" where
  "resolve_owner tables provided_name provided_id =
     (let name_match = Option.bind provided_name (map_of (fst tables));
          id_match = Option.bind provided_id (map_of (snd tables))
      in case (name_match, id_match) of
           (None, None) \<Rightarrow> Inl ManifestParseError
         | (Some n, None) \<Rightarrow> Inr n
         | (None, Some i) \<Rightarrow> Inr i
         | (Some n, Some i) \<Rightarrow>
             if provided_name \<noteq> Some (fst i) then Inl ManifestParseError
             else if provided_id \<noteq> Some (snd n) then Inl ManifestParseError
             else Inr i)"

definition bad_owner :: "string \<times> int \<Rightarrow> bool" where
  "bad_owner d \<longleftrightarrow> fst d \<in> set [''_apt'', ''nogroup'', ''nobody''] \<or> snd d = 65534"

definition owner_from_manifest :: "owner_tables \<Rightarrow> raw_owner \<Rightarrow> (string \<times> int) res" where
  "owner_from_manifest tables raw_input =
     rbind (parse_ownership raw_input) (\<lambda>(provided_name, provided_id).
       rbind (resolve_owner tables provided_name provided_id) (\<lambda>owner_def.
         if bad_owner owner_def then Inl ManifestParseError else Inr owner_def))"

subsection \<open>Bits of the results\<close>

lemma bit_permission_consts:
  "bit (4 :: int) n \<longleftrightarrow> n = 2" "bit (2 :: int) n \<longleftrightarrow> n = 1" "bit (7 :: int) n \<longleftrightarrow> n < 3"
  "bit (o1000 :: int) n \<longleftrightarrow> n = 9" "bit (o2000 :: int) n \<longleftrightarrow> n = 10" "bit (o4000 :: int) n \<longleftrightarrow> n = 11"
  "bit (o7777 :: int) n \<longleftrightarrow> n < 12"
  using bit_exp_iff[of 2 n, where 'a = int] bit_exp_iff[of 1 n, where 'a = int] bit_mask_iff[of 3 n, where 'a = int]
    bit_exp_iff[of 9 n, where 'a = int] bit_exp_iff[of 10 n, where 'a = int] bit_exp_iff[of 11 n, where 'a = int]
    bit_mask_iff[of 12 n, where 'a = int]
  by (auto simp: mask_eq_exp_minus_1)

lemma bit_shifted:
  "bit (shifted m subjects) n \<longleftrightarrow> (\<exists>s \<in> set subjects. subject_shift s \<le> n \<and> bit m (n - subject_shift s))"
proof -
  have "bit (fold (\<lambda>s a. a OR push_bit (subject_shift s) m) ss a0) n
      \<longleftrightarrow> bit a0 n \<or> (\<exists>s \<in> set ss. subject_shift s \<le> n \<and> bit m (n - subject_shift s))" for ss and a0 :: int
    by (induction ss arbitrary: a0) (auto simp: bit_or_iff bit_push_bit_iff)
  from this[of subjects 0] show ?thesis by (simp add: shifted_def)
qed

lemma subject_shift_cases: "subject_shift s = 0 \<or> subject_shift s = 3 \<or> subject_shift s = 6"
  by (simp add: subject_shift_def)

lemma subject_shift_inj:
  "s \<in> set ''ugo'' \<Longrightarrow> t \<in> set ''ugo'' \<Longrightarrow> subject_shift s = subject_shift t \<Longrightarrow> s = t"
  by (auto simp: subject_shift_def)

text \<open>The bits of a three-bit value shifted to the subjects.\<close>

lemma bit_shifted_at:
  assumes "set subjects \<subseteq> set ''ugo''" and "s \<in> set ''ugo''" and "j < 3" and "\<And>n. bit m n \<Longrightarrow> n < 3"
  shows "bit (shifted m subjects) (subject_shift s + j) \<longleftrightarrow> s \<in> set subjects \<and> bit m j"
proof
  assume "bit (shifted m subjects) (subject_shift s + j)"
  then obtain t where t: "t \<in> set subjects" "subject_shift t \<le> subject_shift s + j"
    "bit m (subject_shift s + j - subject_shift t)" unfolding bit_shifted by blast
  then have "subject_shift s + j - subject_shift t < 3" using assms(4) by simp
  then have "subject_shift s = subject_shift t"
    using t(2) assms(3) subject_shift_cases[of s] subject_shift_cases[of t] by arith
  with subject_shift_inj t assms(1,2) have "s = t" by blast
  with t show "s \<in> set subjects \<and> bit m j" by simp
next
  assume "s \<in> set subjects \<and> bit m j"
  then show "bit (shifted m subjects) (subject_shift s + j)" unfolding bit_shifted by (intro bexI[of _ s]) auto
qed

lemma bit_shifted_high: "(\<And>n. bit m n \<Longrightarrow> n < 3) \<Longrightarrow> bit (shifted m subjects) n \<Longrightarrow> n < 9"
proof -
  assume m: "\<And>n. bit m n \<Longrightarrow> n < 3" and "bit (shifted m subjects) n"
  then obtain t where "bit m (n - subject_shift t)" unfolding bit_shifted by blast
  with m have "n - subject_shift t < 3" by blast
  then show "n < 9" using subject_shift_cases[of t] by arith
qed

lemma parse_subjects_run:
  assumes "set given \<subseteq> set ''ugoa''" and "m \<notin> set ''ugoa''" and "set subjects \<subseteq> set ''ugo''"
  shows "\<exists>ss. parse_subjects (given @ m # rest) subjects = (ss, m # rest) \<and> set ss \<subseteq> set ''ugo''
    \<and> (ss = [] \<longleftrightarrow> given = [] \<and> subjects = [])
    \<and> (\<forall>s \<in> set ''ugo''. s \<in> set ss \<longleftrightarrow> s \<in> set subjects \<or> s \<in> set given \<or> CHR ''a'' \<in> set given)"
  using assms
proof (induction given arbitrary: subjects)
  case (Cons c given)
  let ?subjects = "if c = CHR ''a'' then ''ugo'' else List.insert c subjects"
  have "set ?subjects \<subseteq> set ''ugo''" using Cons.prems by auto
  moreover have "set given \<subseteq> set ''ugoa''" using Cons.prems by simp
  ultimately obtain ss where ss: "parse_subjects (given @ m # rest) ?subjects = (ss, m # rest)" "set ss \<subseteq> set ''ugo''"
    "ss = [] \<longleftrightarrow> given = [] \<and> ?subjects = []"
    "\<forall>s \<in> set ''ugo''. s \<in> set ss \<longleftrightarrow> s \<in> set ?subjects \<or> s \<in> set given \<or> CHR ''a'' \<in> set given"
    using Cons.IH Cons.prems(2) by blast
  have c: "c \<in> set ''ugoa''" using Cons.prems(1) by simp
  have "List.insert c subjects \<noteq> []" by (auto simp: List.insert_def)
  then have "ss \<noteq> []" using ss(3) by (simp split: if_splits)
  moreover have "parse_subjects ((c # given) @ m # rest) subjects = (ss, m # rest)"
    using ss(1) c by (simp only: parse_subjects.simps append_Cons if_True)
  moreover have "s \<in> set ss \<longleftrightarrow> s \<in> set subjects \<or> s \<in> set (c # given) \<or> CHR ''a'' \<in> set (c # given)"
    if "s \<in> set ''ugo''" for s
    using ss(4) that by (cases "c = CHR ''a''") auto
  ultimately show ?case using ss(2) by blast
qed simp

text \<open>The permission that a text of letters names: \<^verbatim>\<open>X\<close> only counts when \<open>cap\<close> holds.\<close>

definition granted :: "string \<Rightarrow> bool \<Rightarrow> nat \<Rightarrow> bool" where
  "granted perms cap j \<longleftrightarrow>
     (j = 0 \<and> (CHR ''x'' \<in> set perms \<or> CHR ''X'' \<in> set perms \<and> cap))
     \<or> (j = 1 \<and> CHR ''w'' \<in> set perms) \<or> (j = 2 \<and> CHR ''r'' \<in> set perms)"

lemma parse_permissions_run:
  assumes "set perms \<subseteq> set ''rwxX''"
  shows "\<exists>b x. parse_permissions perms st = Inr (st\<lparr>p_base := b, p_cap_x := x\<rparr>, [])
    \<and> (\<forall>n. bit b n \<longleftrightarrow> bit (p_base st) n \<or> granted perms False n)
    \<and> (\<forall>n. bit x n \<longleftrightarrow> bit (p_cap_x st) n \<or> granted perms True n)"
  using assms
proof (induction perms arbitrary: st)
  case Nil
  show ?case by (intro exI[of _ "p_base st"] exI[of _ "p_cap_x st"]) (simp add: granted_def)
next
  case (Cons c perms)
  obtain b0 x0 where bx: "permission_bits c = Some (b0, x0)"
    and b0: "\<And>n. bit b0 n \<longleftrightarrow> granted [c] False n" and x0: "\<And>n. bit x0 n \<longleftrightarrow> granted [c] True n"
  proof -
    have "c = CHR ''r'' \<or> c = CHR ''w'' \<or> c = CHR ''x'' \<or> c = CHR ''X''" using Cons.prems by auto
    then show thesis
      by (elim disjE; intro that[of "fst (the (permission_bits c))" "snd (the (permission_bits c))"])
        (simp_all add: permission_bits_def granted_def bit_permission_consts bit_1_iff)
  qed
  let ?st = "st\<lparr>p_base := p_base st OR b0, p_cap_x := p_cap_x st OR x0\<rparr>"
  obtain b x where b: "parse_permissions perms ?st = Inr (?st\<lparr>p_base := b, p_cap_x := x\<rparr>, [])"
    "\<And>n. bit b n \<longleftrightarrow> bit (p_base ?st) n \<or> granted perms False n"
    "\<And>n. bit x n \<longleftrightarrow> bit (p_cap_x ?st) n \<or> granted perms True n"
    using Cons.IH[of ?st] Cons.prems by auto
  have "c \<notin> set ''stugo''" using Cons.prems by auto
  then have "parse_permissions (c # perms) st = Inr (st\<lparr>p_base := b, p_cap_x := x\<rparr>, [])"
    using bx b(1) by simp
  moreover have "granted (c # perms) cap n \<longleftrightarrow> granted [c] cap n \<or> granted perms cap n" for cap n
    by (auto simp: granted_def)
  ultimately show ?case using b(2,3) b0 x0 by (intro exI conjI) (auto simp: bit_or_iff)
qed

lemma not_granted_high: "granted perms cap n \<Longrightarrow> n < 3"
  by (auto simp: granted_def)

subsection \<open>The effect of a symbolic mode\<close>

text \<open>What a part grants at bit \<open>n\<close>, given the subjects and the bits of the two collected modes.\<close>

lemma new_segment_bit:
  assumes ss: "set subjects \<subseteq> set ''ugo''" and s: "s \<in> set ''ugo''" and j: "j < 3"
    and m: "m \<in> set ''+-=''" and st: "\<not> s_bit_seen st" "\<not> t_bit_seen st"
    and b: "\<And>n. bit (p_base st) n \<longleftrightarrow> granted perms False n" and x: "\<And>n. bit (p_cap_x st) n \<longleftrightarrow> granted perms True n"
  shows "bit (apply_segment (new_segment m subjects st) c is_dir) (subject_shift s + j) \<longleftrightarrow>
    (let on = granted perms (c AND o111 \<noteq> 0 \<or> is_dir) j in
     if s \<notin> set subjects then bit c (subject_shift s + j)
     else if m = CHR ''+'' then bit c (subject_shift s + j) \<or> on
     else if m = CHR ''-'' then bit c (subject_shift s + j) \<and> \<not> on
     else on)"
proof -
  let ?n = "subject_shift s + j"
  have n: "?n < 9" using j subject_shift_cases[of s] by arith
  have h: "bit (p_base st) k \<Longrightarrow> k < 3" "bit (p_cap_x st) k \<Longrightarrow> k < 3" for k
    using b x not_granted_high by blast+
  have sb: "bit (shifted (p_base st) subjects) ?n \<longleftrightarrow> s \<in> set subjects \<and> granted perms False j"
    using bit_shifted_at[OF ss s j, of "p_base st"] h(1) b by blast
  have sx: "bit (shifted (p_cap_x st) subjects) ?n \<longleftrightarrow> s \<in> set subjects \<and> granted perms True j"
    using bit_shifted_at[OF ss s j, of "p_cap_x st"] h(2) x by blast
  have s7: "bit (shifted 7 subjects) ?n \<longleftrightarrow> s \<in> set subjects"
    using bit_shifted_at[OF ss s j, of 7] j by (simp add: bit_permission_consts)
  have hi: "?n \<noteq> 9" "?n \<noteq> 10" "?n \<noteq> 11" "?n < 12" using n by simp_all
  have m': "m = CHR ''+'' \<or> m = CHR ''-'' \<or> m = CHR ''=''" using m by simp
  show ?thesis
    using m' st hi sb sx s7
    by (elim disjE; cases "c AND o111 \<noteq> 0 \<or> is_dir")
      (auto simp: new_segment_def apply_segment_def Let_def symbolic_mode_bit_inverse_def
        bit_or_iff bit_and_iff bit_not_iff bit_permission_consts)
qed

text \<open>C12: a symbolic mode \<^verbatim>\<open>[ugoa]*[+-=][rwxX]*\<close> parses, and it acts on the nine permission bits like
  \<^verbatim>\<open>chmod\<close>: the bits of subjects that are not named stay, \<^verbatim>\<open>+\<close> adds, \<^verbatim>\<open>-\<close> removes and \<^verbatim>\<open>=\<close> sets the
  named permissions, where \<^verbatim>\<open>X\<close> stands for \<^verbatim>\<open>x\<close> on directories and on files with some execute bit.\<close>

theorem symbolic_mode_bits:
  assumes given: "set given \<subseteq> set ''ugoa''" and m: "m \<in> set ''+-=''" and perms: "set perms \<subseteq> set ''rwxX''"
    and s: "s \<in> set ''ugo''" and j: "j < 3"
  shows "\<exists>md. parse_filesystem_mode (given @ m # perms) = Inr md \<and>
    (bit (compute_mode md c is_dir) (subject_shift s + j) \<longleftrightarrow>
      (let on = granted perms (c AND o111 \<noteq> 0 \<or> is_dir) j;
           named = given = [] \<or> CHR ''a'' \<in> set given \<or> s \<in> set given;
           old = bit c (subject_shift s + j)
       in if \<not> named then old else if m = CHR ''+'' then old \<or> on else if m = CHR ''-'' then old \<and> \<not> on else on))"
proof -
  let ?raw = "given @ m # perms"
  have m0: "m \<notin> set ''ugoa''" "m \<noteq> CHR '',''" using m by auto
  obtain ss where ss: "parse_subjects ?raw [] = (ss, m # perms)" "set ss \<subseteq> set ''ugo''"
    "ss = [] \<longleftrightarrow> given = []"
    "s \<in> set ss \<longleftrightarrow> s \<in> set given \<or> CHR ''a'' \<in> set given"
    using parse_subjects_run[OF given m0(1), of "[]" perms] s by auto
  define subjects where "subjects = (if ss = [] then ''ugo'' else ss)"
  have sub: "set subjects \<subseteq> set ''ugo''"
    "s \<in> set subjects \<longleftrightarrow> given = [] \<or> CHR ''a'' \<in> set given \<or> s \<in> set given"
    using ss(2-4) s by (auto simp: subjects_def)
  obtain b x where bx: "parse_permissions perms \<lparr>s_bit_seen = False, t_bit_seen = False, p_base = 0, p_cap_x = 0\<rparr>
      = Inr (\<lparr>s_bit_seen = False, t_bit_seen = False, p_base = b, p_cap_x = x\<rparr>, [])"
    "\<And>n. bit b n \<longleftrightarrow> granted perms False n" "\<And>n. bit x n \<longleftrightarrow> granted perms True n"
    using parse_permissions_run[OF perms, of "\<lparr>s_bit_seen = False, t_bit_seen = False, p_base = 0, p_cap_x = 0\<rparr>"] by auto
  let ?st = "\<lparr>s_bit_seen = False, t_bit_seen = False, p_base = b, p_cap_x = x\<rparr>"
  have "CHR '','' \<notin> set ?raw" using given perms m0(2) by auto
  then have "parse_symbolic_mode ?raw = Inr [new_segment m subjects ?st]"
    using ss(1) m bx(1) by (simp add: parse_symbolic_mode_def split_on_absent parse_segment_def subjects_def)
  moreover have "\<not> py_isdigit_char (hd ?raw)"
    using given m by (cases given) (auto simp: py_isdigit_char_def ascii_digit_def)
  ultimately have "parse_filesystem_mode ?raw = Inr (SymbolicMode ?raw [new_segment m subjects ?st])"
    by (simp add: parse_filesystem_mode_def parse_symbolic_def parse_octal_def)
  moreover have "bit (apply_segment (new_segment m subjects ?st) c is_dir) (subject_shift s + j) \<longleftrightarrow>
    (let on = granted perms (c AND o111 \<noteq> 0 \<or> is_dir) j in
     if s \<notin> set subjects then bit c (subject_shift s + j)
     else if m = CHR ''+'' then bit c (subject_shift s + j) \<or> on
     else if m = CHR ''-'' then bit c (subject_shift s + j) \<and> \<not> on
     else on)"
    by (rule new_segment_bit[OF sub(1) s j m]) (simp_all add: bx(2,3))
  ultimately show ?thesis using sub(2) by (simp add: Let_def)
qed

lemma symbolic_mode_bits_witness:
  "\<exists>md. parse_filesystem_mode (''u'' @ CHR ''+'' # ''rwX'') = Inr md \<and> bit (compute_mode md 0 True) 6"
  using symbolic_mode_bits[of "''u''" "CHR ''+''" "''rwX''" "CHR ''u''" 0 0 True]
  by (simp add: granted_def subject_shift_def)

lemma bits_below_12: "(\<forall>n. bit (v :: int) n \<longrightarrow> n < 12) \<longleftrightarrow> 0 \<le> v \<and> v < 4096"
proof -
  have "(\<forall>n. bit v n \<longrightarrow> n < 12) \<longleftrightarrow> take_bit 12 v = v"
    by (auto simp: bit_eq_iff bit_take_bit_iff)
  also have "\<dots> \<longleftrightarrow> 0 \<le> v \<and> v < 4096"
    by (simp add: take_bit_int_eq_self_iff)
  finally show ?thesis .
qed

lemma parse_permissions_small:
  assumes "parse_permissions s st = Inr (st', r)" and "\<forall>n. bit (p_base st) n \<or> bit (p_cap_x st) n \<longrightarrow> n < 3"
  shows "\<forall>n. bit (p_base st') n \<or> bit (p_cap_x st') n \<longrightarrow> n < 3"
  using assms
proof (induction s arbitrary: st)
  case (Cons c s)
  show ?case
  proof (cases "permission_bits c")
    case None
    with Cons.prems show ?thesis by simp
  next
    case (Some bx)
    obtain b x where bx: "bx = (b, x)" by (cases bx)
    have small: "\<forall>n. bit b n \<or> bit x n \<longrightarrow> n < 3"
      using Some bx by (auto simp: permission_bits_def bit_permission_consts bit_1_iff split: if_splits)
    have "\<exists>st1. parse_permissions s st1 = Inr (st', r) \<and> (\<forall>n. bit (p_base st1) n \<or> bit (p_cap_x st1) n \<longrightarrow> n < 3)"
    proof (cases "c # s = ''s'' \<or> c # s = ''t''")
      case True
      then show ?thesis using Some bx Cons.prems by (auto simp: permission_bits_def)
    next
      case False
      then have "parse_permissions s (st\<lparr>p_base := p_base st OR b, p_cap_x := p_cap_x st OR x\<rparr>) = Inr (st', r)"
        using Some bx Cons.prems(1) by (simp split: if_splits)
      then show ?thesis using Cons.prems(2) small
        by (intro exI[of _ "st\<lparr>p_base := p_base st OR b, p_cap_x := p_cap_x st OR x\<rparr>"]) (auto simp: bit_or_iff)
    qed
    then show ?thesis using Cons.IH by blast
  qed
qed simp

lemma new_segment_small:
  assumes "\<forall>n. bit (p_base st) n \<or> bit (p_cap_x st) n \<longrightarrow> n < 3"
  shows "\<forall>n. bit (base_mode (new_segment m subjects st)) n \<or> bit (cap_x_mode (new_segment m subjects st)) n \<longrightarrow> n < 12"
proof -
  have "bit (shifted (p_base st) subjects) n \<Longrightarrow> n < 12" "bit (shifted (p_cap_x st) subjects) n \<Longrightarrow> n < 12" for n
    using bit_shifted_high[of "p_base st" subjects n] bit_shifted_high[of "p_cap_x st" subjects n] assms by force+
  then show ?thesis
    by (auto simp: new_segment_def Let_def bit_or_iff bit_permission_consts split: if_splits)
qed

lemma parse_segment_small:
  "parse_segment part = Inr g \<Longrightarrow> \<forall>n. bit (base_mode g) n \<or> bit (cap_x_mode g) n \<longrightarrow> n < 12"
proof -
  assume "parse_segment part = Inr g"
  then obtain rest st m subjects where
    st: "parse_permissions rest \<lparr>s_bit_seen = False, t_bit_seen = False, p_base = 0, p_cap_x = 0\<rparr> = Inr (st, [])"
    and g: "g = new_segment m subjects st"
    by (auto simp: parse_segment_def Let_def res_simps split: prod.splits list.splits if_splits)
  from new_segment_small[OF parse_permissions_small[OF st], of m subjects] show ?thesis by (simp add: g)
qed

text \<open>C13: a symbolic mode keeps a mode within the twelve bits of \<^verbatim>\<open>0o7777\<close>.\<close>

theorem symbolic_mode_bounds:
  assumes "parse_filesystem_mode raw = Inr (SymbolicMode r segments)" and "0 \<le> c" and "c < 4096"
  shows "0 \<le> compute_mode (SymbolicMode r segments) c is_dir \<and> compute_mode (SymbolicMode r segments) c is_dir < 4096"
proof -
  have p: "rmapM parse_segment (split_on CHR '','' raw) = Inr segments"
    using assms(1) by (auto simp: parse_symbolic_mode_def parse_filesystem_mode_def parse_symbolic_def parse_octal_def res_simps split: if_splits sum.splits)
  have "\<forall>g \<in> set segments. \<forall>n. bit (base_mode g) n \<or> bit (cap_x_mode g) n \<longrightarrow> n < 12"
  proof
    fix g
    assume "g \<in> set segments"
    from rmapM_member[OF p this] obtain part where "parse_segment part = Inr g" ..
    then show "\<forall>n. bit (base_mode g) n \<or> bit (cap_x_mode g) n \<longrightarrow> n < 12" by (rule parse_segment_small)
  qed
  note g = bspec[OF this]
  have "\<forall>n. bit c n \<longrightarrow> n < 12" using assms(2,3) bits_below_12 by blast
  with g have "\<forall>n. bit (fold (\<lambda>g m. apply_segment g m is_dir) segments c) n \<longrightarrow> n < 12"
    by (rule fold_invariant) (auto simp: apply_segment_def bit_or_iff bit_and_iff Let_def split: if_splits)
  then show ?thesis using bits_below_12 by simp
qed

lemma symbolic_mode_bounds_witness:
  "0 \<le> compute_mode (SymbolicMode ''a+rX'' (projr (parse_symbolic_mode ''a+rX''))) o644 False
   \<and> compute_mode (SymbolicMode ''a+rX'' (projr (parse_symbolic_mode ''a+rX''))) o644 False < 4096"
proof (rule symbolic_mode_bounds)
  show "parse_filesystem_mode ''a+rX'' = Inr (SymbolicMode ''a+rX'' (projr (parse_symbolic_mode ''a+rX'')))" by code_simp
qed simp_all

text \<open>\<^verbatim>\<open>s\<close> and \<^verbatim>\<open>t\<close> only count as the last letter; before another letter they are dropped in silence.\<close>

lemma setuid_before_x_dropped:
  "rmap (\<lambda>md. compute_mode md o644 False) (parse_filesystem_mode ''u+xs'') = Inr (o644 OR o4000 OR 64)
   \<and> rmap (\<lambda>md. compute_mode md o644 False) (parse_filesystem_mode ''u+sx'') = Inr (o644 OR 64)"
  by code_simp

text \<open>The message for \<^verbatim>\<open>a=u\<close> is never given: its test stands in a loop that only runs over \<^verbatim>\<open>rwxXst\<close>.\<close>

lemma subject_reference_unreachable: "parse_permissions s st \<noteq> Inl NotImplementedErr"
proof (induction s arbitrary: st)
  case (Cons c s)
  then show ?case by (auto simp: permission_bits_def split: option.splits)
qed simp

subsection \<open>Resolving owners\<close>

definition coherent_tables :: "owner_tables \<Rightarrow> bool" where
  "coherent_tables tables \<longleftrightarrow>
     list_all (\<lambda>(name, d). fst d = name) (fst tables) \<and> list_all (\<lambda>(i, d). snd d = i) (snd tables)"

lemma coherent_name: "coherent_tables tables \<Longrightarrow> map_of (fst tables) n = Some d \<Longrightarrow> fst d = n"
  by (auto simp: coherent_tables_def list_all_iff dest!: map_of_SomeD)

lemma coherent_id: "coherent_tables tables \<Longrightarrow> map_of (snd tables) i = Some d \<Longrightarrow> snd d = i"
  by (auto simp: coherent_tables_def list_all_iff dest!: map_of_SomeD)

text \<open>An owner that the manifest declares is never one of the reserved entities; it has the declared name
  or the declared id, and it has both when both are known to \<^verbatim>\<open>base-passwd\<close>.\<close>

theorem owner_resolution:
  assumes t: "coherent_tables tables" and r: "owner_from_manifest tables raw = Inr d"
  shows "\<not> bad_owner d \<and> (\<exists>name i. parse_ownership raw = Inr (name, i)
    \<and> (name = Some (fst d) \<or> i = Some (snd d))
    \<and> (Option.bind name (map_of (fst tables)) \<noteq> None \<longrightarrow> name = Some (fst d))
    \<and> (Option.bind i (map_of (snd tables)) \<noteq> None \<longrightarrow> i = Some (snd d)))"
proof -
  obtain name i where p: "parse_ownership raw = Inr (name, i)" and rd: "resolve_owner tables name i = Inr d"
    and b: "\<not> bad_owner d"
    using r by (auto simp: owner_from_manifest_def res_simps split: if_splits)
  have n: "name = Some (fst n')" if "Option.bind name (map_of (fst tables)) = Some n'" for n'
    using that coherent_name[OF t] by (cases name) auto
  have i: "i = Some (snd i')" if "Option.bind i (map_of (snd tables)) = Some i'" for i'
    using that coherent_id[OF t] by (cases i) auto
  have "(name = Some (fst d) \<or> i = Some (snd d))
    \<and> (Option.bind name (map_of (fst tables)) \<noteq> None \<longrightarrow> name = Some (fst d))
    \<and> (Option.bind i (map_of (snd tables)) \<noteq> None \<longrightarrow> i = Some (snd d))"
    using rd n i unfolding resolve_owner_def Let_def
    by (auto split: option.splits if_splits)
  with p b show ?thesis by blast
qed

definition demo_owners :: owner_tables where
  "demo_owners = ([(''root'', (''root'', 0))], [(0, (''root'', 0))])"

lemma owner_resolution_witness:
  "\<not> bad_owner (''root'', 0) \<and> (\<exists>name i. parse_ownership (OwnerName ''root:0'') = Inr (name, i)
    \<and> (name = Some ''root'' \<or> i = Some 0))"
proof -
  have "coherent_tables demo_owners" by code_simp
  moreover have "owner_from_manifest demo_owners (OwnerName ''root:0'') = Inr (''root'', 0)" by code_simp
  ultimately show ?thesis using owner_resolution[of demo_owners "OwnerName ''root:0''" "(''root'', 0)"] by auto
qed

text \<open>A declared name that is unknown is not compared with a declared id that is known.\<close>

lemma unknown_name_ignored:
  "owner_from_manifest demo_owners (OwnerName ''nosuch:0'') = Inr (''root'', 0)"
  by code_simp

end
