(* ===== verification/Packages.thy ===== *)
theory Packages
  imports Util "HOL-Library.AList"
begin

section \<open>Architecture values and packages (\<^verbatim>\<open>architecture_support.py\<close>, \<^verbatim>\<open>packages.py\<close>, \<^verbatim>\<open>_deb_options_profiles.py\<close>)\<close>

text \<open>
  The table of \<^verbatim>\<open>dpkg-architecture\<close> values with its cache, the tables that are faked for tests, the binary
  packages of \<^verbatim>\<open>debian/control\<close> and their selection, and the build options.  What \<^verbatim>\<open>dpkg-architecture\<close> prints,
  the environment, the parsed stanzas and the matching of architecture wildcards are parameters.
\<close>

subsection \<open>The table of architecture values\<close>

record arch_table =
  at_cache :: "(string \<times> string) list"
  at_respect_environ :: bool
  at_has_run :: bool

definition new_arch_table :: "(string \<times> string) list option \<Rightarrow> arch_table" where
  "new_arch_table mocked_answers =
     (case mocked_answers of
        None \<Rightarrow> \<lparr>at_cache = [], at_respect_environ = True, at_has_run = False\<rparr>
      | Some m \<Rightarrow> \<lparr>at_cache = m, at_respect_environ = False, at_has_run = True\<rparr>)"

text \<open>The lines that \<^verbatim>\<open>dpkg-architecture\<close> printed, as pairs.\<close>

definition parse_dpkg_arch_line :: "string \<Rightarrow> (string \<times> string) res" where
  "parse_dpkg_arch_line line =
     (case split1 CHR ''='' (strip py_space line) of
        (k, Some v) \<Rightarrow> Inr (k, v)
      | (_, None) \<Rightarrow> Inl ValueError)"

text \<open>The output is parsed while the cache is filled, so that an error leaves the lines before it in the cache.\<close>

fun load_dpkg_lines ::
    "(string \<Rightarrow> string option) \<Rightarrow> string list \<Rightarrow> arch_table \<Rightarrow> arch_table \<times> unit res" where
  "load_dpkg_lines environ [] t = (t\<lparr>at_has_run := True\<rparr>, Inr ())"
| "load_dpkg_lines environ (line # lines) t =
     (case parse_dpkg_arch_line line of
        Inl e \<Rightarrow> (t, Inl e)
      | Inr (k, v) \<Rightarrow>
          load_dpkg_lines environ lines
            (t\<lparr>at_cache := AList.update k (case environ k of None \<Rightarrow> v | Some e \<Rightarrow> e) (at_cache t)\<rparr>))"

definition load_dpkg_architecture_values ::
    "(string \<Rightarrow> string option) \<Rightarrow> string list \<Rightarrow> arch_table \<Rightarrow> arch_table \<times> unit res" where
  "load_dpkg_architecture_values environ output t =
     (if at_has_run t then (t, Inr ()) else load_dpkg_lines environ output t)"

definition cache_get :: "string \<Rightarrow> arch_table \<Rightarrow> string res" where
  "cache_get item t = (case map_of (at_cache t) item of None \<Rightarrow> Inl KeyError | Some v \<Rightarrow> Inr v)"

definition arch_getitem ::
    "(string \<Rightarrow> string option) \<Rightarrow> string list \<Rightarrow> string \<Rightarrow> arch_table \<Rightarrow> arch_table \<times> string res" where
  "arch_getitem environ output item t =
     (if map_of (at_cache t) item \<noteq> None then (t, cache_get item t)
      else
        (case (if at_respect_environ t then environ item else None) of
           Some v \<Rightarrow> (t\<lparr>at_cache := AList.update item v (at_cache t)\<rparr>, Inr v)
         | None \<Rightarrow>
             (case load_dpkg_architecture_values environ output t of
                (t1, r) \<Rightarrow> (t1, rbind r (\<lambda>_. cache_get item t1)))))"

text \<open>\<^verbatim>\<open>item in table\<close>\<close>

definition arch_contains ::
    "(string \<Rightarrow> string option) \<Rightarrow> string list \<Rightarrow> string \<Rightarrow> arch_table \<Rightarrow> arch_table \<times> bool res" where
  "arch_contains environ output item t =
     (case arch_getitem environ output item t of
        (t1, Inr _) \<Rightarrow> (t1, Inr True)
      | (t1, Inl e) \<Rightarrow> (t1, if e = KeyError then Inr False else Inl e))"

definition arch_iter ::
    "(string \<Rightarrow> string option) \<Rightarrow> string list \<Rightarrow> arch_table \<Rightarrow> arch_table \<times> string list res" where
  "arch_iter environ output t =
     (case load_dpkg_architecture_values environ output t of
        (t1, r) \<Rightarrow> (t1, rmap (\<lambda>_. map fst (at_cache t1)) r))"

definition is_cross_compiling ::
    "(string \<Rightarrow> string option) \<Rightarrow> string list \<Rightarrow> arch_table \<Rightarrow> arch_table \<times> bool res" where
  "is_cross_compiling environ output t =
     (case arch_getitem environ output ''DEB_BUILD_GNU_TYPE'' t of
        (t1, Inl e) \<Rightarrow> (t1, Inl e)
      | (t1, Inr build) \<Rightarrow>
          (case arch_getitem environ output ''DEB_HOST_GNU_TYPE'' t1 of
             (t2, r) \<Rightarrow> (t2, rmap (\<lambda>host. build \<noteq> host) r)))"

subsection \<open>Faked tables\<close>

definition rewrite_key :: "string \<Rightarrow> string \<Rightarrow> string \<Rightarrow> string" where
  "rewrite_key v from_pattern to_pattern = to_pattern @ drop (length from_pattern) v"

definition deb_host :: string where "deb_host = ''DEB_HOST_''"
definition deb_build :: string where "deb_build = ''DEB_BUILD_''"
definition deb_target :: string where "deb_target = ''DEB_TARGET_''"

text \<open>The bodies of the loops over the pairs that \<^verbatim>\<open>dpkg-architecture\<close> prints.\<close>

definition native_pair :: "string \<times> string \<Rightarrow> (string \<rightharpoonup> string) \<Rightarrow> string \<rightharpoonup> string" where
  "native_pair kv t =
     (let (k, v) = kv;
          t1 = (if startswith k deb_host \<or> startswith k deb_target then t(k \<mapsto> v) else t)
      in if startswith k deb_host then t1(rewrite_key k deb_host deb_build \<mapsto> v) else t1)"

definition build_pair :: "string \<times> string \<Rightarrow> (string \<rightharpoonup> string) \<Rightarrow> string \<rightharpoonup> string" where
  "build_pair kv t =
     (let (k, v) = kv in if startswith k deb_host then t(rewrite_key k deb_host deb_build \<mapsto> v) else t)"

definition copy_pair :: "string \<times> string \<Rightarrow> (string \<rightharpoonup> string) \<Rightarrow> string \<rightharpoonup> string" where
  "copy_pair kv t =
     (let (k, v) = kv in if startswith k deb_host \<or> startswith k deb_target then t(k \<mapsto> v) else t)"

definition cross_pair :: "string \<times> string \<Rightarrow> (string \<rightharpoonup> string) \<Rightarrow> string \<rightharpoonup> string" where
  "cross_pair kv t =
     (let (k, v) = kv in
      if startswith k deb_host then t(rewrite_key k deb_host deb_build \<mapsto> v)
      else if startswith k deb_target then (t(k \<mapsto> v))(rewrite_key k deb_target deb_host \<mapsto> v)
      else t)"

text \<open>
  \<^verbatim>\<open>_faked_arch_tables\<close>: \<open>run a A\<close> are the pairs that \<^verbatim>\<open>dpkg-architecture -a a -A A\<close> prints (without \<^verbatim>\<open>-A\<close> for
  \<open>None\<close>).
\<close>

definition faked_arch_tables ::
    "(string \<Rightarrow> string option \<Rightarrow> (string \<times> string) list) \<Rightarrow> string \<Rightarrow> string \<Rightarrow> string \<Rightarrow> string \<rightharpoonup> string" where
  "faked_arch_tables run host_arch build_arch target_arch =
     (if build_arch = host_arch then fold native_pair (run host_arch (Some target_arch)) Map.empty
      else if host_arch \<noteq> target_arch then
        fold copy_pair (run host_arch (Some target_arch)) (fold build_pair (run build_arch None) Map.empty)
      else fold cross_pair (run build_arch (Some target_arch)) Map.empty)"

definition faked_arch_table ::
    "(string \<Rightarrow> string option \<Rightarrow> (string \<times> string) list) \<Rightarrow> string \<Rightarrow> string option \<Rightarrow> string option \<Rightarrow> string \<rightharpoonup> string"
where
  "faked_arch_table run host_arch build_arch target_arch =
     faked_arch_tables run host_arch (case build_arch of None \<Rightarrow> host_arch | Some b \<Rightarrow> b)
       (case target_arch of None \<Rightarrow> host_arch | Some t \<Rightarrow> t)"

subsection \<open>Build options\<close>

definition parse_deb_build_options :: "string \<Rightarrow> (string \<times> string option) list" where
  "parse_deb_build_options v =
     fold (\<lambda>kvish res.
         if CHR ''='' \<in> set kvish
         then (case split1 CHR ''='' kvish of (key, val) \<Rightarrow> AList.update key val res)
         else AList.update kvish None res)
       (words v) []"

definition deb_build_profiles :: "(string \<Rightarrow> string option) \<Rightarrow> string set" where
  "deb_build_profiles environ = set (words (case environ ''DEB_BUILD_PROFILES'' of None \<Rightarrow> [] | Some p \<Rightarrow> p))"

definition deb_build_options :: "(string \<Rightarrow> string option) \<Rightarrow> (string \<times> string option) list" where
  "deb_build_options environ =
     parse_deb_build_options (case environ ''DEB_BUILD_OPTIONS'' of None \<Rightarrow> [] | Some v \<Rightarrow> v)"

subsection \<open>Binary packages\<close>

type_synonym stanza = "(string \<times> string) list"

text \<open>\<open>vars\<close> is the table of architecture values, and \<open>matches arch wildcard\<close> what \<^verbatim>\<open>matches_architecture\<close> of
  python-debian answers.\<close>

record binary_package =
  bp_fields :: stanza
  bp_should_be_acted_on :: bool
  bp_declared_arch_matches :: bool
  bp_is_main :: bool

definition field :: "stanza \<Rightarrow> string \<Rightarrow> string res" where
  "field p f = (case map_of p f of None \<Rightarrow> Inl KeyError | Some v \<Rightarrow> Inr v)"

definition lower_char :: "char \<Rightarrow> char" where
  "lower_char c = (if ascii_upper c then char_of (of_char c + 32 :: nat) else c)"

definition build_for_type :: "stanza \<Rightarrow> string" where
  "build_for_type p =
     (case map_of p ''X-DH-Build-For-Type'' of None \<Rightarrow> ''host'' | Some v \<Rightarrow> map lower_char v)"

definition resolved_architecture :: "(string \<Rightarrow> string res) \<Rightarrow> stanza \<Rightarrow> string res" where
  "resolved_architecture vars p =
     rbind (field p ''Architecture'') (\<lambda>arch.
       if arch = ''all'' then Inr arch
       else if build_for_type p = ''target'' then vars ''DEB_TARGET_ARCH'' else vars ''DEB_HOST_ARCH'')"

definition package_deb_architecture_variable :: "(string \<Rightarrow> string res) \<Rightarrow> stanza \<Rightarrow> string \<Rightarrow> string res" where
  "package_deb_architecture_variable vars p variable_suffix =
     (if build_for_type p = ''target'' then vars (''DEB_TARGET_'' @ variable_suffix)
      else vars (''DEB_HOST_'' @ variable_suffix))"

definition cross_command :: "(string \<Rightarrow> string res) \<Rightarrow> stanza \<Rightarrow> string \<Rightarrow> string res" where
  "cross_command vars p command =
     rbind (if build_for_type p = ''target''
            then rbind (vars ''DEB_TARGET_GNU_TYPE'') (\<lambda>target. rbind (vars ''DEB_HOST_GNU_TYPE'') (\<lambda>host.
                   Inr (if host \<noteq> target then Some target else None)))
            else Inr None) (\<lambda>t.
       case t of
         Some target \<Rightarrow> Inr (target @ ''-'' @ command)
       | None \<Rightarrow>
           rbind (vars ''DEB_BUILD_GNU_TYPE'') (\<lambda>build. rbind (vars ''DEB_HOST_GNU_TYPE'') (\<lambda>host.
             Inr (if build \<noteq> host then host @ ''-'' @ command else command))))"

definition archive_section :: "stanza \<Rightarrow> string" where
  "archive_section p = (case map_of p ''Section'' of None \<Rightarrow> ''Unknown'' | Some v \<Rightarrow> v)"

definition archive_component :: "stanza \<Rightarrow> string" where
  "archive_component p =
     (case rsplit1 slash (archive_section p) of
        None \<Rightarrow> []
      | Some (component, _) \<Rightarrow> if component = ''main'' then [] else component)"

definition package_type :: "stanza \<Rightarrow> string" where
  "package_type p = (case map_of p ''Package-Type'' of None \<Rightarrow> ''deb'' | Some v \<Rightarrow> v)"

definition is_essential :: "stanza \<Rightarrow> bool" where
  "is_essential p \<longleftrightarrow> map_of p ''Essential'' = Some ''yes''"

definition check_binary_arch :: "(string \<Rightarrow> string \<Rightarrow> bool) \<Rightarrow> string \<Rightarrow> string \<Rightarrow> bool" where
  "check_binary_arch matches binary_arch declared_arch \<longleftrightarrow>
     binary_arch = ''all'' \<or> list_ex (matches binary_arch) (words declared_arch)"

definition new_binary_package ::
    "(string \<Rightarrow> string res) \<Rightarrow> (string \<Rightarrow> string \<Rightarrow> bool) \<Rightarrow> stanza \<Rightarrow> bool \<Rightarrow> bool \<Rightarrow> binary_package res" where
  "new_binary_package vars matches p should_act_on is_main =
     rbind (resolved_architecture vars p) (\<lambda>resolved. rbind (field p ''Architecture'') (\<lambda>declared.
       Inr \<lparr>bp_fields = p, bp_should_be_acted_on = should_act_on,
            bp_declared_arch_matches = check_binary_arch matches resolved declared, bp_is_main = is_main\<rparr>))"

definition should_be_acted_on :: "binary_package \<Rightarrow> bool" where
  "should_be_acted_on b \<longleftrightarrow> bp_should_be_acted_on b \<and> bp_declared_arch_matches b"

subsection \<open>Reading \<^verbatim>\<open>debian/control\<close>\<close>

record dctrl_parser =
  selected_packages :: "string list"
  excluded_packages :: "string list"
  select_arch_all :: bool
  select_arch_any :: bool
  build_profiles :: "string set"

definition new_dctrl_parser :: "string list \<Rightarrow> string list \<Rightarrow> bool \<Rightarrow> bool \<Rightarrow> string set \<Rightarrow> dctrl_parser" where
  "new_dctrl_parser selected excluded arch_all arch_any profiles =
     (let all_packages = (selected = [] \<and> \<not> arch_all \<and> \<not> arch_any) in
      \<lparr>selected_packages = selected, excluded_packages = excluded,
       select_arch_all = (all_packages \<or> arch_all), select_arch_any = (all_packages \<or> arch_any),
       build_profiles = profiles\<rparr>)"

definition create_binary_package ::
    "(string \<Rightarrow> string res) \<Rightarrow> (string \<Rightarrow> string \<Rightarrow> bool) \<Rightarrow> dctrl_parser \<Rightarrow> nat \<Rightarrow> stanza \<Rightarrow> binary_package res" where
  "create_binary_package vars matches parser paragraph_index p =
     (case (map_of p ''Package'', map_of p ''Architecture'') of
        (Some name, Some architecture) \<Rightarrow>
          if paragraph_index < 1 then Inl ValueError
          else
            (let selected =
                   (if name \<in> set (excluded_packages parser) then False
                    else if name \<in> set (selected_packages parser) then True
                    else if architecture = ''all'' then select_arch_all parser
                    else select_arch_any parser);
                 profiles_raw = strip py_space (case map_of p ''Build-Profiles'' of None \<Rightarrow> [] | Some v \<Rightarrow> v)
             in rbind (if selected \<and> profiles_raw \<noteq> []
                       then (case active_profiles_match profiles_raw (build_profiles parser) of
                               Inl e \<Rightarrow> if e = ValueError then Inl UserError else Inl e
                             | Inr b \<Rightarrow> Inr b)
                       else Inr selected) (\<lambda>should_act_on.
                  new_binary_package vars matches p should_act_on (paragraph_index = 1)))
      | _ \<Rightarrow> Inl UserError)"

fun create_packages ::
    "(string \<Rightarrow> string res) \<Rightarrow> (string \<Rightarrow> string \<Rightarrow> bool) \<Rightarrow> dctrl_parser \<Rightarrow> bool \<Rightarrow> nat \<Rightarrow> stanza list \<Rightarrow>
     binary_package list res" where
  "create_packages vars matches parser ignore_errors i [] = Inr []"
| "create_packages vars matches parser ignore_errors i (p # ps) =
     (if ignore_errors \<and> map_of p ''Package'' = None
      then create_packages vars matches parser ignore_errors (Suc i) ps
      else
        (let p' = (if ignore_errors \<and> map_of p ''Architecture'' = None
                   then p @ [(''Architecture'', ''unknown'')] else p)
         in rbind (create_binary_package vars matches parser i p') (\<lambda>b.
              rmap (\<lambda>bs. b # bs) (create_packages vars matches parser ignore_errors (Suc i) ps))))"

text \<open>The stanzas of the file are given; the result is the source stanza and the table of the packages.\<close>

definition parse_source_debian_control ::
    "(string \<Rightarrow> string res) \<Rightarrow> (string \<Rightarrow> string \<Rightarrow> bool) \<Rightarrow> dctrl_parser \<Rightarrow> bool \<Rightarrow> stanza list \<Rightarrow>
     (stanza option \<times> (string \<times> binary_package) list option) res" where
  "parse_source_debian_control vars matches parser ignore_errors paragraphs =
     (case paragraphs of
        source # bin # bins \<Rightarrow>
          rbind (create_packages vars matches parser ignore_errors 1 (bin # bins)) (\<lambda>bin_pkgs.
            rbind (rmapM (\<lambda>b. rmap (\<lambda>n. (n, b)) (field (bp_fields b) ''Package'')) bin_pkgs) (\<lambda>named.
              let table = fold (\<lambda>(n, b) t. AList.update n b t) named [] in
              if \<not> ignore_errors \<and> (\<not> set (selected_packages parser) \<subseteq> set (map fst table)
                                   \<or> \<not> set (excluded_packages parser) \<subseteq> set (map fst table))
              then Inl UserError
              else Inr (Some source, Some table)))
      | _ \<Rightarrow>
          if \<not> ignore_errors then Inl UserError
          else Inr (case paragraphs of [] \<Rightarrow> None | p # _ \<Rightarrow> Some p, None))"

subsection \<open>The cache is transparent\<close>

text \<open>What the table stands for: a variable of the environment, else what \<^verbatim>\<open>dpkg-architecture\<close> prints last.\<close>

definition arch_value :: "(string \<Rightarrow> string option) \<Rightarrow> (string \<times> string) list \<Rightarrow> string \<Rightarrow> string option" where
  "arch_value environ printed item =
     (case environ item of Some v \<Rightarrow> Some v | None \<Rightarrow> map_of (rev printed) item)"

inductive arch_reachable ::
    "(string \<Rightarrow> string option) \<Rightarrow> string list \<Rightarrow> arch_table \<Rightarrow> bool"
  for environ :: "string \<Rightarrow> string option" and lines :: "string list" where
  start: "arch_reachable environ lines (new_arch_table None)"
| getitem: "arch_reachable environ lines t \<Longrightarrow>
    arch_reachable environ lines (fst (arch_getitem environ lines item t))"
| iter: "arch_reachable environ lines t \<Longrightarrow> arch_reachable environ lines (fst (arch_iter environ lines t))"

definition cache_below ::
    "(string \<Rightarrow> string option) \<Rightarrow> (string \<times> string) list \<Rightarrow> arch_table \<Rightarrow> bool" where
  "cache_below environ printed t \<longleftrightarrow>
     at_respect_environ t
     \<and> (\<forall>k v. map_of (at_cache t) k = Some v \<longrightarrow> environ k = Some v \<or> environ k = None \<and> at_has_run t \<and> map_of (rev printed) k = Some v)
     \<and> (at_has_run t \<longrightarrow> (\<forall>k. map_of (rev printed) k \<noteq> None \<longrightarrow> map_of (at_cache t) k \<noteq> None))"

lemma load_dpkg_lines_run:
  assumes "rmapM parse_dpkg_arch_line lines = Inr kvs"
  shows "\<exists>c. load_dpkg_lines environ lines t = (t\<lparr>at_has_run := True, at_cache := c\<rparr>, Inr ())
    \<and> (\<forall>k. map_of c k = (case map_of (rev kvs) k of None \<Rightarrow> map_of (at_cache t) k
                          | Some v \<Rightarrow> Some (case environ k of None \<Rightarrow> v | Some e \<Rightarrow> e)))"
  using assms
proof (induction lines arbitrary: t kvs)
  case Nil
  then show ?case by (intro exI[of _ "at_cache t"]) simp
next
  case (Cons line lines)
  then obtain k v rest where p: "parse_dpkg_arch_line line = Inr (k, v)" "rmapM parse_dpkg_arch_line lines = Inr rest"
    "kvs = (k, v) # rest" by (auto simp: res_simps)
  let ?t = "t\<lparr>at_cache := AList.update k (case environ k of None \<Rightarrow> v | Some e \<Rightarrow> e) (at_cache t)\<rparr>"
  obtain c where c: "load_dpkg_lines environ lines ?t = (?t\<lparr>at_has_run := True, at_cache := c\<rparr>, Inr ())"
    "\<And>k. map_of c k = (case map_of (rev rest) k of None \<Rightarrow> map_of (at_cache ?t) k
                          | Some v \<Rightarrow> Some (case environ k of None \<Rightarrow> v | Some e \<Rightarrow> e))"
    using Cons.IH[OF p(2), of ?t] by blast
  show ?case
    by (intro exI[of _ c]) (simp add: p c update_conv map_add_def split: option.split)
qed

lemma cache_below_load:
  assumes p: "rmapM parse_dpkg_arch_line output = Inr printed" and t: "cache_below environ printed t"
  shows "\<exists>t1. load_dpkg_architecture_values environ output t = (t1, Inr ()) \<and> cache_below environ printed t1 \<and> at_has_run t1"
proof (cases "at_has_run t")
  case True
  with t show ?thesis by (simp add: load_dpkg_architecture_values_def)
next
  case False
  obtain c where c: "load_dpkg_lines environ output t = (t\<lparr>at_has_run := True, at_cache := c\<rparr>, Inr ())"
    "\<And>k. map_of c k = (case map_of (rev printed) k of None \<Rightarrow> map_of (at_cache t) k
                          | Some v \<Rightarrow> Some (case environ k of None \<Rightarrow> v | Some e \<Rightarrow> e))"
    using load_dpkg_lines_run[OF p] by blast
  have "cache_below environ printed (t\<lparr>at_has_run := True, at_cache := c\<rparr>)"
    using t False unfolding cache_below_def by (auto simp: c(2) split: option.splits)
  then show ?thesis using False c(1) by (simp add: load_dpkg_architecture_values_def)
qed

lemma cache_below_get:
  assumes p: "rmapM parse_dpkg_arch_line output = Inr printed" and t: "cache_below environ printed t"
  shows "cache_below environ printed (fst (arch_getitem environ output item t))
    \<and> snd (arch_getitem environ output item t)
        = (case arch_value environ printed item of None \<Rightarrow> Inl KeyError | Some v \<Rightarrow> Inr v)"
proof (cases "map_of (at_cache t) item")
  case (Some v)
  then have "environ item = Some v \<or> environ item = None \<and> map_of (rev printed) item = Some v"
    using t unfolding cache_below_def by blast
  then have "arch_value environ printed item = Some v" by (auto simp: arch_value_def)
  with Some t show ?thesis by (simp add: arch_getitem_def cache_get_def)
next
  case miss: None
  show ?thesis
  proof (cases "environ item")
    case (Some v)
    with miss t show ?thesis
      by (auto simp: arch_getitem_def arch_value_def cache_below_def update_conv split: if_splits)
  next
    case None
    obtain t1 where t1: "load_dpkg_architecture_values environ output t = (t1, Inr ())" "cache_below environ printed t1"
      "at_has_run t1" using cache_below_load[OF p t] by blast
    have "map_of (at_cache t1) item = map_of (rev printed) item"
    proof (cases "map_of (at_cache t1) item")
      case None
      then show ?thesis using t1(2,3) unfolding cache_below_def by metis
    next
      case (Some v)
      then have "map_of (rev printed) item = Some v"
      using t1(2) \<open>environ item = None\<close> unfolding cache_below_def by (metis option.distinct(1))
    with Some show ?thesis by simp
    qed
    with miss None t1 t show ?thesis
      by (auto simp: arch_getitem_def arch_value_def cache_get_def cache_below_def split: option.split)
  qed
qed

text \<open>Whatever was looked up before, in whatever order, a lookup answers the same: the variable of the
  environment if it is set, else the value that \<^verbatim>\<open>dpkg-architecture\<close> printed, else \<^verbatim>\<open>KeyError\<close>.\<close>

theorem arch_lookup_stable:
  assumes p: "rmapM parse_dpkg_arch_line output = Inr printed" and t: "arch_reachable environ output t"
  shows "snd (arch_getitem environ output item t)
    = (case arch_value environ printed item of None \<Rightarrow> Inl KeyError | Some v \<Rightarrow> Inr v)"
proof -
  from t have "cache_below environ printed t"
  proof induction
    case start
    show ?case by (simp add: cache_below_def new_arch_table_def)
  next
    case (getitem t item)
    then show ?case using cache_below_get[OF p] by blast
  next
    case (iter t)
    then show ?case using cache_below_load[OF p] by (fastforce simp: arch_iter_def)
  qed
  then show ?thesis using cache_below_get[OF p] by blast
qed

definition demo_output :: "string list" where
  "demo_output = [''DEB_HOST_ARCH=amd64'', ''DEB_HOST_GNU_TYPE=x86_64-linux-gnu'']"

lemma arch_lookup_stable_witness:
  "snd (arch_getitem Map.empty demo_output ''DEB_HOST_ARCH'' (fst (arch_iter Map.empty demo_output (new_arch_table None))))
    = (case arch_value Map.empty [(''DEB_HOST_ARCH'', ''amd64''), (''DEB_HOST_GNU_TYPE'', ''x86_64-linux-gnu'')]
              ''DEB_HOST_ARCH'' of None \<Rightarrow> Inl KeyError | Some v \<Rightarrow> Inr v)"
proof (rule arch_lookup_stable)
  show "rmapM parse_dpkg_arch_line demo_output
      = Inr [(''DEB_HOST_ARCH'', ''amd64''), (''DEB_HOST_GNU_TYPE'', ''x86_64-linux-gnu'')]" by code_simp
  show "arch_reachable Map.empty demo_output (fst (arch_iter Map.empty demo_output (new_arch_table None)))"
    by (intro arch_reachable.intros)
qed

subsection \<open>The faked tables\<close>

text \<open>
  What the manual of \<^verbatim>\<open>dpkg-architecture\<close> says of the pairs it prints: with \<^verbatim>\<open>-a\<close> the \<^verbatim>\<open>DEB_HOST_\<close> variables,
  and with \<^verbatim>\<open>-A\<close> the \<^verbatim>\<open>DEB_TARGET_\<close> variables describe the given architecture.  \<open>info a s\<close> is the value for
  the architecture \<open>a\<close> of the variable whose name ends in \<open>s\<close>.
\<close>

definition prints_documented ::
    "(string \<Rightarrow> string option \<Rightarrow> (string \<times> string) list) \<Rightarrow> (string \<Rightarrow> string \<Rightarrow> string option) \<Rightarrow> bool" where
  "prints_documented run info \<longleftrightarrow>
     (\<forall>a t. distinct (map fst (run a t))
        \<and> (\<forall>s. map_of (run a t) (deb_host @ s) = info a s)
        \<and> (\<forall>s T. t = Some T \<longrightarrow> map_of (run a t) (deb_target @ s) = info T s))"

text \<open>A loop that writes the value of the key \<open>k\<close>, and of no other, under the key \<open>k'\<close>.\<close>

lemma fold_write:
  assumes "distinct (map fst kvs)"
    and "\<And>j v t. f (j, v) t k' = (if j = k then Some v else t k')"
  shows "fold f kvs t k' = (case map_of kvs k of None \<Rightarrow> t k' | Some v \<Rightarrow> Some v)"
  using assms(1)
proof (induction kvs arbitrary: t)
  case (Cons kv kvs)
  obtain j v where kv: "kv = (j, v)" by (cases kv)
  have "fold f (kv # kvs) t k' = (case map_of kvs k of None \<Rightarrow> if j = k then Some v else t k' | Some v \<Rightarrow> Some v)"
    using Cons.IH[of "f (j, v) t"] Cons.prems kv by (simp add: assms(2) split: option.split)
  moreover have "map_of kvs k = None" if "j = k" using that Cons.prems kv by (simp add: map_of_eq_None_iff)
  ultimately show ?case using kv by (simp split: option.split)
qed simp

text \<open>The three loops of \<^verbatim>\<open>_faked_arch_tables\<close>, for prefixes none of which is a prefix of another.\<close>

definition unrelated :: "string \<Rightarrow> string \<Rightarrow> bool" where
  "unrelated p q \<longleftrightarrow> (\<forall>r s. p @ r \<noteq> q @ s)"

lemma unrelatedD: "unrelated p q \<Longrightarrow> p @ r = q @ s \<longleftrightarrow> False"
  by (simp add: unrelated_def)

lemma unrelated_neq: "unrelated p q \<Longrightarrow> p = q \<longleftrightarrow> False"
  by (auto simp: unrelated_def)

lemma unrelated_startswith: "unrelated p q \<Longrightarrow> startswith (p @ r) q \<longleftrightarrow> False"
  by (auto simp: unrelated_def startswith_iff)

lemma rewrite_key_append [simp]: "rewrite_key (p @ s) p q = q @ s"
  by (simp add: rewrite_key_def)

lemma startswith_cases:
  obtains r where "startswith j p" "j = p @ r" | "\<not> startswith j p" "\<And>r. j \<noteq> p @ r"
  by (metis startswith_iff)

lemma deb_prefixes:
  "unrelated deb_build deb_host" "unrelated deb_build deb_target" "unrelated deb_host deb_target"
  "unrelated deb_host deb_build" "unrelated deb_target deb_build" "unrelated deb_target deb_host"
  by (simp_all add: unrelated_def deb_host_def deb_build_def deb_target_def)

lemmas deb_prefix_simps =
  deb_prefixes[THEN unrelated_neq] deb_prefixes[THEN unrelatedD] deb_prefixes[THEN unrelated_startswith]

lemma deb_key_cases:
  obtains (host) r where "j = deb_host @ r" | (target) r where "j = deb_target @ r"
    | (other) "\<not> startswith j deb_host" "\<not> startswith j deb_target" "\<And>r. j \<noteq> deb_host @ r" "\<And>r. j \<noteq> deb_target @ r"
  by (metis startswith_iff)

lemma native_step:
  "native_pair (j, v) t (deb_host @ s) = (if j = deb_host @ s then Some v else t (deb_host @ s))"
  "native_pair (j, v) t (deb_build @ s) = (if j = deb_host @ s then Some v else t (deb_build @ s))"
  "native_pair (j, v) t (deb_target @ s) = (if j = deb_target @ s then Some v else t (deb_target @ s))"
  by (cases j rule: deb_key_cases; simp add: native_pair_def deb_prefix_simps)+

lemma cross_step:
  "cross_pair (j, v) t (deb_host @ s) = (if j = deb_target @ s then Some v else t (deb_host @ s))"
  "cross_pair (j, v) t (deb_build @ s) = (if j = deb_host @ s then Some v else t (deb_build @ s))"
  "cross_pair (j, v) t (deb_target @ s) = (if j = deb_target @ s then Some v else t (deb_target @ s))"
  by (cases j rule: deb_key_cases; simp add: cross_pair_def deb_prefix_simps)+

lemma build_step:
  "build_pair (j, v) t (deb_build @ s) = (if j = deb_host @ s then Some v else t (deb_build @ s))"
  "build_pair (j, v) t (deb_host @ s) = t (deb_host @ s)"
  "build_pair (j, v) t (deb_target @ s) = t (deb_target @ s)"
  by (cases j rule: deb_key_cases; simp add: build_pair_def deb_prefix_simps)+

lemma copy_step:
  "copy_pair (j, v) t (deb_host @ s) = (if j = deb_host @ s then Some v else t (deb_host @ s))"
  "copy_pair (j, v) t (deb_target @ s) = (if j = deb_target @ s then Some v else t (deb_target @ s))"
  "copy_pair (j, v) t (deb_build @ s) = t (deb_build @ s)"
  by (cases j rule: deb_key_cases; simp add: copy_pair_def deb_prefix_simps)+

text \<open>A faked table answers, for every variable, with the value of the build architecture under
  \<^verbatim>\<open>DEB_BUILD_\<close>, of the host architecture under \<^verbatim>\<open>DEB_HOST_\<close> and of the target architecture under
  \<^verbatim>\<open>DEB_TARGET_\<close>, in each of the three ways in which the code saves a call of \<^verbatim>\<open>dpkg-architecture\<close>.\<close>

theorem faked_arch_tables_correct:
  assumes "prints_documented run info"
  shows "faked_arch_tables run host build target (deb_host @ s) = info host s
    \<and> faked_arch_tables run host build target (deb_build @ s) = info build s
    \<and> faked_arch_tables run host build target (deb_target @ s) = info target s"
proof -
  have d: "distinct (map fst (run a t))" and h: "map_of (run a t) (deb_host @ s) = info a s"
    and T: "map_of (run a (Some T)) (deb_target @ s) = info T s" for a t T
    using assms by (auto simp: prints_documented_def)
  have native_loop:
    "fold native_pair (run a t) m (deb_host @ s)
      = (case map_of (run a t) (deb_host @ s) of None \<Rightarrow> m (deb_host @ s) | Some v \<Rightarrow> Some v)"
    "fold native_pair (run a t) m (deb_build @ s)
      = (case map_of (run a t) (deb_host @ s) of None \<Rightarrow> m (deb_build @ s) | Some v \<Rightarrow> Some v)"
    "fold native_pair (run a t) m (deb_target @ s)
      = (case map_of (run a t) (deb_target @ s) of None \<Rightarrow> m (deb_target @ s) | Some v \<Rightarrow> Some v)"
    for a t m
    by (rule fold_write[OF d], rule native_step)+
  have cross_loop:
    "fold cross_pair (run a t) m (deb_host @ s)
      = (case map_of (run a t) (deb_target @ s) of None \<Rightarrow> m (deb_host @ s) | Some v \<Rightarrow> Some v)"
    "fold cross_pair (run a t) m (deb_build @ s)
      = (case map_of (run a t) (deb_host @ s) of None \<Rightarrow> m (deb_build @ s) | Some v \<Rightarrow> Some v)"
    "fold cross_pair (run a t) m (deb_target @ s)
      = (case map_of (run a t) (deb_target @ s) of None \<Rightarrow> m (deb_target @ s) | Some v \<Rightarrow> Some v)"
    for a t m
    by (rule fold_write[OF d], rule cross_step)+
  have copy_loop:
    "fold copy_pair (run a t) m (deb_host @ s)
      = (case map_of (run a t) (deb_host @ s) of None \<Rightarrow> m (deb_host @ s) | Some v \<Rightarrow> Some v)"
    "fold copy_pair (run a t) m (deb_target @ s)
      = (case map_of (run a t) (deb_target @ s) of None \<Rightarrow> m (deb_target @ s) | Some v \<Rightarrow> Some v)"
    for a t m
    by (rule fold_write[OF d], rule copy_step)+
  have build_loop:
    "fold build_pair (run a t) m (deb_build @ s)
      = (case map_of (run a t) (deb_host @ s) of None \<Rightarrow> m (deb_build @ s) | Some v \<Rightarrow> Some v)"
    for a t m
    by (rule fold_write[OF d], rule build_step)+
  have keep: "fold copy_pair kvs t (deb_build @ s) = t (deb_build @ s)"
    "fold build_pair kvs t (deb_host @ s) = t (deb_host @ s)" "fold build_pair kvs t (deb_target @ s) = t (deb_target @ s)"
    for kvs t
    by (induction kvs arbitrary: t) (auto simp: copy_step build_step)
  consider (native) "build = host" | (both) "build \<noteq> host" "host \<noteq> target" | (cross) "build \<noteq> host" "host = target"
    by blast
  then show ?thesis
  proof cases
    case native
    then show ?thesis
      by (simp add: faked_arch_tables_def native_loop h T
          split: option.split)
  next
    case both
    then show ?thesis
      by (simp add: faked_arch_tables_def copy_loop build_loop keep h T          split: option.split)
  next
    case cross
    then show ?thesis
      by (simp add: faked_arch_tables_def cross_loop h T
          split: option.split)
  qed
qed

text \<open>A \<^verbatim>\<open>dpkg-architecture\<close> that knows one variable, as an instance of the documented behaviour.\<close>

definition demo_dpkg :: "string \<Rightarrow> string option \<Rightarrow> (string \<times> string) list" where
  "demo_dpkg a t =
     (deb_host @ ''ARCH'', a) # (case t of None \<Rightarrow> [] | Some T \<Rightarrow> [(deb_target @ ''ARCH'', T)])"

lemma demo_dpkg_documented:
  "prints_documented demo_dpkg (\<lambda>a s. if s = ''ARCH'' then Some a else None)"
  unfolding prints_documented_def
  by (auto simp: demo_dpkg_def deb_prefix_simps split: option.splits)

lemma faked_arch_tables_correct_witness:
  "faked_arch_tables demo_dpkg ''i386'' ''amd64'' ''i386'' (deb_host @ ''ARCH'') = Some ''i386''
   \<and> faked_arch_tables demo_dpkg ''i386'' ''amd64'' ''i386'' (deb_build @ ''ARCH'') = Some ''amd64''
   \<and> faked_arch_tables demo_dpkg ''i386'' ''amd64'' ''i386'' (deb_target @ ''ARCH'') = Some ''i386''"
  using faked_arch_tables_correct[OF demo_dpkg_documented, of "''i386''" "''amd64''" "''i386''" "''ARCH''"] by simp

subsection \<open>Which packages are acted on\<close>

text \<open>The selection that the options describe: excluded packages never, named ones always, and otherwise
  by the kind of architecture; no option at all selects everything.\<close>

definition selects :: "string list \<Rightarrow> string list \<Rightarrow> bool \<Rightarrow> bool \<Rightarrow> string \<Rightarrow> string \<Rightarrow> bool" where
  "selects selected excluded arch_all arch_any name architecture \<longleftrightarrow>
     name \<notin> set excluded
     \<and> (name \<in> set selected
        \<or> (if architecture = ''all'' then arch_all else arch_any)
        \<or> (selected = [] \<and> \<not> arch_all \<and> \<not> arch_any))"

definition profiles_ok :: "string set \<Rightarrow> stanza \<Rightarrow> bool" where
  "profiles_ok active p =
     (let raw = strip py_space (case map_of p ''Build-Profiles'' of None \<Rightarrow> [] | Some v \<Rightarrow> v)
      in raw = [] \<or> active_profiles_match raw active = Inr True)"

lemma create_binary_package_selects:
  assumes "create_binary_package vars matches (new_dctrl_parser sel excl arch_all arch_any active) i p = Inr b"
  shows "\<exists>name architecture resolved. map_of p ''Package'' = Some name \<and> map_of p ''Architecture'' = Some architecture
    \<and> resolved_architecture vars p = Inr resolved \<and> bp_fields b = p \<and> bp_is_main b = (i = 1)
    \<and> (should_be_acted_on b \<longleftrightarrow> selects sel excl arch_all arch_any name architecture \<and> profiles_ok active p
        \<and> check_binary_arch matches resolved architecture)"
proof -
  obtain name architecture where na: "map_of p ''Package'' = Some name" "map_of p ''Architecture'' = Some architecture"
    using assms by (auto simp: create_binary_package_def split: option.splits)
  define raw where "raw = strip py_space (case map_of p ''Build-Profiles'' of None \<Rightarrow> [] | Some v \<Rightarrow> v)"
  define wanted where "wanted = selects sel excl arch_all arch_any name architecture"
  define acted where "acted = (if wanted \<and> raw \<noteq> []
                       then (case active_profiles_match raw active of
                               Inl e \<Rightarrow> if e = ValueError then Inl UserError else Inl e
                             | Inr b \<Rightarrow> Inr b)
                       else Inr wanted)"
  have w: "(if name \<in> set excl then False else if name \<in> set sel then True
      else if architecture = ''all'' then select_arch_all (new_dctrl_parser sel excl arch_all arch_any active)
      else select_arch_any (new_dctrl_parser sel excl arch_all arch_any active)) = wanted"
    by (auto simp: wanted_def selects_def new_dctrl_parser_def Let_def)
  have p: "selected_packages (new_dctrl_parser sel excl arch_all arch_any active) = sel"
    "excluded_packages (new_dctrl_parser sel excl arch_all arch_any active) = excl"
    "build_profiles (new_dctrl_parser sel excl arch_all arch_any active) = active"
    by (simp_all add: new_dctrl_parser_def Let_def)
  from assms have "rbind acted (\<lambda>a. new_binary_package vars matches p a (i = 1)) = Inr b"
    unfolding create_binary_package_def na option.case prod.case p w acted_def raw_def[symmetric] Let_def
    by (cases "i < 1") (simp_all only: if_True if_False sum.distinct)
  then obtain a resolved where a: "acted = Inr a" and r: "resolved_architecture vars p = Inr resolved"
    and b: "b = \<lparr>bp_fields = p, bp_should_be_acted_on = a,
            bp_declared_arch_matches = check_binary_arch matches resolved architecture, bp_is_main = (i = 1)\<rparr>"
    using na by (auto simp: new_binary_package_def res_simps field_def)
  have "a \<longleftrightarrow> wanted \<and> profiles_ok active p"
    using a unfolding acted_def profiles_ok_def raw_def[symmetric] Let_def
    by (auto split: if_splits sum.splits)
  with na r b show ?thesis by (simp add: should_be_acted_on_def wanted_def)
qed

lemma create_packages_created:
  "create_packages vars matches parser False i ps = Inr bs \<Longrightarrow> b \<in> set bs \<Longrightarrow>
     \<exists>p \<in> set ps. \<exists>k. create_binary_package vars matches parser k p = Inr b"
proof (induction ps arbitrary: i bs)
  case (Cons p ps)
  from Cons.prems(1) obtain b' bs' where b': "create_binary_package vars matches parser i p = Inr b'" "bs = b' # bs'"
    and r: "create_packages vars matches parser False (Suc i) ps = Inr bs'"
    by (auto simp: res_simps)
  show ?case
  proof (cases "b = b'")
    case True
    with b'(1) show ?thesis by auto
  next
    case False
    with Cons.prems(2) b'(2) have "b \<in> set bs'" by simp
    from Cons.IH[OF r this] show ?thesis by (metis list.set_intros(2))
  qed
qed simp

lemma fold_update_set: "set (fold (\<lambda>(n, b) t. AList.update n b t) kvs t) \<subseteq> set t \<union> set kvs"
proof (induction kvs arbitrary: t)
  case (Cons kv kvs)
  obtain k v where "kv = (k, v)" by (cases kv)
  moreover have "set (AList.update k v t) \<subseteq> insert (k, v) (set t)" by (induction t) auto
  ultimately show ?case using Cons.IH[of "AList.update k v t"] by auto
qed simp

text \<open>C14: in a \<^verbatim>\<open>debian/control\<close> that is accepted, every package that the options select or exclude exists, and a
  package is acted on exactly when the options select it, its build profiles are active and its
  architecture matches the one that is built.\<close>

theorem control_selection:
  assumes ok: "parse_source_debian_control vars matches (new_dctrl_parser sel excl arch_all arch_any active) False paragraphs
      = Inr (source, Some table)"
  shows "set sel \<subseteq> fst ` set table \<and> set excl \<subseteq> fst ` set table
    \<and> (\<forall>(name, b) \<in> set table. \<exists>architecture resolved.
        bp_fields b \<in> set (tl paragraphs) \<and> map_of (bp_fields b) ''Package'' = Some name
        \<and> map_of (bp_fields b) ''Architecture'' = Some architecture
        \<and> resolved_architecture vars (bp_fields b) = Inr resolved
        \<and> (should_be_acted_on b \<longleftrightarrow> selects sel excl arch_all arch_any name architecture
             \<and> profiles_ok active (bp_fields b) \<and> check_binary_arch matches resolved architecture))"
proof -
  let ?parser = "new_dctrl_parser sel excl arch_all arch_any active"
  obtain src ps where ps: "paragraphs = src # ps" "ps \<noteq> []"
    using ok by (cases paragraphs rule: list.exhaust; cases "tl paragraphs")
      (auto simp: parse_source_debian_control_def)
  obtain bs named where bs: "create_packages vars matches ?parser False 1 ps = Inr bs"
    and named: "rmapM (\<lambda>b. rmap (\<lambda>n. (n, b)) (field (bp_fields b) ''Package'')) bs = Inr named"
    and table: "table = fold (\<lambda>(n, b) t. AList.update n b t) named []"
    and sub: "set sel \<subseteq> set (map fst table)" "set excl \<subseteq> set (map fst table)"
    using ok ps by (cases ps) (auto simp: parse_source_debian_control_def Let_def res_simps new_dctrl_parser_def
        split: if_splits simp del: create_packages.simps)
  have "\<exists>architecture resolved.
        bp_fields b \<in> set ps \<and> map_of (bp_fields b) ''Package'' = Some name
        \<and> map_of (bp_fields b) ''Architecture'' = Some architecture
        \<and> resolved_architecture vars (bp_fields b) = Inr resolved
        \<and> (should_be_acted_on b \<longleftrightarrow> selects sel excl arch_all arch_any name architecture
             \<and> profiles_ok active (bp_fields b) \<and> check_binary_arch matches resolved architecture)"
    if nb: "(name, b) \<in> set table" for name b
  proof -
    have "(name, b) \<in> set named" using nb fold_update_set[of named "[]"] table by auto
    from rmapM_member[OF named this] have b: "b \<in> set bs" "map_of (bp_fields b) ''Package'' = Some name"
      by (auto simp: res_simps field_def split: option.splits)
    from create_packages_created[OF bs b(1)] obtain p k
      where p: "p \<in> set ps" "create_binary_package vars matches ?parser k p = Inr b" by blast
    with create_binary_package_selects[OF p(2)] b(2) show ?thesis by auto
  qed
  with ps sub show ?thesis by auto
qed

definition demo_control :: "stanza list" where
  "demo_control = [[(''Source'', ''foo'')], [(''Package'', ''foo''), (''Architecture'', ''any'')]]"

definition demo_package :: binary_package where
  "demo_package = \<lparr>bp_fields = [(''Package'', ''foo''), (''Architecture'', ''any'')], bp_should_be_acted_on = True,
      bp_declared_arch_matches = True, bp_is_main = True\<rparr>"

lemma control_selection_witness:
  "\<exists>architecture resolved. map_of (bp_fields demo_package) ''Architecture'' = Some architecture
    \<and> resolved_architecture (\<lambda>_. Inr ''amd64'') (bp_fields demo_package) = Inr resolved
    \<and> (should_be_acted_on demo_package \<longleftrightarrow> selects [''foo''] [] False False ''foo'' architecture
         \<and> profiles_ok {} (bp_fields demo_package) \<and> check_binary_arch (\<lambda>_ _. True) resolved architecture)"
proof -
  have "parse_source_debian_control (\<lambda>_. Inr ''amd64'') (\<lambda>_ _. True) (new_dctrl_parser [''foo''] [] False False {}) False
      demo_control = Inr (Some [(''Source'', ''foo'')], Some [(''foo'', demo_package)])" by code_simp
  from control_selection[OF this] show ?thesis by (simp only: list.set ball_simps prod.case) blast
qed

end
