(* ===== verification/Conditions.thy ===== *)
theory Conditions
  imports Packages
begin

section \<open>Conditions of the manifest (\<^verbatim>\<open>manifest_conditions.py\<close>)\<close>

text \<open>
  The conditions that a definition of the manifest may carry, their negation and grouping, and their
  evaluation in a context.  Whether an architecture is concerned by a list of wildcards is answered by
  python-debian and is a parameter of the context.
\<close>

record condition_context =
  cx_binary_package :: "binary_package option"
  cx_build_profiles :: "string set"
  cx_build_options :: "(string \<times> string option) list"
  cx_arch_variable :: "string \<Rightarrow> string res"
  cx_is_concerned :: "string \<Rightarrow> string list \<Rightarrow> bool"

datatype condition_group_match_type = ANY_OF | ALL_OF

datatype manifest_condition =
    NegatedManifestCondition manifest_condition
  | ManifestConditionGroup condition_group_match_type "manifest_condition list"
  | SourceContextArchMatch "string list" bool
  | BinaryPackageContextArchMatch "string list" bool
  | BuildProfileMatch string bool
  | IsCrossBuilding
  | CanExecuteCompiledBinaries
  | RunBuildTimeTests
  | BuildDocs

fun negated :: "manifest_condition \<Rightarrow> manifest_condition" where
  "negated (NegatedManifestCondition c) = c"
| "negated (SourceContextArchMatch spec is_negated) = SourceContextArchMatch spec (\<not> is_negated)"
| "negated (BinaryPackageContextArchMatch spec is_negated) = BinaryPackageContextArchMatch spec (\<not> is_negated)"
| "negated (BuildProfileMatch spec is_negated) = BuildProfileMatch spec (\<not> is_negated)"
| "negated c = NegatedManifestCondition c"

definition manifest_group ::
    "condition_group_match_type \<Rightarrow> manifest_condition list \<Rightarrow> manifest_condition res" where
  "manifest_group match_type conditions =
     (case conditions of
        [] \<Rightarrow> Inl IndexError
      | condition # rest \<Rightarrow>
          (case condition of
             ManifestConditionGroup t cs \<Rightarrow>
               if t = match_type then Inr (ManifestConditionGroup t (cs @ rest))
               else Inr (ManifestConditionGroup match_type conditions)
           | _ \<Rightarrow> Inr (ManifestConditionGroup match_type conditions)))"

definition cross_compiling :: "condition_context \<Rightarrow> bool res" where
  "cross_compiling cx =
     rbind (cx_arch_variable cx ''DEB_BUILD_GNU_TYPE'') (\<lambda>build.
       rmap (\<lambda>host. build \<noteq> host) (cx_arch_variable cx ''DEB_HOST_GNU_TYPE''))"

definition can_run_built_binaries :: "condition_context \<Rightarrow> bool res" where
  "can_run_built_binaries cx =
     rbind (cross_compiling cx) (\<lambda>cross.
       Inr (if \<not> cross then True
            else map_of (cx_build_options cx) ''crossbuildcanrunhostbinaries'' \<noteq> None))"

definition evaluate_source_arch :: "condition_context \<Rightarrow> string list \<Rightarrow> bool \<Rightarrow> bool res" where
  "evaluate_source_arch cx spec is_negated =
     rbind (cx_arch_variable cx ''DEB_HOST_ARCH'') (\<lambda>arch.
       let match = cx_is_concerned cx arch spec in Inr (if is_negated then \<not> match else match))"

definition evaluate_binary_arch :: "condition_context \<Rightarrow> string list \<Rightarrow> bool \<Rightarrow> bool res" where
  "evaluate_binary_arch cx spec is_negated =
     (case cx_binary_package cx of
        None \<Rightarrow> Inl RuntimeErr
      | Some b \<Rightarrow>
          rbind (resolved_architecture (cx_arch_variable cx) (bp_fields b)) (\<lambda>arch.
            let match = cx_is_concerned cx arch spec in Inr (if is_negated then \<not> match else match)))"

definition evaluate_build_profile :: "condition_context \<Rightarrow> string \<Rightarrow> bool \<Rightarrow> bool res" where
  "evaluate_build_profile cx spec is_negated =
     rbind (active_profiles_match spec (cx_build_profiles cx)) (\<lambda>match.
       Inr (if is_negated then \<not> match else match))"

definition run_build_time_tests :: "(string \<times> string option) list \<Rightarrow> bool" where
  "run_build_time_tests options \<longleftrightarrow> map_of options ''nocheck'' = None"

lemmas evaluate_leaf_defs = evaluate_source_arch_def evaluate_binary_arch_def evaluate_build_profile_def

text \<open>\<^verbatim>\<open>any\<close> and \<^verbatim>\<open>all\<close> stop at the first condition that decides.\<close>

fun evaluate :: "condition_context \<Rightarrow> manifest_condition \<Rightarrow> bool res"
  and evaluate_any :: "condition_context \<Rightarrow> manifest_condition list \<Rightarrow> bool res"
  and evaluate_all :: "condition_context \<Rightarrow> manifest_condition list \<Rightarrow> bool res" where
  "evaluate cx (NegatedManifestCondition c) = rmap Not (evaluate cx c)"
| "evaluate cx (ManifestConditionGroup t cs) =
     (case t of ANY_OF \<Rightarrow> evaluate_any cx cs | ALL_OF \<Rightarrow> evaluate_all cx cs)"
| "evaluate cx (SourceContextArchMatch spec is_negated) = evaluate_source_arch cx spec is_negated"
| "evaluate cx (BinaryPackageContextArchMatch spec is_negated) = evaluate_binary_arch cx spec is_negated"
| "evaluate cx (BuildProfileMatch spec is_negated) = evaluate_build_profile cx spec is_negated"
| "evaluate cx IsCrossBuilding = cross_compiling cx"
| "evaluate cx CanExecuteCompiledBinaries = can_run_built_binaries cx"
| "evaluate cx RunBuildTimeTests = Inr (run_build_time_tests (cx_build_options cx))"
| "evaluate cx BuildDocs = Inr (map_of (cx_build_options cx) ''nodocs'' = None)"
| "evaluate_any cx [] = Inr False"
| "evaluate_any cx (c # cs) = rbind (evaluate cx c) (\<lambda>b. if b then Inr True else evaluate_any cx cs)"
| "evaluate_all cx [] = Inr True"
| "evaluate_all cx (c # cs) = rbind (evaluate cx c) (\<lambda>b. if b then evaluate_all cx cs else Inr False)"

text \<open>\<^verbatim>\<open>TransformationRule._evaluate_condition\<close>\<close>

definition evaluate_condition :: "manifest_condition option \<Rightarrow> condition_context \<Rightarrow> bool res" where
  "evaluate_condition condition cx = (case condition of None \<Rightarrow> Inr True | Some c \<Rightarrow> evaluate cx c)"

subsection \<open>Properties\<close>

lemma rmap_Not_Not [simp]: "rmap Not (rmap Not r) = r"
  by (cases r) simp_all

text \<open>The negation of a condition evaluates to the negated value, and raises when the condition raises;
  negating twice has no effect on the value.\<close>

theorem negated_evaluates: "evaluate cx (negated c) = rmap Not (evaluate cx c) \<and> evaluate cx (negated (negated c)) = evaluate cx c"
proof -
  have "rbind m (\<lambda>x. Inr (if \<not> b then \<not> f x else f x)) = rmap Not (rbind m (\<lambda>x. Inr (if b then \<not> f x else f x)))"
    for m :: "bool res" and b and f
    by (cases m; cases b) simp_all
  moreover have "rbind m (\<lambda>x. Inr (if \<not> b then \<not> f x else f x)) = rmap Not (rbind m (\<lambda>x. Inr (if b then \<not> f x else f x)))"
    for m :: "string res" and b and f
    by (cases m; cases b) simp_all
  ultimately have neg: "evaluate cx (negated d) = rmap Not (evaluate cx d)" for d
    by (cases d) (simp_all add: evaluate_leaf_defs Let_def split: option.split)
  show ?thesis unfolding neg by simp
qed

lemma evaluate_any_append:
  "evaluate_any cx (cs @ ds) = rbind (evaluate_any cx cs) (\<lambda>b. if b then Inr True else evaluate_any cx ds)"
proof (induction cs)
  case (Cons c cs)
  then show ?case by (cases "evaluate cx c") auto
qed simp

lemma evaluate_all_append:
  "evaluate_all cx (cs @ ds) = rbind (evaluate_all cx cs) (\<lambda>b. if b then evaluate_all cx ds else Inr False)"
proof (induction cs)
  case (Cons c cs)
  then show ?case by (cases "evaluate cx c") auto
qed simp

text \<open>Joining conditions with \<^verbatim>\<open>any_of\<close> or \<^verbatim>\<open>all_of\<close>, which flattens a group that comes first, evaluates like
  the plain disjunction or conjunction of the conditions, in their order and with the same errors.\<close>

theorem manifest_group_flattens:
  assumes "manifest_group t conditions = Inr g"
  shows "evaluate cx g = (case t of ANY_OF \<Rightarrow> evaluate_any cx conditions | ALL_OF \<Rightarrow> evaluate_all cx conditions)"
proof -
  obtain condition rest where c: "conditions = condition # rest"
    using assms by (cases conditions) (simp_all add: manifest_group_def)
  show ?thesis
  proof (cases "\<exists>cs. condition = ManifestConditionGroup t cs")
    case True
    then obtain cs where cs: "condition = ManifestConditionGroup t cs" by blast
    then have "g = ManifestConditionGroup t (cs @ rest)" using assms c by (simp add: manifest_group_def)
    then show ?thesis using c cs
      by (cases t) (simp_all add: evaluate_any_append evaluate_all_append)
  next
    case False
    then have "g = ManifestConditionGroup t conditions"
      using assms c by (auto simp: manifest_group_def split: manifest_condition.splits if_splits)
    then show ?thesis by simp
  qed
qed

definition demo_context :: condition_context where
  "demo_context =
     \<lparr>cx_binary_package = None, cx_build_profiles = {}, cx_build_options = [(''nodocs'', None)],
      cx_arch_variable = (\<lambda>_. Inl KeyError), cx_is_concerned = (\<lambda>_ _. True)\<rparr>"

lemma manifest_group_flattens_witness:
  "evaluate demo_context (ManifestConditionGroup ANY_OF [BuildDocs, RunBuildTimeTests, IsCrossBuilding]) = Inr True"
proof -
  have "manifest_group ANY_OF [ManifestConditionGroup ANY_OF [BuildDocs, RunBuildTimeTests], IsCrossBuilding]
      = Inr (ManifestConditionGroup ANY_OF [BuildDocs, RunBuildTimeTests, IsCrossBuilding])" by code_simp
  from manifest_group_flattens[OF this, of demo_context] show ?thesis by (simp add: demo_context_def run_build_time_tests_def)
qed

end
