(* ===== verification/Transform.thy ===== *)
theory Transform
  imports PathMatch FsMode Conditions
begin

section \<open>Transformations of the package's file system (\<^verbatim>\<open>transformation_rules.py\<close>)\<close>

text \<open>
  The rules of the manifest that rework the tree of a package: removing, moving, symlinks, directories,
  metadata and the normalisation of modes.  The state is the store of the virtual file system and the
  capabilities recorded for its objects (the metadata \<^verbatim>\<open>DebputyCapability\<close>).
\<close>

datatype replacement_rule = ErrorIfExists | ErrorIfDirectory | AbortOnNonEmptyDirectory | DiscardExisting

record capability =
  cap_capabilities :: string
  cap_mode :: fs_mode
  cap_definition_source :: string

record transform_state =
  t_fs :: fs
  t_caps :: "(nat \<times> capability) list"

text \<open>The attributes that \<^verbatim>\<open>path-metadata\<close> sets.\<close>

record path_attributes =
  pa_owner :: "(string \<times> int) option"
  pa_group :: "(string \<times> int) option"
  pa_mode :: "fs_mode option"
  pa_capabilities :: "string option"
  pa_capability_mode :: "fs_mode option"

datatype transformation_rule =
    RemoveTransformationRule "match_rule list" bool
  | MoveTransformationRule match_rule string bool "manifest_condition option"
  | CreateSymlinkPathTransformationRule string string replacement_rule "manifest_condition option"
  | CreateDirectoryTransformationRule "string list" "(string \<times> int) option" "(string \<times> int) option"
      "fs_mode option" "manifest_condition option"
  | PathMetadataTransformationRule "match_rule list" path_attributes bool string "manifest_condition option"
  | ModeNormalizationTransformationRule "(match_rule \<times> fs_mode) list"

subsection \<open>Directories that have to exist\<close>

definition ensure_is_directory :: "fs \<Rightarrow> string \<Rightarrow> (fs \<times> nat) res" where
  "ensure_is_directory fs path_to_directory =
     rbind (attempt_lookup fs 0 path_to_directory) (\<lambda>(current, missing_parts).
       if \<not> is_dir fs current then Inl TransformationError
       else if missing_parts \<noteq> [] then mkdirs fs current (join ''/'' missing_parts)
       else Inr (fs, current))"

subsection \<open>Remove\<close>

definition remove_match :: "bool \<Rightarrow> nat \<Rightarrow> fs \<Rightarrow> fs res" where
  "remove_match keep_empty_parent_dirs m fs =
     rbind (parent_dir fs m) (\<lambda>parent.
       case parent of
         None \<Rightarrow> Inl TransformationError
       | Some p \<Rightarrow>
           rbind (unlink fs m True) (\<lambda>fs1.
             if keep_empty_parent_dirs then Inr fs1 else prune_if_empty_dir fs1 p))"

text \<open>\<open>matched_any\<close> is set before the loop over the rules, and not again for each of them.\<close>

fun remove_rules :: "bool \<Rightarrow> match_rule list \<Rightarrow> bool \<Rightarrow> fs \<Rightarrow> fs res" where
  "remove_rules keep [] matched_any fs = Inr fs"
| "remove_rules keep (r # rs) matched_any fs =
     rbind (finditer (fs_ops fs) 0 None r) (\<lambda>matches.
       rbind (rfold (remove_match keep) matches fs) (\<lambda>fs1.
         if \<not> matched_any \<and> matches = [] then Inl TransformationError
         else remove_rules keep rs (matched_any \<or> matches \<noteq> []) fs1))"

subsection \<open>Move\<close>

text \<open>\<^verbatim>\<open>existing = m.get(m.name)\<close> looks into the moved object, not into the target.\<close>

fun move_into :: "nat \<Rightarrow> string \<Rightarrow> nat list \<Rightarrow> (string \<times> nat) list \<Rightarrow> fs \<Rightarrow> fs res" where
  "move_into target_dir target_dir_path [] basenames fs = Inr fs"
| "move_into target_dir target_dir_path (m # ms) basenames fs =
     rbind (path fs m) (\<lambda>p.
       let name = n_name (node fs m) in
       if p = target_dir_path then Inl TransformationError
       else (case map_of basenames name of
               Some alt \<Rightarrow> if alt = m then Inl AssertionErr else Inl TransformationError
             | None \<Rightarrow>
                 if (case get_child fs m name of None \<Rightarrow> False | Some existing \<Rightarrow> is_dir fs existing)
                 then Inl TransformationError
                 else rbind (set_parent fs m target_dir)
                        (move_into target_dir target_dir_path ms ((name, m) # basenames))))"

definition move_rename :: "string \<Rightarrow> nat \<Rightarrow> nat \<Rightarrow> nat list \<Rightarrow> fs \<Rightarrow> fs res" where
  "move_rename dest_path target_parent_dir m others fs =
     (if others \<noteq> [] then Inl TransformationError
      else rbind (path fs m) (\<lambda>p.
        if p = dest_path then Inl TransformationError
        else rbind (set_parent fs m target_parent_dir) (\<lambda>fs1. set_name fs1 m (path_tail dest_path))))"

definition move_to_dir :: "nat \<Rightarrow> nat list \<Rightarrow> fs \<Rightarrow> fs res" where
  "move_to_dir target_dir matches fs =
     rbind (path fs target_dir) (\<lambda>target_dir_path. move_into target_dir target_dir_path matches [] fs)"

definition move_to :: "match_rule \<Rightarrow> string \<Rightarrow> bool \<Rightarrow> fs \<Rightarrow> fs res" where
  "move_to match_rule dest_path dest_is_dir fs =
     rbind (finditer (fs_ops fs) 0 None match_rule) (\<lambda>matches.
       case matches of
         [] \<Rightarrow> Inl TransformationError
       | m # ms \<Rightarrow>
           if dest_is_dir then
             rbind (ensure_is_directory fs dest_path) (\<lambda>(fs1, target_dir). move_to_dir target_dir matches fs1)
           else
             rbind (ensure_is_directory fs (path_head dest_path)) (\<lambda>(fs1, target_parent_dir).
               case get_child fs1 target_parent_dir (path_tail dest_path) of
                 None \<Rightarrow> move_rename dest_path target_parent_dir m ms fs1
               | Some target_dir \<Rightarrow>
                   if is_dir fs1 target_dir then move_to_dir target_dir matches fs1
                   else move_rename dest_path target_parent_dir m ms fs1))"

subsection \<open>Symlinks and directories\<close>

definition handle_existing_path :: "replacement_rule \<Rightarrow> fs \<Rightarrow> nat \<Rightarrow> fs res" where
  "handle_existing_path rule fs existing =
     (let unlink_it = (case rule of
              AbortOnNonEmptyDirectory \<Rightarrow> \<not> is_dir fs existing \<or> iterdir fs existing = []
            | DiscardExisting \<Rightarrow> True
            | ErrorIfDirectory \<Rightarrow> \<not> is_dir fs existing
            | ErrorIfExists \<Rightarrow> False)
      in if unlink_it then unlink fs existing True else Inl TransformationError)"

definition create_symlink :: "string \<Rightarrow> string \<Rightarrow> replacement_rule \<Rightarrow> fs \<Rightarrow> fs res" where
  "create_symlink link_target link_dest rule fs =
     rbind (ensure_is_directory fs (path_head link_dest)) (\<lambda>(fs1, dir_path).
       let link_name = path_tail link_dest in
       rbind (case get_child fs1 dir_path link_name of
                None \<Rightarrow> Inr fs1
              | Some existing \<Rightarrow> handle_existing_path rule fs1 existing) (\<lambda>fs2.
         rmap fst (add_symlink fs2 dir_path link_name link_target None)))"

definition create_directory ::
    "(string \<times> int) option \<Rightarrow> (string \<times> int) option \<Rightarrow> fs_mode option \<Rightarrow> string \<Rightarrow> fs \<Rightarrow> fs res" where
  "create_directory owner grp md directory fs =
     rbind (ensure_is_directory fs directory) (\<lambda>(fs1, dir_path).
       rbind (case md of
                None \<Rightarrow> Inr fs1
              | Some m \<Rightarrow> set_mode fs1 dir_path (compute_mode m (n_mode (node fs1 dir_path)) (is_dir fs1 dir_path)))
         (\<lambda>fs2. chown fs2 dir_path owner grp))"

subsection \<open>Metadata\<close>

definition new_path_attributes ::
    "(string \<times> int) option \<Rightarrow> (string \<times> int) option \<Rightarrow> fs_mode option \<Rightarrow> string option \<Rightarrow> fs_mode option \<Rightarrow>
     path_attributes res" where
  "new_path_attributes owner grp md caps capability_mode =
     (if (caps = None) \<noteq> (capability_mode = None) then Inl ValueError
      else Inr \<lparr>pa_owner = owner, pa_group = grp, pa_mode = md, pa_capabilities = caps,
                pa_capability_mode = capability_mode\<rparr>)"

definition apply_owner_and_mode ::
    "path_attributes \<Rightarrow> string \<Rightarrow> nat \<Rightarrow> transform_state \<Rightarrow> transform_state res" where
  "apply_owner_and_mode attr definition_source i st =
     rbind (if pa_owner attr \<noteq> None \<or> pa_group attr \<noteq> None then chown (t_fs st) i (pa_owner attr) (pa_group attr)
            else Inr (t_fs st)) (\<lambda>fs1.
       rbind (case pa_mode attr of
                None \<Rightarrow> Inr fs1
              | Some m \<Rightarrow> set_mode fs1 i (compute_mode m (n_mode (node fs1 i)) (is_dir fs1 i))) (\<lambda>fs2.
         case pa_capabilities attr of
           None \<Rightarrow> Inr (st\<lparr>t_fs := fs2\<rparr>)
         | Some c \<Rightarrow>
             if \<not> is_file fs2 i then Inr (st\<lparr>t_fs := fs2\<rparr>)
             else (case pa_capability_mode attr of
                     None \<Rightarrow> Inl AssertionErr
                   | Some cm \<Rightarrow>
                       Inr (st\<lparr>t_fs := fs2,
                               t_caps := AList.update i \<lparr>cap_capabilities = c, cap_mode = cm,
                                                        cap_definition_source = definition_source\<rparr> (t_caps st)\<rparr>))))"

definition needs_file_match :: "path_attributes \<Rightarrow> bool" where
  "needs_file_match attr \<longleftrightarrow> pa_owner attr = None \<and> pa_group attr = None \<and> pa_mode attr = None"

text \<open>The loop over the matches of one rule: the flag \<^verbatim>\<open>match_ok\<close> and the directories to recurse into.\<close>

fun metadata_matches ::
    "path_attributes \<Rightarrow> bool \<Rightarrow> string \<Rightarrow> nat list \<Rightarrow> bool \<Rightarrow> nat list \<Rightarrow> transform_state \<Rightarrow>
     (bool \<times> nat list \<times> transform_state) res" where
  "metadata_matches attr recursive src [] match_ok d st = Inr (match_ok, d, st)"
| "metadata_matches attr recursive src (i # is) match_ok d st =
     (let fs = t_fs st in
      if is_symlink fs i then metadata_matches attr recursive src is match_ok d st
      else
        (let ok1 = (match_ok \<or> is_file fs i \<or> \<not> needs_file_match attr) in
         rbind (if is_dir fs i \<and> \<not> ok1 \<and> needs_file_match attr \<and> recursive
                then rmap (list_ex (is_file fs)) (returns (all_paths fs i)) else Inr ok1) (\<lambda>ok2.
           rbind (apply_owner_and_mode attr src i st) (\<lambda>st1.
             metadata_matches attr recursive src is ok2
               (if is_dir (t_fs st1) i \<and> recursive then d @ [i] else d) st1))))"

fun metadata_rules ::
    "path_attributes \<Rightarrow> bool \<Rightarrow> string \<Rightarrow> match_rule list \<Rightarrow> nat list \<Rightarrow> transform_state \<Rightarrow>
     (nat list \<times> transform_state) res" where
  "metadata_rules attr recursive src [] d st = Inr (d, st)"
| "metadata_rules attr recursive src (r # rs) d st =
     rbind (finditer (fs_ops (t_fs st)) 0 None r) (\<lambda>matches.
       rbind (metadata_matches attr recursive src matches False d st) (\<lambda>(match_ok, d1, st1).
         if \<not> match_ok then Inl TransformationError else metadata_rules attr recursive src rs d1 st1))"

definition metadata_beneath ::
    "path_attributes \<Rightarrow> string \<Rightarrow> nat \<Rightarrow> transform_state \<Rightarrow> transform_state res" where
  "metadata_beneath attr src recurse_dir st =
     rbind (returns (all_paths (t_fs st) recurse_dir)) (\<lambda>is.
       rfold (\<lambda>i st. if is_symlink (t_fs st) i then Inr st else apply_owner_and_mode attr src i st) is st)"

definition path_metadata ::
    "path_attributes \<Rightarrow> bool \<Rightarrow> string \<Rightarrow> match_rule list \<Rightarrow> transform_state \<Rightarrow> transform_state res" where
  "path_metadata attr recursive src rules st =
     rbind (metadata_rules attr recursive src rules [] st) (\<lambda>(d, st1). rfold (metadata_beneath attr src) d st1)"

subsection \<open>Normalising modes\<close>

fun normalize_matches :: "fs_mode \<Rightarrow> nat list \<Rightarrow> string list \<Rightarrow> fs \<Rightarrow> (string list \<times> fs) res" where
  "normalize_matches md [] seen fs = Inr (seen, fs)"
| "normalize_matches md (i # is) seen fs =
     (if is_symlink fs i then normalize_matches md is seen fs
      else rbind (path fs i) (\<lambda>p.
        if p \<in> set seen then normalize_matches md is seen fs
        else rbind (set_mode fs i (compute_mode md (n_mode (node fs i)) (is_dir fs i)))
               (normalize_matches md is (p # seen))))"

fun normalize_rules :: "(match_rule \<times> fs_mode) list \<Rightarrow> string list \<Rightarrow> fs \<Rightarrow> fs res" where
  "normalize_rules [] seen fs = Inr fs"
| "normalize_rules ((r, md) # rs) seen fs =
     rbind (finditer (fs_ops fs) 0 (Some (\<lambda>i. case path fs i of Inl _ \<Rightarrow> False | Inr p \<Rightarrow> p \<in> set seen)) r) (\<lambda>matches.
       rbind (normalize_matches md matches seen fs) (\<lambda>(seen1, fs1). normalize_rules rs seen1 fs1))"

subsection \<open>Running a rule\<close>

definition on_fs :: "(fs \<Rightarrow> fs res) \<Rightarrow> transform_state \<Rightarrow> transform_state res" where
  "on_fs f st = rmap (\<lambda>fs. st\<lparr>t_fs := fs\<rparr>) (f (t_fs st))"

definition when_condition ::
    "manifest_condition option \<Rightarrow> condition_context \<Rightarrow> (transform_state \<Rightarrow> transform_state res) \<Rightarrow>
     transform_state \<Rightarrow> transform_state res" where
  "when_condition condition cx run st =
     rbind (evaluate_condition condition cx) (\<lambda>b. if b then run st else Inr st)"

fun transform_file_system ::
    "condition_context \<Rightarrow> transformation_rule \<Rightarrow> transform_state \<Rightarrow> transform_state res" where
  "transform_file_system cx (RemoveTransformationRule rules keep) st = on_fs (remove_rules keep rules False) st"
| "transform_file_system cx (MoveTransformationRule r dest dest_is_dir c) st =
     when_condition c cx (on_fs (move_to r dest dest_is_dir)) st"
| "transform_file_system cx (CreateSymlinkPathTransformationRule target dest rule c) st =
     when_condition c cx (on_fs (create_symlink target dest rule)) st"
| "transform_file_system cx (CreateDirectoryTransformationRule dirs owner grp md c) st =
     when_condition c cx (on_fs (rfold (create_directory owner grp md) dirs)) st"
| "transform_file_system cx (PathMetadataTransformationRule rules attr recursive src c) st =
     when_condition c cx (path_metadata attr recursive src rules) st"
| "transform_file_system cx (ModeNormalizationTransformationRule normalizations) st =
     on_fs (normalize_rules normalizations []) st"

end
