(* ===== verification/TransformProps.thy ===== *)
theory TransformProps
  imports Transform
begin

section \<open>What the transformations do to the tree\<close>

text \<open>
  Removing detaches what the rules match with everything beneath it and nothing else, the other rules keep
  the store well formed, a created symlink and a renamed object are where the rule says, and the mode
  normalisation computes at most one new mode for each object.
\<close>

subsection \<open>Steps that only detach\<close>

definition shrinks :: "fs \<Rightarrow> fs \<Rightarrow> bool" where
  "shrinks fs fs' \<longleftrightarrow>
     wf_fs fs'
     \<and> (\<forall>j. is_detached_opt fs' j = Some False \<longrightarrow>
          is_detached_opt fs j = Some False \<and> n_parent (node fs' j) = n_parent (node fs j)
          \<and> is_root fs' j = is_root fs j)"

lemma shrinks_refl: "wf_fs fs \<Longrightarrow> shrinks fs fs"
  by (simp add: shrinks_def)

lemma shrinks_trans: "shrinks a b \<Longrightarrow> shrinks b c \<Longrightarrow> shrinks a c"
  by (simp add: shrinks_def)

lemma wf_det_cases:
  assumes "wf_fs fs"
  obtains "is_detached_opt fs j = Some False" | "is_detached_opt fs j = Some True"
  using wf_det[OF assms, of j] by (cases "is_detached_opt fs j") auto

lemma det_Some: "wf_fs fs \<Longrightarrow> \<exists>b. is_detached_opt fs j = Some b"
  using wf_det[of fs j] by auto

lemma below_detached:
  "below fs i j \<Longrightarrow> is_detached_opt fs i = Some b \<Longrightarrow> is_detached_opt fs j = Some b"
  unfolding below_def
proof (induction rule: converse_rtrancl_induct)
  case (step j k)
  then show ?case using det_child by (auto simp: parent_rel_def)
qed

lemma shrinks_below:
  assumes "shrinks fs fs'" and "is_detached_opt fs' j = Some False"
  shows "below fs' i j \<longleftrightarrow> below fs i j"
proof -
  have "b = False \<longrightarrow> (below fs' i j \<longleftrightarrow> below fs i j)" if "is_detached_opt fs' j = Some b" for b
    using that
  proof (induction rule: det_induct)
    case (root j)
    then have "is_root fs j" using assms(1) det_root unfolding shrinks_def by blast
    with root show ?case using below_top by blast
  next
    case (child j p b)
    show ?case
    proof
      assume b: "b = False"
      then have "is_detached_opt fs' j = Some False" using child det_child by simp
      then have "n_parent (node fs j) = Some p" "\<not> is_root fs j" using assms(1) child unfolding shrinks_def by metis+
      with child b show "below fs' i j \<longleftrightarrow> below fs i j" using below_child by blast
    qed
  qed simp
  with assms(2) show ?thesis by blast
qed

lemma unlink_exact:
  assumes wf: "wf_fs fs" and ok: "unlink fs i r = Inr fs'"
  shows "shrinks fs fs'
    \<and> (\<forall>j. is_detached_opt fs' j = Some False \<longleftrightarrow> is_detached_opt fs j = Some False \<and> \<not> below fs i j)"
proof (cases rule: wf_det_cases[OF wf, of i])
  case 1
  show ?thesis
  proof (rule unlink_ok[OF wf 1 ok])
    fix p
    assume d: "detaches fs fs' i p" and fs': "fs_ok fs fs'" and i0: "i \<noteq> 0"
    have rp: "reparented fs fs' i" using d by (simp add: reparented_def detaches_def is_root_def)
    have ri: "\<not> is_root fs' i" using wf_root[of fs' i] fs' i0 by (simp add: fs_ok_def)
    have pi: "n_parent (node fs' i) = None" using d by (simp add: detaches_def)
    have d': "is_detached_opt fs' j = Some (b \<or> below fs i j)" if "is_detached_opt fs j = Some b" for j b
      using det_below[OF rp that] det_not_below[OF rp that] det_orphan[OF ri pi]
      by (cases "below fs i j"; cases b) simp_all
    have e: "is_detached_opt fs' j = Some False \<longleftrightarrow> is_detached_opt fs j = Some False \<and> \<not> below fs i j" for j
      using det_Some[OF wf, of j] d' by auto
    have "n_parent (node fs' j) = n_parent (node fs j) \<and> is_root fs' j = is_root fs j"
      if "is_detached_opt fs' j = Some False" for j
      using that e[of j] reparentedD[OF rp] by (cases "j = i") auto
    with e fs' show ?thesis by (simp add: shrinks_def fs_ok_def)
  qed
next
  case 2
  then have "\<not> is_root fs i" using det_root by (cases "is_root fs i") auto
  with 2 ok have "fs' = fs" by (simp add: unlink_def is_detached_simp)
  moreover have "below fs i j \<Longrightarrow> is_detached_opt fs j \<noteq> Some False" for j
    using below_detached 2 by fastforce
  ultimately show ?thesis using wf shrinks_refl by blast
qed

text \<open>The ways a run of \<^verbatim>\<open>prune_if_empty_dir\<close> ends: at the root, at a directory with entries, or above a directory
  that it takes away.\<close>

inductive pruned :: "fs \<Rightarrow> nat \<Rightarrow> fs \<Rightarrow> bool" where
  at_root: "is_root fs i \<Longrightarrow> pruned fs i fs"
| has_entries: "\<not> is_root fs i \<Longrightarrow> iterdir fs i \<noteq> [] \<Longrightarrow> pruned fs i fs"
| goes_up: "\<not> is_root fs i \<Longrightarrow> iterdir fs i = [] \<Longrightarrow> n_parent (node fs i) = Some p \<Longrightarrow>
    unlink fs i False = Inr fs1 \<Longrightarrow> pruned fs1 p fs' \<Longrightarrow> pruned fs i fs'"

lemma prune_opt_pruned: "prune_opt fs i = Some r \<Longrightarrow> \<forall>fs'. r = Inr fs' \<longrightarrow> pruned fs i fs'"
proof (rule prune_opt.raw_induct[where P = "\<lambda>fs i r. \<forall>fs'. r = Inr fs' \<longrightarrow> pruned fs i fs'"], intro impI allI)
  fix f :: "fs \<Rightarrow> nat \<Rightarrow> fs res option" and fs i r fs'
  assume IH: "\<And>fs i r. f fs i = Some r \<Longrightarrow> \<forall>fs'. r = Inr fs' \<longrightarrow> pruned fs i fs'"
    and eq: "(if is_root fs i then Some (Inr fs)
      else (case rw_check fs i of
              Inl e \<Rightarrow> Some (Inl e)
            | Inr _ \<Rightarrow>
                if \<not> is_dir fs i then Some (Inl TypeErr)
                else if iterdir fs i \<noteq> [] then Some (Inr fs)
                else (case parent_dir fs i of
                        Inl e \<Rightarrow> Some (Inl e)
                      | Inr None \<Rightarrow> Some (Inl ValueError)
                      | Inr (Some p) \<Rightarrow>
                          (case unlink fs i False of
                             Inl e \<Rightarrow> Some (Inl e)
                           | Inr fs1 \<Rightarrow> f fs1 p)))) = Some r"
    and r: "r = Inr fs'"
  consider (root) "is_root fs i" "fs' = fs" | (full) "\<not> is_root fs i" "iterdir fs i \<noteq> []" "fs' = fs"
    | (up) p fs1 where "\<not> is_root fs i" "iterdir fs i = []" "parent_dir fs i = Inr (Some p)"
        "unlink fs i False = Inr fs1" "f fs1 p = Some (Inr fs')"
    using eq r by (auto split: if_splits sum.splits option.splits)
  then show "pruned fs i fs'"
  proof cases
    case up
    then have "n_parent (node fs i) = Some p" by (auto simp: parent_dir_def split: option.splits if_splits)
    with up IH[OF up(5)] show ?thesis by (blast intro: goes_up)
  qed (auto intro: pruned.intros)
qed

lemma prune_pruned: "prune_if_empty_dir fs i = Inr fs' \<Longrightarrow> pruned fs i fs'"
  using prune_opt_pruned[of fs i "Inr fs'"]
  by (auto simp: prune_if_empty_dir_def returns_def res_simps split: option.splits)

lemma pruned_shrinks: "pruned fs i fs' \<Longrightarrow> wf_fs fs \<Longrightarrow> shrinks fs fs'"
proof (induction rule: pruned.induct)
  case (goes_up fs i p fs1 fs')
  have "shrinks fs fs1" using unlink_exact[OF goes_up.prems goes_up.hyps(4)] by blast
  then show ?case using goes_up.IH shrinks_trans by (auto simp: shrinks_def)
qed (simp_all add: shrinks_refl)

lemma prune_shrinks: "wf_fs fs \<Longrightarrow> prune_if_empty_dir fs i = Inr fs' \<Longrightarrow> shrinks fs fs'"
  using prune_pruned pruned_shrinks by blast

lemma below_trans: "below fs i j \<Longrightarrow> below fs j k \<Longrightarrow> below fs i k"
  unfolding below_def by (rule rtrancl_trans)

text \<open>Two objects above the same one are one above the other.\<close>

lemma below_comparable:
  assumes "below fs i k" and "below fs j k"
  shows "below fs i j \<or> below fs j i"
proof -
  have sv: "single_valued (parent_rel fs)" by (auto simp: single_valued_def parent_rel_def)
  from single_valued_confluent[OF sv assms[unfolded below_def]] show ?thesis unfolding below_def by (rule disj_commute[THEN iffD1])
qed

text \<open>A directory is \<open>emptied\<close> when all the entries it had are gone from the tree.\<close>

abbreviation in_tree :: "fs \<Rightarrow> nat \<Rightarrow> bool" where
  "in_tree fs j \<equiv> is_detached_opt fs j = Some False"

definition emptied :: "fs \<Rightarrow> fs \<Rightarrow> nat \<Rightarrow> bool" where
  "emptied fs fs' j \<longleftrightarrow> (\<forall>c \<in> set (iterdir fs j). is_detached fs' c \<noteq> Inr False)"

lemma iterdir_parent: "wf_fs fs \<Longrightarrow> c \<in> set (iterdir fs j) \<longleftrightarrow> n_parent (node fs c) = Some j"
  using wf_kid[of fs _ c j] wf_parent[of fs c j] by (force simp: iterdir_kids dest: map_of_SomeD)

lemma entry_in_tree:
  assumes "wf_fs fs" and "n_parent (node fs c) = Some j"
  shows "in_tree fs c \<longleftrightarrow> in_tree fs j" and "below fs k c \<longleftrightarrow> c = k \<or> below fs k j"
proof -
  have nr: "\<not> is_root fs c" using assms wf_root[of fs c] wf_root_parent[of fs] by force
  show "in_tree fs c \<longleftrightarrow> in_tree fs j" using det_child[OF nr assms(2)] by simp
  show "below fs k c \<longleftrightarrow> c = k \<or> below fs k j" using below_child[OF nr assms(2)] .
qed

lemma emptied_later:
  assumes "wf_fs fs" and "shrinks fs fs1" and "shrinks fs1 fs'" and "in_tree fs1 j"
  shows "emptied fs fs' j \<longleftrightarrow> emptied fs1 fs' j"
proof -
  have wf1: "wf_fs fs1" using assms(2) by (simp add: shrinks_def)
  have "c \<in> set (iterdir fs j) \<longleftrightarrow> c \<in> set (iterdir fs1 j)" if "in_tree fs1 c" for c
    using that assms(2) by (simp add: shrinks_def iterdir_parent[OF assms(1)] iterdir_parent[OF wf1])
  moreover have "in_tree fs1 c" if "c \<in> set (iterdir fs1 j)" for c
    using that entry_in_tree(1)[OF wf1] assms(4) by (simp add: iterdir_parent[OF wf1])
  moreover have "in_tree fs1 c" if "in_tree fs' c" for c using that assms(3) by (simp add: shrinks_def)
  ultimately show ?thesis unfolding emptied_def is_detached_Inr by blast
qed

lemma not_emptied:
  assumes "wf_fs fs" and "in_tree fs j" and "c \<in> set (iterdir fs j)"
  shows "\<not> emptied fs fs j"
proof -
  have "in_tree fs c" using assms entry_in_tree(1) iterdir_parent by blast
  with assms(3) show ?thesis by (auto simp: emptied_def is_detached_Inr)
qed

text \<open>Pruning takes away the directories at and above the given one that have no entries left, except the root.\<close>

lemma pruned_exact:
  assumes "pruned fs i fs'" and "wf_fs fs" and "in_tree fs i" and "in_tree fs j"
  shows "in_tree fs' j \<longleftrightarrow> \<not> (j \<noteq> 0 \<and> below fs j i \<and> emptied fs fs' j)"
  using assms
proof (induction arbitrary: j rule: pruned.induct)
  case (at_root fs i)
  then show ?case using wf_root below_top by metis
next
  case (has_entries fs i)
  have "\<not> emptied fs fs j" if "below fs j i"
  proof -
    have "iterdir fs j \<noteq> []"
      using that below_via_child[OF has_entries(3), of j i] has_entries(2) by auto
    then have "last (iterdir fs j) \<in> set (iterdir fs j)" by (rule last_in_set)
    with not_emptied[OF has_entries(3,5)] show ?thesis .
  qed
  with has_entries(5) show ?case by blast
next
  case (goes_up fs i p fs1 fs')
  note wf = goes_up.prems(1) and p = goes_up.hyps(3) and e = unlink_exact[OF goes_up.prems(1) goes_up.hyps(4)]
  then have s: "shrinks fs fs1" and wf1: "wf_fs fs1" by (simp_all add: shrinks_def)
  have s': "shrinks fs1 fs'" using pruned_shrinks[OF goes_up.hyps(5) wf1] .
  have only: "below fs i k \<longleftrightarrow> k = i" for k using below_via_child[OF wf, of i k] goes_up.hyps(2) by simp
  have pi: "p \<noteq> i" using wf_not_below_parent[OF wf p] by blast
  have p1: "in_tree fs1 p" using e entry_in_tree(1)[OF wf p] goes_up.prems(2) only pi by blast
  show ?case
  proof (cases "j = i")
    case True
    have "\<not> in_tree fs' i" using s' e only unfolding shrinks_def by blast
    moreover have "emptied fs fs' i" using goes_up.hyps(2) by (simp add: emptied_def)
    moreover have "i \<noteq> 0" using wf_root[OF wf] goes_up.hyps(1) by blast
    ultimately show ?thesis using True by simp
  next
    case False
    then have j1: "in_tree fs1 j" using goes_up.prems(3) e only by blast
    have "below fs1 j p \<longleftrightarrow> below fs j i"
      using shrinks_below[OF s p1, of j] entry_in_tree(2)[OF wf p, of j] False by simp
    with goes_up.IH[OF wf1 p1 j1] emptied_later[OF wf s s' j1] show ?thesis by simp
  qed
qed

subsection \<open>Removing\<close>

lemma pruned_detached: "pruned fs i fs' \<Longrightarrow> wf_fs fs \<Longrightarrow> \<not> in_tree fs i \<Longrightarrow> in_tree fs j \<Longrightarrow> in_tree fs' j"
proof (induction rule: pruned.induct)
  case (goes_up fs i p fs1 fs')
  note e = unlink_exact[OF goes_up.prems(1) goes_up.hyps(4)]
  have "\<not> in_tree fs p" using entry_in_tree(1)[OF goes_up.prems(1) goes_up.hyps(3)] goes_up.prems(2) by blast
  moreover have "\<not> below fs i j"
    using below_detached goes_up.prems(2,3) wf_det[OF goes_up.prems(1), of i] by (metis option.exhaust)
  ultimately show ?case using goes_up.IH e goes_up.prems(3) unfolding shrinks_def by blast
qed

text \<open>One match: what is below it goes, and the directories above it that are left without entries.\<close>

lemma remove_match_exact:
  assumes wf: "wf_fs fs" and ok: "remove_match keep m fs = Inr fs'"
  shows "shrinks fs fs'"
    and "in_tree fs j \<Longrightarrow> in_tree fs' j \<longleftrightarrow>
      \<not> below fs m j \<and> \<not> (\<not> keep \<and> j \<noteq> 0 \<and> below fs j m \<and> emptied fs fs' j)"
proof -
  obtain p fs1 where "parent_dir fs m = Inr (Some p)" and u: "unlink fs m True = Inr fs1"
    and f: "(if keep then Inr fs1 else prune_if_empty_dir fs1 p) = Inr fs'"
    using ok by (auto simp: remove_match_def res_simps split: option.splits)
  then have p: "n_parent (node fs m) = Some p" by (auto simp: parent_dir_def split: option.splits if_splits)
  note e = unlink_exact[OF wf u]
  then have s: "shrinks fs fs1" and wf1: "wf_fs fs1" by (simp_all add: shrinks_def)
  have pr: "keep \<and> fs' = fs1 \<or> \<not> keep \<and> pruned fs1 p fs'" using f prune_pruned by (cases keep) auto
  then have s': "shrinks fs1 fs'" using pruned_shrinks[OF _ wf1] shrinks_refl[OF wf1] by blast
  show "shrinks fs fs'" using s s' by (rule shrinks_trans)
  assume j: "in_tree fs j"
  show "in_tree fs' j \<longleftrightarrow> \<not> below fs m j \<and> \<not> (\<not> keep \<and> j \<noteq> 0 \<and> below fs j m \<and> emptied fs fs' j)"
  proof (cases "below fs m j \<or> keep")
    case True
    then show ?thesis using e s' pr j unfolding shrinks_def by blast
  next
    case False
    then have j1: "in_tree fs1 j" and pr: "pruned fs1 p fs'" and mj: "m \<noteq> j" using e j pr by auto
    show ?thesis
    proof (cases "in_tree fs m")
      case True
      have "\<not> below fs m p" using wf_not_below_parent[OF wf p] by blast
      then have p1: "in_tree fs1 p" using e entry_in_tree(1)[OF wf p] True by blast
      have "below fs1 j p \<longleftrightarrow> below fs j m" using shrinks_below[OF s p1, of j] entry_in_tree(2)[OF wf p, of j] mj by simp
      with pruned_exact[OF pr wf1 p1 j1] emptied_later[OF wf s s' j1] False show ?thesis by simp
    next
      case m: False
      then have "\<not> in_tree fs1 p" using s entry_in_tree(1)[OF wf p] unfolding shrinks_def by blast
      then have "in_tree fs' j" using pruned_detached[OF pr wf1 _ j1] by blast
      moreover have "\<not> below fs j m" using below_detached[OF _ j] m by blast
      ultimately show ?thesis using False by blast
    qed
  qed
qed

lemma remove_matches_exact:
  assumes "wf_fs fs" and "rfold (remove_match keep) ms fs = Inr fs'"
  shows "shrinks fs fs' \<and> (\<forall>j. in_tree fs j \<longrightarrow> (in_tree fs' j \<longleftrightarrow>
      (\<forall>m \<in> set ms. \<not> below fs m j)
      \<and> \<not> (\<not> keep \<and> j \<noteq> 0 \<and> (\<exists>m \<in> set ms. below fs j m) \<and> emptied fs fs' j)))"
  using assms
proof (induction ms arbitrary: fs)
  case (Cons m ms)
  then obtain fs1 where m: "remove_match keep m fs = Inr fs1" and ms: "rfold (remove_match keep) ms fs1 = Inr fs'"
    by (auto simp: res_simps)
  note wf = Cons.prems(1) and h = remove_match_exact[OF Cons.prems(1) m]
  then have wf1: "wf_fs fs1" by (simp add: shrinks_def)
  from Cons.IH[OF wf1 ms] have t: "shrinks fs1 fs'"
    and t': "\<And>j. in_tree fs1 j \<Longrightarrow> in_tree fs' j \<longleftrightarrow> (\<forall>n \<in> set ms. \<not> below fs1 n j)
      \<and> \<not> (\<not> keep \<and> j \<noteq> 0 \<and> (\<exists>n \<in> set ms. below fs1 j n) \<and> emptied fs1 fs' j)" by blast+
  have st: "shrinks fs fs'" using h(1) t by (rule shrinks_trans)
  note b = shrinks_below[OF h(1)] and later = emptied_later[OF wf h(1) t]
  have "in_tree fs' j \<longleftrightarrow> (\<forall>n \<in> set (m # ms). \<not> below fs n j)
      \<and> \<not> (\<not> keep \<and> j \<noteq> 0 \<and> (\<exists>n \<in> set (m # ms). below fs j n) \<and> emptied fs fs' j)" (is "?L \<longleftrightarrow> ?R")
    if j: "in_tree fs j" for j
  proof
    assume "?L"
    then have j1: "in_tree fs1 j" using t by (simp add: shrinks_def)
    have nm: "\<not> below fs n j" if "n \<in> set (m # ms)" for n
      using that h(2)[OF j] j1 t'[OF j1] \<open>?L\<close> b[OF j1, of n] by auto
    moreover have False if k: "\<not> keep" "j \<noteq> 0" and n: "n \<in> set (m # ms)" "below fs j n" and e: "emptied fs fs' j" for n
    proof -
      note e1 = e[unfolded later[OF j1]]
      have no: "\<not> below fs1 j n" if "n \<in> set ms" for n using t'[OF j1] \<open>?L\<close> k e1 that by blast
      have "below fs j m"
      proof (rule ccontr)
        assume jm: "\<not> below fs j m"
        then have ms: "n \<in> set ms" using n by auto
        have n0: "in_tree fs n" using n(2) j by (rule below_detached)
        have "in_tree fs1 n"
        proof (rule ccontr)
          assume "\<not> in_tree fs1 n"
          then have "below fs m n \<or> below fs n m" using h(2)[OF n0] by blast
          with n(2) jm nm[of m] show False using below_comparable below_trans by (metis list.set_intros(1))
        qed
        with b[of n j] n(2) no[OF ms] show False by blast
      qed
      then have "\<not> emptied fs fs1 j" using h(2)[OF j] j1 k by blast
      then obtain c where c: "c \<in> set (iterdir fs j)" "in_tree fs1 c" by (auto simp: emptied_def is_detached_Inr)
      then have pc: "n_parent (node fs1 c) = Some j"
        using h(1) by (simp add: iterdir_parent[OF wf] shrinks_def)
      have "\<not> in_tree fs' c" using e c(1) by (auto simp: emptied_def is_detached_Inr)
      then consider n where "n \<in> set ms" "below fs1 n c" | n where "n \<in> set ms" "below fs1 c n" using t'[OF c(2)] by blast
      then show False
      proof cases
        case 1
        then have "c = n \<or> below fs1 n j" using entry_in_tree(2)[OF wf1 pc] by blast
        moreover have "below fs1 j c" using entry_in_tree(2)[OF wf1 pc] by simp
        ultimately show False using no 1 nm b[OF j1] by auto
      next
        case 2
        have "below fs1 j c" using entry_in_tree(2)[OF wf1 pc] by simp
        with 2 no show False using below_trans by blast
      qed
    qed
    ultimately show "?R" by blast
  next
    assume r: "?R"
    have j1: "in_tree fs1 j"
    proof (rule ccontr)
      assume n: "\<not> in_tree fs1 j"
      then have k: "\<not> keep" "j \<noteq> 0" "below fs j m" "emptied fs fs1 j" using h(2)[OF j] r by auto
      have "emptied fs fs' j" using k(4) t by (auto simp: emptied_def is_detached_Inr shrinks_def)
      with k r show False by auto
    qed
    have "\<not> below fs1 n j" if "n \<in> set ms" for n using r that b[OF j1, of n] by auto
    moreover have "below fs j n" if "below fs1 j n" for n
      using b[OF below_detached[OF that j1]] that by blast
    ultimately show "?L" using t'[OF j1] r later[OF j1] by auto
  qed
  with st show ?case by blast
qed (simp add: shrinks_refl)

text \<open>C16: a successful \<^verbatim>\<open>remove\<close> of one match rule had at least one match, and afterwards the tree is well formed and
  holds exactly the objects it held before that are neither matched nor beneath a match; unless empty parent
  directories are kept, it also loses exactly the directories above a match, other than the root, whose entries
  are all gone.\<close>

theorem remove_exact:
  assumes wf: "wf_fs (t_fs st)"
    and ok: "transform_file_system cx (RemoveTransformationRule [r] keep) st = Inr st'"
  shows "\<exists>ms. finditer (fs_ops (t_fs st)) 0 None r = Inr ms \<and> ms \<noteq> [] \<and> wf_fs (t_fs st')
    \<and> (\<forall>j. is_detached (t_fs st') j = Inr False \<longleftrightarrow>
         is_detached (t_fs st) j = Inr False \<and> (\<forall>m \<in> set ms. \<not> below (t_fs st) m j)
         \<and> \<not> (\<not> keep \<and> j \<noteq> 0 \<and> (\<exists>m \<in> set ms. below (t_fs st) j m) \<and> emptied (t_fs st) (t_fs st') j))"
proof -
  obtain ms where ms: "finditer (fs_ops (t_fs st)) 0 None r = Inr ms" "ms \<noteq> []"
    and f: "rfold (remove_match keep) ms (t_fs st) = Inr (t_fs st')"
    using ok by (auto simp: on_fs_def res_simps split: if_splits)
  note e = remove_matches_exact[OF wf f]
  then have "wf_fs (t_fs st')" by (simp add: shrinks_def)
  moreover have "in_tree (t_fs st) j" if "in_tree (t_fs st') j" for j using that e by (simp add: shrinks_def)
  ultimately show ?thesis using ms e unfolding is_detached_Inr by blast
qed

definition demo_state :: transform_state where
  "demo_state = \<lparr>t_fs = demo_fs, t_caps = []\<rparr>"

lemma demo_context_none: "evaluate_condition None cx = Inr True"
  by (simp add: evaluate_condition_def)

lemma remove_exact_witness:
  "\<exists>ms st'. transform_file_system demo_context (RemoveTransformationRule [ExactFileSystemPath ''./usr/share''] False) demo_state
      = Inr st' \<and> finditer (fs_ops (t_fs demo_state)) 0 None (ExactFileSystemPath ''./usr/share'') = Inr ms \<and> ms \<noteq> []
      \<and> wf_fs (t_fs st')"
proof -
  let ?rule = "RemoveTransformationRule [ExactFileSystemPath ''./usr/share''] False"
  have ok: "transform_file_system demo_context ?rule demo_state
      = Inr (projr (transform_file_system demo_context ?rule demo_state))" by code_simp
  have "wf_fs (t_fs demo_state)" by (simp add: demo_state_def demo_fs_wf)
  from remove_exact[OF this ok] ok show ?thesis by blast
qed

subsection \<open>Steps that keep objects attached\<close>

lemma mkdir_parts_keeps:
  "wf_fs fs \<Longrightarrow> is_detached_opt fs i = Some False \<Longrightarrow> mkdir_parts fs i ps = Inr (fs', c) \<Longrightarrow>
   is_detached_opt fs j = Some False \<Longrightarrow> is_detached_opt fs' j = Some False"
proof (induction fs i ps rule: mkdir_parts.induct)
  case (2 fs i part ps)
  then obtain fs1 c1 where m: "mkdir fs i part None = Inr (fs1, c1)" "\<not> (part = ''.'' \<or> part = ''..'')"
    and r: "mkdir_parts fs1 c1 ps = Inr (fs', c)"
    by (auto simp: res_simps split: if_splits)
  note k = mkdir_ok[OF 2(2,3) m(1)]
  have "wf_fs fs1" using k(1) by (simp add: fs_ok_def)
  with 2(1)[OF m(2), of "(fs1, c1)" fs1 c1] m(1) k(4) k(10)[OF 2(5)] r show ?case by simp
qed simp

lemma unchanged_or_ok_wf: "wf_fs fs \<Longrightarrow> fs_unchanged_or_ok fs fs' \<Longrightarrow> wf_fs fs'"
  by (auto simp: fs_unchanged_or_ok_def fs_ok_def)

lemma mkdirs_keeps:
  assumes "wf_fs fs" and "is_detached_opt fs i = Some False" and "mkdirs fs i p = Inr (fs', c)"
    and "is_detached_opt fs j = Some False"
  shows "is_detached_opt fs' j = Some False"
proof -
  obtain cur ps where l: "attempt_lookup fs i (if endswith p ''/'' then p else p @ ''/'') = Inr (cur, ps)"
    and m: "mkdir_parts fs cur ps = Inr (fs', c)"
    using assms(3) by (auto simp: mkdirs_def res_simps split: if_splits)
  from attempt_lookup_attached[OF assms(1,2) l] mkdir_parts_keeps[OF assms(1) _ m assms(4)] show ?thesis by blast
qed

lemma ensure_is_directory_ok:
  assumes wf: "wf_fs fs" and ok: "ensure_is_directory fs p = Inr (fs', d)"
  shows "wf_fs fs'" and "is_detached_opt fs' d = Some False"
    and "\<And>j. is_detached_opt fs j = Some False \<Longrightarrow> is_detached_opt fs' j = Some False"
proof -
  obtain cur ps where l: "attempt_lookup fs 0 p = Inr (cur, ps)"
    and m: "(if ps \<noteq> [] then mkdirs fs cur (join ''/'' ps) else Inr (fs, cur)) = Inr (fs', d)"
    using ok by (auto simp: ensure_is_directory_def res_simps split: if_splits)
  note c = attempt_lookup_attached[OF wf root_attached[OF wf] l]
  show "wf_fs fs'" "is_detached_opt fs' d = Some False"
    using m wf c mkdirs_ok[OF wf c, of "join ''/'' ps" fs' d] unchanged_or_ok_wf[OF wf] by (auto split: if_splits)
  show "is_detached_opt fs' j = Some False" if "is_detached_opt fs j = Some False" for j
    using m that mkdirs_keeps[OF wf c, of "join ''/'' ps" fs' d j] by (auto split: if_splits)
qed

lemma chown_same: "chown fs i a b = Inr fs' \<Longrightarrow> same_tree fs fs'"
  by (auto simp: chown_def res_simps intro: same_tree_set_node)

lemma set_mode_same: "set_mode fs i m = Inr fs' \<Longrightarrow> same_tree fs fs'"
  by (auto simp: set_mode_def Let_def res_simps split: if_splits intro: same_tree_set_node)

lemma apply_owner_same:
  assumes "apply_owner_and_mode attr src i st = Inr st'"
  shows "same_tree (t_fs st) (t_fs st')"
proof -
  from assms[unfolded apply_owner_and_mode_def rbind_eq_Inr] obtain fs1 fs2
    where c: "(if pa_owner attr \<noteq> None \<or> pa_group attr \<noteq> None then chown (t_fs st) i (pa_owner attr) (pa_group attr)
            else Inr (t_fs st)) = Inr fs1"
    and m: "(case pa_mode attr of None \<Rightarrow> Inr fs1
              | Some m \<Rightarrow> set_mode fs1 i (compute_mode m (n_mode (node fs1 i)) (is_dir fs1 i))) = Inr fs2"
    and r: "(case pa_capabilities attr of
           None \<Rightarrow> Inr (st\<lparr>t_fs := fs2\<rparr>)
         | Some c \<Rightarrow>
             if \<not> is_file fs2 i then Inr (st\<lparr>t_fs := fs2\<rparr>)
             else (case pa_capability_mode attr of
                     None \<Rightarrow> Inl AssertionErr
                   | Some cm \<Rightarrow>
                       Inr (st\<lparr>t_fs := fs2,
                               t_caps := AList.update i \<lparr>cap_capabilities = c, cap_mode = cm,
                                                        cap_definition_source = src\<rparr> (t_caps st)\<rparr>))) = Inr st'"
    by (elim exE conjE)
  have "t_fs st' = fs2" using r by (auto split: option.splits if_splits)
  moreover have "same_tree (t_fs st) fs1" using c chown_same by (auto split: if_splits)
  moreover have "same_tree fs1 fs2" using m set_mode_same by (auto split: option.splits)
  ultimately show ?thesis using same_tree_trans by blast
qed

lemma metadata_matches_same:
  "metadata_matches attr recursive src is match_ok d st = Inr (ok, d', st') \<Longrightarrow> same_tree (t_fs st) (t_fs st')"
proof (induction attr recursive src "is" match_ok d st rule: metadata_matches.induct)
  case (2 attr recursive src i "is" match_ok d st)
  show ?case
  proof (cases "is_symlink (t_fs st) i")
    case True
    with 2 show ?thesis by (simp add: Let_def)
  next
    case False
    with 2(3) obtain ok2 st1 d1 where st1: "apply_owner_and_mode attr src i st = Inr st1"
      and r: "metadata_matches attr recursive src is ok2 d1 st1 = Inr (ok, d', st')"
      by (auto simp: Let_def res_simps)
    then have "\<exists>ok2 d1. metadata_matches attr recursive src is ok2 d1 st1 = Inr (ok, d', st')" by blast
    with False 2(2)[OF refl False refl] st1 2(3) have "same_tree (t_fs st1) (t_fs st')"
      by (auto simp: Let_def res_simps)
    with apply_owner_same[OF st1] show ?thesis using same_tree_trans by blast
  qed
qed simp

lemma rfold_same:
  assumes "\<And>x s t. f x s = Inr t \<Longrightarrow> same_tree (t_fs s) (t_fs t)" and "rfold f xs s = Inr t"
  shows "same_tree (t_fs s) (t_fs t)"
  using assms(2)
proof (induction xs arbitrary: s)
  case (Cons x xs)
  then obtain s1 where "f x s = Inr s1" "rfold f xs s1 = Inr t" by (auto simp: res_simps)
  with Cons.IH assms(1) same_tree_trans show ?case by blast
qed simp

lemma metadata_rules_same:
  "metadata_rules attr recursive src rs d st = Inr (d', st') \<Longrightarrow> same_tree (t_fs st) (t_fs st')"
proof (induction rs arbitrary: d st)
  case (Cons r rs)
  then obtain ms ok d1 st1 where "metadata_matches attr recursive src ms False d st = Inr (ok, d1, st1)"
    "metadata_rules attr recursive src rs d1 st1 = Inr (d', st')"
    by (auto simp: res_simps split: if_splits)
  with metadata_matches_same Cons.IH same_tree_trans show ?case by blast
qed simp

lemma path_metadata_same: "path_metadata attr recursive src rules st = Inr st' \<Longrightarrow> same_tree (t_fs st) (t_fs st')"
proof -
  assume "path_metadata attr recursive src rules st = Inr st'"
  then obtain d st1 where m: "metadata_rules attr recursive src rules [] st = Inr (d, st1)"
    and b: "rfold (metadata_beneath attr src) d st1 = Inr st'"
    by (auto simp: path_metadata_def res_simps)
  have "same_tree (t_fs s) (t_fs t)" if "metadata_beneath attr src x s = Inr t" for x s t
  proof -
    from that obtain "is" where "rfold (\<lambda>i st. if is_symlink (t_fs st) i then Inr st else apply_owner_and_mode attr src i st) is s
        = Inr t" by (auto simp: metadata_beneath_def res_simps)
    then show ?thesis by (rule rfold_same[rotated]) (auto split: if_splits dest: apply_owner_same)
  qed
  with rfold_same[OF _ b] metadata_rules_same[OF m] same_tree_trans show ?thesis by blast
qed

lemma normalize_matches_Cons:
  assumes "normalize_matches md (i # is) seen fs = Inr r"
  obtains (skip) "normalize_matches md is seen fs = Inr r"
  | (set) p fs1 where "\<not> is_symlink fs i" "path fs i = Inr p" "p \<notin> set seen"
      "set_mode fs i (compute_mode md (n_mode (node fs i)) (is_dir fs i)) = Inr fs1"
      "normalize_matches md is (p # seen) fs1 = Inr r"
proof (cases "is_symlink fs i")
  case False
  then obtain p where p: "path fs i = Inr p" using assms by (auto simp: res_simps)
  with False assms that show thesis by (cases "p \<in> set seen") (auto simp: res_simps)
qed (use assms that in simp)

lemma normalize_matches_same:
  "normalize_matches md is seen fs = Inr (seen', fs') \<Longrightarrow> same_tree fs fs'"
proof (induction "is" arbitrary: seen fs)
  case (Cons i "is")
  from Cons.prems show ?case
  proof (cases rule: normalize_matches_Cons)
    case skip
    then show ?thesis by (rule Cons.IH)
  next
    case (set p fs1)
    from set_mode_same[OF set(4)] Cons.IH[OF set(5)] show ?thesis by (rule same_tree_trans)
  qed
qed simp

lemma normalize_rules_same: "normalize_rules rs seen fs = Inr fs' \<Longrightarrow> same_tree fs fs'"
proof (induction rs seen fs rule: normalize_rules.induct)
  case (2 r md rs seen fs)
  then obtain ms seen1 fs1 where "normalize_matches md ms seen fs = Inr (seen1, fs1)"
    "same_tree fs1 fs'"
    by (auto simp: res_simps)
  with normalize_matches_same same_tree_trans show ?case by blast
qed simp

subsection \<open>Every rule keeps the tree well formed\<close>

text \<open>The objects that a rule selects are attached.\<close>

lemma finditer_attached:
  assumes "wf_fs fs" and "finditer (fs_ops fs) 0 ignore rule = Inr qs" and "q \<in> set qs"
  shows "is_detached_opt fs q = Some False"
  using fs_tree.selected_paths[OF fs_valid_root[OF assms(1)] assms(2,3)] by (simp add: fs_valid_def)

lemma entry_attached:
  assumes "wf_fs fs" and "is_detached_opt fs d = Some False" and "get_child fs d nm = Some c"
  shows "n_parent (node fs c) = Some d" and "\<not> is_root fs c" and "is_detached_opt fs c = Some False"
    and "\<not> below fs c d"
proof -
  show p: "n_parent (node fs c) = Some d" using wf_kid_map[OF assms(1)] assms(3) by (simp add: get_child_kids)
  then show r: "\<not> is_root fs c" using wf_root[OF assms(1)] wf_root_parent[OF assms(1)] by force
  show "is_detached_opt fs c = Some False" using assms(2) det_child[OF r p] by simp
  show "\<not> below fs c d" by (rule not_below_parent[OF assms(2) r p])
qed

lemma handle_existing_ok:
  assumes wf: "wf_fs fs" and d: "is_detached_opt fs d = Some False"
    and ok: "(case get_child fs d nm of None \<Rightarrow> Inr fs | Some existing \<Rightarrow> handle_existing_path rule fs existing) = Inr fs'"
  shows "wf_fs fs' \<and> is_detached_opt fs' d = Some False"
proof (cases "get_child fs d nm")
  case None
  with ok wf d show ?thesis by simp
next
  case (Some c)
  then have u: "unlink fs c True = Inr fs'" using ok by (auto simp: handle_existing_path_def Let_def split: if_splits)
  with unlink_exact[OF wf u] entry_attached(4)[OF wf d Some] d show ?thesis by (simp add: shrinks_def)
qed

lemma add_symlink_new:
  assumes wf: "wf_fs fs" and d: "is_detached_opt fs d = Some False" and ok: "add_symlink fs d nm t r = Inr (fs', c)"
  shows "wf_fs fs' \<and> get_child fs' d nm = Some c \<and> is_detached_opt fs' c = Some False \<and> readlink fs' c = Inr t"
proof -
  from ok have rw: "fs_read_write fs"
    using rw_check_det[OF d] by (cases "fs_read_write fs") (auto simp: add_symlink_def split: if_splits)
  from ok obtain fs1 where u: "(case get_child fs d nm of None \<Rightarrow> Inr fs | Some x \<Rightarrow> unlink fs x False) = Inr fs1"
    and c: "create fs1 d (fs_path_init nm None (SymlinkVirtualPath t) (reference_mode r o777) r) = Inr (fs', c)"
    by (auto simp: add_symlink_def res_simps split: if_splits)
  have k: "wf_fs fs1" "is_detached_opt fs1 d = Some False"
    using unlink_existing_ok[OF wf d u rw] by (simp_all add: fs_ok_def)
  note e = create_ok[OF k _ c, simplified]
  have "map_of (kids fs' d) nm = Some c" using wf_parent[of fs' c d] e by (simp add: fs_ok_def)
  with e show ?thesis by (simp add: get_child_kids readlink_def fs_ok_def)
qed

lemma create_symlink_new:
  assumes wf: "wf_fs fs" and ok: "create_symlink target dest rule fs = Inr fs'"
  shows "\<exists>fs1 d c. ensure_is_directory fs (path_head dest) = Inr (fs1, d) \<and> wf_fs fs'
    \<and> get_child fs' d (path_tail dest) = Some c \<and> is_detached_opt fs' c = Some False \<and> readlink fs' c = Inr target"
proof -
  obtain fs1 d fs2 c where d: "ensure_is_directory fs (path_head dest) = Inr (fs1, d)"
    and e: "(case get_child fs1 d (path_tail dest) of None \<Rightarrow> Inr fs1
              | Some existing \<Rightarrow> handle_existing_path rule fs1 existing) = Inr fs2"
    and a: "add_symlink fs2 d (path_tail dest) target None = Inr (fs', c)"
    using ok by (auto simp: create_symlink_def Let_def res_simps)
  note k = ensure_is_directory_ok[OF wf d]
  note h = handle_existing_ok[OF k(1,2) e]
  from add_symlink_new[OF _ _ a] h d show ?thesis by blast
qed

lemma move_one_ok:
  assumes wf: "wf_fs fs" and m: "is_detached_opt fs m = Some False" and d: "is_detached_opt fs d = Some False"
    and ok: "set_parent fs m d = Inr fs'"
  shows "wf_fs fs' \<and> is_detached_opt fs' m = Some False \<and> n_parent (node fs' m) = Some d
    \<and> is_detached_opt fs' d = Some False \<and> m \<noteq> 0 \<and> n_name (node fs' m) = n_name (node fs m)"
proof -
  note e = set_parent_effect[OF wf ok attached_in_range[OF m] d disjI1[OF m]]
  have "\<not> is_root fs' m" using wf_root[OF e(1), of m] e(10) by simp
  with e det_child[of fs' m d] show ?thesis by simp
qed

lemma rename_ok:
  assumes wf: "wf_fs fs" and m: "is_detached_opt fs m = Some False" and d: "is_detached_opt fs d = Some False"
    and p: "set_parent fs m d = Inr fs2" and n: "set_name fs2 m nm = Inr fs'"
  shows "wf_fs fs' \<and> get_child fs' d nm = Some m \<and> is_detached_opt fs' m = Some False"
proof -
  have k: "wf_fs fs2" "is_detached_opt fs2 m = Some False" "n_parent (node fs2 m) = Some d" "m \<noteq> 0"
    using move_one_ok[OF wf m d p] by blast+
  from set_name_effect[OF k(1,2) n] k(3,4) have e: "wf_fs fs'" "n_name (node fs' m) = nm"
    "n_parent (node fs' m) = Some d" "is_detached_opt fs' m = Some False"
    by (simp_all add: fs_ok_def)
  then show ?thesis using wf_parent[OF e(1,3)] by (simp add: get_child_kids)
qed

text \<open>The two ways a move of one object ends.\<close>

lemma move_to_single:
  assumes m: "finditer (fs_ops fs) 0 None r = Inr [m]" and ok: "move_to r dest dest_is_dir fs = Inr fs'"
  obtains (into) fs1 d0 d where "ensure_is_directory fs (if dest_is_dir then dest else path_head dest) = Inr (fs1, d0)"
      "d = d0 \<or> get_child fs1 d0 (path_tail dest) = Some d" "set_parent fs1 m d = Inr fs'"
  | (rename) fs1 d fs2 where "\<not> dest_is_dir" "ensure_is_directory fs (path_head dest) = Inr (fs1, d)"
      "set_parent fs1 m d = Inr fs2" "set_name fs2 m (path_tail dest) = Inr fs'"
proof (cases dest_is_dir)
  case True
  then obtain fs1 d where e: "ensure_is_directory fs dest = Inr (fs1, d)" and "move_to_dir d [m] fs1 = Inr fs'"
    using m ok by (auto simp: move_to_def res_simps)
  then have "set_parent fs1 m d = Inr fs'" by (auto simp: move_to_dir_def Let_def res_simps split: if_splits)
  with that(1)[of fs1 d d] e True show thesis by simp
next
  case False
  obtain fs1 d where e: "ensure_is_directory fs (path_head dest) = Inr (fs1, d)"
    and r: "(case get_child fs1 d (path_tail dest) of
                 None \<Rightarrow> move_rename dest d m [] fs1
               | Some t \<Rightarrow> if is_dir fs1 t then move_to_dir t [m] fs1 else move_rename dest d m [] fs1) = Inr fs'"
    using m ok False by (auto simp: move_to_def res_simps)
  show thesis
  proof (cases "\<exists>t. get_child fs1 d (path_tail dest) = Some t \<and> is_dir fs1 t")
    case True
    then obtain t where t: "get_child fs1 d (path_tail dest) = Some t" "is_dir fs1 t" by blast
    with r have "set_parent fs1 m t = Inr fs'"
      by (auto simp: move_to_dir_def Let_def res_simps split: if_splits)
    with that(1)[of fs1 d t] e t(1) False show thesis by simp
  next
    case no: False
    with r have "move_rename dest d m [] fs1 = Inr fs'" by (auto split: option.splits if_splits)
    then obtain fs2 where "set_parent fs1 m d = Inr fs2" "set_name fs2 m (path_tail dest) = Inr fs'"
      by (auto simp: move_rename_def res_simps split: if_splits)
    with that(2) e False show thesis by blast
  qed
qed

lemma move_single_wf:
  assumes wf: "wf_fs fs" and m: "finditer (fs_ops fs) 0 None r = Inr [m]"
    and ok: "move_to r dest dest_is_dir fs = Inr fs'"
  shows "wf_fs fs'"
proof -
  have a: "is_detached_opt fs m = Some False" using finditer_attached[OF wf m] by simp
  from m ok show ?thesis
  proof (cases rule: move_to_single)
    case (into fs1 d0 d)
    note e = ensure_is_directory_ok[OF wf into(1)]
    have "is_detached_opt fs1 d = Some False" using into(2) e(2) entry_attached(3)[OF e(1,2)] by blast
    from move_one_ok[OF e(1) e(3)[OF a] this into(3)] show ?thesis by blast
  next
    case (rename fs1 d fs2)
    note e = ensure_is_directory_ok[OF wf rename(2)]
    from rename_ok[OF e(1) e(3)[OF a] e(2) rename(3,4)] show ?thesis by blast
  qed
qed

text \<open>Several objects go into a directory one after the other.  The entry that a step replaces is none of the objects
  that are still to be moved, nor above one of them, when these come from elsewhere.\<close>

lemma moved_or_same:
  assumes wf: "wf_fs fs" and m: "in_tree fs m" and d: "in_tree fs d" and ok: "set_parent fs m d = Inr fs1"
    and x: "in_tree fs x"
    and kept: "\<And>c. c \<noteq> m \<Longrightarrow> n_parent (node fs c) = Some d \<Longrightarrow> n_name (node fs c) = n_name (node fs m) \<Longrightarrow> \<not> below fs c x"
  shows "in_tree fs1 x \<and> (below fs1 m x \<or> (\<forall>k. below fs1 k x \<longleftrightarrow> below fs k x))"
proof -
  note e = set_parent_effect[OF wf ok attached_in_range[OF m] d disjI1[OF m]] and one = move_one_ok[OF wf m d ok]
  have r: "is_root fs1 j = is_root fs j" for j using wf_root[OF wf] wf_root[OF e(1)] by simp
  have "b = False \<longrightarrow> (\<forall>c. c \<noteq> m \<and> n_parent (node fs c) = Some d \<and> n_name (node fs c) = n_name (node fs m) \<longrightarrow> \<not> below fs c x)
      \<longrightarrow> in_tree fs1 x \<and> (below fs1 m x \<or> (\<forall>k. below fs1 k x \<longleftrightarrow> below fs k x))"
    if "is_detached_opt fs x = Some b" for b
    using that
  proof (induction rule: det_induct)
    case (root j)
    then show ?case using det_root[of fs1 j] below_top[of fs j] below_top[of fs1 j] r by simp
  next
    case (child j p b)
    show ?case
    proof (intro impI)
      assume b: "b = False" and k: "\<forall>c. c \<noteq> m \<and> n_parent (node fs c) = Some d \<and> n_name (node fs c) = n_name (node fs m) \<longrightarrow> \<not> below fs c j"
      show "in_tree fs1 j \<and> (below fs1 m j \<or> (\<forall>k. below fs1 k j \<longleftrightarrow> below fs k j))"
      proof (cases "j = m")
        case True
        with one show ?thesis by simp
      next
        case False
        have "\<not> below fs j j \<or> \<not> (n_parent (node fs j) = Some d \<and> n_name (node fs j) = n_name (node fs m))"
          using k False by blast
        then have p1: "n_parent (node fs1 j) = Some p" using e(11)[OF False] child(2) by auto
        have kp: "\<forall>c. c \<noteq> m \<and> n_parent (node fs c) = Some d \<and> n_name (node fs c) = n_name (node fs m) \<longrightarrow> \<not> below fs c p"
          using k entry_in_tree(2)[OF wf child(2)] by simp
        from child(4) b kp have ih: "in_tree fs1 p" "below fs1 m p \<or> (\<forall>k. below fs1 k p \<longleftrightarrow> below fs k p)" by simp_all
        have "in_tree fs1 j" using ih(1) entry_in_tree(1)[OF e(1) p1] by simp
        moreover from ih(2) have "below fs1 m j \<or> (\<forall>k. below fs1 k j \<longleftrightarrow> below fs k j)"
          using entry_in_tree(2)[OF e(1) p1] entry_in_tree(2)[OF wf child(2)] by (elim disjE) simp_all
        ultimately show ?thesis by blast
      qed
    qed
  qed simp
  from this[OF x] kept show ?thesis by blast
qed

lemma move_into_wf:
  assumes "move_into d dp ms bs fs = Inr fs'" and "wf_fs fs" and "in_tree fs d" and "\<forall>m \<in> set ms. in_tree fs m"
    and "\<forall>nm k. (nm, k) \<in> set bs \<longrightarrow> n_parent (node fs k) = Some d \<and> n_name (node fs k) = nm"
    and "\<forall>m \<in> set ms. \<not> below fs d m \<or> (\<exists>nm k. (nm, k) \<in> set bs \<and> below fs k m)"
  shows "wf_fs fs'"
  using assms
proof (induction ms arbitrary: fs bs)
  case (Cons m ms)
  let ?nm = "n_name (node fs m)"
  note wf = Cons.prems(2) and d = Cons.prems(3) and att = Cons.prems(4) and bs = Cons.prems(5) and els = Cons.prems(6)
  obtain fs1 where new: "map_of bs ?nm = None" and s: "set_parent fs m d = Inr fs1"
    and r: "move_into d dp ms ((?nm, m) # bs) fs1 = Inr fs'"
    using Cons.prems(1) by (auto simp: Let_def res_simps split: if_splits option.splits)
  have m: "in_tree fs m" using att by simp
  note e = set_parent_effect[OF wf s attached_in_range[OF m] d disjI1[OF m]]
  have kept: "\<not> below fs c x" if c: "n_parent (node fs c) = Some d" "n_name (node fs c) = ?nm" and x: "x \<in> set (m # ms)" for c x
  proof
    assume "below fs c x"
    moreover have "below fs d c" using entry_in_tree(2)[OF wf c(1)] by simp
    ultimately have "below fs d x" using below_trans by blast
    then obtain nm k where k: "(nm, k) \<in> set bs" "below fs k x" using els x by blast
    have "n_parent (node fs k) = Some d" using bs k(1) by simp
    then have "k = c" using below_siblings[OF wf _ c(1) k(2) \<open>below fs c x\<close>] by simp
    then have "nm = ?nm" using bs k(1) c(2) by simp
    with k(1) new show False by (force simp: map_of_eq_None_iff)
  qed
  have step: "in_tree fs1 x \<and> (below fs1 m x \<or> (\<forall>k. below fs1 k x \<longleftrightarrow> below fs k x))" if x: "x \<in> set (m # ms)" for x
    using moved_or_same[OF wf m d s] att kept[OF _ _ x] x by blast
  show ?case
  proof (rule Cons.IH[OF r e(1) e(6)])
    show "\<forall>x \<in> set ms. in_tree fs1 x" using step by simp
    show "\<forall>nm k. (nm, k) \<in> set ((?nm, m) # bs) \<longrightarrow> n_parent (node fs1 k) = Some d \<and> n_name (node fs1 k) = nm"
    proof (intro allI impI)
      fix nm k
      assume k: "(nm, k) \<in> set ((?nm, m) # bs)"
      show "n_parent (node fs1 k) = Some d \<and> n_name (node fs1 k) = nm"
      proof (cases "k = m")
        case True
        with k bs e(5,7) show ?thesis by auto
      next
        case False
        with k have kb: "(nm, k) \<in> set bs" by simp
        with new have "nm \<noteq> ?nm" by (force simp: map_of_eq_None_iff)
        with e(11)[OF False] e(7)[of k] bs kb show ?thesis by auto
      qed
    qed
    show "\<forall>x \<in> set ms. \<not> below fs1 d x \<or> (\<exists>nm k. (nm, k) \<in> set ((?nm, m) # bs) \<and> below fs1 k x)"
    proof
      fix x
      assume x: "x \<in> set ms"
      from step[of x] x consider "below fs1 m x" | "\<forall>k. below fs1 k x \<longleftrightarrow> below fs k x" by auto
      then show "\<not> below fs1 d x \<or> (\<exists>nm k. (nm, k) \<in> set ((?nm, m) # bs) \<and> below fs1 k x)"
      proof cases
        case 2
        with els x show ?thesis by (meson list.set_intros(2))
      qed auto
    qed
  qed
qed simp

text \<open>The directory that a move goes into, with the tree in which the missing directories have been made.\<close>

definition moves_into :: "fs \<Rightarrow> string \<Rightarrow> bool \<Rightarrow> (fs \<times> nat) option" where
  "moves_into fs dest dest_is_dir =
     (case ensure_is_directory fs (if dest_is_dir then dest else path_head dest) of
        Inl _ \<Rightarrow> None
      | Inr (fs1, d) \<Rightarrow>
          if dest_is_dir then Some (fs1, d)
          else (case get_child fs1 d (path_tail dest) of
                  None \<Rightarrow> None
                | Some t \<Rightarrow> if is_dir fs1 t then Some (fs1, t) else None))"

text \<open>A move of several objects into a directory takes them from outside of that directory.\<close>

definition moves_from_elsewhere :: "fs \<Rightarrow> transformation_rule \<Rightarrow> bool" where
  "moves_from_elsewhere fs rule =
     (case rule of
        MoveTransformationRule r dest dest_is_dir _ \<Rightarrow>
          (case finditer (fs_ops fs) 0 None r of
             Inl _ \<Rightarrow> True
           | Inr ms \<Rightarrow> length ms \<le> 1
               \<or> (case moves_into fs dest dest_is_dir of
                    None \<Rightarrow> True
                  | Some (fs1, d) \<Rightarrow> list_all (\<lambda>m. \<not> below fs1 d m) ms))
      | _ \<Rightarrow> True)"

lemma move_several_wf:
  assumes wf: "wf_fs fs" and ms: "finditer (fs_ops fs) 0 None r = Inr ms" "\<not> length ms \<le> 1"
    and els: "\<And>fs1 d. moves_into fs dest dest_is_dir = Some (fs1, d) \<Longrightarrow> list_all (\<lambda>m. \<not> below fs1 d m) ms"
    and ok: "move_to r dest dest_is_dir fs = Inr fs'"
  shows "wf_fs fs'"
proof -
  obtain m rest where m: "ms = m # rest" "rest \<noteq> []" using ms(2) by (cases ms) auto
  obtain fs1 d0 where e: "ensure_is_directory fs (if dest_is_dir then dest else path_head dest) = Inr (fs1, d0)"
    using ok ms(1) m(1) by (cases dest_is_dir) (auto simp: move_to_def res_simps)
  note k = ensure_is_directory_ok[OF wf e]
  obtain d where d: "moves_into fs dest dest_is_dir = Some (fs1, d)" "move_to_dir d ms fs1 = Inr fs'"
    "d = d0 \<or> get_child fs1 d0 (path_tail dest) = Some d"
    using ok ms(1) m e
    by (cases dest_is_dir) (auto simp: move_to_def moves_into_def move_rename_def split: option.splits if_splits)
  then obtain dp where i: "move_into d dp ms [] fs1 = Inr fs'" by (auto simp: move_to_dir_def res_simps)
  show ?thesis
  proof (rule move_into_wf[OF i k(1)])
    show "in_tree fs1 d" using d(3) k(2) entry_attached(3)[OF k(1,2)] by blast
    show "\<forall>x \<in> set ms. in_tree fs1 x" using finditer_attached[OF wf ms(1)] k(3) by blast
    show "\<forall>x \<in> set ms. \<not> below fs1 d x \<or> (\<exists>nm k. (nm, k) \<in> set [] \<and> below fs1 k x)"
      using els[OF d(1)] by (simp add: list_all_iff)
  qed simp
qed

lemma remove_rules_wf: "wf_fs fs \<Longrightarrow> remove_rules keep rs any fs = Inr fs' \<Longrightarrow> wf_fs fs'"
proof (induction rs arbitrary: any fs)
  case (Cons r rs)
  then obtain ms fs1 where f: "rfold (remove_match keep) ms fs = Inr fs1"
    and r: "remove_rules keep rs (any \<or> ms \<noteq> []) fs1 = Inr fs'"
    by (auto simp: res_simps split: if_splits)
  have "wf_fs fs1" using remove_matches_exact[OF Cons.prems(1) f] by (simp add: shrinks_def)
  from Cons.IH[OF this r] show ?case .
qed simp

lemma create_directory_wf: "wf_fs fs \<Longrightarrow> create_directory owner grp md dir fs = Inr fs' \<Longrightarrow> wf_fs fs'"
proof -
  assume wf: "wf_fs fs" and "create_directory owner grp md dir fs = Inr fs'"
  then obtain fs1 d fs2 where e: "ensure_is_directory fs dir = Inr (fs1, d)"
    and m: "(case md of None \<Rightarrow> Inr fs1
              | Some m \<Rightarrow> set_mode fs1 d (compute_mode m (n_mode (node fs1 d)) (is_dir fs1 d))) = Inr fs2"
    and c: "chown fs2 d owner grp = Inr fs'"
    by (auto simp: create_directory_def res_simps)
  have "same_tree fs1 fs2" using m set_mode_same by (auto split: option.splits)
  then show "wf_fs fs'"
    using chown_same[OF c] same_tree_wf ensure_is_directory_ok(1)[OF wf e] by blast
qed

text \<open>C15: every transformation keeps the tree well formed, whether its condition holds or not; a move of several
  objects into a directory, when none of them is already beneath that directory.\<close>

theorem transform_keeps_wf:
  assumes wf: "wf_fs (t_fs st)" and elsewhere: "moves_from_elsewhere (t_fs st) rule"
    and ok: "transform_file_system cx rule st = Inr st'"
  shows "wf_fs (t_fs st')"
proof -
  have cond: "st' = st \<or> run st = Inr st'" if "when_condition c cx run st = Inr st'" for c run
    using that by (auto simp: when_condition_def res_simps split: if_splits)
  have onfs: "f (t_fs st) = Inr (t_fs st')" if "on_fs f st = Inr st'" for f
    using that by (auto simp: on_fs_def res_simps)
  show ?thesis
  proof (cases rule)
    case (RemoveTransformationRule rules keep)
    with ok onfs have "remove_rules keep rules False (t_fs st) = Inr (t_fs st')" by simp
    with wf show ?thesis by (rule remove_rules_wf)
  next
    case (MoveTransformationRule r dest dd c)
    show ?thesis
    proof (cases "st' = st")
      case False
      then have m: "move_to r dest dd (t_fs st) = Inr (t_fs st')"
        using ok cond onfs MoveTransformationRule by fastforce
      obtain ms where ms: "finditer (fs_ops (t_fs st)) 0 None r = Inr ms" "ms \<noteq> []"
      proof (cases "finditer (fs_ops (t_fs st)) 0 None r")
        case (Inr ms)
        with m that show thesis by (cases ms) (simp_all add: move_to_def)
      qed (use m in \<open>simp add: move_to_def\<close>)
      show ?thesis
      proof (cases "length ms \<le> 1")
        case True
        with ms have "finditer (fs_ops (t_fs st)) 0 None r = Inr [hd ms]" by (cases ms) auto
        from move_single_wf[OF wf this m] show ?thesis .
      next
        case several: False
        have "list_all (\<lambda>m. \<not> below fs1 d m) ms" if "moves_into (t_fs st) dest dd = Some (fs1, d)" for fs1 d
          using elsewhere MoveTransformationRule ms(1) several that by (simp add: moves_from_elsewhere_def)
        from move_several_wf[OF wf ms(1) several this m] show ?thesis .
      qed
    qed (simp add: wf)
  next
    case (CreateSymlinkPathTransformationRule target dest rr c)
    show ?thesis
    proof (cases "st' = st")
      case False
      then have "create_symlink target dest rr (t_fs st) = Inr (t_fs st')"
        using ok cond onfs CreateSymlinkPathTransformationRule by fastforce
      from create_symlink_new[OF wf this] show ?thesis by blast
    qed (simp add: wf)
  next
    case (CreateDirectoryTransformationRule dirs owner grp md c)
    show ?thesis
    proof (cases "st' = st")
      case False
      then have "rfold (create_directory owner grp md) dirs (t_fs st) = Inr (t_fs st')"
        using ok cond onfs CreateDirectoryTransformationRule by fastforce
      then show ?thesis using wf create_directory_wf by (rule rfold_invariant)
    qed (simp add: wf)
  next
    case (PathMetadataTransformationRule rules attr rc src c)
    show ?thesis
    proof (cases "st' = st")
      case False
      then have "path_metadata attr rc src rules st = Inr st'"
        using ok cond PathMetadataTransformationRule by fastforce
      from same_tree_wf[OF path_metadata_same[OF this] wf] show ?thesis .
    qed (simp add: wf)
  next
    case (ModeNormalizationTransformationRule ns)
    with ok onfs have "normalize_rules ns [] (t_fs st) = Inr (t_fs st')" by simp
    from same_tree_wf[OF normalize_rules_same[OF this] wf] show ?thesis .
  qed
qed

lemma transform_keeps_wf_witness:
  "\<exists>st'. transform_file_system demo_context
        (MoveTransformationRule (BasenameGlobMatch ''*'' (Some ''./usr'') None False) ''./opt'' True None) demo_state = Inr st'
      \<and> wf_fs (t_fs st') \<and> finditer (fs_ops (t_fs demo_state)) 0 None (BasenameGlobMatch ''*'' (Some ''./usr'') None False) = Inr [2, 3]"
proof -
  let ?rule = "MoveTransformationRule (BasenameGlobMatch ''*'' (Some ''./usr'') None False) ''./opt'' True None"
  have ok: "transform_file_system demo_context ?rule demo_state
      = Inr (projr (transform_file_system demo_context ?rule demo_state))" by code_simp
  have wf: "wf_fs (t_fs demo_state)" by (simp add: demo_state_def demo_fs_wf)
  have m: "finditer (fs_ops (t_fs demo_state)) 0 None (BasenameGlobMatch ''*'' (Some ''./usr'') None False) = Inr [2, 3]"
    by code_simp
  define fs1 where "fs1 = fst (projr (ensure_is_directory (t_fs demo_state) ''./opt''))"
  have d: "moves_into (t_fs demo_state) ''./opt'' True = Some (fs1, 4)" unfolding fs1_def by code_simp
  have "\<not> is_root fs1 2" "\<not> is_root fs1 3" "\<not> is_root fs1 1" "is_root fs1 0" "n_parent (node fs1 2) = Some 1"
    "n_parent (node fs1 3) = Some 1" "n_parent (node fs1 1) = Some 0" unfolding fs1_def by code_simp+
  then have "\<not> below fs1 4 2" "\<not> below fs1 4 3" by (simp_all add: below_child below_top)
  with m d have "moves_from_elsewhere (t_fs demo_state) ?rule" by (simp add: moves_from_elsewhere_def)
  from transform_keeps_wf[OF wf this ok] ok m show ?thesis by blast
qed

text \<open>After \<^verbatim>\<open>create-symlink\<close> the directory of the link exists, its entry of the link's name is an attached
  symlink with the given target, whatever was there before and was allowed to be replaced.\<close>

theorem create_symlink_effect:
  assumes wf: "wf_fs (t_fs st)"
    and ok: "transform_file_system cx (CreateSymlinkPathTransformationRule target dest rule None) st = Inr st'"
  shows "\<exists>fs1 d c. ensure_is_directory (t_fs st) (path_head dest) = Inr (fs1, d)
    \<and> get_child (t_fs st') d (path_tail dest) = Some c \<and> is_detached (t_fs st') c = Inr False
    \<and> readlink (t_fs st') c = Inr target"
proof -
  have "create_symlink target dest rule (t_fs st) = Inr (t_fs st')"
    using ok by (auto simp: when_condition_def demo_context_none on_fs_def res_simps)
  from create_symlink_new[OF wf this] show ?thesis by (auto simp: is_detached_Inr)
qed

lemma create_symlink_effect_witness:
  "\<exists>(st' :: transform_state) fs1 d c. ensure_is_directory (t_fs demo_state) (path_head ''./etc/foo/x'') = Inr (fs1, d)
    \<and> get_child (t_fs st') d (path_tail ''./etc/foo/x'') = Some c \<and> is_detached (t_fs st') c = Inr False
    \<and> readlink (t_fs st') c = Inr ''../y''"
proof -
  let ?rule = "CreateSymlinkPathTransformationRule ''../y'' ''./etc/foo/x'' ErrorIfExists None"
  have ok: "transform_file_system demo_context ?rule demo_state
      = Inr (projr (transform_file_system demo_context ?rule demo_state))" by code_simp
  have wf: "wf_fs (t_fs demo_state)" by (simp add: demo_state_def demo_fs_wf)
  show ?thesis by (rule exI) (rule create_symlink_effect[OF wf ok])
qed

text \<open>After a \<^verbatim>\<open>move\<close> of the only match to a destination that does not exist, the object is attached and is
  the entry of the destination's name in the destination's directory.\<close>

theorem move_renames:
  assumes wf: "wf_fs (t_fs st)" and m: "finditer (fs_ops (t_fs st)) 0 None r = Inr [m]"
    and d: "ensure_is_directory (t_fs st) (path_head dest) = Inr (fs1, d)" "get_child fs1 d (path_tail dest) = None"
    and ok: "transform_file_system cx (MoveTransformationRule r dest False None) st = Inr st'"
  shows "get_child (t_fs st') d (path_tail dest) = Some m \<and> is_detached (t_fs st') m = Inr False"
proof -
  have "move_to r dest False (t_fs st) = Inr (t_fs st')"
    using ok by (auto simp: when_condition_def demo_context_none on_fs_def res_simps)
  then obtain fs2 where s: "set_parent fs1 m d = Inr fs2" "set_name fs2 m (path_tail dest) = Inr (t_fs st')"
    using m d by (auto simp: move_to_def move_rename_def res_simps split: if_splits)
  have a: "is_detached_opt (t_fs st) m = Some False" using finditer_attached[OF wf m] by simp
  note e = ensure_is_directory_ok[OF wf d(1)]
  from rename_ok[OF e(1) e(3)[OF a] e(2) s] show ?thesis by (simp add: is_detached_Inr)
qed

lemma move_renames_witness:
  "\<exists>d (st' :: transform_state). get_child (t_fs st') d ''doc'' = Some 2 \<and> is_detached (t_fs st') 2 = Inr False"
proof -
  let ?rule = "MoveTransformationRule (ExactFileSystemPath ''./usr/share'') ''./doc'' False None"
  have ok: "transform_file_system demo_context ?rule demo_state
      = Inr (projr (transform_file_system demo_context ?rule demo_state))" by code_simp
  have wf: "wf_fs (t_fs demo_state)" by (simp add: demo_state_def demo_fs_wf)
  have m: "finditer (fs_ops (t_fs demo_state)) 0 None (ExactFileSystemPath ''./usr/share'') = Inr [2]" by code_simp
  have d: "ensure_is_directory (t_fs demo_state) (path_head ''./doc'') = Inr (demo_fs, 0)"
    "get_child demo_fs 0 (path_tail ''./doc'') = None" by code_simp+
  have t: "path_tail ''./doc'' = ''doc''" by code_simp
  show ?thesis by (intro exI) (rule move_renames[OF wf m d ok, unfolded t])
qed

subsection \<open>Mode normalisation\<close>

lemma path_same_tree:
  assumes "same_tree fs fs'" and "is_detached_opt fs i = Some False"
  shows "path fs' i = path fs i"
proof -
  note s = assms(1)[unfolded same_tree_def]
  have r: "is_root fs' j = is_root fs j" for j using s is_root_class by blast
  have "b = False \<longrightarrow> path fs' i = path fs i" if "is_detached_opt fs i = Some b" for b
    using that
  proof (induction rule: det_induct)
    case (root i)
    then show ?case using path_root[of fs i] path_root[of fs' i] r s by simp
  next
    case (child i p b)
    show ?case
    proof
      assume b: "b = False"
      have a: "is_detached_opt fs i = Some False" using child b det_child by simp
      then have a': "is_detached_opt fs' i = Some False" using same_tree_det[OF assms(1)] by simp
      show "path fs' i = path fs i"
        using path_child[OF a child(1,2)] path_child[OF a', of p] child b r s by simp
    qed
  qed simp
  with assms(2) show ?thesis by blast
qed

text \<open>What a run of the normalisation has done so far: an object has its old mode, or its path is in \<open>seen\<close> and
  its mode was computed from the old one.\<close>

definition normalized_once ::
    "(match_rule \<times> fs_mode) list \<Rightarrow> fs \<Rightarrow> string list \<Rightarrow> fs \<Rightarrow> bool" where
  "normalized_once rules fs0 seen fs \<longleftrightarrow>
     same_tree fs0 fs
     \<and> (\<forall>i. n_mode (node fs i) = n_mode (node fs0 i)
          \<or> (\<exists>p r md. path fs0 i = Inr p \<and> p \<in> set seen \<and> (r, md) \<in> set rules
               \<and> n_mode (node fs i) = compute_mode md (n_mode (node fs0 i)) (is_dir fs0 i)))"

lemma normalize_matches_once:
  assumes "normalize_matches md is seen fs = Inr (seen', fs')" and "normalized_once rules fs0 seen fs"
    and "(r, md) \<in> set rules" and "\<forall>i \<in> set is. is_detached_opt fs0 i = Some False"
  shows "normalized_once rules fs0 seen' fs'"
  using assms
proof (induction "is" arbitrary: seen fs)
  case (Cons i "is")
  from Cons.prems(1) show ?case
  proof (cases rule: normalize_matches_Cons)
    case skip
    with Cons show ?thesis by simp
  next
    case (set p fs1)
    note n = Cons.prems(2)[unfolded normalized_once_def]
    then have same: "same_tree fs0 fs" by blast
    have p: "path fs0 i = Inr p" using path_same_tree[OF same] set(2) Cons.prems(4) by simp
    then have m: "n_mode (node fs i) = n_mode (node fs0 i)" using n set(3) by fastforce
    have dir: "is_dir fs i = is_dir fs0 i" using same is_dir_class unfolding same_tree_def by blast
    have "n_mode (node fs1 j) = (if j = i then compute_mode md (n_mode (node fs0 i)) (is_dir fs0 i)
        else n_mode (node fs j))" if "i < length (nodes fs)" for j
      using set(4) m dir that by (auto simp: set_mode_def Let_def res_simps node_set_node split: if_splits)
    moreover have "i < length (nodes fs)"
    proof -
      have "is_detached_opt fs i = Some False" using same_tree_det[OF same] Cons.prems(4) by simp
      then show ?thesis by (rule attached_in_range)
    qed
    ultimately have mode: "n_mode (node fs1 j) = (if j = i then compute_mode md (n_mode (node fs0 i)) (is_dir fs0 i)
        else n_mode (node fs j))" for j by blast
    have "normalized_once rules fs0 (p # seen) fs1"
      unfolding normalized_once_def
    proof (intro conjI allI)
      show "same_tree fs0 fs1" using same set_mode_same[OF set(4)] by (rule same_tree_trans)
      show "n_mode (node fs1 j) = n_mode (node fs0 j)
          \<or> (\<exists>q r md. path fs0 j = Inr q \<and> q \<in> set (p # seen) \<and> (r, md) \<in> set rules
               \<and> n_mode (node fs1 j) = compute_mode md (n_mode (node fs0 j)) (is_dir fs0 j))" for j
      proof (cases "j = i")
        case True
        with p mode Cons.prems(3) show ?thesis by auto
      next
        case False
        with mode n show ?thesis by (metis list.set_intros(2))
      qed
    qed
    from Cons.IH[OF set(5) this] Cons.prems(3,4) show ?thesis by simp
  qed
qed simp

lemma normalize_rules_once:
  assumes "normalize_rules rs seen fs = Inr fs'" and "normalized_once rules fs0 seen fs"
    and "set rs \<subseteq> set rules" and "wf_fs fs0"
  shows "\<exists>seen'. normalized_once rules fs0 seen' fs'"
  using assms
proof (induction rs arbitrary: seen fs)
  case (Cons rm rs)
  obtain r md where rm: "rm = (r, md)" by (cases rm)
  with Cons.prems(1) obtain ms seen1 fs1 where
    f: "finditer (fs_ops fs) 0 (Some (\<lambda>i. case path fs i of Inl _ \<Rightarrow> False | Inr p \<Rightarrow> p \<in> set seen)) r = Inr ms"
    and m: "normalize_matches md ms seen fs = Inr (seen1, fs1)" and rs: "normalize_rules rs seen1 fs1 = Inr fs'"
    by (auto simp: res_simps)
  have same: "same_tree fs0 fs" using Cons.prems(2) by (simp add: normalized_once_def)
  have "\<forall>i \<in> set ms. is_detached_opt fs0 i = Some False"
    using finditer_attached[OF same_tree_wf[OF same Cons.prems(4)] f] same_tree_det[OF same] by simp
  with normalize_matches_once[OF m Cons.prems(2)] Cons.prems(3) rm have "normalized_once rules fs0 seen1 fs1" by auto
  from Cons.IH[OF rs this] Cons.prems(3,4) show ?case by auto
qed auto

text \<open>C17: the mode normalisation leaves the tree as it is and gives each object at most one new mode: the old
  one, or what one of the rules makes of the old one, however many of the rules match the object.\<close>

theorem normalization_once:
  assumes wf: "wf_fs (t_fs st)"
    and ok: "transform_file_system cx (ModeNormalizationTransformationRule rules) st = Inr st'"
  shows "same_tree (t_fs st) (t_fs st')
    \<and> (n_mode (node (t_fs st') i) = n_mode (node (t_fs st) i)
       \<or> (\<exists>r md. (r, md) \<in> set rules
            \<and> n_mode (node (t_fs st') i) = compute_mode md (n_mode (node (t_fs st) i)) (is_dir (t_fs st) i)))"
proof -
  have "normalize_rules rules [] (t_fs st) = Inr (t_fs st')" using ok by (auto simp: on_fs_def res_simps)
  moreover have "normalized_once rules (t_fs st) [] (t_fs st)" by (simp add: normalized_once_def)
  ultimately obtain seen' where "normalized_once rules (t_fs st) seen' (t_fs st')"
    using normalize_rules_once wf by blast
  then show ?thesis unfolding normalized_once_def by blast
qed

lemma normalization_once_witness:
  "\<exists>(st' :: transform_state). same_tree (t_fs demo_state) (t_fs st')"
proof -
  let ?rule = "ModeNormalizationTransformationRule [(BasenameGlobMatch ''s*'' None None True, OctalMode o755), (MatchAnything, OctalMode o700)]"
  have ok: "transform_file_system demo_context ?rule demo_state
      = Inr (projr (transform_file_system demo_context ?rule demo_state))" by code_simp
  have wf: "wf_fs (t_fs demo_state)" by (simp add: demo_state_def demo_fs_wf)
  from normalization_once[OF wf ok] show ?thesis by blast
qed

subsection \<open>What the code does not check\<close>

text \<open>A second pattern of \<^verbatim>\<open>remove\<close> that matches nothing goes unnoticed when the first one matched.\<close>

lemma second_pattern_unnoticed:
  "isl (remove_rules True [ExactFileSystemPath ''./nosuch''] False demo_fs)
   \<and> \<not> isl (remove_rules True [ExactFileSystemPath ''./usr/share'', ExactFileSystemPath ''./nosuch''] False demo_fs)"
  by code_simp

text \<open>A move into a directory replaces an existing directory of the same name: the test looks for it in the moved
  object.  A rename across directories replaces an entry that has the old name.\<close>

definition clash_fs :: fs where
  "clash_fs = projr (rbind (run_call (Mkdirs 0 ''a/x'') (new_root_dir None)) (run_call (Mkdirs 0 ''b/x/y'')))"

lemma move_replaces_directory:
  "rmap (\<lambda>fs. lookup_path fs 0 ''b/x/y'') (move_to (ExactFileSystemPath ''./a/x'') ''./b'' True clash_fs) = Inr (Inr None)
   \<and> lookup_path clash_fs 0 ''b/x/y'' = Inr (Some 5)"
  by code_simp

lemma rename_replaces_other_entry:
  "rmap (\<lambda>fs. lookup_path fs 0 ''b/x/y'') (move_to (ExactFileSystemPath ''./a/x'') ''./b/z'' False clash_fs) = Inr (Inr None)"
  by code_simp

end
