(* ===== verification/Overlay.thy ===== *)
theory Overlay
  imports PathMatch
begin

section \<open>The read-only overlay (\<^verbatim>\<open>FSROOverlay\<close> of \<^verbatim>\<open>src/debputy/filesystem_scan.py\<close>)\<close>

text \<open>
  The view of a directory of the real file system that the search directories of the installation are.
  What \<^verbatim>\<open>os.lstat\<close>, \<^verbatim>\<open>os.listdir\<close> and \<^verbatim>\<open>os.readlink\<close> find is a tree that does not change while it is read, so
  the caches of the objects are transparent; an object carries the node that its \<^verbatim>\<open>lstat\<close> finds.  A weak
  reference to a parent is the parent itself.  A link carries what \<^verbatim>\<open>open\<close>, which follows it, reads behind it,
  and a special file what can be read from it, if anything; a root need not exist.
\<close>

subsection \<open>State\<close>

datatype os_node =
    OsFile int string
  | OsDir int "(string \<times> os_node) list"
  | OsLink string "string option"
  | OsSpecial int "string option"

datatype overlay =
  FSROOverlay (ov_path: string) (ov_fs_path: string) (ov_parent: "overlay option") (ov_os: "os_node option")

definition new_overlay :: "string \<Rightarrow> string \<Rightarrow> overlay option \<Rightarrow> os_node option \<Rightarrow> overlay res" where
  "new_overlay p fs_path parent n =
     rmap (\<lambda>q. FSROOverlay p ((if startswith fs_path ''/'' then ''/'' else []) @ q) parent n)
       (normalize_path fs_path False)"

definition create_root_dir :: "string \<Rightarrow> string \<Rightarrow> os_node option \<Rightarrow> overlay res" where
  "create_root_dir p fs_path n = new_overlay p fs_path None n"

definition ov_name :: "overlay \<Rightarrow> string" where
  "ov_name v = path_tail (ov_path v)"

definition ov_is_dir :: "overlay \<Rightarrow> bool" where
  "ov_is_dir v = (case ov_os v of Some (OsDir _ _) \<Rightarrow> True | _ \<Rightarrow> False)"

definition ov_is_file :: "overlay \<Rightarrow> bool" where
  "ov_is_file v = (case ov_os v of Some (OsFile _ _) \<Rightarrow> True | _ \<Rightarrow> False)"

definition ov_is_symlink :: "overlay \<Rightarrow> bool" where
  "ov_is_symlink v = (case ov_os v of Some (OsLink _ _) \<Rightarrow> True | _ \<Rightarrow> False)"

text \<open>The mode comes from \<^verbatim>\<open>lstat\<close>, which raises when there is nothing; links have the mode 0o777.\<close>

definition ov_mode :: "overlay \<Rightarrow> int res" where
  "ov_mode v =
     (case ov_os v of
        None \<Rightarrow> Inl OSErr
      | Some n \<Rightarrow> Inr (case n of OsFile m _ \<Rightarrow> m | OsDir m _ \<Rightarrow> m | OsSpecial m _ \<Rightarrow> m | OsLink _ _ \<Rightarrow> o777))"

definition ov_readlink :: "overlay \<Rightarrow> string res" where
  "ov_readlink v = (case ov_os v of Some (OsLink t _) \<Rightarrow> Inr t | _ \<Rightarrow> Inl TypeErr)"

text \<open>
  \<^verbatim>\<open>_ensure_children_are_resolved\<close>.  The name of a directory entry cannot make the normalisation raise; the
  branch for that is never taken (\<open>child_of_plain\<close>).
\<close>

definition new_child :: "overlay \<Rightarrow> string \<times> os_node \<Rightarrow> overlay" where
  "new_child v e =
     (let child_path = (if ov_path v \<noteq> ''.'' then path_join (ov_path v) (fst e) else fst e);
          child_fs_path = (if ov_fs_path v \<noteq> ''.'' then path_join (ov_fs_path v) (fst e) else fst e)
      in case new_overlay child_path child_fs_path (Some v) (Some (snd e)) of
           Inr c \<Rightarrow> c
         | Inl _ \<Rightarrow> FSROOverlay child_path child_fs_path (Some v) (Some (snd e)))"

definition resolved_children :: "overlay \<Rightarrow> (string \<times> overlay) list" where
  "resolved_children v =
     (case ov_os v of
        Some (OsDir _ entries) \<Rightarrow>
          map (\<lambda>e. (fst e, new_child v e)) (sort_key (\<lambda>e. path_tail (fst e)) entries)
      | _ \<Rightarrow> [])"

definition ov_iterdir :: "overlay \<Rightarrow> overlay list" where
  "ov_iterdir v = map snd (resolved_children v)"

definition ov_getitem :: "overlay \<Rightarrow> string \<Rightarrow> overlay res" where
  "ov_getitem v key = (case map_of (resolved_children v) key of None \<Rightarrow> Inl KeyError | Some c \<Rightarrow> Inr c)"

fun ov_root :: "overlay \<Rightarrow> overlay" where
  "ov_root (FSROOverlay p f parent n) = (case parent of None \<Rightarrow> FSROOverlay p f parent n | Some q \<Rightarrow> ov_root q)"

fun ov_lookup_parts :: "overlay \<Rightarrow> string list \<Rightarrow> overlay option res" where
  "ov_lookup_parts current [] = Inr (Some current)"
| "ov_lookup_parts current (dir_part # parts) =
     (if dir_part = ''.'' then ov_lookup_parts current parts
      else if dir_part = ''..'' then
        (case ov_parent current of None \<Rightarrow> Inl ValueError | Some p \<Rightarrow> ov_lookup_parts p parts)
      else (case ov_getitem current dir_part of Inl _ \<Rightarrow> Inr None | Inr c \<Rightarrow> ov_lookup_parts c parts))"

definition ov_lookup :: "overlay \<Rightarrow> string \<Rightarrow> overlay option res" where
  "ov_lookup v p =
     (if \<not> ov_is_dir v then Inr None
      else (case split_path p of
              (absolute, _, path_parts) \<Rightarrow> ov_lookup_parts (if absolute then ov_root v else v) path_parts))"

text \<open>The stack of \<^verbatim>\<open>all_paths\<close>, top first.\<close>

definition ov_size :: "overlay \<Rightarrow> nat" where
  "ov_size v = (case ov_os v of None \<Rightarrow> 1 | Some n \<Rightarrow> Suc (size n))"

lemma new_child_os [simp]: "ov_os (new_child v e) = Some (snd e)" "ov_parent (new_child v e) = Some v"
  by (auto simp: new_child_def Let_def new_overlay_def rmap_def rbind_def split: sum.splits)

lemma sum_list_sort_key: "sum_list (map f (sort_key k xs)) = sum_list (map f xs)" for f :: "'a \<Rightarrow> nat"
proof (induction xs)
  case (Cons x xs)
  have "sum_list (map f (insort_key k x ys)) = f x + sum_list (map f ys)" for ys
    by (induction ys) auto
  with Cons show ?case by simp
qed simp

lemma entries_size: "sum_list (map (\<lambda>e. Suc (size (snd e))) es) \<le> size_list (size_prod (\<lambda>x. 0) size) es"
  by (induction es) auto

lemma children_smaller: "sum_list (map ov_size (ov_iterdir v)) < ov_size v"
proof (cases "ov_os v")
  case (Some n)
  show ?thesis
  proof (cases n)
    case (OsDir m es)
    have "sum_list (map ov_size (ov_iterdir v)) = sum_list (map (\<lambda>e. Suc (size (snd e))) es)"
      using Some OsDir by (simp add: ov_iterdir_def resolved_children_def ov_size_def comp_def sum_list_sort_key)
    also have "\<dots> < Suc (size n)"
      unfolding OsDir using entries_size[of es] by simp
    finally show ?thesis using Some by (simp add: ov_size_def)
  qed (use Some in \<open>simp_all add: ov_iterdir_def resolved_children_def ov_size_def\<close>)
qed (simp add: ov_iterdir_def resolved_children_def ov_size_def)

function ov_walk :: "overlay list \<Rightarrow> overlay list" where
  "ov_walk [] = []"
| "ov_walk (current # stack) = current # ov_walk (ov_iterdir current @ stack)"
  by pat_completeness auto
termination
  by (relation "measure (\<lambda>stack. sum_list (map ov_size stack))") (use children_smaller in auto)

definition ov_all_paths :: "overlay \<Rightarrow> overlay list" where
  "ov_all_paths v = (if \<not> ov_is_dir v then [v] else v # ov_walk (ov_iterdir v))"


subsection \<open>The names below a root\<close>

fun os_wf :: "os_node \<Rightarrow> bool" where
  "os_wf (OsDir m entries) \<longleftrightarrow>
     distinct (map fst entries) \<and> list_all (\<lambda>e. plain_segment (fst e) \<and> os_wf (snd e)) entries"
| "os_wf n \<longleftrightarrow> True"

inductive ov_under :: "overlay \<Rightarrow> overlay \<Rightarrow> bool" where
  here: "ov_under v v"
| child: "ov_under v p \<Longrightarrow> q \<in> set (ov_iterdir p) \<Longrightarrow> ov_under v q"

text \<open>A search directory: the root \<^verbatim>\<open>.\<close> over a directory of the real file system.\<close>

definition base_path :: "bool \<Rightarrow> string list \<Rightarrow> string" where
  "base_path absolute segs = (if absolute then ''/'' else []) @ join ''/'' segs"

definition search_root :: "overlay \<Rightarrow> bool" where
  "search_root r \<longleftrightarrow>
     ov_path r = ''.'' \<and> ov_parent r = None \<and> (case ov_os r of None \<Rightarrow> True | Some n \<Rightarrow> os_wf n) \<and>
     (ov_fs_path r = ''.'' \<or>
      (\<exists>absolute segs. segs \<noteq> [] \<and> list_all plain_segment segs \<and> ov_fs_path r = base_path absolute segs))"

definition names_path :: "string list \<Rightarrow> string" where
  "names_path ns = (if ns = [] then ''.'' else join ''/'' ns)"

fun ov_descend :: "overlay \<Rightarrow> string list \<Rightarrow> overlay option" where
  "ov_descend v [] = Some v"
| "ov_descend v (n # ns) = Option.bind (map_of (resolved_children v) n) (\<lambda>c. ov_descend c ns)"

lemma ov_descend_append: "ov_descend v (as @ bs) = Option.bind (ov_descend v as) (\<lambda>w. ov_descend w bs)"
  by (induction as arbitrary: v) (auto split: bind_splits)

lemma normalize_plain:
  assumes segs: "segs \<noteq> []" "list_all plain_segment segs"
  shows "normalize_path (base_path a segs) False = Inr (join ''/'' segs)"
proof -
  let ?q = "join ''/'' segs"
  note e = plain_join_ends[OF segs]
  have "lstrip (\<lambda>c. c = slash) (base_path a segs) = ?q"
    using e by (simp add: base_path_def lstrip_id) (simp add: lstrip_def dropWhile_eq_self_iff)
  then have s: "strip (\<lambda>c. c = slash) (base_path a segs) = ?q"
    using e by (simp add: strip_def rstrip_id)
  have split: "split_on slash ?q = segs" by (rule split_plain_join[OF segs])
  have nd: "\<not> infix_of ''//'' ?q"
    using split segs(2) by (intro no_double_slash) (auto simp: list_all_iff plain_segment_def)
  have ns: "\<not> startswith ?q ''./''"
  proof
    assume "startswith ?q ''./''"
    then obtain r where "?q = ''.'' @ slash # r" by (auto simp: startswith_iff)
    then have "split_on slash ?q = ''.'' # split_on slash r" by simp
    with split segs(2) show False by (auto simp: plain_segment_def)
  qed
  have "?q \<noteq> ''.''" using split segs by (auto simp: plain_segment_def)
  moreover have "clean_path ?q = Inr ?q"
    using ns slash_prune_id[OF nd] split segs(2)
    by (auto simp: clean_path_def Let_def list_all_iff plain_segment_def)
  ultimately show ?thesis using s e ns by (simp add: normalize_path_def Let_def)
qed

lemma child_of_plain:
  assumes "list_all plain_segment segs" "plain_segment n"
    and "ov_fs_path v = (if segs = [] then ''.'' else base_path a segs)"
  shows "ov_fs_path (new_child v (n, x)) = base_path (a \<and> segs \<noteq> []) (segs @ [n])"
    and "ov_path (new_child v (n, x)) = (if ov_path v = ''.'' then n else path_join (ov_path v) n)"
proof -
  let ?b = "base_path (a \<and> segs \<noteq> []) (segs @ [n])"
  have n: "n \<noteq> []" "n \<noteq> ''.''" and h: "hd n \<noteq> slash"
    using assms(2) hd_in_set[of n] unfolding plain_segment_def by metis+
  then have ns: "\<not> startswith n ''/''" by (simp add: startswith_single)
  have fs: "(if ov_fs_path v \<noteq> ''.'' then path_join (ov_fs_path v) n else n) = ?b"
  proof (cases "segs = []")
    case True
    with assms(3) show ?thesis by (simp add: base_path_def)
  next
    case False
    note e = plain_join_ends[OF False assms(1)]
    have "split_on slash (join ''/'' segs) = segs" by (rule split_plain_join[OF False assms(1)])
    then have "join ''/'' segs \<noteq> ''.''" using False assms(1) by (auto simp: plain_segment_def)
    moreover have "\<not> endswith (join ''/'' segs) ''/''" "\<not> endswith (slash # join ''/'' segs) ''/''"
      using e by (auto simp: endswith_single)
    ultimately show ?thesis
      using False assms(3) e n ns by (auto simp: base_path_def path_join_def join_append)
  qed
  have pl: "list_all plain_segment (segs @ [n])" using assms(1,2) by simp
  have "startswith ?b ''/'' \<longleftrightarrow> a \<and> segs \<noteq> []"
    using plain_join_ends[of "segs @ [n]"] pl by (auto simp: base_path_def startswith_single)
  moreover have "normalize_path ?b False = Inr (join ''/'' (segs @ [n]))"
    by (rule normalize_plain) (use pl in simp_all)
  ultimately show "ov_fs_path (new_child v (n, x)) = ?b"
    using fs by (auto simp: new_child_def Let_def new_overlay_def base_path_def)
  show "ov_path (new_child v (n, x)) = (if ov_path v = ''.'' then n else path_join (ov_path v) n)"
    by (auto simp: new_child_def Let_def new_overlay_def rmap_def rbind_def split: sum.splits)
qed


definition ov_os_wf :: "overlay \<Rightarrow> bool" where
  "ov_os_wf v \<longleftrightarrow> (case ov_os v of None \<Rightarrow> True | Some n \<Rightarrow> os_wf n)"

lemma resolved_children_member:
  assumes "ov_os_wf v" and "(n, c) \<in> set (resolved_children v)"
  shows "plain_segment n" and "\<exists>x. c = new_child v (n, x) \<and> os_wf x" and "ov_os_wf c" and "ov_is_dir v"
proof -
  have "\<exists>m es. ov_os v = Some (OsDir m es)"
    using assms(2) by (cases "ov_os v"; cases "the (ov_os v)") (auto simp: resolved_children_def)
  then obtain m es where es: "ov_os v = Some (OsDir m es)" by blast
  with assms(2) obtain e where e: "e \<in> set es" "n = fst e" "c = new_child v e"
    by (auto simp: resolved_children_def)
  moreover have "plain_segment (fst e) \<and> os_wf (snd e)"
    using assms(1) es e(1) by (auto simp: ov_os_wf_def list_all_iff)
  ultimately show "plain_segment n" and "\<exists>x. c = new_child v (n, x) \<and> os_wf x" and "ov_os_wf c"
    by (auto simp: ov_os_wf_def intro: exI[of _ "snd e"])
  show "ov_is_dir v" using es by (simp add: ov_is_dir_def)
qed

lemma resolved_children_distinct: "ov_os_wf v \<Longrightarrow> distinct (map fst (resolved_children v))"
proof -
  assume w: "ov_os_wf v"
  have "distinct (map fst (sort_key k es))" if "distinct (map fst es)" for k :: "string \<times> os_node \<Rightarrow> string" and es
  proof -
    have "inj_on fst (set es)" "distinct es" using that by (simp_all add: distinct_map)
    then show ?thesis by (simp add: distinct_map)
  qed
  with w show ?thesis
    by (auto simp: ov_os_wf_def resolved_children_def comp_def split: option.splits os_node.splits)
qed

lemma child_parent: "q \<in> set (ov_iterdir p) \<Longrightarrow> ov_parent q = Some p"
  by (auto simp: ov_iterdir_def resolved_children_def split: option.splits os_node.splits)

lemma descend_props:
  assumes r: "search_root r" and s: "list_all plain_segment segs" "ov_fs_path r = (if segs = [] then ''.'' else base_path a segs)"
  shows "ov_descend r ns = Some q \<Longrightarrow> ov_os_wf q \<and> list_all plain_segment ns \<and> ov_path q = names_path ns
    \<and> ov_fs_path q = (if segs @ ns = [] then ''.'' else base_path (a \<and> segs \<noteq> []) (segs @ ns))"
proof (induction ns arbitrary: q rule: rev_induct)
  case Nil
  then show ?case using r s by (auto simp: search_root_def ov_os_wf_def names_path_def)
next
  case (snoc n ns)
  from snoc.prems obtain p where p: "ov_descend r ns = Some p" "map_of (resolved_children p) n = Some q"
    by (auto simp: ov_descend_append bind_eq_Some_conv)
  note ih = snoc.IH[OF p(1)]
  have m: "(n, q) \<in> set (resolved_children p)" using p(2) by (rule map_of_SomeD)
  note c = resolved_children_member[OF _ m]
  from ih c(2) obtain x where x: "q = new_child p (n, x)" by blast
  from ih c(1) have n: "plain_segment n" by blast
  have "ov_fs_path q = base_path (a \<and> segs \<noteq> []) (segs @ ns @ [n])"
    using child_of_plain(1)[of "segs @ ns" n p "a \<and> segs \<noteq> []" x] ih s n x
    by (cases "segs = []") auto
  moreover have "ov_path q = names_path (ns @ [n])"
  proof (cases "ns = []")
    case True
    with ih have "ov_path p = ''.''" by (simp add: names_path_def)
    then show ?thesis unfolding x using True
      child_of_plain(2)[of "[]" n "FSROOverlay ''.'' ''.'' None None" False x]
      by (auto simp: names_path_def new_child_def Let_def new_overlay_def rmap_def rbind_def split: sum.splits)
  next
    case False
    have "split_on slash (join ''/'' ns) = ns" using split_plain_join[OF False] ih by blast
    then have "join ''/'' ns \<noteq> ''.''" using False ih by (auto simp: plain_segment_def)
    moreover have "\<not> startswith n ''/''" using n hd_in_set[of n] unfolding plain_segment_def startswith_single by metis
    moreover have "\<not> endswith (join ''/'' ns) ''/''" "join ''/'' ns \<noteq> []"
      using plain_join_ends[OF False] ih by (auto simp: endswith_single)
    ultimately show ?thesis unfolding x using False ih
      by (auto simp: names_path_def new_child_def Let_def new_overlay_def rmap_def rbind_def path_join_def join_append
          split: sum.splits)
  qed
  ultimately show ?case using ih n c(3) by simp
qed

lemma search_root_segs:
  assumes "search_root r"
  obtains a segs where "list_all plain_segment segs" "ov_fs_path r = (if segs = [] then ''.'' else base_path a segs)"
proof (cases "ov_fs_path r = ''.''")
  case True
  then show ?thesis using that[of "[]" False] by simp
next
  case False
  with assms obtain a segs where "segs \<noteq> []" "list_all plain_segment segs" "ov_fs_path r = base_path a segs"
    unfolding search_root_def by blast
  then show ?thesis using that by auto
qed

lemma descend_os_wf: "search_root r \<Longrightarrow> ov_descend r ns = Some q \<Longrightarrow> ov_os_wf q"
  using descend_props search_root_segs by metis

lemma under_descend:
  assumes "search_root r"
  shows "ov_under r q \<longleftrightarrow> (\<exists>ns. ov_descend r ns = Some q)"
proof
  assume "ov_under r q"
  from this assms show "\<exists>ns. ov_descend r ns = Some q"
  proof (induction rule: ov_under.induct)
    case (here v)
    then show ?case by (auto intro: exI[of _ "[]"])
  next
    case (child v p q)
    then obtain ns where ns: "ov_descend v ns = Some p" by blast
    obtain n where n: "(n, q) \<in> set (resolved_children p)" using child.hyps(2) by (auto simp: ov_iterdir_def)
    have "map_of (resolved_children p) n = Some q"
      using n resolved_children_distinct[OF descend_os_wf[OF child.prems ns]] by simp
    with ns have "ov_descend v (ns @ [n]) = Some q" by (simp add: ov_descend_append)
    then show ?case by blast
  qed
next
  have "ov_descend r ns = Some q \<Longrightarrow> ov_under r q" for ns
  proof (induction ns arbitrary: q rule: rev_induct)
    case (snoc n ns)
    then obtain p where "ov_descend r ns = Some p" "map_of (resolved_children p) n = Some q"
      by (auto simp: ov_descend_append bind_eq_Some_conv)
    moreover from this(2) have "q \<in> set (ov_iterdir p)"
      using map_of_SomeD by (force simp: ov_iterdir_def)
    ultimately show ?case using snoc.IH ov_under.child by blast
  qed (simp add: ov_under.here)
  then show "\<exists>ns. ov_descend r ns = Some q \<Longrightarrow> ov_under r q" by blast
qed

lemma join_not_dot: "ks \<noteq> [] \<Longrightarrow> list_all plain_segment ks \<Longrightarrow> join ''/'' ks \<noteq> ''.''"
proof
  assume k: "ks \<noteq> []" "list_all plain_segment ks" and "join ''/'' ks = ''.''"
  then have "ks = [''.'']" using split_plain_join[of ks] by simp
  with k show False by (simp add: plain_segment_def)
qed

lemma base_path_not_dot: "ks \<noteq> [] \<Longrightarrow> list_all plain_segment ks \<Longrightarrow> base_path b ks \<noteq> ''.''"
  using join_not_dot by (simp add: base_path_def)

lemma base_path_inj:
  assumes "ks \<noteq> []" "ms \<noteq> []" "list_all plain_segment ks" "list_all plain_segment ms" "base_path b ks = base_path b ms"
  shows "ks = ms"
proof -
  have "join ''/'' ks = join ''/'' ms" using assms(5) by (simp add: base_path_def)
  then show ?thesis using split_plain_join assms(1-4) by metis
qed

text \<open>No two objects below a search directory have the same path in the real file system.\<close>

lemma under_fs_path_inj:
  assumes r: "search_root r" and "ov_under r p" "ov_under r q" and eq: "ov_fs_path p = ov_fs_path q"
  shows "p = q"
proof -
  obtain a segs where s: "list_all plain_segment segs" "ov_fs_path r = (if segs = [] then ''.'' else base_path a segs)"
    using r by (rule search_root_segs)
  obtain ns ms where d: "ov_descend r ns = Some p" "ov_descend r ms = Some q"
    using assms(2,3) under_descend[OF r] by blast
  note p = descend_props[OF r s d(1)] and q = descend_props[OF r s d(2)]
  have "segs @ ns = segs @ ms"
  proof (cases "segs @ ns = [] \<or> segs @ ms = []")
    case True
    with p q eq s(1) base_path_not_dot[of "segs @ ns"] base_path_not_dot[of "segs @ ms"] show ?thesis
      by (auto split: if_splits)
  next
    case False
    then have n: "segs @ ns \<noteq> []" "segs @ ms \<noteq> []" by blast+
    have "base_path (a \<and> segs \<noteq> []) (segs @ ns) = base_path (a \<and> segs \<noteq> []) (segs @ ms)"
      using p q eq unfolding if_not_P[OF n(1)] if_not_P[OF n(2)] by simp
    then show ?thesis using False p q s(1) by (intro base_path_inj) auto
  qed
  with d show ?thesis by simp
qed


subsection \<open>The walk visits every object once\<close>

lemma under_trans: "ov_under q x \<Longrightarrow> ov_under p q \<Longrightarrow> ov_under p x"
  by (induction rule: ov_under.induct) (auto intro: ov_under.child)

lemma under_cases: "ov_under v q \<longleftrightarrow> q = v \<or> (\<exists>c \<in> set (ov_iterdir v). ov_under c q)"
proof
  show "ov_under v q \<Longrightarrow> q = v \<or> (\<exists>c \<in> set (ov_iterdir v). ov_under c q)"
    by (induction rule: ov_under.induct) (auto intro: ov_under.intros)
  assume "q = v \<or> (\<exists>c \<in> set (ov_iterdir v). ov_under c q)"
  then show "ov_under v q"
  proof
    assume "\<exists>c \<in> set (ov_iterdir v). ov_under c q"
    then obtain c where c: "c \<in> set (ov_iterdir v)" "ov_under c q" by blast
    then have "ov_under v c" using ov_under.child[OF ov_under.here] by blast
    with c(2) show ?thesis by (rule under_trans)
  qed (simp add: ov_under.here)
qed

lemma walk_set: "set (ov_walk stack) = {q. \<exists>v \<in> set stack. ov_under v q}"
proof (induction stack rule: ov_walk.induct)
  case (2 current stack)
  have "q \<in> set (ov_walk (current # stack)) \<longleftrightarrow> (\<exists>v \<in> set (current # stack). ov_under v q)" for q
    using 2 under_cases[of current q] by auto
  then show ?case by auto
qed simp

lemma all_paths_set: "set (ov_all_paths v) = {q. ov_under v q}"
proof (cases "ov_is_dir v")
  case True
  then show ?thesis using under_cases[of v] by (auto simp: ov_all_paths_def walk_set)
next
  case False
  then have "ov_iterdir v = []"
    by (auto simp: ov_is_dir_def ov_iterdir_def resolved_children_def split: option.splits os_node.splits)
  then show ?thesis using False under_cases[of v] by (auto simp: ov_all_paths_def)
qed

fun ov_chain :: "overlay \<Rightarrow> overlay list" where
  "ov_chain (FSROOverlay p f parent n) =
     FSROOverlay p f parent n # (case parent of None \<Rightarrow> [] | Some q \<Rightarrow> ov_chain q)"

lemma chain_Cons: "ov_chain v = v # (case ov_parent v of None \<Rightarrow> [] | Some q \<Rightarrow> ov_chain q)"
  by (cases v) simp

lemma under_chain: "ov_under v q \<Longrightarrow> \<exists>k. ov_chain q = k @ ov_chain v"
proof (induction rule: ov_under.induct)
  case (child v p q)
  then show ?case using chain_Cons[of q] child_parent[of q p] by (metis append_Cons option.simps(5))
qed simp

lemma walk_append: "ov_walk (xs @ ys) = ov_walk xs @ ov_walk ys"
  by (induction xs rule: ov_walk.induct) simp_all

lemma all_paths_walk: "ov_all_paths v = ov_walk [v]"
proof (cases "ov_is_dir v")
  case False
  then have "ov_iterdir v = []"
    by (auto simp: ov_is_dir_def ov_iterdir_def resolved_children_def split: option.splits os_node.splits)
  with False show ?thesis by (simp add: ov_all_paths_def)
qed (simp add: ov_all_paths_def)

text \<open>An object comes before what is below it, and the subtrees of its entries follow one after the other.\<close>

lemma all_paths_preorder: "ov_all_paths v = v # concat (map ov_all_paths (ov_iterdir v))"
proof -
  have "ov_walk vs = concat (map ov_all_paths vs)" for vs
  proof (induction vs)
    case (Cons v vs)
    have "ov_walk (v # vs) = ov_walk [v] @ ov_walk vs" using walk_append[of "[v]" vs] by (simp only: append_Cons append_Nil)
    with Cons show ?case by (simp only: all_paths_walk list.map concat.simps)
  qed simp
  from this[of "ov_iterdir v"] show ?thesis unfolding all_paths_walk[of v] by simp
qed

lemma iterdir_sorted:
  assumes "ov_os_wf v"
  shows "sorted (map ov_name (ov_iterdir v))"
proof -
  have nm: "ov_name c = n" if "(n, c) \<in> set (resolved_children v)" for n c
  proof -
    note c = resolved_children_member[OF assms that]
    have ns: "slash \<notin> set n" using c(1) by (simp add: plain_segment_def)
    obtain x where "c = new_child v (n, x)" using c(2) by blast
    then have "ov_path c = (if ov_path v \<noteq> ''.'' then path_join (ov_path v) n else n)"
      by (auto simp: new_child_def Let_def new_overlay_def rmap_def rbind_def split: sum.splits)
    moreover have "path_tail (path_join d n) = n" for d
    proof -
      have "\<not> startswith n ''/''" using ns by (cases n) (auto simp: startswith_single)
      then show ?thesis using ns path_tail_append[OF ns] path_tail_plain[OF ns]
        by (auto simp: path_join_def endswith_single) (metis append_butlast_last_id append_assoc append_Cons append_Nil)
    qed
    ultimately show ?thesis using path_tail_plain[OF ns] by (simp add: ov_name_def)
  qed
  have "map ov_name (ov_iterdir v) = map fst (resolved_children v)"
    unfolding ov_iterdir_def map_map using nm by (intro map_cong refl) auto
  moreover have "sorted (map fst (resolved_children v))"
  proof (cases "ov_os v")
    case (Some n)
    show ?thesis
    proof (cases n)
      case (OsDir m es)
      have "path_tail (fst e) = fst e" if "e \<in> set es" for e
        using that assms Some OsDir by (intro path_tail_plain) (auto simp: ov_os_wf_def list_all_iff plain_segment_def)
      then have "map fst (resolved_children v) = map (\<lambda>e. path_tail (fst e)) (sort_key (\<lambda>e. path_tail (fst e)) es)"
        using Some OsDir by (auto simp: resolved_children_def comp_def)
      then show ?thesis by simp
    qed (use Some in \<open>simp_all add: resolved_children_def\<close>)
  qed (simp add: resolved_children_def)
  ultimately show ?thesis by simp
qed

lemma siblings_disjoint:
  assumes "a \<in> set (ov_iterdir v)" "b \<in> set (ov_iterdir v)" "ov_under a q" "ov_under b q"
  shows "a = b"
proof -
  have l: "ov_chain a = a # ov_chain v" "ov_chain b = b # ov_chain v"
    using assms(1,2) chain_Cons child_parent by (metis option.simps(5))+
  obtain j k where "ov_chain q = j @ ov_chain a" "ov_chain q = k @ ov_chain b"
    using assms(3,4) under_chain by blast
  then have "j @ a # ov_chain v = k @ b # ov_chain v" using l by simp
  then have "(j @ [a]) @ ov_chain v = (k @ [b]) @ ov_chain v" by simp
  then show ?thesis by blast
qed

lemma not_under_own_child: "c \<in> set (ov_iterdir v) \<Longrightarrow> \<not> ov_under c v"
proof
  assume "c \<in> set (ov_iterdir v)" "ov_under c v"
  then obtain k where "ov_chain v = k @ c # ov_chain v"
    using under_chain[of c v] chain_Cons[of c] child_parent[of c v] by (metis option.simps(5))
  then have "length (ov_chain v) = length (k @ c # ov_chain v)" by simp
  then show False by simp
qed

lemma iterdir_distinct:
  assumes "ov_os_wf v"
  shows "distinct (ov_iterdir v)"
proof -
  have "inj_on snd (set (resolved_children v))"
  proof (rule inj_onI)
    fix x y
    assume xy: "x \<in> set (resolved_children v)" "y \<in> set (resolved_children v)" "snd x = snd y"
    obtain n c m d where nm: "x = (n, c)" "y = (m, d)" by (cases x; cases y)
    note px = resolved_children_member[OF assms, of n c] and py = resolved_children_member[OF assms, of m d]
    obtain w z where wz: "c = new_child v (n, w)" "d = new_child v (m, z)" using px py xy nm by blast
    have p: "ov_path (new_child v (k, u)) = (if ov_path v \<noteq> ''.'' then path_join (ov_path v) k else k)" for k u
      by (auto simp: new_child_def Let_def new_overlay_def rmap_def rbind_def split: sum.splits)
    have "path_join (ov_path v) k = path_join (ov_path v) l \<longleftrightarrow> k = l" if "plain_segment k" "plain_segment l" for k l
    proof -
      have "\<not> startswith k ''/''" "\<not> startswith l ''/''"
        using that hd_in_set[of k] hd_in_set[of l] unfolding plain_segment_def startswith_single by metis+
      then show ?thesis by (simp add: path_join_def)
    qed
    moreover have "plain_segment n" "plain_segment m" using px py xy nm by blast+
    moreover have "ov_path c = ov_path d" using xy(3) nm by simp
    ultimately have "n = m" unfolding wz p by (simp split: if_splits)
    with xy(3) nm show "x = y" by simp
  qed
  moreover have "distinct (resolved_children v)"
    using resolved_children_distinct[OF assms] by (simp add: distinct_map)
  ultimately show ?thesis by (simp add: ov_iterdir_def distinct_map)
qed

lemma walk_distinct:
  assumes "\<And>v. v \<in> set stack \<Longrightarrow> ov_os_wf v" and "distinct stack"
    and "\<And>a b q. a \<in> set stack \<Longrightarrow> b \<in> set stack \<Longrightarrow> ov_under a q \<Longrightarrow> ov_under b q \<Longrightarrow> a = b"
  shows "distinct (ov_walk stack)"
  using assms
proof (induction stack rule: ov_walk.induct)
  case (2 current stack)
  let ?cs = "ov_iterdir current"
  have cu: "ov_under current c" if "c \<in> set ?cs" for c using that ov_under.child[OF ov_under.here] by blast
  have cwf: "ov_os_wf c" if "c \<in> set ?cs" for c
    using that 2(2)[of current] resolved_children_member(3)[of current] by (auto simp: ov_iterdir_def)
  have out: "\<not> ov_under b q" if "b \<in> set stack" "ov_under current q" for b q
    using 2(4)[of current b q] 2(3) that by auto
  have "distinct (ov_walk (?cs @ stack))"
  proof (rule 2(1))
    show "ov_os_wf v" if "v \<in> set (?cs @ stack)" for v using that cwf 2(2) by auto
    show "distinct (?cs @ stack)"
      using iterdir_distinct[OF 2(2)[of current]] 2(3) out cu ov_under.here by auto
    show "a = b" if "a \<in> set (?cs @ stack)" "b \<in> set (?cs @ stack)" "ov_under a q" "ov_under b q" for a b q
    proof -
      have cc: "a = b" if "a \<in> set ?cs" "b \<in> set ?cs" using siblings_disjoint that \<open>ov_under a q\<close> \<open>ov_under b q\<close> by blast
      have "ov_under current q" if "c \<in> set ?cs" "ov_under c q" for c using under_trans[OF that(2) cu[OF that(1)]] .
      then show ?thesis using that cc out 2(4)[of a b q] by auto
    qed
  qed
  moreover have "current \<notin> set (ov_walk (?cs @ stack))"
    using not_under_own_child out[OF _ ov_under.here] by (auto simp: walk_set)
  ultimately show ?case by simp
qed simp

lemma all_paths_distinct:
  assumes "ov_os_wf v"
  shows "distinct (ov_all_paths v)"
proof -
  have "distinct (ov_walk [v])"
  proof (rule walk_distinct)
    show "\<And>w. w \<in> set [v] \<Longrightarrow> ov_os_wf w" using assms by simp
  qed simp_all
  then show ?thesis by (simp add: ov_all_paths_def)
qed


subsection \<open>The source of an installation\<close>

text \<open>What the installation calls of the paths of a search directory, beside the interface of the matcher.\<close>

record 'p src_ops = "'p path_ops" +
  op_path :: "'p \<Rightarrow> string"
  op_fs_path :: "'p \<Rightarrow> string"
  op_parent :: "'p \<Rightarrow> 'p option"
  op_readlink :: "'p \<Rightarrow> string res"
  op_mode :: "'p \<Rightarrow> int res"
  op_content :: "'p \<Rightarrow> string res"

text \<open>What \<^verbatim>\<open>open(path.fs_path)\<close> reads: through a link, too.\<close>

definition ov_content :: "overlay \<Rightarrow> string res" where
  "ov_content v =
     (case ov_os v of
        Some (OsFile _ c) \<Rightarrow> Inr c
      | Some (OsLink _ (Some c)) \<Rightarrow> Inr c
      | Some (OsSpecial _ (Some c)) \<Rightarrow> Inr c
      | _ \<Rightarrow> Inl OSErr)"

definition ov_ops :: "overlay src_ops" where
  "ov_ops =
     \<lparr> op_lookup = ov_lookup, op_all_paths = (\<lambda>v. Inr (ov_all_paths v)), op_iterdir = ov_iterdir,
       op_name = ov_name, op_is_dir = ov_is_dir, op_is_file = ov_is_file, op_is_symlink = ov_is_symlink,
       op_is_root = (\<lambda>v. ov_parent v = None),
       op_path = ov_path, op_fs_path = ov_fs_path, op_parent = ov_parent, op_readlink = ov_readlink,
       op_mode = ov_mode, op_content = ov_content \<rparr>"

text \<open>
  The laws of such a source, beside those of a tree: \<open>chain p\<close> are \<open>p\<close> and its parents up to the root, the
  parent of a path is in the tree and lists it, the children of a path have it as their parent, what is
  under a path has it in its chain, and no two paths share their path in the real file system.
\<close>

locale source_tree = path_tree ops valid under
  for ops :: "('p, 'm) src_ops_scheme" and valid :: "'p \<Rightarrow> bool" and under :: "'p \<Rightarrow> 'p \<Rightarrow> bool" +
  fixes chain :: "'p \<Rightarrow> 'p list"
  assumes parent_law: "valid p \<Longrightarrow> op_parent ops p = Some q \<Longrightarrow> valid q \<and> p \<in> set (op_iterdir ops q)"
    and chain_law: "valid p \<Longrightarrow> chain p = p # (case op_parent ops p of None \<Rightarrow> [] | Some q \<Rightarrow> chain q)"
    and child_law: "valid p \<Longrightarrow> q \<in> set (op_iterdir ops p) \<Longrightarrow> op_parent ops q = Some p \<and> op_is_dir ops p"
    and children_distinct_law: "valid p \<Longrightarrow> distinct (op_iterdir ops p)"
    and under_chain_law: "valid p \<Longrightarrow> valid q \<Longrightarrow> under p q \<longleftrightarrow> p \<in> set (chain q)"
    and fs_path_law: "valid p \<Longrightarrow> valid q \<Longrightarrow> op_fs_path ops p = op_fs_path ops q \<Longrightarrow> p = q"
begin

lemma child_valid: "valid p \<Longrightarrow> q \<in> set (op_iterdir ops p) \<Longrightarrow> valid q"
  using iterdir_law under_law by blast

lemma chain_suffix: "valid q \<Longrightarrow> x \<in> set (chain q) \<Longrightarrow> valid x \<and> (\<exists>k. chain q = k @ chain x)"
proof (induction "length (chain q)" arbitrary: q rule: less_induct)
  case less
  note q = less.prems(1)
  show ?case
  proof (cases "x = q")
    case True
    then show ?thesis using q by (auto intro: exI[of _ "[]"])
  next
    case False
    then obtain p where p: "op_parent ops q = Some p" "x \<in> set (chain p)"
      using less.prems chain_law[OF q] by (auto split: option.splits)
    have v: "valid p" and c: "chain q = q # chain p" using parent_law[OF q p(1)] chain_law[OF q] p(1) by simp_all
    from less.hyps[OF _ v p(2)] c obtain k where "valid x" "chain p = k @ chain x" by auto
    then show ?thesis using c by (auto intro: exI[of _ "q # k"])
  qed
qed

lemma under_step: "valid p \<Longrightarrow> under p q \<longleftrightarrow> q = p \<or> (\<exists>c \<in> set (op_iterdir ops p). under c q)"
proof
  assume v: "valid p" and u: "under p q"
  then have q: "valid q" and p: "p \<in> set (chain q)" using under_law under_chain_law by blast+
  from q p show "q = p \<or> (\<exists>c \<in> set (op_iterdir ops p). under c q)"
  proof (induction "length (chain q)" arbitrary: q rule: less_induct)
    case less
    note q = less.prems(1)
    show ?case
    proof (cases "q = p")
      case False
      then obtain r where r: "op_parent ops q = Some r" "p \<in> set (chain r)"
        using less.prems chain_law[OF q] by (auto split: option.splits)
      have vr: "valid r" and cq: "q \<in> set (op_iterdir ops r)" "chain q = q # chain r"
        using parent_law[OF q r(1)] chain_law[OF q] r(1) by simp_all
      have step: "under c q" if "valid c" "c \<in> set (chain r)" for c
        using that under_chain_law[OF that(1) q] cq(2) by simp
      have "r = p \<or> (\<exists>c \<in> set (op_iterdir ops p). under c r)" using less.hyps[OF _ vr r(2)] cq by simp
      then show ?thesis
      proof
        assume "r = p"
        then show ?thesis using cq(1) q under_chain_law[OF q q] chain_law[OF q] by auto
      next
        assume "\<exists>c \<in> set (op_iterdir ops p). under c r"
        then obtain c where c: "c \<in> set (op_iterdir ops p)" "under c r" by blast
        then have "valid c" using child_valid[OF v] by blast
        then show ?thesis using c step under_chain_law[OF _ vr] by blast
      qed
    qed simp
  qed
next
  assume v: "valid p" and alt: "q = p \<or> (\<exists>c \<in> set (op_iterdir ops p). under c q)"
  from alt show "under p q"
  proof
    assume "q = p"
    then show ?thesis using under_chain_law[OF v v] chain_law[OF v] by simp
  next
    assume "\<exists>c \<in> set (op_iterdir ops p). under c q"
    then obtain c where c: "c \<in> set (op_iterdir ops p)" "under c q" by blast
    then have vc: "valid c" and vq: "valid q" using child_valid[OF v] under_law by blast+
    then have "c \<in> set (chain q)" using under_chain_law c(2) by blast
    then obtain k where "chain q = k @ chain c" using chain_suffix[OF vq] by blast
    moreover have "chain c = c # chain p" using chain_law[OF vc] child_law[OF v c(1)] by simp
    moreover have "p \<in> set (chain p)" using chain_law[OF v] by simp
    ultimately show ?thesis using under_chain_law[OF v vq] by simp
  qed
qed

lemma siblings_apart:
  assumes v: "valid p" and "a \<in> set (op_iterdir ops p)" "b \<in> set (op_iterdir ops p)" "under a q" "under b q"
  shows "a = b"
proof -
  have va: "valid a" "valid b" "valid q" using assms child_valid under_law by blast+
  have l: "chain a = a # chain p" "chain b = b # chain p"
    using chain_law[OF va(1)] chain_law[OF va(2)] child_law[OF v assms(2)] child_law[OF v assms(3)] by simp_all
  have "a \<in> set (chain q)" "b \<in> set (chain q)" using under_chain_law va assms(4,5) by simp_all
  then obtain j k where "chain q = j @ chain a" "chain q = k @ chain b"
    using chain_suffix[OF va(3)] by blast
  then have "(j @ [a]) @ chain p = (k @ [b]) @ chain p" using l by simp
  then show ?thesis by blast
qed

lemma finite_under: "valid p \<Longrightarrow> finite {q. under p q}"
  using all_paths_law[of p] by (metis List.finite_set)

lemma not_under_child: "valid p \<Longrightarrow> c \<in> set (op_iterdir ops p) \<Longrightarrow> \<not> under c p"
proof
  assume v: "valid p" and c: "c \<in> set (op_iterdir ops p)" "under c p"
  have vc: "valid c" using child_valid[OF v c(1)] .
  then obtain k where "chain p = k @ chain c" using chain_suffix[OF v] under_chain_law[OF vc v] c(2) by blast
  moreover have "chain c = c # chain p" using chain_law[OF vc] child_law[OF v c(1)] by simp
  ultimately have "length (chain p) = length (k @ c # chain p)" by simp
  then show False by simp
qed

text \<open>The subtrees of the children take up less than the subtree of the path.\<close>

lemma children_count:
  assumes v: "valid p"
  shows "(\<Sum>c \<leftarrow> op_iterdir ops p. card {q. under c q}) < card {q. under p q}"
proof -
  let ?cs = "op_iterdir ops p"
  have "(\<Sum>c \<leftarrow> ?cs. card {q. under c q}) = (\<Sum>c \<in> set ?cs. card {q. under c q})"
    using children_distinct_law[OF v] by (simp add: sum_list_distinct_conv_sum_set)
  also have "\<dots> = card (\<Union>c \<in> set ?cs. {q. under c q})"
  proof (rule card_UN_disjoint[symmetric])
    show "\<forall>c \<in> set ?cs. finite {q. under c q}" using finite_under child_valid[OF v] by blast
    show "\<forall>a \<in> set ?cs. \<forall>b \<in> set ?cs. a \<noteq> b \<longrightarrow> {q. under a q} \<inter> {q. under b q} = {}"
      using siblings_apart[OF v] by blast
  qed simp
  also have "\<dots> < card {q. under p q}"
  proof (rule psubset_card_mono)
    have "p \<notin> (\<Union>c \<in> set ?cs. {q. under c q})" using not_under_child[OF v] by auto
    then show "(\<Union>c \<in> set ?cs. {q. under c q}) \<subset> {q. under p q}" using under_step[OF v] by auto
  qed (rule finite_under[OF v])
  finally show ?thesis .
qed

lemma fs_path_eq: "valid p \<Longrightarrow> valid q \<Longrightarrow> op_fs_path ops p = op_fs_path ops q \<longleftrightarrow> p = q"
  using fs_path_law by blast

end

definition ov_valid :: "overlay \<Rightarrow> overlay \<Rightarrow> bool" where
  "ov_valid r v \<longleftrightarrow> search_root r \<and> ov_under r v"

lemma valid_os_wf: "ov_valid r v \<Longrightarrow> ov_os_wf v"
  unfolding ov_valid_def using under_descend descend_os_wf by blast

lemma parent_is_dir: "c \<in> set (ov_iterdir p) \<Longrightarrow> ov_is_dir p"
  by (cases "ov_os p"; cases "the (ov_os p)") (simp_all add: ov_is_dir_def ov_iterdir_def resolved_children_def)

lemma valid_parent:
  assumes "ov_valid r v" and "ov_parent v = Some p"
  shows "ov_valid r p \<and> v \<in> set (ov_iterdir p)"
proof -
  from assms have "ov_under r v" "search_root r" by (simp_all add: ov_valid_def)
  then show ?thesis using assms(2)
  proof (cases rule: ov_under.cases)
    case (child p')
    then show ?thesis using assms child_parent[of v p'] by (simp add: ov_valid_def)
  qed (simp add: search_root_def)
qed

lemma valid_child: "ov_valid r v \<Longrightarrow> c \<in> set (ov_iterdir v) \<Longrightarrow> ov_valid r c"
  unfolding ov_valid_def using ov_under.child by blast

lemma under_iff_chain:
  assumes "ov_valid r q"
  shows "ov_under p q \<longleftrightarrow> p \<in> set (ov_chain q)"
proof
  assume "ov_under p q"
  then show "p \<in> set (ov_chain q)" using under_chain chain_Cons[of p] by fastforce
next
  show "p \<in> set (ov_chain q) \<Longrightarrow> ov_under p q" using assms
  proof (induction q)
    case (FSROOverlay a f parent n)
    let ?q = "FSROOverlay a f parent n"
    show ?case
    proof (cases "p = ?q")
      case False
      with FSROOverlay.prems(1) obtain s where s: "parent = Some s" "p \<in> set (ov_chain s)" by (cases parent) auto
      with FSROOverlay.prems(2) valid_parent[of r ?q s] have "ov_valid r s" "?q \<in> set (ov_iterdir s)" by simp_all
      with FSROOverlay.IH[of s] s show ?thesis using ov_under.child by auto
    qed (simp add: ov_under.here)
  qed
qed

lemma ov_root_chain: "ov_root v = last (ov_chain v)"
proof (induction v)
  case (FSROOverlay p f parent n)
  then show ?case
    by (cases parent) (auto simp: chain_Cons)
qed

lemma valid_root:
  assumes "ov_valid r v"
  shows "ov_root v = r"
proof -
  from assms obtain k where "ov_chain v = k @ ov_chain r" using under_chain by (auto simp: ov_valid_def)
  moreover have "ov_chain r = [r]" using assms chain_Cons[of r] by (simp add: ov_valid_def search_root_def)
  ultimately show ?thesis by (simp add: ov_root_chain)
qed

lemma valid_getitem: "ov_valid r v \<Longrightarrow> ov_getitem v key = Inr c \<Longrightarrow> ov_valid r c"
proof -
  assume v: "ov_valid r v" "ov_getitem v key = Inr c"
  then have "(key, c) \<in> set (resolved_children v)"
    by (auto simp: ov_getitem_def split: option.splits dest!: map_of_SomeD)
  then have "c \<in> set (ov_iterdir v)" by (force simp: ov_iterdir_def)
  with v(1) show ?thesis by (rule valid_child)
qed

lemma lookup_parts_valid: "ov_valid r v \<Longrightarrow> ov_lookup_parts v parts = Inr (Some q) \<Longrightarrow> ov_valid r q"
proof (induction v parts rule: ov_lookup_parts.induct)
  case (2 current dir_part parts)
  note v = 2(4) and res = 2(5)
  show ?case
  proof (cases "dir_part = ''.''")
    case True
    with 2 show ?thesis by simp
  next
    case nd: False
    show ?thesis
    proof (cases "dir_part = ''..''")
      case True
      with res obtain p where "ov_parent current = Some p" "ov_lookup_parts p parts = Inr (Some q)"
        by (cases "ov_parent current") simp_all
      with 2(2)[OF nd True] valid_parent[OF v] show ?thesis by blast
    next
      case False
      with nd res obtain c where "ov_getitem current dir_part = Inr c" "ov_lookup_parts c parts = Inr (Some q)"
        by (cases "ov_getitem current dir_part") simp_all
      with 2(3)[OF nd False] valid_getitem[OF v] show ?thesis by blast
    qed
  qed
qed simp

lemma lookup_valid: "ov_valid r v \<Longrightarrow> ov_lookup v p = Inr (Some q) \<Longrightarrow> ov_valid r q"
  using lookup_parts_valid[of r v] lookup_parts_valid[of r "ov_root v"] valid_root[of r v]
  by (auto simp: ov_lookup_def ov_valid_def ov_under.here split: if_splits prod.splits)

text \<open>
  Search directories that do not overlap: no path of the real file system is found below two of them.  The
  default \<^verbatim>\<open>debian/tmp\<close> and \<^verbatim>\<open>.\<close> do overlap; what is proved of several search directories at once says which of
  the two it needs.
\<close>

definition search_roots :: "overlay list \<Rightarrow> bool" where
  "search_roots rs \<longleftrightarrow> list_all search_root rs \<and>
     (\<forall>r \<in> set rs. \<forall>s \<in> set rs. \<forall>p q. ov_under r p \<longrightarrow> ov_under s q \<longrightarrow> ov_fs_path p = ov_fs_path q \<longrightarrow> p = q)"

definition ov_source :: "overlay list \<Rightarrow> overlay \<Rightarrow> bool" where
  "ov_source rs v \<longleftrightarrow> search_roots rs \<and> (\<exists>r \<in> set rs. ov_valid r v)"

lemma search_roots_single: "search_root r \<Longrightarrow> search_roots [r]"
  using under_fs_path_inj by (auto simp: search_roots_def)

lemma source_root: "search_roots rs \<Longrightarrow> r \<in> set rs \<Longrightarrow> ov_source rs r"
  by (auto simp: ov_source_def ov_valid_def search_roots_def list_all_iff intro: ov_under.here)

interpretation ov_tree: source_tree ov_ops "ov_source rs" ov_under ov_chain for rs
proof
  show "\<exists>ps. op_all_paths ov_ops p = Inr ps \<and> distinct ps \<and> set ps = {q. ov_under p q}" if "ov_source rs p" for p
  proof -
    have "ov_os_wf p" using that valid_os_wf by (auto simp: ov_source_def)
    then show ?thesis using all_paths_distinct all_paths_set by (simp add: ov_ops_def)
  qed
  show "ov_source rs q" if "ov_source rs p" "op_lookup ov_ops p s = Inr (Some q)" for p s q
  proof -
    from that obtain r where r: "search_roots rs" "r \<in> set rs" "ov_valid r p" by (auto simp: ov_source_def)
    have "ov_valid r q" using lookup_valid[OF r(3)] that(2) by (simp add: ov_ops_def)
    with r show ?thesis by (auto simp: ov_source_def)
  qed
  show "ov_under p q" if "ov_source rs p" "q \<in> set (op_iterdir ov_ops p)" for p q
    using that ov_under.child[OF ov_under.here] by (simp add: ov_ops_def)
  show "ov_source rs q" if "ov_source rs p" "ov_under p q" for p q
    using that under_trans unfolding ov_source_def ov_valid_def by blast
  show "ov_source rs q \<and> p \<in> set (op_iterdir ov_ops q)" if "ov_source rs p" "op_parent ov_ops p = Some q" for p q
    using that valid_parent unfolding ov_source_def by (auto simp: ov_ops_def)
  show "ov_chain p = p # (case op_parent ov_ops p of None \<Rightarrow> [] | Some q \<Rightarrow> ov_chain q)" if "ov_source rs p" for p
    using chain_Cons by (simp add: ov_ops_def)
  show "op_parent ov_ops q = Some p \<and> op_is_dir ov_ops p" if "ov_source rs p" "q \<in> set (op_iterdir ov_ops p)" for p q
    using that child_parent parent_is_dir by (simp add: ov_ops_def)
  show "distinct (op_iterdir ov_ops p)" if "ov_source rs p" for p
    using that iterdir_distinct valid_os_wf by (auto simp: ov_ops_def ov_source_def)
  show "ov_under p q \<longleftrightarrow> p \<in> set (ov_chain q)" if "ov_source rs p" "ov_source rs q" for p q
    using that under_iff_chain by (auto simp: ov_source_def)
  show "p = q" if "ov_source rs p" "ov_source rs q" "op_fs_path ov_ops p = op_fs_path ov_ops q" for p q
    using that unfolding ov_source_def search_roots_def ov_valid_def by (auto simp: ov_ops_def)
qed


subsection \<open>Looking up the paths that the walk yields\<close>

lemma lookup_parts_descend:
  "list_all plain_segment ns \<Longrightarrow> ov_descend v ns = Some q \<Longrightarrow> ov_lookup_parts v ns = Inr (Some q)"
proof (induction ns arbitrary: v)
  case (Cons n ns)
  then obtain c where "map_of (resolved_children v) n = Some c" "ov_descend c ns = Some q"
    by (auto simp: bind_eq_Some_conv)
  with Cons show ?case by (simp add: plain_segment_def ov_getitem_def)
qed simp

text \<open>C18: \<^verbatim>\<open>all_paths\<close> of a search directory yields each object below it once, each under a path of its own in
  the real file system, an object before its entries and the entries in the order of their names, each followed
  at once by what is below it; and \<^verbatim>\<open>lookup\<close> finds each again under the path it states.\<close>

theorem overlay_lists_and_finds:
  assumes "search_root r" and "ov_is_dir r"
  shows "distinct (map ov_fs_path (ov_all_paths r)) \<and> set (ov_all_paths r) = {q. ov_under r q}
    \<and> list_all (\<lambda>q. ov_all_paths q = q # concat (map ov_all_paths (ov_iterdir q)) \<and> sorted (map ov_name (ov_iterdir q))
         \<and> ov_lookup r (ov_path q) = Inr (Some q)) (ov_all_paths r)"
proof -
  have w: "ov_os_wf r" using descend_os_wf[OF assms(1), of "[]"] by simp
  have "inj_on ov_fs_path (set (ov_all_paths r))"
    using under_fs_path_inj[OF assms(1)] by (auto simp: all_paths_set inj_on_def)
  then have d: "distinct (map ov_fs_path (ov_all_paths r))"
    using all_paths_distinct[OF w] by (simp add: distinct_map)
  have "ov_lookup r (ov_path q) = Inr (Some q)" if u: "ov_under r q" for q
  proof -
    obtain ns where ns: "ov_descend r ns = Some q" using u under_descend[OF assms(1)] by blast
    obtain a segs where "list_all plain_segment segs" "ov_fs_path r = (if segs = [] then ''.'' else base_path a segs)"
      using assms(1) by (rule search_root_segs)
    from descend_props[OF assms(1) this ns] have p: "list_all plain_segment ns" "ov_path q = names_path ns" by blast+
    show ?thesis
    proof (cases "ns = []")
      case True
      with ns p assms(2) show ?thesis
        by (simp add: names_path_def ov_lookup_def split_path_def endswith_def rstrip_def)
    next
      case False
      note e = plain_join_ends[OF False p(1)]
      have "\<not> startswith (join ''/'' ns) ''/''" "\<not> endswith (join ''/'' ns) ''/''"
        using e by (auto simp: startswith_single endswith_single)
      then have "split_path (join ''/'' ns) = (False, False, ns)"
        using e split_plain_join[OF False p(1)] by (simp add: split_path_def rstrip_id)
      then show ?thesis using False p assms(2) lookup_parts_descend[OF p(1) ns]
        by (simp add: names_path_def ov_lookup_def)
    qed
  qed
  moreover have "ov_os_wf q" if "ov_under r q" for q
    using that under_descend[OF assms(1)] descend_os_wf[OF assms(1)] by blast
  ultimately have "ov_all_paths q = q # concat (map ov_all_paths (ov_iterdir q)) \<and> sorted (map ov_name (ov_iterdir q))
      \<and> ov_lookup r (ov_path q) = Inr (Some q)" if "ov_under r q" for q
    using that all_paths_preorder iterdir_sorted by blast
  then show ?thesis using d all_paths_set unfolding list_all_iff by blast
qed

definition demo_source :: overlay where
  "demo_source = FSROOverlay ''.'' ''debian/tmp'' None (Some (OsDir o755
     [(''usr'', OsDir o755 [(''lib'', OsDir o755 [(''foo'', OsDir o755 [(''b.so'', OsFile o644 []), (''a.so'', OsFile o644 [])])])]),
      (''etc'', OsDir o755 [])]))"

lemma search_rootI:
  assumes "ov_path r = ''.''" "ov_parent r = None" "ov_os r = Some n" "os_wf n"
    and "ov_fs_path r = base_path a segs" "segs \<noteq> []" "list_all plain_segment segs"
  shows "search_root r"
  using assms unfolding search_root_def by auto

lemma demo_source_root: "search_root demo_source"
proof (rule search_rootI)
  show "ov_os demo_source = Some (the (ov_os demo_source))" by (simp add: demo_source_def)
  show "ov_path demo_source = ''.''" "ov_parent demo_source = None" "os_wf (the (ov_os demo_source))"
    "ov_fs_path demo_source = base_path False [''debian'', ''tmp'']" "[''debian'', ''tmp''] \<noteq> []"
    "list_all plain_segment [''debian'', ''tmp'']" by code_simp+
qed

lemma overlay_lists_and_finds_witness:
  "map ov_fs_path (ov_all_paths demo_source)
     = [''debian/tmp'', ''debian/tmp/etc'', ''debian/tmp/usr'', ''debian/tmp/usr/lib'', ''debian/tmp/usr/lib/foo'',
        ''debian/tmp/usr/lib/foo/a.so'', ''debian/tmp/usr/lib/foo/b.so'']
   \<and> distinct (map ov_fs_path (ov_all_paths demo_source))"
proof -
  have "ov_is_dir demo_source" by code_simp
  note t = overlay_lists_and_finds[OF demo_source_root this]
  have "map ov_fs_path (ov_all_paths demo_source)
     = [''debian/tmp'', ''debian/tmp/etc'', ''debian/tmp/usr'', ''debian/tmp/usr/lib'', ''debian/tmp/usr/lib/foo'',
        ''debian/tmp/usr/lib/foo/a.so'', ''debian/tmp/usr/lib/foo/b.so'']" by code_simp
  with t show ?thesis by blast
qed

end
