(* ===== verification/Digits.thy ===== *)
theory Digits
  imports PyInt
begin

section \<open>Numbers as digits\<close>

text \<open>
  The digits that \<^verbatim>\<open>str\<close> and \<^verbatim>\<open>oct\<close> write for a natural number, in a base up to ten, and that \<^verbatim>\<open>int\<close> reads them
  back.
\<close>

fun base_digits :: "nat \<Rightarrow> nat \<Rightarrow> string" where
  "base_digits b n =
     (if b < 2 \<or> n < b then [char_of (48 + n)] else base_digits b (n div b) @ [char_of (48 + n mod b)])"

declare base_digits.simps [simp del]

lemma base_digits_small: "n < b \<Longrightarrow> base_digits b n = [char_of (48 + n)]"
  by (simp add: base_digits.simps)

lemma base_digits_not_Nil [simp]: "base_digits b n \<noteq> []"
  by (subst base_digits.simps) simp

lemma digit_chars: "''0123456789'' = map (\<lambda>n. char_of (48 + n :: nat)) [0..<10]"
  by code_simp

lemma digit_char: "ascii_digit c \<longleftrightarrow> (\<exists>n < 10. c = char_of (48 + n :: nat))"
  unfolding ascii_digit_def digit_chars by (auto simp only: set_map set_upt image_iff atLeastLessThan_iff)

lemma digit_charI: "n < 10 \<Longrightarrow> ascii_digit (char_of (48 + n :: nat))"
  using digit_char by blast

lemma digit_char_facts: "ascii_digit c \<Longrightarrow> digit_value c < 10 \<and> c \<noteq> CHR ''_'' \<and> c \<noteq> CHR ''-'' \<and> c \<noteq> CHR ''+'' \<and> c \<noteq> CHR ''o'' \<and> c \<noteq> CHR ''O'' \<and> \<not> py_space c"
proof -
  have "list_all (\<lambda>c. digit_value c < 10 \<and> c \<noteq> CHR ''_'' \<and> c \<noteq> CHR ''-'' \<and> c \<noteq> CHR ''+'' \<and> c \<noteq> CHR ''o'' \<and> c \<noteq> CHR ''O'' \<and> \<not> py_space c) ''0123456789''"
    by code_simp
  then show "ascii_digit c \<Longrightarrow> ?thesis" unfolding ascii_digit_def list_all_iff by blast
qed

lemma digit_value_char: "n < 10 \<Longrightarrow> digit_value (char_of (48 + n :: nat)) = int n"
  by (simp add: digit_value_def of_char_of)

text \<open>The digits of a base.\<close>

definition base_digit :: "nat \<Rightarrow> char \<Rightarrow> bool" where
  "base_digit b c \<longleftrightarrow> ascii_digit c \<and> digit_value c < int b"

lemma base_digit_char: "n < b \<Longrightarrow> b \<le> 10 \<Longrightarrow> base_digit b (char_of (48 + n))"
  by (simp add: base_digit_def digit_charI digit_value_char)

lemma base_digits_all: "2 \<le> b \<Longrightarrow> b \<le> 10 \<Longrightarrow> list_all (base_digit b) (base_digits b n)"
proof (induction b n rule: base_digits.induct)
  case (1 b n)
  note d = base_digit_char[of "n mod b" b] base_digit_char[of n b]
  show ?case
  proof (cases "n < b")
    case True
    with d 1(3) show ?thesis by (simp add: base_digits_small)
  next
    case False
    with 1 d show ?thesis by (subst base_digits.simps) simp
  qed
qed

lemma int_digits_snoc:
  "list_all (base_digit b) ds \<Longrightarrow> int_digits (int b) acc ds = Some v \<Longrightarrow> base_digit b d \<Longrightarrow>
     int_digits (int b) acc (ds @ [d]) = Some (v * int b + digit_value d)"
proof (induction ds arbitrary: acc)
  case (Cons c ds)
  note c = Cons.prems(1,2)
  have lt: "ascii_digit e" "digit_value e < int b" "e \<noteq> CHR ''_''" if "base_digit b e" for e
    using that digit_char_facts by (auto simp: base_digit_def)
  show ?case
  proof (cases ds)
    case Nil
    with c lt[of c] lt[OF Cons.prems(3)] show ?thesis by simp
  next
    case (Cons e ds')
    with c have e: "base_digit b c" "base_digit b e" by simp_all
    with c Cons lt have r: "int_digits (int b) (acc * int b + digit_value c) ds = Some v" by simp
    from Cons.IH[OF _ r Cons.prems(3)] c e Cons lt show ?thesis by simp
  qed
qed simp

lemma int_digits_base: "2 \<le> b \<Longrightarrow> b \<le> 10 \<Longrightarrow> int_digits (int b) 0 (base_digits b n) = Some (int n)"
proof (induction b n rule: base_digits.induct)
  case (1 b n)
  show ?case
  proof (cases "n < b")
    case True
    then show ?thesis using base_digit_char[of n b] digit_value_char[of n] 1(3) by (simp add: base_digits_small base_digit_def)
  next
    case False
    have d: "base_digit b (char_of (48 + n mod b))" using base_digit_char[of "n mod b" b] 1(2,3) by simp
    have ih: "int_digits (int b) 0 (base_digits b (n div b)) = Some (int (n div b))" using 1 False by simp
    have "n mod b < 10" using 1(2,3) by (meson le_less_trans less_le_trans mod_less_divisor not_less zero_less_numeral)
    then have "int_digits (int b) 0 (base_digits b (n div b) @ [char_of (48 + n mod b)])
        = Some (int (n div b) * int b + int (n mod b))"
      using int_digits_snoc[OF base_digits_all[OF 1(2,3)] ih d] digit_value_char[of "n mod b"] by simp
    moreover have "int (n div b) * int b + int (n mod b) = int n" by (metis div_mult_mod_eq of_nat_add of_nat_mult)
    ultimately show ?thesis using False 1(2) by (subst base_digits.simps) simp
  qed
qed

lemma py_int_digits:
  assumes "list_all ascii_digit ds" and "ds \<noteq> []"
  shows "py_int b ds = (case int_digits b 0 ds of None \<Rightarrow> Inl ValueError | Some v \<Rightarrow> Inr v)"
proof -
  have d: "\<And>c. c \<in> set ds \<Longrightarrow> ascii_digit c" using assms(1) by (simp add: list_all_iff)
  have "ascii_digit (hd ds)" "ascii_digit (last ds)" using assms by (auto simp: list_all_iff)
  note f = this[THEN digit_char_facts]
  have "strip py_space ds = ds" using f by (intro strip_id) simp
  moreover have "\<not> startswith ds ''-''" "\<not> startswith ds ''+''" using f assms(2) by (cases ds; simp)+
  moreover have "drop_octal_prefix b ds = ds"
  proof (cases "\<exists>c e r. ds = c # e # r")
    case True
    then obtain c e r where ds: "ds = c # e # r" by blast
    then have "e \<noteq> CHR ''o''" "e \<noteq> CHR ''O''" using digit_char_facts[OF d, of e] by simp_all
    then show ?thesis using ds by (simp add: drop_octal_prefix_def)
  next
    case False
    then have "ds = [] \<or> (\<exists>c. ds = [c])" by (cases ds; cases "tl ds") auto
    then show ?thesis by (auto simp: drop_octal_prefix_def)
  qed
  ultimately show ?thesis by (cases "int_digits b 0 ds") (simp_all add: py_int_def)
qed

lemma py_int_base_digits: "2 \<le> b \<Longrightarrow> b \<le> 10 \<Longrightarrow> py_int (int b) (base_digits b n) = Inr (int n)"
  using base_digits_all[of b n]
  by (subst py_int_digits) (auto simp: int_digits_base list_all_iff base_digit_def)

end
