(* ===== verification/ManPage.thy ===== *)
theory ManPage
  imports Overlay Digits
begin

section \<open>Where a manual page is installed (\<^verbatim>\<open>src/debputy/installations.py\<close>)\<close>

text \<open>
  The functions that derive section, language and destination of a manual page from its content, its name
  and its path.  The regular expressions are written out as functions: in each of them the character
  classes of adjacent repetitions are disjoint, so that matching never has to go back.
\<close>

subsection \<open>The regular expressions\<close>

text \<open>What \<^verbatim>\<open>\w\<close> matches below code point 256.\<close>

definition word_char :: "char \<Rightarrow> bool" where
  "word_char c \<longleftrightarrow>
     ascii_alnum c \<or> c = CHR ''_'' \<or>
     (let n = of_char c :: nat in
      n \<in> {170, 178, 179, 181, 185, 186, 188, 189, 190} \<or> 192 \<le> n \<and> n \<noteq> 215 \<and> n \<noteq> 247)"

definition digit_1_9 :: "char \<Rightarrow> bool" where
  "digit_1_9 c \<longleftrightarrow> c \<in> set ''123456789''"

text \<open>\<^verbatim>\<open>^[.]Dt\s+\S+\s+\<close> (or with \<^verbatim>\<open>TH\<close>): what follows such a request.\<close>

definition man_request :: "string \<Rightarrow> string \<Rightarrow> string option" where
  "man_request macro line =
     (if \<not> startswith line macro then None
      else
        (let r = drop (length macro) line;
             title = dropWhile py_space r;
             r2 = dropWhile (\<lambda>c. \<not> py_space c) title
         in if title = r \<or> title = [] \<or> r2 = [] then None else Some (dropWhile py_space r2)))"

definition man_dt_line :: "string \<Rightarrow> string option" where
  "man_dt_line line =
     (case man_request ''.Dt'' line of
        None \<Rightarrow> None
      | Some t \<Rightarrow> if t \<noteq> [] \<and> ascii_digit (hd t) then Some (takeWhile (\<lambda>c. \<not> py_space c) t) else None)"

definition man_th_line :: "string \<Rightarrow> string option" where
  "man_th_line line =
     (case man_request ''.TH'' line of
        None \<Rightarrow> None
      | Some t \<Rightarrow>
          (let t1 = (if startswith t [CHR 0x22] then drop 1 t else t) in
           if t1 \<noteq> [] \<and> ascii_digit (hd t1) then Some (takeWhile (\<lambda>c. c \<noteq> CHR 0x22 \<and> \<not> py_space c) t1) else None))"

text \<open>\<^verbatim>\<open>[.]([1-9]\w*)(?:[.]gz)?$\<close>\<close>

definition section_at :: "string \<Rightarrow> string option" where
  "section_at s =
     (let w = takeWhile word_char s; rest = dropWhile word_char s in
      if w \<noteq> [] \<and> digit_1_9 (hd w) \<and> rest \<in> set [[], ''.gz'', [CHR 0x0A], ''.gz'' @ [CHR 0x0A]] then Some w else None)"

fun man_section_basename :: "string \<Rightarrow> string option" where
  "man_section_basename [] = None"
| "man_section_basename (c # s) =
     (case (if c = dot then section_at s else None) of Some w \<Rightarrow> Some w | None \<Rightarrow> man_section_basename s)"

text \<open>\<^verbatim>\<open>_MAN_INST_BASENAME.sub("", name)\<close>\<close>

definition man_inst_basename :: "string \<Rightarrow> string" where
  "man_inst_basename name =
     (case rsplit1 dot name of Some (a, b) \<Rightarrow> if b = [] then name else a | None \<Rightarrow> name)"

text \<open>\<^verbatim>\<open>[a-z][a-z](?:_[A-Z][A-Z])?\<close>: the language code that a text starts with, and the rest.\<close>

definition lang_code :: "string \<Rightarrow> (string \<times> string) option" where
  "lang_code s =
     (case s of
        a # b # r \<Rightarrow>
          if ascii_lower a \<and> ascii_lower b then
            (case r of
               u # x # y # r' \<Rightarrow>
                 if u = CHR ''_'' \<and> ascii_upper x \<and> ascii_upper y then Some ([a, b, u, x, y], r') else Some ([a, b], r)
             | _ \<Rightarrow> Some ([a, b], r))
          else None
      | _ \<Rightarrow> None)"

definition man_section_dir :: "string \<Rightarrow> bool" where
  "man_section_dir s \<longleftrightarrow>
     startswith s ''/man'' \<and> (case drop 4 s of d # c # _ \<Rightarrow> digit_1_9 d \<and> c = slash | _ \<Rightarrow> False)"

text \<open>\<^verbatim>\<open>man/(?:(lang)(?:\.[^/]+)?)?/man[1-9]/\<close> at the start of a text: the group of the language.\<close>

definition lang_dir_at :: "string \<Rightarrow> string option option" where
  "lang_dir_at s =
     (if \<not> startswith s ''man/'' then None
      else
        (let r = drop 4 s in
         case lang_code r of
           None \<Rightarrow> if man_section_dir r then Some None else None
         | Some (l, r1) \<Rightarrow>
             (let enc = takeWhile (\<lambda>c. c \<noteq> slash) (drop 1 r1);
                  r2 = (if startswith r1 ''.'' \<and> enc \<noteq> [] then drop (Suc (length enc)) r1 else r1)
              in if man_section_dir r2 then Some (Some l) else None)))"

fun lang_dir_search :: "string \<Rightarrow> string option option" where
  "lang_dir_search [] = None"
| "lang_dir_search (c # s) =
     (case (if c = slash then lang_dir_at s else None) of Some g \<Rightarrow> Some g | None \<Rightarrow> lang_dir_search s)"

definition guess_lang_from_path :: "string \<Rightarrow> string option" where
  "guess_lang_from_path p =
     (case lang_dir_at p of
        Some g \<Rightarrow> g
      | None \<Rightarrow> (case lang_dir_search p of Some g \<Rightarrow> g | None \<Rightarrow> None))"

text \<open>\<^verbatim>\<open>[.](lang)[.](?:[1-9]|man)\<close>\<close>

fun guess_from_basename :: "string \<Rightarrow> string option" where
  "guess_from_basename [] = None"
| "guess_from_basename (c # s) =
     (case (if c = dot then lang_code s else None) of
        Some (l, r) \<Rightarrow>
          if startswith r ''.'' \<and> (startswith r ''.man'' \<or> (case drop 1 r of d # _ \<Rightarrow> digit_1_9 d | [] \<Rightarrow> False))
          then Some l else guess_from_basename s
      | None \<Rightarrow> guess_from_basename s)"

subsection \<open>Section and language\<close>

text \<open>The decimal digits of an integer.\<close>

definition str_int :: "int \<Rightarrow> string" where
  "str_int i = (if i < 0 then CHR ''-'' # base_digits 10 (nat (- i)) else base_digits 10 (nat i))"

text \<open>The loop over the lines of the page; a section that looks like a version ends it without a result.\<close>

fun detect_section :: "string list \<Rightarrow> string option" where
  "detect_section [] = None"
| "detect_section (line # rest) =
     (if \<not> startswith line ''.TH'' \<and> \<not> startswith line ''.Dt'' then detect_section rest
      else (case (case man_dt_line line of Some s \<Rightarrow> Some s | None \<Rightarrow> man_th_line line) of
              None \<Rightarrow> detect_section rest
            | Some s \<Rightarrow> if dot \<in> set s then None else Some s))"

definition determine_manpage_section :: "('p, 'm) src_ops_scheme \<Rightarrow> 'p \<Rightarrow> int option \<Rightarrow> string option res" where
  "determine_manpage_section ops p provided_section =
     (case provided_section of
        Some n \<Rightarrow> Inr (Some (str_int n))
      | None \<Rightarrow>
          rbind (op_content ops p) (\<lambda>content.
            Inr (case detect_section (lines_keep content) of
                   Some s \<Rightarrow> Some s
                 | None \<Rightarrow> man_section_basename (path_tail (op_path ops p)))))"

definition determine_manpage_real_section :: "string option \<Rightarrow> int res" where
  "determine_manpage_real_section sect =
     (case sect of
        None \<Rightarrow> Inl UserError
      | Some s \<Rightarrow>
          (let digits = takeWhile ascii_digit s in
           if digits = [] then Inl UserError
           else rbind (py_int 10 digits) (\<lambda>n. if n < 0 \<or> n > 9 then Inl UserError else Inr n)))"

definition determine_manpage_language :: "('p, 'm) src_ops_scheme \<Rightarrow> 'p \<Rightarrow> string option \<Rightarrow> string option" where
  "determine_manpage_language ops p provided_language =
     (case provided_language of
        None \<Rightarrow> guess_lang_from_path (op_path ops p)
      | Some l \<Rightarrow>
          if l \<notin> set [''derive-from-basename'', ''derive-from-path''] then (if l \<noteq> ''C'' then Some l else None)
          else if l = ''derive-from-basename'' then guess_from_basename (op_name ops p)
          else guess_lang_from_path (op_path ops p))"

text \<open>The basename without the suffix of the language, which the directory states.\<close>

definition without_language :: "string \<Rightarrow> string option \<Rightarrow> string" where
  "without_language inst_basename language =
     (case language of
        None \<Rightarrow> inst_basename
      | Some l \<Rightarrow>
          (let lang_suffix = dot # l in
           if endswith inst_basename lang_suffix then take (length inst_basename - length lang_suffix) inst_basename
           else inst_basename))"

definition manpage_dest_path :: "('p, 'm) src_ops_scheme \<Rightarrow> int option \<Rightarrow> string option \<Rightarrow> 'p \<Rightarrow> string res" where
  "manpage_dest_path ops provided_section provided_language p =
     rbind (determine_manpage_section ops p provided_section) (\<lambda>sect.
       rbind (determine_manpage_real_section sect) (\<lambda>real_section.
         case sect of
           None \<Rightarrow> Inl AssertionErr
         | Some s \<Rightarrow>
             (let language = determine_manpage_language ops p provided_language;
                  maybe_language = (case language of None \<Rightarrow> [] | Some l \<Rightarrow> l @ ''/'');
                  base = without_language (man_inst_basename (op_name ops p)) language
              in Inr (''usr/share/man/'' @ maybe_language @ ''man'' @ str_int real_section @ ''/'' @ base @ ''.'' @ s))))"


subsection \<open>Decimal numbers\<close>

lemma decimal_digits_all: "list_all ascii_digit (base_digits 10 n)"
  using base_digits_all[of 10 n] by (auto simp: list_all_iff base_digit_def)

lemma int_digits_nat: "int_digits 10 0 (base_digits 10 n) = Some (int n)"
  using int_digits_base[of 10 n] by simp

lemma py_int_nat: "py_int 10 (base_digits 10 n) = Inr (int n)"
  using py_int_base_digits[of 10 n] by simp

lemma int_digits_grows: "int_digits 10 acc ds = Some v \<Longrightarrow> 0 \<le> acc \<Longrightarrow> 10 * acc \<le> v"
proof (induction "10 :: int" acc ds rule: int_digits.induct)
  case (2 acc c s)
  from 2(3) have d: "ascii_digit c" "digit_value c < 10"
    and r: "(case s of [] \<Rightarrow> Some (acc * 10 + digit_value c)
             | d # s' \<Rightarrow> if d = CHR ''_'' then int_digits 10 (acc * 10 + digit_value c) s'
                         else int_digits 10 (acc * 10 + digit_value c) s) = Some v"
    by (simp_all add: Let_def split: if_splits)
  have n: "0 \<le> digit_value c" using digit_value_nonneg[OF d(1)] .
  show ?case
  proof (cases s)
    case Nil
    with r n show ?thesis by simp
  next
    case (Cons e s')
    have "10 * (acc * 10 + digit_value c) \<le> v"
      using r d n Cons 2(1)[OF _ refl Cons] 2(2)[OF _ refl Cons] 2(4) by (simp split: if_splits)
    with n 2(4) show ?thesis by simp
  qed
qed simp

lemma digit_1_9_value: "digit_1_9 c \<Longrightarrow> ascii_digit c \<and> 1 \<le> digit_value c \<and> str_int (digit_value c) = [c] \<and> word_char c \<and> c \<noteq> slash"
proof -
  have "list_all (\<lambda>c. ascii_digit c \<and> 1 \<le> digit_value c \<and> str_int (digit_value c) = [c] \<and> word_char c \<and> c \<noteq> slash) ''123456789''"
    by code_simp
  then show "digit_1_9 c \<Longrightarrow> ?thesis" unfolding digit_1_9_def list_all_iff by blast
qed

text \<open>A section that starts with a digit other than zero and stays below ten has a single digit.\<close>

lemma real_section_single:
  assumes "digit_1_9 c" and "determine_manpage_real_section (Some (c # t)) = Inr n"
  shows "n = digit_value c"
proof -
  note v = digit_1_9_value[OF assms(1)]
  let ?ds = "takeWhile ascii_digit t"
  have all: "list_all ascii_digit (c # ?ds)" using v by (auto simp: list_all_iff dest: set_takeWhileD)
  have w: "takeWhile ascii_digit (c # t) = c # ?ds" using v by simp
  have n: "py_int 10 (c # ?ds) = Inr n" "n \<le> 9"
    using assms(2) unfolding determine_manpage_real_section_def by (auto simp: w rbind_eq_Inr Let_def simp del: takeWhile.simps split: if_splits)
  show ?thesis
  proof (cases ?ds)
    case Nil
    with n(1) all v digit_char_facts[of c] show ?thesis by (simp add: py_int_digits)
  next
    case (Cons d ds)
    with n(1) all have "int_digits 10 (digit_value c) (d # ds) = Some n"
      using v digit_char_facts[of c] digit_char_facts[of d] by (simp add: py_int_digits split: option.splits)
    from int_digits_grows[OF this] v n(2) show ?thesis by simp
  qed
qed

subsection \<open>Reading the installed name back\<close>

lemma word_char_facts: "word_char c \<Longrightarrow> c \<noteq> dot \<and> c \<noteq> slash"
  by (auto simp: word_char_def ascii_alnum_def ascii_digit_def ascii_lower_def ascii_upper_def)

lemma section_at_end: "s \<noteq> [] \<Longrightarrow> digit_1_9 (hd s) \<Longrightarrow> list_all word_char s \<Longrightarrow> section_at s = Some s"
proof -
  assume s: "s \<noteq> []" "digit_1_9 (hd s)" "list_all word_char s"
  then have t: "takeWhile word_char s = s" "dropWhile word_char s = []"
    by (simp_all add: list_all_iff takeWhile_eq_all_conv dropWhile_eq_Nil_conv)
  show ?thesis using s by (simp only: section_at_def Let_def t) simp
qed

lemma section_at_inner:
  assumes "s \<noteq> []" "digit_1_9 (hd s)" "list_all word_char s"
  shows "section_at (b @ dot # s) = None"
proof -
  have "\<exists>r. dropWhile word_char (b @ dot # s) = r @ dot # s"
  proof (induction b)
    case (Cons c b)
    then show ?case by auto
  qed (use word_char_facts in auto)
  then obtain r where r: "dropWhile word_char (b @ dot # s) = r @ dot # s" by blast
  have ns: "dot \<notin> set s" using assms(3) word_char_facts by (auto simp: list_all_iff)
  have h: "hd s \<noteq> CHR ''g''" using assms(2) by (auto simp: digit_1_9_def)
  have "r @ dot # s \<noteq> ''.gz''" "r @ dot # s \<noteq> ''.gz'' @ [CHR 0x0A]"
  proof -
    have "s = t" if "r @ dot # s = dot # t" "dot \<notin> set t" for t
      using that rsplit1_append[OF ns, of r] rsplit1_append[OF that(2), of "[]"] by simp
    from this[of "''gz''"] this[of "''gz'' @ [CHR 0x0A]"] h
    show "r @ dot # s \<noteq> ''.gz''" "r @ dot # s \<noteq> ''.gz'' @ [CHR 0x0A]" by auto
  qed
  moreover have "r @ dot # s \<noteq> [CHR 0x0A]" by (cases r) auto
  ultimately show ?thesis unfolding section_at_def Let_def r by auto
qed

lemma section_of_name:
  assumes "s \<noteq> []" "digit_1_9 (hd s)" "list_all word_char s"
  shows "man_section_basename (b @ dot # s) = Some s"
proof (induction b)
  case Nil
  show ?case using section_at_end[OF assms] by simp
next
  case (Cons c b)
  then show ?case using section_at_inner[OF assms, of b] by simp
qed


lemma lang_dir_search_skip: "slash \<notin> set a \<Longrightarrow> lang_dir_search (a @ s) = lang_dir_search s"
  by (induction a) auto

lemma lang_dir_search_slash: "lang_dir_at s = None \<Longrightarrow> lang_dir_search (slash # s) = lang_dir_search s"
  by simp

lemma lang_code_exact:
  assumes "lang_code l = Some (l, [])"
  shows "lang_code (l @ slash # r) = Some (l, slash # r)" and "slash \<notin> set l"
proof -
  from assms obtain a b l' where l: "l = a # b # l'" by (auto simp: lang_code_def split: list.splits)
  with assms have ab: "ascii_lower a" "ascii_lower b" by (auto simp: lang_code_def split: list.splits if_splits)
  have "l' = [] \<or> (\<exists>x y. l' = [CHR ''_'', x, y] \<and> ascii_upper x \<and> ascii_upper y)"
    using assms ab unfolding l by (auto simp: lang_code_def split: list.splits if_splits)
  moreover have "\<not> ascii_lower slash" "\<not> ascii_upper slash" by (simp_all add: ascii_lower_def ascii_upper_def)
  ultimately show "lang_code (l @ slash # r) = Some (l, slash # r)" and "slash \<notin> set l"
    using ab unfolding l by (auto simp: lang_code_def split: list.splits)
qed

lemma lang_dir_at_None: "\<not> startswith s ''man/'' \<Longrightarrow> lang_dir_at s = None"
  by (simp add: lang_dir_at_def)

lemma man_prefix_search: "guess_lang_from_path (''usr/share/man/'' @ t) =
    (case lang_dir_at (''man/'' @ t) of Some g \<Rightarrow> g
     | None \<Rightarrow> (case lang_dir_search (slash # t) of Some g \<Rightarrow> g | None \<Rightarrow> None))"
  by (simp add: guess_lang_from_path_def lang_dir_at_None split: option.split)

text \<open>The language of an installed page is found again in its path.\<close>

lemma language_of_dest:
  assumes "digit_1_9 c" and "slash \<notin> set f"
    and lang: "case language of None \<Rightarrow> True | Some l \<Rightarrow> lang_code l = Some (l, [])"
  shows "guess_lang_from_path (''usr/share/man/'' @ (case language of None \<Rightarrow> [] | Some l \<Rightarrow> l @ ''/'') @ ''man'' @ [c] @ ''/'' @ f)
    = language"
proof (cases language)
  case None
  have u: "lang_code (CHR ''m'' # CHR ''a'' # CHR ''n'' # r) = Some (''ma'', CHR ''n'' # r)" for r
    by (simp add: lang_code_def ascii_lower_def split: list.split)
  have m: "lang_dir_at (''man/'' @ ''man'' @ [c] @ ''/'' @ f) = None"
    by (simp add: lang_dir_at_def u man_section_dir_def)
  have c: "c \<noteq> slash" using digit_1_9_value[OF assms(1)] by simp
  have "\<not> startswith f ''man/''" using assms(2) by (auto simp: startswith_iff)
  moreover have "lang_dir_search f = None" using lang_dir_search_skip[OF assms(2), of "[]"] by simp
  ultimately have n: "lang_dir_search (slash # ''man'' @ [c] @ ''/'' @ f) = None"
    using c by (simp add: lang_dir_at_None)
  show ?thesis unfolding None by (simp only: option.case append_Nil man_prefix_search m n)
next
  case (Some l)
  with lang have l: "lang_code l = Some (l, [])" by simp
  have "lang_dir_at (''man/'' @ l @ ''/'' @ ''man'' @ [c] @ ''/'' @ f) = Some (Some l)"
    using assms(1) lang_code_exact(1)[OF l] by (simp add: lang_dir_at_def man_section_dir_def)
  then show ?thesis unfolding Some by (simp only: option.case append_assoc man_prefix_search)
qed


subsection \<open>Properties\<close>

lemma set_man_inst_basename: "set (man_inst_basename name) \<subseteq> set name"
  by (auto simp: man_inst_basename_def split: option.splits dest!: rsplit1_Some)

lemma real_section_given:
  "determine_manpage_real_section (Some (str_int n)) = (if 0 \<le> n \<and> n \<le> 9 then Inr n else Inl UserError)"
proof (cases "n < 0")
  case True
  have "\<not> ascii_digit (CHR ''-'')" by (simp add: ascii_digit_def)
  with True show ?thesis by (simp add: determine_manpage_real_section_def str_int_def)
next
  case False
  let ?ds = "base_digits 10 (nat n)"
  have "takeWhile ascii_digit ?ds = ?ds" using decimal_digits_all[of "nat n"] by (simp add: list_all_iff takeWhile_eq_all_conv)
  then show ?thesis unfolding determine_manpage_real_section_def str_int_def
    using False by (simp only: if_False option.case Let_def py_int_nat) simp
qed

text \<open>A section that the manifest declares is accepted exactly from 0 to 9; outside of that the
  installation of the page ends with an error, whatever the page and its language are.\<close>

theorem explicit_section_bounds:
  "if 0 \<le> n \<and> n \<le> 9 then \<exists>d. manpage_dest_path ops (Some n) language p = Inr d
   else manpage_dest_path ops (Some n) language p = Inl UserError"
proof (cases "0 \<le> n \<and> n \<le> 9")
  case True
  then show ?thesis by (simp only: manpage_dest_path_def determine_manpage_section_def real_section_given option.case
      rbind_Inr if_True simp_thms Let_def) blast
next
  case False
  then have "determine_manpage_real_section (Some (str_int n)) = Inl UserError"
    unfolding real_section_given by (rule if_not_P)
  then have "manpage_dest_path ops (Some n) language p = Inl UserError"
    by (simp add: manpage_dest_path_def determine_manpage_section_def)
  with False show ?thesis by (simp only: if_False)
qed

text \<open>C19: the destination of a page can be read back.  When the section starts with a digit other than zero and
  consists of word characters, and the language is a language code, then the page is in the directory
  of its section, its file name has no other directory, and the section and the language that are
  guessed from the destination are those the page was installed with.\<close>

theorem manpage_dest_read_back:
  assumes dest: "manpage_dest_path ops provided provided_language p = Inr d"
    and sec: "determine_manpage_section ops p provided = Inr (Some s)"
    and s: "s \<noteq> []" "digit_1_9 (hd s)" "list_all word_char s"
    and name: "slash \<notin> set (op_name ops p)"
    and lang: "case determine_manpage_language ops p provided_language of None \<Rightarrow> True | Some l \<Rightarrow> lang_code l = Some (l, [])"
  shows "man_section_basename (path_tail d) = Some s
    \<and> guess_lang_from_path d = determine_manpage_language ops p provided_language
    \<and> (\<exists>f. d = ''usr/share/man/'' @ (case determine_manpage_language ops p provided_language of None \<Rightarrow> [] | Some l \<Rightarrow> l @ ''/'')
             @ ''man'' @ [hd s] @ ''/'' @ f \<and> slash \<notin> set f)"
proof -
  let ?lang = "determine_manpage_language ops p provided_language"
  let ?l = "case ?lang of None \<Rightarrow> [] | Some l \<Rightarrow> l @ ''/''"
  obtain n b where n: "determine_manpage_real_section (Some s) = Inr n"
    and d: "d = ''usr/share/man/'' @ ?l @ ''man'' @ str_int n @ ''/'' @ b @ ''.'' @ s"
    and b: "set b \<subseteq> set (op_name ops p)"
  proof -
    from dest sec obtain n where n: "determine_manpage_real_section (Some s) = Inr n"
      by (auto simp: manpage_dest_path_def rbind_eq_Inr)
    let ?b = "without_language (man_inst_basename (op_name ops p)) ?lang"
    have "set ?b \<subseteq> set (op_name ops p)"
      using set_man_inst_basename[of "op_name ops p"]
      by (auto simp: without_language_def Let_def split: option.splits if_splits dest: in_set_takeD)
    moreover have "d = ''usr/share/man/'' @ ?l @ ''man'' @ str_int n @ ''/'' @ ?b @ ''.'' @ s"
      using dest unfolding manpage_dest_path_def sec n rbind_Inr option.case Let_def by (simp only: sum.inject)
    ultimately show thesis using n that by blast
  qed
  obtain c t where ct: "s = c # t" using s(1) by (cases s) auto
  then have c: "digit_1_9 c" using s(2) by simp
  have "str_int n = [hd s]" using real_section_single[OF c n[unfolded ct]] digit_1_9_value[OF c] ct by simp
  then have d': "d = ''usr/share/man/'' @ ?l @ ''man'' @ [hd s] @ ''/'' @ (b @ ''.'' @ s)" using d by simp
  have f: "slash \<notin> set (b @ ''.'' @ s)" using b name s(3) word_char_facts by (auto simp: list_all_iff)
  have "d = (''usr/share/man/'' @ ?l @ ''man'' @ [hd s]) @ slash # (b @ ''.'' @ s)" unfolding d' by simp
  then have "path_tail d = b @ ''.'' @ s" using path_tail_append[OF f] by metis
  then have "man_section_basename (path_tail d) = Some s" using section_of_name[OF s, of b] by simp
  moreover have "guess_lang_from_path d = ?lang" unfolding d' by (rule language_of_dest[OF s(2) f lang])
  ultimately show ?thesis using d' f by blast
qed

definition demo_page :: overlay where
  "demo_page = FSROOverlay ''man/foo.de.3pm'' ''debian/tmp/man/foo.de.3pm'' None
     (Some (OsFile o644 (''.de'' @ [CHR 0x0A] @ ''.TH FOO 3pm x'' @ [CHR 0x0A])))"

lemma manpage_dest_read_back_witness:
  "man_section_basename (path_tail ''usr/share/man/de/man3/foo.3pm'') = Some ''3pm''
    \<and> guess_lang_from_path ''usr/share/man/de/man3/foo.3pm'' = Some ''de''"
proof -
  have d: "manpage_dest_path ov_ops None (Some ''derive-from-basename'') demo_page = Inr ''usr/share/man/de/man3/foo.3pm''"
    and s: "determine_manpage_section ov_ops demo_page None = Inr (Some ''3pm'')"
    and l: "determine_manpage_language ov_ops demo_page (Some ''derive-from-basename'') = Some ''de''"
    and n: "slash \<notin> set (op_name ov_ops demo_page)"
    and k: "digit_1_9 (hd ''3pm'')" "list_all word_char ''3pm''"
    and lc: "case determine_manpage_language ov_ops demo_page (Some ''derive-from-basename'') of None \<Rightarrow> True | Some l \<Rightarrow> lang_code l = Some (l, [])"
    by code_simp+
  from manpage_dest_read_back[OF d s _ k n lc] l show ?thesis by simp
qed

text \<open>A compressed page, whose section the search in the basename knows about, keeps its section twice.\<close>

lemma compressed_page_named_twice:
  "manpage_dest_path ov_ops (Some 1) None
     (FSROOverlay ''man/foo.1.gz'' ''debian/tmp/man/foo.1.gz'' None (Some (OsFile o644 []))) =
   Inr ''usr/share/man/man1/foo.1.1''"
  by code_simp

text \<open>Section 0 is accepted, though the message speaks of 1 to 9.\<close>

lemma section_zero_accepted: "determine_manpage_real_section (Some ''0p'') = Inr 0"
  by code_simp

end
