(* ===== verification/SourceMatch.thy ===== *)
theory SourceMatch
  imports Overlay Packages
begin

section \<open>Matching and reserving the paths to install (\<^verbatim>\<open>SourcePathMatcher\<close> of \<^verbatim>\<open>src/debputy/installations.py\<close>)\<close>

text \<open>
  The matcher that all installation rules share: which paths are taken, which are discarded, and the loop
  that resolves a pattern in the search directories.  A set of packages is a list without duplicates, in
  the order in which Python iterates over it; a generator is the list of what it yields, with the error it
  ends with; the plugin-provided discard rules are named predicates.
\<close>

subsection \<open>State\<close>

type_synonym packages = "binary_package list"

definition package_name :: "binary_package \<Rightarrow> string" where
  "package_name b = (case map_of (bp_fields b) ''Package'' of None \<Rightarrow> [] | Some n \<Rightarrow> n)"

record 'p search_dir =
  sd_search_dir :: 'p
  sd_applies_to :: packages

record 'p path_match =
  pm_path :: 'p
  pm_search_dir :: 'p
  pm_into :: packages

datatype discard_state =
  UNCHECKED | NOT_DISCARDED | DISCARDED_BY_PLUGIN_PROVIDED_RULE | DISCARDED_BY_MANIFEST_RULE

type_synonym 'p discard_rules = "(string \<times> ('p \<Rightarrow> bool)) list"

record source_matcher =
  already_matched :: "string \<rightharpoonup> packages \<times> string"
  exact_match_request :: "(string \<times> string) set"
  discarded :: "string \<rightharpoonup> discard_state"
  used_auto_discard_rules :: "string \<Rightarrow> string set"

definition new_source_matcher :: source_matcher where
  "new_source_matcher =
     \<lparr>already_matched = Map.empty, exact_match_request = {}, discarded = Map.empty,
      used_auto_discard_rules = (\<lambda>_. {})\<rparr>"

definition discard_state_of :: "source_matcher \<Rightarrow> string \<Rightarrow> discard_state" where
  "discard_state_of m fs_path = (case discarded m fs_path of None \<Rightarrow> UNCHECKED | Some d \<Rightarrow> d)"

subsection \<open>What is discarded and what is reserved\<close>

definition exclude :: "string \<Rightarrow> source_matcher \<Rightarrow> source_matcher" where
  "exclude p m = m\<lparr>discarded := (discarded m)(p \<mapsto> DISCARDED_BY_MANIFEST_RULE)\<rparr>"

fun run_discard_rules ::
    "('p, 'm) src_ops_scheme \<Rightarrow> 'p discard_rules \<Rightarrow> 'p \<Rightarrow> source_matcher \<Rightarrow> bool \<times> source_matcher" where
  "run_discard_rules ops [] p m = (False, m)"
| "run_discard_rules ops ((name, should_discard) # rules) p m =
     (if should_discard p
      then (True, m\<lparr>used_auto_discard_rules :=
              (used_auto_discard_rules m)(name := insert (op_fs_path ops p) (used_auto_discard_rules m name))\<rparr>)
      else run_discard_rules ops rules p m)"

text \<open>The loop up to the root; the result is the verdict, the paths to remember it for, and the state.\<close>

partial_function (option) exclude_loop ::
    "('p, 'm) src_ops_scheme \<Rightarrow> 'p discard_rules \<Rightarrow> 'p \<Rightarrow> string list \<Rightarrow> source_matcher \<Rightarrow>
     (discard_state \<times> string list \<times> source_matcher) option" where
  "exclude_loop ops rules current cache_misses m =
     (let fs_path = op_fs_path ops current in
      if discard_state_of m fs_path \<noteq> UNCHECKED then Some (discard_state_of m fs_path, cache_misses, m)
      else (case run_discard_rules ops rules current m of
              (hit, m1) \<Rightarrow>
                if hit then Some (DISCARDED_BY_PLUGIN_PROVIDED_RULE, cache_misses @ [fs_path], m1)
                else (case op_parent ops current of
                        None \<Rightarrow> Some (NOT_DISCARDED, cache_misses @ [fs_path], m1)
                      | Some parent \<Rightarrow> exclude_loop ops rules parent (cache_misses @ [fs_path]) m1)))"

definition remember :: "discard_state \<Rightarrow> string list \<Rightarrow> source_matcher \<Rightarrow> source_matcher" where
  "remember verdict cache_misses m =
     m\<lparr>discarded := (\<lambda>p. if p \<in> set cache_misses then Some verdict else discarded m p)\<rparr>"

definition check_plugin_provided_exclude_state_for ::
    "('p, 'm) src_ops_scheme \<Rightarrow> 'p discard_rules \<Rightarrow> 'p \<Rightarrow> source_matcher \<Rightarrow> (discard_state \<times> source_matcher) res" where
  "check_plugin_provided_exclude_state_for ops rules p m =
     rmap (\<lambda>(verdict, cache_misses, m1). (verdict, remember verdict cache_misses m1))
       (returns (exclude_loop ops rules p [] m))"

definition is_reserved ::
    "('p, 'm) src_ops_scheme \<Rightarrow> 'p discard_rules \<Rightarrow> 'p \<Rightarrow> source_matcher \<Rightarrow> (bool \<times> source_matcher) res" where
  "is_reserved ops rules p m =
     (let fs_path = op_fs_path ops p in
      if already_matched m fs_path \<noteq> None then Inr (True, m)
      else rmap (\<lambda>(result, m1). (result \<noteq> NOT_DISCARDED, m1))
             (if discard_state_of m fs_path = UNCHECKED then check_plugin_provided_exclude_state_for ops rules p m
              else Inr (discard_state_of m fs_path, m)))"

definition may_match ::
    "('p, 'm) src_ops_scheme \<Rightarrow> 'p discard_rules \<Rightarrow> 'p path_match \<Rightarrow> bool \<Rightarrow> source_matcher \<Rightarrow>
     (packages \<times> bool \<times> source_matcher) res" where
  "may_match ops rules match is_exact_match m =
     (let fs_path = op_fs_path ops (pm_path match) in
      case already_matched m fs_path of
        Some (into, _) \<Rightarrow> Inr (into, False, m)
      | None \<Rightarrow>
          rbind (if discard_state_of m fs_path = UNCHECKED
                 then check_plugin_provided_exclude_state_for ops rules (pm_path match) m
                 else Inr (discard_state_of m fs_path, m)) (\<lambda>(discard_state, m1).
            if discard_state = UNCHECKED then Inl AssertionErr
            else Inr ([], discard_state \<noteq> NOT_DISCARDED
                          \<and> \<not> (is_exact_match \<and> discard_state = DISCARDED_BY_PLUGIN_PROVIDED_RULE), m1)))"

definition reserve ::
    "('p, 'm) src_ops_scheme \<Rightarrow> 'p \<Rightarrow> packages \<Rightarrow> string \<Rightarrow> bool \<Rightarrow> source_matcher \<Rightarrow> source_matcher" where
  "reserve ops p reserved_by definition_source is_exact_match m =
     (let fs_path = op_fs_path ops p;
          m1 = m\<lparr>already_matched := (already_matched m)(fs_path \<mapsto> (reserved_by, definition_source))\<rparr>
      in if \<not> is_exact_match then m1
         else m1\<lparr>exact_match_request := exact_match_request m1 \<union> (\<lambda>pkg. (package_name pkg, fs_path)) ` set reserved_by,
                 discarded := (discarded m1)(fs_path := None),
                 used_auto_discard_rules := (\<lambda>name. used_auto_discard_rules m1 name - {fs_path})\<rparr>)"

text \<open>\<^verbatim>\<open>detect_missing\<close>: the stack, top first.\<close>

partial_function (option) missing_loop ::
    "('p, 'm) src_ops_scheme \<Rightarrow> 'p discard_rules \<Rightarrow> 'p list \<Rightarrow> source_matcher \<Rightarrow> ('p list \<times> source_matcher) res option" where
  "missing_loop ops rules stack m =
     (case stack of
        [] \<Rightarrow> Some (Inr ([], m))
      | p # rest \<Rightarrow>
          if op_is_dir ops p \<and> op_iterdir ops p \<noteq> [] then missing_loop ops rules (rev (op_iterdir ops p) @ rest) m
          else (case is_reserved ops rules p m of
                  Inl e \<Rightarrow> Some (Inl e)
                | Inr (reserved, m1) \<Rightarrow>
                    Option.bind (missing_loop ops rules rest m1) (\<lambda>r.
                      Some (rmap (\<lambda>(out, m2). (if reserved then out else p # out, m2)) r))))"

definition detect_missing ::
    "('p, 'm) src_ops_scheme \<Rightarrow> 'p discard_rules \<Rightarrow> 'p \<Rightarrow> source_matcher \<Rightarrow> ('p list \<times> source_matcher) res" where
  "detect_missing ops rules search_dir m =
     rbind (returns (missing_loop ops rules (rev (op_iterdir ops search_dir)) m)) (\<lambda>r. r)"

subsection \<open>Resolving a pattern in the search directories\<close>

text \<open>The inner loop of \<^verbatim>\<open>_resolve_path\<close>.\<close>

fun dir_matches ::
    "('p, 'm) src_ops_scheme \<Rightarrow> match_rule \<Rightarrow> bool \<Rightarrow> 'p search_dir \<Rightarrow> packages \<Rightarrow> 'p list \<Rightarrow>
     'p path_match list \<times> exn option" where
  "dir_matches ops rule dir_only sdir applicable [] = ([], None)"
| "dir_matches ops rule dir_only sdir applicable (p # ps) =
     (if dir_only \<and> \<not> op_is_dir ops p then dir_matches ops rule dir_only sdir applicable ps
      else if op_parent ops p = None then
        (if rule = MatchAnything then dir_matches ops rule dir_only sdir applicable ps else ([], Some UserError))
      else (case dir_matches ops rule dir_only sdir applicable ps of
              (ms, e) \<Rightarrow> (\<lparr>pm_path = p, pm_search_dir = sd_search_dir sdir, pm_into = applicable\<rparr> # ms, e)))"

fun resolve_dirs ::
    "('p, 'm) src_ops_scheme \<Rightarrow> match_rule \<Rightarrow> bool \<Rightarrow> ('p \<Rightarrow> bool) option \<Rightarrow> packages \<Rightarrow> packages \<Rightarrow> 'p search_dir list \<Rightarrow>
     'p path_match list \<times> exn option" where
  "resolve_dirs ops rule dir_only match_filter into missing [] = ([], None)"
| "resolve_dirs ops rule dir_only match_filter into missing (sdir # sdirs) =
     (let applicable = filter (\<lambda>p. p \<in> set missing) (sd_applies_to sdir) in
      if into \<noteq> [] \<and> applicable = [] then resolve_dirs ops rule dir_only match_filter into missing sdirs
      else (case finditer ops (sd_search_dir sdir) match_filter rule of
              Inl e \<Rightarrow> ([], Some e)
            | Inr ps \<Rightarrow>
                (case dir_matches ops rule dir_only sdir applicable ps of
                   (ms, Some e) \<Rightarrow> (ms, Some e)
                 | (ms, None) \<Rightarrow>
                     let missing1 = (if ms = [] then missing else filter (\<lambda>p. p \<notin> set applicable) missing) in
                     if ms \<noteq> [] \<and> into \<noteq> [] \<and> missing1 = [] then (ms, None)
                     else (case resolve_dirs ops rule dir_only match_filter into missing1 sdirs of
                             (ms1, e) \<Rightarrow> (ms @ ms1, e)))))"

definition resolve_path ::
    "('p, 'm) src_ops_scheme \<Rightarrow> match_rule \<Rightarrow> 'p search_dir list \<Rightarrow> bool \<Rightarrow> ('p \<Rightarrow> bool) option \<Rightarrow> packages \<Rightarrow>
     'p path_match list \<times> exn option" where
  "resolve_path ops rule search_dirs dir_only match_filter into =
     resolve_dirs ops rule dir_only match_filter into into search_dirs"

subsection \<open>Reserving the matches\<close>

text \<open>An exact match is requested once for each package.\<close>

definition request_exact :: "string \<Rightarrow> binary_package \<Rightarrow> source_matcher \<Rightarrow> source_matcher res" where
  "request_exact fs_path pkg m =
     (let m_key = (package_name pkg, fs_path) in
      if m_key \<in> exact_match_request m then Inl ExactPathMatchTwice
      else Inr (m\<lparr>exact_match_request := insert m_key (exact_match_request m)\<rparr>))"

definition take_match ::
    "('p, 'm) src_ops_scheme \<Rightarrow> packages \<Rightarrow> string \<Rightarrow> 'p path_match \<Rightarrow> source_matcher \<Rightarrow> source_matcher" where
  "take_match ops reserved_by definition_source match m =
     (let fs_path = op_fs_path ops (pm_path match) in
      if reserved_by \<noteq> [] then m\<lparr>already_matched := (already_matched m)(fs_path \<mapsto> (pm_into match, definition_source))\<rparr>
      else exclude fs_path m)"

text \<open>The loop of \<^verbatim>\<open>find_and_reserve_all_matches\<close>: the matches, how many were installed or excluded already, the state.\<close>

fun reserve_matches ::
    "('p, 'm) src_ops_scheme \<Rightarrow> 'p discard_rules \<Rightarrow> bool \<Rightarrow> packages \<Rightarrow> string \<Rightarrow> 'p path_match list \<Rightarrow> source_matcher \<Rightarrow>
     ('p path_match list \<times> nat \<times> nat \<times> source_matcher) res" where
  "reserve_matches ops rules glob_expand reserved_by src [] m = Inr ([], 0, 0, m)"
| "reserve_matches ops rules glob_expand reserved_by src (match # matches) m =
     rbind (may_match ops rules match (\<not> glob_expand) m) (\<lambda>(installed_into, excluded, m1).
       if installed_into \<noteq> [] then
         (if glob_expand then
            rmap (\<lambda>(ms, i, x, m2). (ms, Suc i, x, m2)) (reserve_matches ops rules glob_expand reserved_by src matches m1)
          else Inl PathAlreadyInstalledOrDiscarded)
       else if excluded then
         (if glob_expand then
            rmap (\<lambda>(ms, i, x, m2). (ms, i, Suc x, m2)) (reserve_matches ops rules glob_expand reserved_by src matches m1)
          else Inl PathAlreadyInstalledOrDiscarded)
       else
         rbind (if glob_expand then Inr m1 else rfold (request_exact (op_fs_path ops (pm_path match))) (pm_into match) m1)
           (\<lambda>m2. rmap (\<lambda>(ms, i, x, m3). (match # ms, i, x, m3))
              (reserve_matches ops rules glob_expand reserved_by src matches (take_match ops reserved_by src match m2))))"

definition is_exact_rule :: "match_rule \<Rightarrow> bool" where
  "is_exact_rule rule = (case rule of ExactFileSystemPath _ \<Rightarrow> True | _ \<Rightarrow> False)"

definition find_and_reserve_all_matches ::
    "('p, 'm) src_ops_scheme \<Rightarrow> 'p discard_rules \<Rightarrow> match_rule \<Rightarrow> 'p search_dir list \<Rightarrow> bool \<Rightarrow> ('p \<Rightarrow> bool) option \<Rightarrow>
     packages \<Rightarrow> string \<Rightarrow> source_matcher \<Rightarrow> ('p path_match list \<times> nat \<times> nat \<times> source_matcher) res" where
  "find_and_reserve_all_matches ops rules rule search_dirs dir_only match_filter reserved_by src m =
     (case resolve_path ops rule search_dirs dir_only match_filter reserved_by of
        (matches, e) \<Rightarrow>
          rbind (reserve_matches ops rules (\<not> is_exact_rule rule) reserved_by src matches m) (\<lambda>r.
            case e of None \<Rightarrow> Inr r | Some err \<Rightarrow> Inl err))"

declare exclude_loop.simps [code] missing_loop.simps [code]


subsection \<open>What the caches stand for\<close>

text \<open>
  The verdict that a look-up gives: that of the first path, going up, for which one is remembered (by a discard
  of the manifest or by an earlier look-up) or that a plugin-provided rule discards.  Looking up remembers more,
  but changes none of these verdicts.  Where they agree with a walk that remembers nothing is the
  subject of \<open>uncached_verdict\<close> below.
\<close>

definition cached :: "(string \<rightharpoonup> discard_state) \<Rightarrow> string \<Rightarrow> discard_state" where
  "cached d fs_path = (case d fs_path of None \<Rightarrow> UNCHECKED | Some s \<Rightarrow> s)"

definition rule_hits :: "'p discard_rules \<Rightarrow> 'p \<Rightarrow> bool" where
  "rule_hits rules p \<longleftrightarrow> list_ex (\<lambda>r. snd r p) rules"

fun chain_verdict ::
    "('p, 'm) src_ops_scheme \<Rightarrow> 'p discard_rules \<Rightarrow> (string \<rightharpoonup> discard_state) \<Rightarrow> 'p list \<Rightarrow> discard_state" where
  "chain_verdict ops rules d [] = NOT_DISCARDED"
| "chain_verdict ops rules d (p # ps) =
     (if cached d (op_fs_path ops p) \<noteq> UNCHECKED then cached d (op_fs_path ops p)
      else if rule_hits rules p then DISCARDED_BY_PLUGIN_PROVIDED_RULE
      else chain_verdict ops rules d ps)"

fun chain_misses ::
    "('p, 'm) src_ops_scheme \<Rightarrow> 'p discard_rules \<Rightarrow> (string \<rightharpoonup> discard_state) \<Rightarrow> 'p list \<Rightarrow> 'p list" where
  "chain_misses ops rules d [] = []"
| "chain_misses ops rules d (p # ps) =
     (if cached d (op_fs_path ops p) \<noteq> UNCHECKED then []
      else p # (if rule_hits rules p then [] else chain_misses ops rules d ps))"

lemma discard_state_of_cached: "discard_state_of m f = cached (discarded m) f"
  by (simp add: discard_state_of_def cached_def)

lemma chain_verdict_checked: "chain_verdict ops rules d ps \<noteq> UNCHECKED"
  by (induction ps) simp_all

lemma run_discard_rules_fst: "fst (run_discard_rules ops rules p m) = rule_hits rules p"
  by (induction ops rules p m rule: run_discard_rules.induct) (simp_all add: rule_hits_def)

text \<open>What the discard rules leave alone.\<close>

definition same_taken :: "source_matcher \<Rightarrow> source_matcher \<Rightarrow> bool" where
  "same_taken m m' \<longleftrightarrow> already_matched m' = already_matched m \<and> exact_match_request m' = exact_match_request m"

lemma same_taken_refl [simp]: "same_taken m m"
  by (simp add: same_taken_def)

lemma same_taken_trans: "same_taken a b \<Longrightarrow> same_taken b c \<Longrightarrow> same_taken a c"
  by (simp add: same_taken_def)

lemma run_discard_rules_state:
  "discarded (snd (run_discard_rules ops rules p m)) = discarded m \<and> same_taken m (snd (run_discard_rules ops rules p m))"
  by (induction ops rules p m rule: run_discard_rules.induct) (simp_all add: same_taken_def)

definition reserved_now ::
    "('p, 'm) src_ops_scheme \<Rightarrow> 'p discard_rules \<Rightarrow> ('p \<Rightarrow> 'p list) \<Rightarrow> source_matcher \<Rightarrow> 'p \<Rightarrow> bool" where
  "reserved_now ops rules chain m p \<longleftrightarrow>
     already_matched m (op_fs_path ops p) \<noteq> None \<or> chain_verdict ops rules (discarded m) (chain p) \<noteq> NOT_DISCARDED"

context source_tree
begin

lemma exclude_loop_eq:
  "valid p \<Longrightarrow> \<exists>m1. exclude_loop ops rules p acc m =
       Some (chain_verdict ops rules (discarded m) (chain p),
             acc @ map (op_fs_path ops) (chain_misses ops rules (discarded m) (chain p)), m1)
     \<and> discarded m1 = discarded m \<and> same_taken m m1"
proof (induction "length (chain p)" arbitrary: p acc m rule: less_induct)
  case less
  note v = less.prems
  let ?f = "op_fs_path ops p"
  note c = chain_law[OF v]
  show ?case
  proof (cases "cached (discarded m) ?f = UNCHECKED")
    case False
    then show ?thesis using c
      by (simp add: exclude_loop.simps[of ops rules p] discard_state_of_cached)
  next
    case True
    obtain m1 where r: "run_discard_rules ops rules p m = (rule_hits rules p, m1)"
      and st: "discarded m1 = discarded m" "same_taken m m1"
      using run_discard_rules_fst[of ops rules p m] run_discard_rules_state[of ops rules p m]
      by (cases "run_discard_rules ops rules p m") simp
    show ?thesis
    proof (cases "rule_hits rules p \<or> op_parent ops p = None")
      case stop: True
      then show ?thesis using True c st r
        by (cases "rule_hits rules p") (simp_all add: exclude_loop.simps[of ops rules p] discard_state_of_cached Let_def)
    next
      case False
      then obtain q where q: "op_parent ops p = Some q" by auto
      have vq: "valid q" and cq: "chain p = p # chain q" using parent_law[OF v q] c q by simp_all
      from less.hyps[OF _ vq, of "acc @ [?f]" m1] cq obtain m2 where
        "exclude_loop ops rules q (acc @ [?f]) m1 = Some (chain_verdict ops rules (discarded m) (chain q),
          (acc @ [?f]) @ map (op_fs_path ops) (chain_misses ops rules (discarded m) (chain q)), m2)"
        "discarded m2 = discarded m" "same_taken m1 m2" using st by auto
      then show ?thesis using False True cq st(1) r q same_taken_trans[OF st(2)]
        by (simp add: exclude_loop.simps[of ops rules p] discard_state_of_cached Let_def)
    qed
  qed
qed

lemma misses_share_verdict:
  "valid p \<Longrightarrow> y \<in> set (chain_misses ops rules d (chain p)) \<Longrightarrow>
     valid y \<and> chain_verdict ops rules d (chain y) = chain_verdict ops rules d (chain p)"
proof (induction "length (chain p)" arbitrary: p rule: less_induct)
  case less
  note v = less.prems(1)
  show ?case
  proof (cases "y = p")
    case False
    then obtain q where q: "op_parent ops p = Some q" "\<not> rule_hits rules p" "cached d (op_fs_path ops p) = UNCHECKED"
      "y \<in> set (chain_misses ops rules d (chain q))"
      using less.prems(2) chain_law[OF v] by (auto split: if_splits option.splits)
    have "valid q" and c: "chain p = p # chain q" using parent_law[OF v q(1)] chain_law[OF v] q(1) by simp_all
    with less.hyps[of q] q(4) have "valid y" "chain_verdict ops rules d (chain y) = chain_verdict ops rules d (chain q)" by auto
    with c q(2,3) show ?thesis by simp
  qed (use v in simp)
qed

text \<open>Remembering a verdict for everything on the way up changes no verdict.\<close>

lemma remember_transparent:
  assumes p: "valid p" and q: "valid q"
    and m': "m' = remember (chain_verdict ops rules (discarded m) (chain p))
                (map (op_fs_path ops) (chain_misses ops rules (discarded m) (chain p))) m1"
    and m1: "discarded m1 = discarded m"
  shows "chain_verdict ops rules (discarded m') (chain q) = chain_verdict ops rules (discarded m) (chain q)"
  using q
proof (induction "length (chain q)" arbitrary: q rule: less_induct)
  case less
  note q = less.prems
  let ?ms = "chain_misses ops rules (discarded m) (chain p)" and ?V = "chain_verdict ops rules (discarded m) (chain p)"
  note c = chain_law[OF q]
  show ?case
  proof (cases "op_fs_path ops q \<in> op_fs_path ops ` set ?ms")
    case True
    then obtain y where y: "y \<in> set ?ms" "op_fs_path ops q = op_fs_path ops y" by blast
    note sv = misses_share_verdict[OF p y(1)]
    then have "q = y" using fs_path_law[OF q] y(2) by blast
    with sv have "chain_verdict ops rules (discarded m) (chain q) = ?V" by simp
    moreover have "cached (discarded m') (op_fs_path ops q) = ?V" using True m' by (simp add: remember_def cached_def)
    ultimately show ?thesis using c chain_verdict_checked[of ops rules "discarded m" "chain p"] by simp
  next
    case False
    then have e: "cached (discarded m') (op_fs_path ops q) = cached (discarded m) (op_fs_path ops q)"
      using m' m1 by (simp add: remember_def cached_def)
    show ?thesis
    proof (cases "op_parent ops q")
      case None
      with c e show ?thesis by simp
    next
      case (Some r)
      have r: "valid r" and cr: "chain q = q # chain r" using parent_law[OF q Some] c Some by simp_all
      with less.hyps[of r] cr e show ?thesis by simp
    qed
  qed
qed

lemma check_exclude_ok:
  assumes "valid p"
  shows "\<exists>m'. check_plugin_provided_exclude_state_for ops rules p m = Inr (chain_verdict ops rules (discarded m) (chain p), m')
    \<and> same_taken m m' \<and> (\<forall>q. valid q \<longrightarrow>
        chain_verdict ops rules (discarded m') (chain q) = chain_verdict ops rules (discarded m) (chain q))"
proof -
  let ?V = "chain_verdict ops rules (discarded m) (chain p)"
  let ?ms = "map (op_fs_path ops) (chain_misses ops rules (discarded m) (chain p))"
  obtain m1 where l: "exclude_loop ops rules p [] m = Some (?V, ?ms, m1)" "discarded m1 = discarded m" "same_taken m m1"
    using exclude_loop_eq[OF assms, of rules "[]" m] by auto
  have "same_taken m (remember ?V ?ms m1)" using l(3) by (simp add: same_taken_def remember_def)
  then show ?thesis using l remember_transparent[OF assms _ refl l(2)]
    by (auto simp: check_plugin_provided_exclude_state_for_def returns_def)
qed

lemma verdict_of_cached: "valid p \<Longrightarrow> cached (discarded m) (op_fs_path ops p) \<noteq> UNCHECKED \<Longrightarrow>
    chain_verdict ops rules (discarded m) (chain p) = cached (discarded m) (op_fs_path ops p)"
  using chain_law[of p] by simp

lemma is_reserved_ok:
  assumes "valid p"
  shows "\<exists>m'. is_reserved ops rules p m = Inr (reserved_now ops rules chain m p, m')
    \<and> same_taken m m' \<and> (\<forall>q. valid q \<longrightarrow>
        chain_verdict ops rules (discarded m') (chain q) = chain_verdict ops rules (discarded m) (chain q))"
proof (cases "already_matched m (op_fs_path ops p) = None \<and> cached (discarded m) (op_fs_path ops p) = UNCHECKED")
  case True
  with check_exclude_ok[OF assms, of rules m] show ?thesis
    by (auto simp: is_reserved_def Let_def discard_state_of_cached reserved_now_def)
next
  case False
  then show ?thesis using verdict_of_cached[OF assms]
    by (auto simp: is_reserved_def Let_def discard_state_of_cached reserved_now_def)
qed

lemma reserved_now_cong:
  "same_taken m m' \<Longrightarrow> chain_verdict ops rules (discarded m') (chain q) = chain_verdict ops rules (discarded m) (chain q) \<Longrightarrow>
     reserved_now ops rules chain m' q = reserved_now ops rules chain m q"
  by (simp add: reserved_now_def same_taken_def)

end


definition is_leaf :: "('p, 'm) src_ops_scheme \<Rightarrow> 'p \<Rightarrow> bool" where
  "is_leaf ops p \<longleftrightarrow> \<not> (op_is_dir ops p \<and> op_iterdir ops p \<noteq> [])"

context source_tree
begin

definition apart :: "'p list \<Rightarrow> bool" where
  "apart stack \<longleftrightarrow> distinct stack \<and> (\<forall>a \<in> set stack. \<forall>b \<in> set stack. \<forall>q. under a q \<longrightarrow> under b q \<longrightarrow> a = b)"

lemma apart_children: "valid p \<Longrightarrow> apart (rev (op_iterdir ops p))"
  using children_distinct_law siblings_apart by (auto simp: apart_def)

lemma apart_expand:
  assumes v: "valid p" and a: "apart (p # rest)"
  shows "apart (rev (op_iterdir ops p) @ rest)"
proof -
  have pq: "under p q" if "c \<in> set (op_iterdir ops p)" "under c q" for c q using that under_step[OF v] by blast
  have rest: "\<not> under b q" if "b \<in> set rest" "under p q" for b q using a that by (auto simp: apart_def)
  have self: "under c c" if "c \<in> set (op_iterdir ops p)" for c using that child_valid[OF v] under_step by blast
  have "set (op_iterdir ops p) \<inter> set rest = {}"
    using rest pq self by (meson disjoint_iff)
  moreover have "distinct rest" using a by (simp add: apart_def)
  ultimately have "distinct (rev (op_iterdir ops p) @ rest)"
    using children_distinct_law[OF v] by simp
  moreover have "x = y" if x: "x \<in> set (rev (op_iterdir ops p) @ rest)" and y: "y \<in> set (rev (op_iterdir ops p) @ rest)"
    and u: "under x q" "under y q" for x y q
  proof -
    have pc: "under p q" if "c \<in> set (op_iterdir ops p)" "under c q" for c using pq that by blast
    have rr: "x = y" if "x \<in> set rest" "y \<in> set rest" using a u that unfolding apart_def by (meson list.set_intros(2))
    show ?thesis
    proof (cases "x \<in> set (op_iterdir ops p)")
      case True
      then have "under p q" using pc u(1) by blast
      then have "y \<in> set (op_iterdir ops p)" using y rest u(2) by auto
      then show ?thesis using siblings_apart[OF v True _ u] by blast
    next
      case False
      then have xr: "x \<in> set rest" using x by simp
      then have "\<not> under p q" using rest u(1) by blast
      then have "y \<in> set rest" using y pc u(2) by auto
      then show ?thesis using rr xr by blast
    qed
  qed
  ultimately show ?thesis unfolding apart_def by blast
qed

lemma missing_loop_eq:
  assumes "\<forall>p \<in> set stack. valid p" and "apart stack"
  shows "\<exists>out m'. missing_loop ops rules stack m = Some (Inr (out, m')) \<and> distinct out
    \<and> set out = {q. (\<exists>p \<in> set stack. under p q) \<and> is_leaf ops q \<and> \<not> reserved_now ops rules chain m q}
    \<and> same_taken m m'"
  using assms
proof (induction "(\<Sum>p \<leftarrow> stack. card {q. under p q})" arbitrary: stack m rule: less_induct)
  case less
  show ?case
  proof (cases stack)
    case Nil
    then show ?thesis by (simp add: missing_loop.simps)
  next
    case (Cons p rest)
    note cn = Cons
    have v: "valid p" and vr: "\<forall>x \<in> set rest. valid x" using less.prems(1) Cons by simp_all
    show ?thesis
    proof (cases "is_leaf ops p")
      case False
      let ?st = "rev (op_iterdir ops p) @ rest"
      have loop: "missing_loop ops rules stack m = missing_loop ops rules ?st m"
        using False unfolding Cons by (simp add: missing_loop.simps[of ops rules "p # rest"] is_leaf_def)
      have "(\<Sum>p \<leftarrow> ?st. card {q. under p q}) < (\<Sum>p \<leftarrow> stack. card {q. under p q})"
        using children_count[OF v] unfolding Cons by (simp add: rev_map[symmetric])
      moreover have "\<forall>x \<in> set ?st. valid x" using vr child_valid[OF v] by auto
      moreover have "apart ?st" using apart_expand[OF v] less.prems(2) Cons by simp
      ultimately obtain out m' where o: "missing_loop ops rules ?st m = Some (Inr (out, m'))" "distinct out"
        "set out = {q. (\<exists>p \<in> set ?st. under p q) \<and> is_leaf ops q \<and> \<not> reserved_now ops rules chain m q}" "same_taken m m'"
        using less.hyps by blast
      have "(\<exists>x \<in> set ?st. under x q) \<and> is_leaf ops q \<longleftrightarrow> (\<exists>x \<in> set stack. under x q) \<and> is_leaf ops q" for q
        using under_step[OF v, of q] False unfolding Cons by auto
      with o(3) have "set out = {q. (\<exists>p \<in> set stack. under p q) \<and> is_leaf ops q \<and> \<not> reserved_now ops rules chain m q}"
        by blast
      with o loop show ?thesis by auto
    next
      case True
      have alone: "under p q \<longleftrightarrow> q = p" for q
      proof -
        have "op_iterdir ops p = []" using True child_law[OF v] unfolding is_leaf_def by (cases "op_iterdir ops p") auto
        then show ?thesis using under_step[OF v, of q] by simp
      qed
      obtain m1 where r: "is_reserved ops rules p m = Inr (reserved_now ops rules chain m p, m1)" "same_taken m m1"
        and cv: "\<And>q. valid q \<Longrightarrow> chain_verdict ops rules (discarded m1) (chain q) = chain_verdict ops rules (discarded m) (chain q)"
        using is_reserved_ok[OF v] by blast
      have rn: "reserved_now ops rules chain m1 q = reserved_now ops rules chain m q" if "valid q" for q
        using reserved_now_cong[OF r(2) cv[OF that]] .
      have "(\<Sum>p \<leftarrow> rest. card {q. under p q}) < (\<Sum>p \<leftarrow> stack. card {q. under p q})"
      proof -
        have "{q. under p q} = {p}" using alone by blast
        then show ?thesis unfolding Cons by simp
      qed
      moreover have "apart rest" using less.prems(2) Cons by (simp add: apart_def)
      ultimately obtain out m' where o: "missing_loop ops rules rest m1 = Some (Inr (out, m'))" "distinct out"
        "set out = {q. (\<exists>p \<in> set rest. under p q) \<and> is_leaf ops q \<and> \<not> reserved_now ops rules chain m1 q}" "same_taken m1 m'"
        using less.hyps vr by blast
      have set_out: "set out = {q. (\<exists>p \<in> set rest. under p q) \<and> is_leaf ops q \<and> \<not> reserved_now ops rules chain m q}"
        unfolding o(3) using rn under_law vr by blast
      have "p \<notin> set out"
      proof
        assume "p \<in> set out"
        then obtain x where "x \<in> set rest" "under x p" unfolding o(3) by blast
        with less.prems(2) alone show False unfolding Cons apart_def by auto
      qed
      then have "distinct (if reserved_now ops rules chain m p then out else p # out)" using o(2) by simp
      moreover have "set (if reserved_now ops rules chain m p then out else p # out)
          = {q. (\<exists>p \<in> set stack. under p q) \<and> is_leaf ops q \<and> \<not> reserved_now ops rules chain m q}"
      proof -
        have st: "(\<exists>x \<in> set stack. under x q) \<longleftrightarrow> q = p \<or> (\<exists>x \<in> set rest. under x q)" for q
          unfolding Cons using alone by simp
        show ?thesis
        proof (cases "reserved_now ops rules chain m p")
          case True
          then show ?thesis unfolding st if_P[OF True] set_out by blast
        next
          case nr: False
          show ?thesis unfolding st if_not_P[OF nr] list.set(2) set_out using nr True by blast
        qed
      qed
      moreover have "missing_loop ops rules stack m =
          Some (Inr (if reserved_now ops rules chain m p then out else p # out, m'))"
      proof -
        have nl: "(op_is_dir ops p \<and> op_iterdir ops p \<noteq> []) = False" using True unfolding is_leaf_def by blast
        show ?thesis unfolding Cons missing_loop.simps[of ops rules "p # rest"] list.case nl if_False r(1)
          by (simp add: o(1))
      qed
      ultimately show ?thesis using same_taken_trans[OF r(2) o(4)] by blast
    qed
  qed
qed

lemma detect_missing_eq:
  assumes v: "valid p"
  shows "\<exists>out m'. detect_missing ops rules p m = Inr (out, m') \<and> distinct out
    \<and> set out = {q. under p q \<and> q \<noteq> p \<and> is_leaf ops q \<and> \<not> reserved_now ops rules chain m q} \<and> same_taken m m'"
proof -
  have "\<forall>c \<in> set (rev (op_iterdir ops p)). valid c" using child_valid[OF v] by simp
  from missing_loop_eq[OF this apart_children[OF v], of rules m] obtain out m' where
    o: "missing_loop ops rules (rev (op_iterdir ops p)) m = Some (Inr (out, m'))" "distinct out" "same_taken m m'"
    "set out = {q. (\<exists>p \<in> set (rev (op_iterdir ops p)). under p q) \<and> is_leaf ops q \<and> \<not> reserved_now ops rules chain m q}"
    by blast
  have "(\<exists>c \<in> set (op_iterdir ops p). under c q) \<longleftrightarrow> under p q \<and> q \<noteq> p" for q
    using under_step[OF v] not_under_child[OF v] by blast
  then have "set out = {q. under p q \<and> q \<noteq> p \<and> is_leaf ops q \<and> \<not> reserved_now ops rules chain m q}"
    using o(4) by auto
  with o show ?thesis by (auto simp: detect_missing_def returns_def)
qed

end


subsection \<open>What a pattern takes\<close>

text \<open>A path that is taken is taken by at least one package.\<close>

definition taken_by_some :: "source_matcher \<Rightarrow> bool" where
  "taken_by_some m \<longleftrightarrow> (\<forall>f into src. already_matched m f = Some (into, src) \<longrightarrow> into \<noteq> [])"

lemma rmap_tuple4_Inr: "rmap (\<lambda>(ms, i, x, m). (f ms, g i, h x, m)) r = Inr (ms', i', x', m') \<longleftrightarrow>
    (\<exists>ms i x. r = Inr (ms, i, x, m') \<and> ms' = f ms \<and> i' = g i \<and> x' = h x)"
  by (cases r) auto

context source_tree
begin

lemma may_match_ok:
  assumes "valid (pm_path k)"
  shows "\<exists>m'. may_match ops rules k exact m = Inr
       (case already_matched m (op_fs_path ops (pm_path k)) of Some (into, _) \<Rightarrow> into | None \<Rightarrow> [],
        already_matched m (op_fs_path ops (pm_path k)) = None
          \<and> chain_verdict ops rules (discarded m) (chain (pm_path k)) \<noteq> NOT_DISCARDED
          \<and> \<not> (exact \<and> chain_verdict ops rules (discarded m) (chain (pm_path k)) = DISCARDED_BY_PLUGIN_PROVIDED_RULE), m')
     \<and> same_taken m m' \<and> (\<forall>q. valid q \<longrightarrow>
        chain_verdict ops rules (discarded m') (chain q) = chain_verdict ops rules (discarded m) (chain q))"
proof (cases "already_matched m (op_fs_path ops (pm_path k))")
  case None
  show ?thesis
  proof (cases "cached (discarded m) (op_fs_path ops (pm_path k)) = UNCHECKED")
    case True
    from check_exclude_ok[OF assms, of rules m] obtain m' where
      "check_plugin_provided_exclude_state_for ops rules (pm_path k) m =
         Inr (chain_verdict ops rules (discarded m) (chain (pm_path k)), m')" "same_taken m m'"
      "\<forall>q. valid q \<longrightarrow> chain_verdict ops rules (discarded m') (chain q) = chain_verdict ops rules (discarded m) (chain q)"
      by blast
    then show ?thesis using None True chain_verdict_checked[of ops rules "discarded m" "chain (pm_path k)"]
      by (simp add: may_match_def Let_def discard_state_of_cached)
  next
    case False
    then show ?thesis using None verdict_of_cached[OF assms False, of rules]
      by (simp add: may_match_def Let_def discard_state_of_cached)
  qed
next
  case (Some a)
  then show ?thesis by (cases a) (simp add: may_match_def Let_def)
qed

text \<open>
  A pattern of an installation rule takes paths that nobody has and that are not discarded, each of them
  once; it leaves every other path as it was, and passes over the rest because they are taken or discarded.
\<close>

lemma reserve_matches_glob:
  assumes "list_all (\<lambda>k. valid (pm_path k) \<and> pm_into k \<noteq> []) matches" and "taken_by_some m" and "by_pkgs \<noteq> []"
    and "reserve_matches ops rules True by_pkgs src matches m = Inr (ms, i, x, m')"
  shows "distinct (map (\<lambda>k. op_fs_path ops (pm_path k)) ms)
    \<and> (\<forall>k \<in> set ms. \<not> reserved_now ops rules chain m (pm_path k)
         \<and> already_matched m' (op_fs_path ops (pm_path k)) = Some (pm_into k, src))
    \<and> (\<forall>f. f \<notin> (\<lambda>k. op_fs_path ops (pm_path k)) ` set ms \<longrightarrow> already_matched m' f = already_matched m f)
    \<and> (\<forall>q. valid q \<longrightarrow> chain_verdict ops rules (discarded m') (chain q) = chain_verdict ops rules (discarded m) (chain q))
    \<and> (\<forall>k \<in> set matches. reserved_now ops rules chain m' (pm_path k))
    \<and> length matches = length ms + i + x \<and> set ms \<subseteq> set matches"
  using assms
proof (induction matches arbitrary: m ms i x)
  case Nil
  then show ?case by simp
next
  case (Cons k matches)
  let ?f = "op_fs_path ops (pm_path k)" and ?fs = "\<lambda>k. op_fs_path ops (pm_path k)"
  have vk: "valid (pm_path k)" and ik: "pm_into k \<noteq> []" and vr: "list_all (\<lambda>k. valid (pm_path k) \<and> pm_into k \<noteq> []) matches"
    using Cons.prems(1) by simp_all
  let ?V = "chain_verdict ops rules (discarded m) (chain (pm_path k))"
  obtain m1 where mm: "may_match ops rules k False m = Inr
       (case already_matched m ?f of Some (into, _) \<Rightarrow> into | None \<Rightarrow> [], already_matched m ?f = None \<and> ?V \<noteq> NOT_DISCARDED, m1)"
    and st: "same_taken m m1" and cv: "\<And>q. valid q \<Longrightarrow> chain_verdict ops rules (discarded m1) (chain q) = chain_verdict ops rules (discarded m) (chain q)"
    using may_match_ok[OF vk, of rules False m] by auto
  have t1: "taken_by_some m1" using Cons.prems(2) st by (simp add: taken_by_some_def same_taken_def)
  have rn: "reserved_now ops rules chain m1 q = reserved_now ops rules chain m q" if "valid q" for q
    using reserved_now_cong[OF st cv[OF that]] .
  have am: "already_matched m1 = already_matched m" using st by (simp add: same_taken_def)
  show ?case
  proof (cases "reserved_now ops rules chain m (pm_path k)")
    case True
    have "\<exists>i' x'. reserve_matches ops rules True by_pkgs src matches m1 = Inr (ms, i', x', m') \<and> i + x = Suc (i' + x')"
    proof (cases "already_matched m ?f")
      case None
      then have "?V \<noteq> NOT_DISCARDED" using True by (simp add: reserved_now_def)
      then show ?thesis using Cons.prems(4) mm None by (auto simp: rmap_tuple4_Inr)
    next
      case (Some a)
      then have "fst a \<noteq> []" using Cons.prems(2) by (cases a) (auto simp: taken_by_some_def)
      then show ?thesis using Cons.prems(4) mm Some by (cases a) (auto simp: rmap_tuple4_Inr)
    qed
    then obtain i' x' where r: "reserve_matches ops rules True by_pkgs src matches m1 = Inr (ms, i', x', m')" "i + x = Suc (i' + x')"
      by blast
    note ih = Cons.IH[OF vr t1 Cons.prems(3) r(1)]
    have "reserved_now ops rules chain m' (pm_path k)"
    proof -
      have "already_matched m ?f \<noteq> None \<Longrightarrow> already_matched m' ?f \<noteq> None"
        using ih am by (cases "?f \<in> ?fs ` set ms") auto
      then show ?thesis using True ih cv[OF vk] vk by (auto simp: reserved_now_def)
    qed
    moreover have "\<not> reserved_now ops rules chain m (pm_path k')" if "k' \<in> set ms" for k'
    proof -
      have "k' \<in> set matches" using ih that by blast
      then have "valid (pm_path k')" using vr by (simp add: list_all_iff)
      then show ?thesis using ih that rn by blast
    qed
    ultimately show ?thesis using ih r(2) am cv by auto
  next
    case False
    then have none: "already_matched m ?f = None" and nd: "?V = NOT_DISCARDED" unfolding reserved_now_def by blast+
    let ?m2 = "take_match ops by_pkgs src k m1"
    obtain ms0 where r: "reserve_matches ops rules True by_pkgs src matches ?m2 = Inr (ms0, i, x, m')" "ms = k # ms0"
      using Cons.prems(4) mm none nd by (auto simp: rmap_eq_Inr)
    have m2: "already_matched ?m2 = (already_matched m)(?f \<mapsto> (pm_into k, src))" "discarded ?m2 = discarded m1"
      using Cons.prems(3) am by (simp_all add: take_match_def Let_def)
    have t2: "taken_by_some ?m2" using Cons.prems(2) ik m2(1) by (auto simp: taken_by_some_def)
    note ih = Cons.IH[OF vr t2 Cons.prems(3) r(1)]
    have kf: "?f \<notin> ?fs ` set ms0"
    proof
      assume "?f \<in> ?fs ` set ms0"
      then obtain k' where k': "k' \<in> set ms0" "?fs k' = ?f" by auto
      then have "\<not> reserved_now ops rules chain ?m2 (pm_path k')" using ih by blast
      then have "already_matched ?m2 (?fs k') = None" unfolding reserved_now_def by blast
      with m2(1) k'(2) show False by simp
    qed
    have rn2: "\<not> reserved_now ops rules chain m (pm_path k')" if k': "k' \<in> set ms0" for k'
    proof -
      have n: "\<not> reserved_now ops rules chain ?m2 (pm_path k')" using ih k' by blast
      have v: "valid (pm_path k')" using ih k' vr by (auto simp: list_all_iff)
      have "?fs k' \<noteq> ?f"
      proof
        assume e: "?fs k' = ?f"
        have "?fs k' \<in> ?fs ` set ms0" using k' by (rule imageI)
        with kf show False unfolding e by blast
      qed
      then have "already_matched ?m2 (?fs k') = already_matched m (?fs k')" using m2(1) by simp
      with n m2(2) cv[OF v] show ?thesis unfolding reserved_now_def by simp
    qed
    have tk: "already_matched m' ?f = Some (pm_into k, src)" using ih kf m2(1) by simp
    have "\<forall>f. f \<notin> ?fs ` set ms \<longrightarrow> already_matched m' f = already_matched m f"
      using ih m2(1) r(2) by auto
    moreover have "distinct (map ?fs ms)" using ih kf r(2) by auto
    moreover have "\<forall>k' \<in> set ms. \<not> reserved_now ops rules chain m (pm_path k') \<and> already_matched m' (?fs k') = Some (pm_into k', src)"
      using ih rn2 tk False r(2) by auto
    moreover have "reserved_now ops rules chain m' (pm_path k)" using tk by (simp add: reserved_now_def)
    ultimately show ?thesis using ih r(2) m2(2) cv by auto
  qed
qed

end


subsection \<open>Matches in the search directories\<close>

lemma dir_matches_fst:
  "k \<in> set (fst (dir_matches ops rule dir_only sdir applicable ps)) \<Longrightarrow>
     pm_path k \<in> set ps \<and> pm_into k = applicable \<and> pm_search_dir k = sd_search_dir sdir"
  by (induction ops rule dir_only sdir applicable ps rule: dir_matches.induct) (auto split: if_splits prod.splits)

text \<open>One step over the search directories.\<close>

lemma resolve_dirs_step:
  "fst (resolve_dirs ops rule dir_only flt into missing (sdir # sdirs)) =
     (let applicable = filter (\<lambda>p. p \<in> set missing) (sd_applies_to sdir) in
      if into \<noteq> [] \<and> applicable = [] then fst (resolve_dirs ops rule dir_only flt into missing sdirs)
      else (case finditer ops (sd_search_dir sdir) flt rule of
              Inl e \<Rightarrow> []
            | Inr ps \<Rightarrow>
                let ms = fst (dir_matches ops rule dir_only sdir applicable ps);
                    missing1 = (if ms = [] then missing else filter (\<lambda>p. p \<notin> set applicable) missing)
                in if snd (dir_matches ops rule dir_only sdir applicable ps) \<noteq> None
                      \<or> ms \<noteq> [] \<and> into \<noteq> [] \<and> missing1 = [] then ms
                   else ms @ fst (resolve_dirs ops rule dir_only flt into missing1 sdirs)))"
  by (auto simp: Let_def split: prod.splits option.splits sum.splits)

lemma resolve_dirs_into:
  "k \<in> set (fst (resolve_dirs ops rule dir_only flt into missing sdirs)) \<Longrightarrow>
     set (pm_into k) \<subseteq> set missing \<and> (into \<noteq> [] \<longrightarrow> pm_into k \<noteq> []) \<and> pm_search_dir k \<in> sd_search_dir ` set sdirs
     \<and> (\<exists>sdir \<in> set sdirs. \<exists>ps. finditer ops (sd_search_dir sdir) flt rule = Inr ps \<and> pm_path k \<in> set ps)"
proof (induction sdirs arbitrary: missing)
  case Nil
  then show ?case by simp
next
  case (Cons sdir sdirs)
  let ?a = "filter (\<lambda>p. p \<in> set missing) (sd_applies_to sdir)"
  show ?case
  proof (cases "into \<noteq> [] \<and> ?a = []")
    case True
    then have "k \<in> set (fst (resolve_dirs ops rule dir_only flt into missing sdirs))"
      using Cons.prems unfolding resolve_dirs_step Let_def if_P[OF True] by blast
    from Cons.IH[OF this] show ?thesis by auto
  next
    case False
    show ?thesis
    proof (cases "finditer ops (sd_search_dir sdir) flt rule")
      case (Inl e)
      then show ?thesis using Cons.prems False unfolding resolve_dirs_step Let_def by (simp only: if_not_P sum.case) simp
    next
      case (Inr ps)
      let ?ms = "fst (dir_matches ops rule dir_only sdir ?a ps)"
      let ?m1 = "if ?ms = [] then missing else filter (\<lambda>p. p \<notin> set ?a) missing"
      have "k \<in> set ?ms \<or> k \<in> set (fst (resolve_dirs ops rule dir_only flt into ?m1 sdirs))"
        using Cons.prems unfolding resolve_dirs_step Let_def if_not_P[OF False] Inr sum.case by (auto split: if_splits)
      then show ?thesis
      proof
        assume "k \<in> set ?ms"
        note d = dir_matches_fst[OF this]
        with False Inr show ?thesis by auto
      next
        assume "k \<in> set (fst (resolve_dirs ops rule dir_only flt into ?m1 sdirs))"
        note i = Cons.IH[OF this]
        moreover have "set ?m1 \<subseteq> set missing" by auto
        ultimately show ?thesis by auto
      qed
    qed
  qed
qed

lemma resolve_dirs_single_dir:
  assumes "distinct (map sd_search_dir sdirs)" and "into \<noteq> []"
  shows "k \<in> set (fst (resolve_dirs ops rule dir_only flt into missing sdirs)) \<Longrightarrow>
    k' \<in> set (fst (resolve_dirs ops rule dir_only flt into missing sdirs)) \<Longrightarrow>
    p \<in> set (pm_into k) \<Longrightarrow> p \<in> set (pm_into k') \<Longrightarrow> pm_search_dir k = pm_search_dir k'"
  using assms(1)
proof (induction sdirs arbitrary: missing k k')
  case Nil
  then show ?case by simp
next
  case (Cons sdir sdirs)
  let ?a = "filter (\<lambda>p. p \<in> set missing) (sd_applies_to sdir)"
  have ds: "distinct (map sd_search_dir sdirs)" using Cons.prems(5) by simp
  show ?case
  proof (cases "?a = []")
    case True
    with assms(2) have skip: "into \<noteq> [] \<and> ?a = []" by simp
    show ?thesis using Cons.IH[OF _ _ Cons.prems(3,4) ds] Cons.prems(1,2)
      unfolding resolve_dirs_step Let_def if_P[OF skip] by blast
  next
    case False
    then have na: "\<not> (into \<noteq> [] \<and> ?a = [])" by simp
    show ?thesis
    proof (cases "finditer ops (sd_search_dir sdir) flt rule")
      case (Inl e)
      then show ?thesis using Cons.prems na unfolding resolve_dirs_step Let_def by (simp only: if_not_P sum.case) simp
    next
      case (Inr ps)
      let ?ms = "fst (dir_matches ops rule dir_only sdir ?a ps)"
      let ?m1 = "if ?ms = [] then missing else filter (\<lambda>p. p \<notin> set ?a) missing"
      let ?rest = "set (fst (resolve_dirs ops rule dir_only flt into ?m1 sdirs))"
      have in_: "j \<in> set ?ms \<or> j \<in> ?rest" if "j \<in> set (fst (resolve_dirs ops rule dir_only flt into missing (sdir # sdirs)))" for j
        using that unfolding resolve_dirs_step Let_def if_not_P[OF na] Inr sum.case by (auto split: if_splits)
      have no: False if "i \<in> set ?ms" "j \<in> ?rest" "p \<in> set (pm_into i)" "p \<in> set (pm_into j)" for i j
      proof -
        have "p \<in> set ?a" using dir_matches_fst[OF that(1)] that(3) by auto
        moreover have "p \<in> set ?m1" using resolve_dirs_into[OF that(2)] that(4) by blast
        moreover have "?ms \<noteq> []" using that(1) by (cases ?ms) simp_all
        ultimately show False by simp
      qed
      have same: "pm_search_dir i = pm_search_dir j" if "i \<in> set ?ms" "j \<in> set ?ms" for i j
        using dir_matches_fst[OF that(1)] dir_matches_fst[OF that(2)] by simp
      from in_[OF Cons.prems(1)] in_[OF Cons.prems(2)] show ?thesis
        using same no Cons.prems(3,4) Cons.IH[OF _ _ Cons.prems(3,4) ds] by blast
    qed
  qed
qed

context source_tree
begin

lemma resolved_valid:
  assumes "list_all (\<lambda>s. valid (sd_search_dir s)) sdirs" and "into \<noteq> []"
  shows "list_all (\<lambda>k. valid (pm_path k) \<and> pm_into k \<noteq> []) (fst (resolve_path ops rule sdirs dir_only flt into))"
  unfolding list_all_iff
proof
  fix k
  assume k: "k \<in> set (fst (resolve_path ops rule sdirs dir_only flt into))"
  note i = resolve_dirs_into[OF k[unfolded resolve_path_def]]
  then obtain sdir ps where s: "sdir \<in> set sdirs" "finditer ops (sd_search_dir sdir) flt rule = Inr ps" "pm_path k \<in> set ps"
    by blast
  then have "valid (sd_search_dir sdir)" using assms(1) by (simp add: list_all_iff)
  with selected_paths[OF this s(2,3)] i assms(2) show "valid (pm_path k) \<and> pm_into k \<noteq> []" by blast
qed

end


subsection \<open>Properties\<close>

text \<open>
  The walk that remembers nothing: \<open>excluded\<close> are the paths that the manifest discarded, and every look-up
  asks the plugin-provided rules again, from the path up to the root.
\<close>

fun uncached_verdict ::
    "('p, 'm) src_ops_scheme \<Rightarrow> 'p discard_rules \<Rightarrow> string set \<Rightarrow> 'p list \<Rightarrow> discard_state" where
  "uncached_verdict ops rules excluded [] = NOT_DISCARDED"
| "uncached_verdict ops rules excluded (p # ps) =
     (if op_fs_path ops p \<in> excluded then DISCARDED_BY_MANIFEST_RULE
      else if rule_hits rules p then DISCARDED_BY_PLUGIN_PROVIDED_RULE
      else uncached_verdict ops rules excluded ps)"

text \<open>
  What a matcher goes through: look-ups, paths that are taken, exact requests, and discards of the manifest.  A
  discard is early enough when no look-up has remembered anything for a path strictly below (what the manifest
  discarded there itself is no obstacle).
\<close>

inductive matcher_run ::
    "overlay list \<Rightarrow> overlay discard_rules \<Rightarrow> string set \<Rightarrow> source_matcher \<Rightarrow> bool" for rs rules where
  start: "matcher_run rs rules {} new_source_matcher"
| ask: "matcher_run rs rules excluded m \<Longrightarrow> ov_source rs p \<Longrightarrow> is_reserved ov_ops rules p m = Inr (r, m') \<Longrightarrow>
    matcher_run rs rules excluded m'"
| candidate: "matcher_run rs rules excluded m \<Longrightarrow> ov_source rs (pm_path k) \<Longrightarrow>
    may_match ov_ops rules k exact m = Inr (into, x, m') \<Longrightarrow> matcher_run rs rules excluded m'"
| request: "matcher_run rs rules excluded m \<Longrightarrow> request_exact f pkg m = Inr m' \<Longrightarrow> matcher_run rs rules excluded m'"
| take: "matcher_run rs rules excluded m \<Longrightarrow> matcher_run rs rules excluded (reserve ov_ops p into src False m)"
| discard: "matcher_run rs rules excluded m \<Longrightarrow> ov_source rs p \<Longrightarrow>
    (\<And>q. ov_source rs q \<Longrightarrow> ov_under p q \<Longrightarrow> q \<noteq> p \<Longrightarrow>
       discarded m (ov_fs_path q) \<in> {None, Some DISCARDED_BY_MANIFEST_RULE}) \<Longrightarrow>
    matcher_run rs rules (insert (ov_fs_path p) excluded) (exclude (ov_fs_path p) m)"

lemma uncached_insert_manifest:
  "uncached_verdict ops rules excluded ps = DISCARDED_BY_MANIFEST_RULE \<Longrightarrow>
     uncached_verdict ops rules (insert f excluded) ps = DISCARDED_BY_MANIFEST_RULE"
  by (induction ps) (auto split: if_splits)

lemma uncached_insert_other:
  "f \<notin> op_fs_path ops ` set ps \<Longrightarrow> uncached_verdict ops rules (insert f excluded) ps = uncached_verdict ops rules excluded ps"
  by (induction ps) auto

text \<open>An early discard is seen by every later look-up.\<close>

context source_tree
begin

lemma exclude_early:
  assumes p: "valid p" and q: "valid q"
    and inv: "\<And>q. valid q \<Longrightarrow> chain_verdict ops rules (discarded m) (chain q) = uncached_verdict ops rules excluded (chain q)"
    and early: "\<And>q. valid q \<Longrightarrow> under p q \<Longrightarrow> q \<noteq> p \<Longrightarrow>
      discarded m (op_fs_path ops q) \<in> {None, Some DISCARDED_BY_MANIFEST_RULE}"
  shows "chain_verdict ops rules (discarded (exclude (op_fs_path ops p) m)) (chain q)
    = uncached_verdict ops rules (insert (op_fs_path ops p) excluded) (chain q)"
  using q
proof (induction "length (chain q)" arbitrary: q rule: less_induct)
  case less
  note q = less.prems and c = chain_law[OF less.prems]
  let ?f = "op_fs_path ops p" and ?g = "op_fs_path ops q" and ?E = "insert (op_fs_path ops p) excluded"
  let ?d = "discarded (exclude (op_fs_path ops p) m)"
  show ?case
  proof (cases "q = p")
    case True
    then show ?thesis using c by (simp add: exclude_def cached_def)
  next
    case False
    then have g: "?g \<noteq> ?f" using fs_path_law[OF q p] by blast
    then have same: "cached ?d ?g = cached (discarded m) ?g" by (simp add: exclude_def cached_def)
    show ?thesis
    proof (cases "cached (discarded m) ?g = UNCHECKED")
      case remembered: False
      then have v: "cached (discarded m) ?g = uncached_verdict ops rules excluded (chain q)"
        using inv[OF q] c by simp
      have "uncached_verdict ops rules ?E (chain q) = uncached_verdict ops rules excluded (chain q)"
      proof (cases "under p q")
        case True
        then have "cached (discarded m) ?g = DISCARDED_BY_MANIFEST_RULE"
          using early[OF q True False] remembered by (auto simp: cached_def)
        then show ?thesis using uncached_insert_manifest v by metis
      next
        case nu: False
        have "?f \<notin> op_fs_path ops ` set (chain q)"
          using nu chain_suffix[OF q] fs_path_law[OF p] under_chain_law[OF p q] by blast
        then show ?thesis by (rule uncached_insert_other)
      qed
      then show ?thesis using remembered same v c by simp
    next
      case fresh: True
      show ?thesis
      proof (cases "op_parent ops q")
        case None
        then show ?thesis using fresh same g inv[OF q] c by (auto split: if_splits)
      next
        case (Some r)
        have r: "valid r" and cr: "chain q = q # chain r" using parent_law[OF q Some] c Some by simp_all
        have ih: "chain_verdict ops rules ?d (chain r) = uncached_verdict ops rules ?E (chain r)"
          using less.hyps[OF _ r] cr by simp
        show ?thesis
        proof (cases "?g \<in> excluded")
          case True
          then have "\<not> rule_hits rules q" "uncached_verdict ops rules excluded (chain r) = DISCARDED_BY_MANIFEST_RULE"
            using inv[OF q] inv[OF r] fresh cr by (auto split: if_splits)
          then show ?thesis using ih uncached_insert_manifest fresh same True cr by simp
        next
          case False
          then show ?thesis using ih fresh same g cr by simp
        qed
      qed
    qed
  qed
qed

end

lemma matcher_run_uncached:
  assumes "matcher_run rs rules excluded m" and "ov_source rs q"
  shows "chain_verdict ov_ops rules (discarded m) (ov_chain q) = uncached_verdict ov_ops rules excluded (ov_chain q)"
  using assms
proof (induction arbitrary: q rule: matcher_run.induct)
  case start
  have "chain_verdict ov_ops rules Map.empty ps = uncached_verdict ov_ops rules {} ps" for ps
    by (induction ps) (simp_all add: cached_def)
  then show ?case by (simp add: new_source_matcher_def)
next
  case (ask excluded m p r m')
  from ov_tree.is_reserved_ok[OF ask.hyps(2), of rules m] ask.hyps(3) ask.prems
  have "chain_verdict ov_ops rules (discarded m') (ov_chain q) = chain_verdict ov_ops rules (discarded m) (ov_chain q)"
    by auto
  with ask.IH[OF ask.prems] show ?case by simp
next
  case (candidate excluded m k exact into x m')
  from ov_tree.may_match_ok[OF candidate.hyps(2), of rules exact m] candidate.hyps(3) candidate.prems
  have "chain_verdict ov_ops rules (discarded m') (ov_chain q) = chain_verdict ov_ops rules (discarded m) (ov_chain q)"
    by auto
  with candidate.IH[OF candidate.prems] show ?case by simp
next
  case (request excluded m f pkg m')
  then have "discarded m' = discarded m" by (auto simp: request_exact_def Let_def split: if_splits)
  with request.IH[OF request.prems] show ?case by simp
next
  case (take excluded m p into src)
  then show ?case by (simp add: reserve_def Let_def)
next
  case (discard excluded m p)
  have f: "op_fs_path ov_ops = ov_fs_path" by (simp add: ov_ops_def)
  from ov_tree.exclude_early[OF discard.hyps(2) discard.prems, of rules m excluded] discard.IH discard.hyps(3)
  show ?case unfolding f by blast
qed

text \<open>C20: whatever a matcher went through, whether a path is reserved is decided without an error and as the walk
  that remembers nothing decides it: it is when it was taken, or when the first decision on the way to the root
  discards it.  Asking changes nothing of what is taken.  The search directories do not overlap, and the
  manifest discards a path before anything strictly below it is looked up.\<close>

theorem discard_cache_transparent:
  assumes "matcher_run rs rules excluded m" and "ov_source rs p"
  shows "\<exists>m'. is_reserved ov_ops rules p m
      = Inr (already_matched m (ov_fs_path p) \<noteq> None
             \<or> uncached_verdict ov_ops rules excluded (ov_chain p) \<noteq> NOT_DISCARDED, m')
    \<and> already_matched m' = already_matched m \<and> exact_match_request m' = exact_match_request m
    \<and> matcher_run rs rules excluded m'"
proof -
  have f: "op_fs_path ov_ops = ov_fs_path" by (simp add: ov_ops_def)
  obtain m' where m': "is_reserved ov_ops rules p m = Inr (reserved_now ov_ops rules ov_chain m p, m')" "same_taken m m'"
    using ov_tree.is_reserved_ok[OF assms(2), of rules m] by blast
  have "matcher_run rs rules excluded m'" using assms m'(1) by (rule matcher_run.ask)
  with m' show ?thesis unfolding same_taken_def reserved_now_def f matcher_run_uncached[OF assms] by blast
qed

text \<open>C21: \<^verbatim>\<open>detect_missing\<close> ends, and yields each file, symlink or empty directory below the given one that is
  neither taken nor discarded exactly once, also beneath directories that are taken, and nothing else.\<close>

theorem detect_missing_exact:
  assumes "ov_source rs p"
  shows "\<exists>out m'. detect_missing ov_ops rules p m = Inr (out, m') \<and> distinct out
    \<and> set out = {q. ov_under p q \<and> q \<noteq> p \<and> is_leaf ov_ops q \<and> \<not> reserved_now ov_ops rules ov_chain m q}
    \<and> already_matched m' = already_matched m"
  using ov_tree.detect_missing_eq[OF assms, of rules m] unfolding same_taken_def by blast

text \<open>
  The search directories of a rule: they do not overlap, or each of them serves every package of the rule, as
  the default \<^verbatim>\<open>debian/tmp\<close> and \<^verbatim>\<open>.\<close> do.
\<close>

definition search_dirs_fit :: "packages \<Rightarrow> overlay search_dir list \<Rightarrow> bool" where
  "search_dirs_fit into dirs \<longleftrightarrow>
     list_all (\<lambda>s. search_root (sd_search_dir s)) dirs
     \<and> (search_roots (map sd_search_dir dirs) \<or> list_all (\<lambda>s. set into \<subseteq> set (sd_applies_to s)) dirs)"

lemma resolve_dirs_one_dir:
  assumes "into \<noteq> []"
  shows "list_all (\<lambda>s. set into \<subseteq> set (sd_applies_to s)) sdirs \<Longrightarrow>
    fst (resolve_dirs ops rule dir_only flt into into sdirs) = []
    \<or> (\<exists>s \<in> set sdirs. \<exists>ps. finditer ops (sd_search_dir s) flt rule = Inr ps
         \<and> list_all (\<lambda>k. pm_path k \<in> set ps \<and> pm_into k \<noteq> []) (fst (resolve_dirs ops rule dir_only flt into into sdirs)))"
proof (induction sdirs)
  case (Cons s sdirs)
  let ?a = "filter (\<lambda>p. p \<in> set into) (sd_applies_to s)"
  have a: "set into \<subseteq> set ?a" using Cons.prems by auto
  have "hd into \<in> set ?a" using a assms hd_in_set by blast
  then have ne: "?a \<noteq> []" by (metis empty_iff empty_set)
  then have na: "\<not> (into \<noteq> [] \<and> ?a = [])" by blast
  have none: "filter (\<lambda>p. p \<notin> set ?a) into = []" using a by (auto simp: filter_empty_conv)
  show ?case
  proof (cases "finditer ops (sd_search_dir s) flt rule")
    case (Inl e)
    then show ?thesis unfolding resolve_dirs_step Let_def if_not_P[OF na] by simp
  next
    case (Inr ps)
    let ?ms = "fst (dir_matches ops rule dir_only s ?a ps)"
    have in_ps: "list_all (\<lambda>k. pm_path k \<in> set ps \<and> pm_into k \<noteq> []) ?ms"
      using dir_matches_fst[of _ ops rule dir_only s ?a ps] ne unfolding list_all_iff by metis
    show ?thesis
    proof (cases "?ms = []")
      case True
      then have "fst (resolve_dirs ops rule dir_only flt into into (s # sdirs))
          = (if snd (dir_matches ops rule dir_only s ?a ps) \<noteq> None then []
             else fst (resolve_dirs ops rule dir_only flt into into sdirs))"
        unfolding resolve_dirs_step Let_def if_not_P[OF na] Inr by simp
      then show ?thesis using Cons by (cases "snd (dir_matches ops rule dir_only s ?a ps) = None") auto
    next
      case False
      then have "fst (resolve_dirs ops rule dir_only flt into into (s # sdirs)) = ?ms"
        unfolding resolve_dirs_step Let_def if_not_P[OF na] Inr sum.case if_not_P[OF False] none using assms by simp
      then show ?thesis using in_ps Inr by auto
    qed
  qed
qed simp

lemma fitting_dirs_source:
  assumes "search_dirs_fit into dirs" and "into \<noteq> []"
  shows "\<exists>rs. list_all (\<lambda>k. ov_source rs (pm_path k) \<and> pm_into k \<noteq> []) (fst (resolve_path ov_ops rule dirs dir_only flt into))"
proof (cases "search_roots (map sd_search_dir dirs)")
  case True
  then have "list_all (\<lambda>s. ov_source (map sd_search_dir dirs) (sd_search_dir s)) dirs"
    using source_root by (auto simp: list_all_iff)
  from ov_tree.resolved_valid[OF this assms(2)] show ?thesis by blast
next
  case False
  then have "list_all (\<lambda>s. set into \<subseteq> set (sd_applies_to s)) dirs" using assms(1) by (simp add: search_dirs_fit_def)
  from resolve_dirs_one_dir[OF assms(2) this, of ov_ops rule dir_only flt] show ?thesis
  proof
    assume "\<exists>s \<in> set dirs. \<exists>ps. finditer ov_ops (sd_search_dir s) flt rule = Inr ps
         \<and> list_all (\<lambda>k. pm_path k \<in> set ps \<and> pm_into k \<noteq> []) (fst (resolve_dirs ov_ops rule dir_only flt into into dirs))"
    then obtain s ps where s: "s \<in> set dirs" "finditer ov_ops (sd_search_dir s) flt rule = Inr ps"
      and k: "list_all (\<lambda>k. pm_path k \<in> set ps \<and> pm_into k \<noteq> []) (fst (resolve_dirs ov_ops rule dir_only flt into into dirs))"
      by blast
    have "search_root (sd_search_dir s)" using assms(1) s(1) by (simp add: search_dirs_fit_def list_all_iff)
    then have "ov_source [sd_search_dir s] (sd_search_dir s)" using search_roots_single source_root by simp
    from ov_tree.selected_paths[OF this s(2)] k show ?thesis unfolding resolve_path_def list_all_iff by blast
  qed (simp add: resolve_path_def)
qed

text \<open>C22: a pattern of an installation rule takes only paths of the search directories that nobody had taken and
  that are not discarded, each path once; everything it resolves to is taken or discarded afterwards, what
  others had taken stays theirs, and the counts add up.  The search directories do not overlap or serve
  every package of the rule; the default \<^verbatim>\<open>debian/tmp\<close> and \<^verbatim>\<open>.\<close> overlap and serve all packages.\<close>

theorem pattern_takes_untaken:
  assumes "search_dirs_fit into dirs" and "into \<noteq> []" and "taken_by_some m"
    and "\<not> is_exact_rule rule"
    and "find_and_reserve_all_matches ov_ops rules rule dirs dir_only flt into src m = Inr (ms, i, x, m')"
  shows "distinct (map (\<lambda>k. ov_fs_path (pm_path k)) ms)
    \<and> list_all (\<lambda>k. \<not> reserved_now ov_ops rules ov_chain m (pm_path k)
         \<and> already_matched m' (ov_fs_path (pm_path k)) = Some (pm_into k, src)) ms
    \<and> list_all (\<lambda>k. reserved_now ov_ops rules ov_chain m' (pm_path k)) (fst (resolve_path ov_ops rule dirs dir_only flt into))
    \<and> already_matched m \<subseteq>\<^sub>m already_matched m'
    \<and> length (fst (resolve_path ov_ops rule dirs dir_only flt into)) = length ms + i + x"
proof -
  let ?all = "fst (resolve_path ov_ops rule dirs dir_only flt into)"
  obtain rs where v: "list_all (\<lambda>k. ov_source rs (pm_path k) \<and> pm_into k \<noteq> []) ?all"
    using fitting_dirs_source[OF assms(1,2)] by blast
  have r: "reserve_matches ov_ops rules True into src ?all m = Inr (ms, i, x, m')"
    using assms(4,5) by (auto simp: find_and_reserve_all_matches_def rbind_eq_Inr split: prod.splits option.splits)
  have f: "op_fs_path ov_ops = ov_fs_path" by (simp add: ov_ops_def)
  note g = ov_tree.reserve_matches_glob[OF v assms(3,2) r, unfolded f]
  have "already_matched m \<subseteq>\<^sub>m already_matched m'"
    unfolding map_le_def
  proof
    fix a
    assume a: "a \<in> dom (already_matched m)"
    show "already_matched m a = already_matched m' a"
    proof (cases "a \<in> (\<lambda>k. ov_fs_path (pm_path k)) ` set ms")
      case True
      then obtain k where k: "k \<in> set ms" "a = ov_fs_path (pm_path k)" by blast
      then have "\<not> reserved_now ov_ops rules ov_chain m (pm_path k)" using g by blast
      then have "already_matched m a = None" unfolding reserved_now_def k(2) f by blast
      with a show ?thesis by (simp add: domIff)
    qed (use g in simp)
  qed
  with g show ?thesis by (auto simp: list_all_iff)
qed

text \<open>All the matches of a pattern for one package are in the same search directory.\<close>

theorem one_search_dir_per_package:
  assumes "distinct (map sd_search_dir dirs)" and "into \<noteq> []"
    and "k \<in> set (fst (resolve_path ops rule dirs dir_only flt into))"
    and "k' \<in> set (fst (resolve_path ops rule dirs dir_only flt into))"
    and "p \<in> set (pm_into k)" and "p \<in> set (pm_into k')"
  shows "pm_search_dir k = pm_search_dir k'"
  using resolve_dirs_single_dir[OF assms(1,2)] assms(3-6) unfolding resolve_path_def by blast

text \<open>C23: an exact path is taken although a plugin-provided rule discards it; it is refused when it is taken, when
  the manifest discarded it or when it was requested for the package before.\<close>

theorem exact_match_outcome:
  assumes "ov_source rs (pm_path k)" and "pm_into k = [pkg]" and "taken_by_some m"
  shows "case reserve_matches ov_ops rules False [pkg] src [k] m of
      Inl e \<Rightarrow>
        (if already_matched m (ov_fs_path (pm_path k)) \<noteq> None
            \<or> chain_verdict ov_ops rules (discarded m) (ov_chain (pm_path k)) = DISCARDED_BY_MANIFEST_RULE
         then e = PathAlreadyInstalledOrDiscarded
         else e = ExactPathMatchTwice \<and> (package_name pkg, ov_fs_path (pm_path k)) \<in> exact_match_request m)
    | Inr (ms, i, x, m') \<Rightarrow>
        ms = [k] \<and> already_matched m' (ov_fs_path (pm_path k)) = Some ([pkg], src)
        \<and> already_matched m (ov_fs_path (pm_path k)) = None
        \<and> chain_verdict ov_ops rules (discarded m) (ov_chain (pm_path k)) \<noteq> DISCARDED_BY_MANIFEST_RULE
        \<and> (package_name pkg, ov_fs_path (pm_path k)) \<in> exact_match_request m' - exact_match_request m"
proof -
  let ?f = "ov_fs_path (pm_path k)" and ?V = "chain_verdict ov_ops rules (discarded m) (ov_chain (pm_path k))"
  have f: "op_fs_path ov_ops = ov_fs_path" by (simp add: ov_ops_def)
  obtain m1 where mm: "may_match ov_ops rules k True m = Inr
       (case already_matched m ?f of Some (into, _) \<Rightarrow> into | None \<Rightarrow> [],
        already_matched m ?f = None \<and> ?V \<noteq> NOT_DISCARDED \<and> \<not> (True \<and> ?V = DISCARDED_BY_PLUGIN_PROVIDED_RULE), m1)"
    and st: "same_taken m m1"
    using ov_tree.may_match_ok[OF assms(1), of rules True m] unfolding f by blast
  show ?thesis
  proof (cases "already_matched m ?f")
    case (Some a)
    then have "fst a \<noteq> []" using assms(3) by (cases a) (auto simp: taken_by_some_def)
    then show ?thesis using mm Some by (cases a) simp
  next
    case None
    have V: "?V \<noteq> UNCHECKED" by (rule chain_verdict_checked)
    show ?thesis
    proof (cases "?V = DISCARDED_BY_MANIFEST_RULE")
      case True
      then show ?thesis using mm None by simp
    next
      case False
      then have "may_match ov_ops rules k True m = Inr ([], False, m1)" using mm None V by (cases ?V) simp_all
      then show ?thesis using None False st assms(2)
        by (simp add: request_exact_def Let_def take_match_def f same_taken_def)
    qed
  qed
qed


subsection \<open>The properties on an example\<close>

lemma demo_source_member: "ov_descend demo_source ns = Some q \<Longrightarrow> ov_source [demo_source] q"
  using under_descend[OF demo_source_root] search_roots_single[OF demo_source_root] demo_source_root
  by (auto simp: ov_source_def ov_valid_def)

definition demo_so :: "string \<Rightarrow> overlay" where
  "demo_so name = the (ov_descend demo_source [''usr'', ''lib'', ''foo'', name])"

lemma demo_so_source: "ov_source [demo_source] (demo_so ''a.so'')" "ov_source [demo_source] (demo_so ''b.so'')"
proof -
  have "ov_descend demo_source [''usr'', ''lib'', ''foo'', ''a.so''] = Some (demo_so ''a.so'')"
    "ov_descend demo_source [''usr'', ''lib'', ''foo'', ''b.so''] = Some (demo_so ''b.so'')" by code_simp+
  then show "ov_source [demo_source] (demo_so ''a.so'')" "ov_source [demo_source] (demo_so ''b.so'')"
    using demo_source_member by blast+
qed

lemma discard_cache_transparent_witness:
  "\<exists>m'. is_reserved ov_ops [] (demo_so ''b.so'') (exclude ''debian/tmp/usr/lib/foo/a.so'' new_source_matcher) = Inr (False, m')
    \<and> matcher_run [demo_source] [] {''debian/tmp/usr/lib/foo/a.so''} m'"
proof -
  have n: "ov_fs_path (demo_so ''a.so'') = ''debian/tmp/usr/lib/foo/a.so''"
    "(already_matched (exclude ''debian/tmp/usr/lib/foo/a.so'' new_source_matcher) (ov_fs_path (demo_so ''b.so'')) \<noteq> None
      \<or> uncached_verdict ov_ops [] {''debian/tmp/usr/lib/foo/a.so''} (ov_chain (demo_so ''b.so'')) \<noteq> NOT_DISCARDED) = False"
    by code_simp+
  have "matcher_run [demo_source] [] {ov_fs_path (demo_so ''a.so'')} (exclude (ov_fs_path (demo_so ''a.so'')) new_source_matcher)"
    by (rule matcher_run.discard[OF matcher_run.start demo_so_source(1)]) (simp add: new_source_matcher_def)
  from discard_cache_transparent[OF this demo_so_source(2)] show ?thesis unfolding n by blast
qed

lemma detect_missing_exact_witness:
  "\<exists>out m'. detect_missing ov_ops [] demo_source new_source_matcher = Inr (out, m') \<and> distinct out
    \<and> set out = {q. ov_under demo_source q \<and> q \<noteq> demo_source \<and> is_leaf ov_ops q
          \<and> \<not> reserved_now ov_ops [] ov_chain new_source_matcher q}"
proof -
  have "ov_source [demo_source] demo_source" using demo_source_member[of "[]"] by simp
  from detect_missing_exact[OF this, of "[]" new_source_matcher] show ?thesis by blast
qed

definition demo_search_dir :: "overlay search_dir" where
  "demo_search_dir = \<lparr>sd_search_dir = demo_source, sd_applies_to = [demo_package]\<rparr>"

definition demo_pattern :: match_rule where
  "demo_pattern = DirectoryBasedMatch DIRECT_CHILDREN_OF_DIR ''./usr/lib/foo'' None"

lemma new_source_matcher_taken: "taken_by_some new_source_matcher"
  by (simp add: taken_by_some_def new_source_matcher_def)

text \<open>The default: \<^verbatim>\<open>debian/tmp\<close> and the source directory, which contains it.\<close>

definition demo_project :: overlay where
  "demo_project = FSROOverlay ''.'' ''.'' None (Some (OsDir o755 [(''debian'', OsDir o755 [(''tmp'', the (ov_os demo_source))])]))"

definition demo_default_dirs :: "overlay search_dir list" where
  "demo_default_dirs = [demo_search_dir, \<lparr>sd_search_dir = demo_project, sd_applies_to = [demo_package]\<rparr>]"

definition demo_found :: "overlay path_match list \<times> nat \<times> nat \<times> source_matcher" where
  "demo_found = projr (find_and_reserve_all_matches ov_ops [] demo_pattern demo_default_dirs False None [demo_package] ''src''
     new_source_matcher)"

lemma pattern_takes_untaken_witness:
  "map (\<lambda>k. ov_fs_path (pm_path k)) (fst demo_found) = [''debian/tmp/usr/lib/foo/a.so'', ''debian/tmp/usr/lib/foo/b.so'']
   \<and> list_all (\<lambda>k. already_matched (snd (snd (snd demo_found))) (ov_fs_path (pm_path k)) = Some (pm_into k, ''src'')) (fst demo_found)"
proof -
  have "os_wf (the (ov_os demo_project))" "ov_path demo_project = ''.''" "ov_fs_path demo_project = ''.''"
    "ov_parent demo_project = None" "ov_os demo_project = Some (the (ov_os demo_project))" by code_simp+
  then have "search_root demo_project" unfolding search_root_def by (metis option.simps(5))
  then have s: "search_dirs_fit [demo_package] demo_default_dirs"
    using demo_source_root by (simp add: search_dirs_fit_def demo_default_dirs_def demo_search_dir_def)
  have "\<not> isl (find_and_reserve_all_matches ov_ops [] demo_pattern demo_default_dirs False None [demo_package] ''src''
     new_source_matcher)" by code_simp
  then have f: "find_and_reserve_all_matches ov_ops [] demo_pattern demo_default_dirs False None [demo_package] ''src''
     new_source_matcher = Inr (fst demo_found, fst (snd demo_found), fst (snd (snd demo_found)), snd (snd (snd demo_found)))"
    by (simp add: demo_found_def)
  have p: "\<not> is_exact_rule demo_pattern" "[demo_package] \<noteq> []" by (simp_all add: is_exact_rule_def demo_pattern_def)
  have n: "map (\<lambda>k. ov_fs_path (pm_path k)) (fst demo_found) = [''debian/tmp/usr/lib/foo/a.so'', ''debian/tmp/usr/lib/foo/b.so'']"
    by code_simp
  from pattern_takes_untaken[OF s p(2) new_source_matcher_taken p(1) f] n show ?thesis
    by (simp add: list_all_iff)
qed

text \<open>The two views share what is remembered: a rule that discards \<^verbatim>\<open>usr\<close> of \<^verbatim>\<open>debian/tmp\<close> is not asked again for the
  view from the source directory, to which the same path is \<^verbatim>\<open>debian/tmp/usr\<close>.\<close>

definition usr_rule :: "overlay discard_rules" where
  "usr_rule = [(''usr'', \<lambda>v. ov_path v = ''usr'')]"

lemma overlapping_views_share_verdicts:
  "let seen_from_root = the (ov_descend demo_project [''debian'', ''tmp'', ''usr'']);
       seen_from_tmp = the (ov_descend demo_source [''usr'']);
       m1 = snd (projr (is_reserved ov_ops usr_rule seen_from_tmp new_source_matcher))
   in ov_fs_path seen_from_root = ov_fs_path seen_from_tmp
    \<and> \<not> fst (projr (is_reserved ov_ops usr_rule seen_from_root new_source_matcher))
    \<and> fst (projr (is_reserved ov_ops usr_rule seen_from_root m1))"
  by code_simp

definition demo_taken :: "overlay path_match list" where
  "demo_taken = fst (resolve_path ov_ops demo_pattern [demo_search_dir] False None [demo_package])"

lemma one_search_dir_per_package_witness:
  "pm_search_dir (hd demo_taken) = pm_search_dir (last demo_taken) \<and> length demo_taken = 2"
proof -
  have l: "length demo_taken = 2" by code_simp
  then have "demo_taken \<noteq> []" by auto
  then have k: "hd demo_taken \<in> set demo_taken" "last demo_taken \<in> set demo_taken" by simp_all
  have p: "demo_package \<in> set (pm_into (hd demo_taken))" "demo_package \<in> set (pm_into (last demo_taken))" by code_simp+
  have d: "distinct (map sd_search_dir [demo_search_dir])" "[demo_package] \<noteq> []" by simp_all
  show ?thesis using one_search_dir_per_package[OF d k[unfolded demo_taken_def] p[unfolded demo_taken_def]] l
    by (simp only: demo_taken_def)
qed

lemma exact_match_outcome_witness:
  "\<exists>m'. reserve_matches ov_ops [] False [demo_package] ''src''
      [\<lparr>pm_path = demo_so ''a.so'', pm_search_dir = demo_source, pm_into = [demo_package]\<rparr>] new_source_matcher
    = Inr ([\<lparr>pm_path = demo_so ''a.so'', pm_search_dir = demo_source, pm_into = [demo_package]\<rparr>], 0, 0, m')
    \<and> already_matched m' (ov_fs_path (demo_so ''a.so'')) = Some ([demo_package], ''src'')"
proof -
  let ?k = "\<lparr>pm_path = demo_so ''a.so'', pm_search_dir = demo_source, pm_into = [demo_package]\<rparr>"
  let ?r = "reserve_matches ov_ops [] False [demo_package] ''src'' [?k] new_source_matcher"
  have "\<not> isl ?r" "fst (snd (projr ?r)) = 0" "fst (snd (snd (projr ?r))) = 0" by code_simp+
  then obtain ms m' where r: "?r = Inr (ms, 0, 0, m')" by (cases ?r) auto
  have v: "ov_source [demo_source] (pm_path ?k)" "pm_into ?k = [demo_package]" using demo_so_source by simp_all
  from exact_match_outcome[OF v new_source_matcher_taken, of "[]" "''src''", unfolded r] show ?thesis using r by simp
qed

text \<open>
  What is remembered for the directories on the way up outlives a later \<^verbatim>\<open>discard\<close>: once a file below
  \<^verbatim>\<open>usr/lib/foo\<close> was looked at, discarding \<^verbatim>\<open>usr/lib\<close> no longer reaches the files of that directory.
\<close>

lemma discard_after_lookup_missed:
  "let m0 = new_source_matcher;
       m1 = snd (projr (is_reserved ov_ops [] (demo_so ''a.so'') m0))
   in fst (projr (is_reserved ov_ops [] (demo_so ''b.so'') (exclude ''debian/tmp/usr/lib'' m0)))
    \<and> \<not> fst (projr (is_reserved ov_ops [] (demo_so ''b.so'') (exclude ''debian/tmp/usr/lib'' m1)))"
  by code_simp

end
