(* ===== verification/Install.thy ===== *)
theory Install
  imports SourceMatch ManPage Conditions TransformProps
begin

section \<open>The installation rules (\<^verbatim>\<open>src/debputy/installations.py\<close>)\<close>

text \<open>
  Where a match is installed, the rules that install or discard matches, and the recursive installation of a
  directory.  The packages' trees are the stores of the virtual file system, by the name of the package;
  the object of a tree is named by its package and its index in the store.
\<close>

subsection \<open>State\<close>

record install_state =
  st_matcher :: source_matcher
  st_roots :: "string \<rightharpoonup> fs"

text \<open>\<^verbatim>\<open>InstallRuleContext\<close>: what does not change during the installation.\<close>

record 'p install_rule_context =
  irc_search_dirs :: "'p search_dir list"
  irc_doc_main_package :: "string \<rightharpoonup> string"

record fs_match_rule =
  fr_raw_match_rule :: string
  fr_match_rule :: match_rule

text \<open>The destination of a rule: templates, or a function of the match.\<close>

datatype 'p dest_paths = DestTemplates "(string \<times> bool) list" | DestComputed "'p \<Rightarrow> string res"

record packager_provided_file =
  ppf_fs_path :: string
  ppf_resolved :: string
  ppf_is_reg :: bool
  ppf_dest_dir :: string
  ppf_dest_name :: string
  ppf_default_mode :: int

datatype 'p install_rule =
    GenericInstallationRule "fs_match_rule list" "'p dest_paths" packages "manifest_condition option" string bool
      "('p \<Rightarrow> bool) option"
  | DiscardRule "fs_match_rule list" "manifest_condition option" "string list" string
  | PPFInstallRule binary_package "packager_provided_file list"

text \<open>The rule's attributes that all rules share.\<close>

record 'p rule_base =
  rb_condition :: "manifest_condition option"
  rb_definition_source :: string
  rb_match_filter :: "('p \<Rightarrow> bool) option"

subsection \<open>Destinations\<close>

text \<open>
  \<^verbatim>\<open>str.format\<close> with keyword arguments: literal text, doubled braces, and names in braces.  A field with an
  attribute, an index, a conversion, a format or a nested field is not modelled (\<open>NotImplementedErr\<close>).
\<close>

function (sequential) py_format :: "(string \<times> string) list \<Rightarrow> string \<Rightarrow> string res" where
  "py_format env [] = Inr []"
| "py_format env (c # s) =
     (if c = CHR ''{'' then
        (if startswith s ''{'' then rmap (\<lambda>t. c # t) (py_format env (drop 1 s))
         else
           (let name = takeWhile (\<lambda>c. c \<noteq> CHR ''}'') s; rest = dropWhile (\<lambda>c. c \<noteq> CHR ''}'') s in
            if rest = [] then Inl ValueError
            else if list_ex (\<lambda>c. c \<in> set ''{.[!:'') name then Inl NotImplementedErr
            else if list_all ascii_digit name then Inl IndexError
            else (case map_of env name of
                    None \<Rightarrow> Inl KeyError
                  | Some v \<Rightarrow> rmap (\<lambda>t. v @ t) (py_format env (drop 1 rest)))))
      else if c = CHR ''}'' then
        (if startswith s ''}'' then rmap (\<lambda>t. c # t) (py_format env (drop 1 s)) else Inl ValueError)
      else rmap (\<lambda>t. c # t) (py_format env s))"
  by pat_completeness auto
termination
proof (relation "measure (\<lambda>(env, s). length s)", goal_cases)
  case (3 env c s name rest v)
  have "length (dropWhile (\<lambda>c. c \<noteq> CHR ''}'') s) \<le> length s" by (rule length_dropWhile_le)
  with 3 show ?case by simp
qed auto

definition format_arguments :: "('p, 'm) src_ops_scheme \<Rightarrow> 'p \<Rightarrow> string \<Rightarrow> string \<Rightarrow> (string \<times> string) list" where
  "format_arguments ops p package doc_main_package =
     [(''basename'', op_name ops p),
      (''dirname'', case op_parent ops p of None \<Rightarrow> [] | Some q \<Rightarrow> op_path ops q),
      (''package_name'', package), (''doc_main_package_name'', doc_main_package)]"

text \<open>A destination of a match: the path, and the package into whose tree it goes.\<close>

type_synonym dest_and_root = "string \<times> string"

definition dest_of_package ::
    "'p install_rule_context \<Rightarrow> install_state \<Rightarrow> binary_package \<Rightarrow> (string \<Rightarrow> string res) \<Rightarrow> dest_and_root res" where
  "dest_of_package irc st pkg dest =
     (let name = package_name pkg in
      case (st_roots st name, irc_doc_main_package irc name) of
        (Some _, Some doc_main) \<Rightarrow>
          rbind (dest doc_main) (\<lambda>dpath. if endswith dpath ''/'' then Inl ValueError else Inr (dpath, name))
      | _ \<Rightarrow> Inl KeyError)"

definition resolve_dest_paths ::
    "('p, 'm) src_ops_scheme \<Rightarrow> 'p install_rule_context \<Rightarrow> install_state \<Rightarrow> 'p path_match \<Rightarrow> (string \<times> bool) list \<Rightarrow>
     dest_and_root list res" where
  "resolve_dest_paths ops irc st match dest_paths =
     rmap concat (rmapM (\<lambda>(dest_path, dest_path_is_format).
       if dest_path_is_format then
         rmapM (\<lambda>pkg. dest_of_package irc st pkg
                  (\<lambda>doc_main. py_format (format_arguments ops (pm_path match) (package_name pkg) doc_main) dest_path))
           (pm_into match)
       else if endswith dest_path ''/'' then Inl ValueError
       else rmapM (\<lambda>pkg. dest_of_package irc st pkg (\<lambda>_. Inr dest_path)) (pm_into match)) dest_paths)"

definition resolve_match ::
    "('p, 'm) src_ops_scheme \<Rightarrow> 'p install_rule_context \<Rightarrow> install_state \<Rightarrow> 'p dest_paths \<Rightarrow> 'p path_match \<Rightarrow>
     dest_and_root list res" where
  "resolve_match ops irc st dest_paths match =
     (case dest_paths of
        DestComputed compute_dest_path \<Rightarrow>
          rbind (compute_dest_path (pm_path match)) (\<lambda>dpath.
            if endswith dpath ''/'' then Inl ValueError
            else rmapM (\<lambda>pkg. dest_of_package irc st pkg (\<lambda>_. Inr dpath)) (pm_into match))
      | DestTemplates dps \<Rightarrow> resolve_dest_paths ops irc st match dps)"

subsection \<open>Matching a pattern of a rule\<close>

fun single_match_problem :: "packages \<Rightarrow> 'p path_match list \<Rightarrow> packages" where
  "single_match_problem seen_pkgs [] = []"
| "single_match_problem seen_pkgs (m # ms) =
     (let problem_pkgs = filter (\<lambda>p. p \<in> set seen_pkgs) (pm_into m) in
      if problem_pkgs \<noteq> [] then problem_pkgs
      else single_match_problem (seen_pkgs @ problem_pkgs) ms)"

definition check_single_match :: "'p path_match list \<Rightarrow> unit res" where
  "check_single_match matches = (if single_match_problem [] matches \<noteq> [] then Inl UserError else Inr ())"

definition rule_enabled :: "manifest_condition option \<Rightarrow> condition_context \<Rightarrow> bool res" where
  "rule_enabled condition cx = (case condition of None \<Rightarrow> Inr True | Some c \<Rightarrow> evaluate cx c)"

definition match_pattern ::
    "('p, 'm) src_ops_scheme \<Rightarrow> 'p discard_rules \<Rightarrow> condition_context \<Rightarrow> 'p rule_base \<Rightarrow> 'p search_dir list \<Rightarrow> packages \<Rightarrow>
     fs_match_rule \<Rightarrow> source_matcher \<Rightarrow> ('p path_match list \<times> source_matcher) res" where
  "match_pattern ops rules cx base search_dirs into r m =
     rbind (find_and_reserve_all_matches ops rules (fr_match_rule r) search_dirs (endswith (fr_raw_match_rule r) ''/'')
              (rb_match_filter base) into (rb_definition_source base) m) (\<lambda>(matched, _, _, m1).
       let allow_empty_match =
             (if into \<noteq> [] then list_all (\<lambda>p. \<not> should_be_acted_on p) into
              else list_ex (\<lambda>s. op_is_dir ops (sd_search_dir s)) search_dirs)
       in rbind (rule_enabled (rb_condition base) cx) (\<lambda>enabled.
            if matched = [] \<and> \<not> (allow_empty_match \<or> \<not> enabled) then Inl NoMatchForInstallPattern
            else Inr (matched, m1)))"

subsection \<open>Installing a match\<close>

text \<open>An object made from a match refers to it, and takes its mode when it is made, after the checks: \<open>build\<close> does not
  decide anything by the mode.\<close>

definition with_reference :: "('p, 'm) src_ops_scheme \<Rightarrow> 'p \<Rightarrow> (reference_path \<Rightarrow> 'a res) \<Rightarrow> 'a res" where
  "with_reference ops p build =
     (let reference = (\<lambda>mode. \<lparr>ref_mode = mode, ref_is_dir = op_is_dir ops p, ref_has_fs_path = True\<rparr>)
      in case op_mode ops p of
           Inr mode \<Rightarrow> build (reference mode)
         | Inl err \<Rightarrow> rbind (build (reference 0)) (\<lambda>_. Inl err))"

definition in_root :: "string \<Rightarrow> (fs \<Rightarrow> (fs \<times> 'a) res) \<Rightarrow> install_state \<Rightarrow> (install_state \<times> 'a) res" where
  "in_root pkg f st =
     (case st_roots st pkg of
        None \<Rightarrow> Inl KeyError
      | Some fs \<Rightarrow> rmap (\<lambda>(fs1, x). (st\<lparr>st_roots := (st_roots st)(pkg \<mapsto> fs1)\<rparr>, x)) (f fs))"

definition install_file :: "('p, 'm) src_ops_scheme \<Rightarrow> 'p \<Rightarrow> nat \<Rightarrow> string \<Rightarrow> fs \<Rightarrow> (fs \<times> nat) res" where
  "install_file ops p dir_path basename fs =
     with_reference ops p (\<lambda>reference.
       insert_file_from_fs_path fs dir_path basename (op_fs_path ops p) [] False True True o644 True False
         (Some reference))"

definition install_link :: "('p, 'm) src_ops_scheme \<Rightarrow> 'p \<Rightarrow> nat \<Rightarrow> string \<Rightarrow> fs \<Rightarrow> (fs \<times> nat) res" where
  "install_link ops p dir_path link_name fs =
     rbind (op_readlink ops p) (\<lambda>target.
       with_reference ops p (\<lambda>reference. add_symlink fs dir_path link_name target (Some reference)))"

definition install_directory :: "('p, 'm) src_ops_scheme \<Rightarrow> 'p \<Rightarrow> nat \<Rightarrow> string \<Rightarrow> fs \<Rightarrow> (fs \<times> nat) res" where
  "install_directory ops p dir_path name fs =
     with_reference ops p (\<lambda>reference. mkdir fs dir_path name (Some reference))"

text \<open>
  The body of the loop over the destinations in \<^verbatim>\<open>_install_matches\<close>; the result is the directory to install
  recursively into.
\<close>

definition install_into_dir ::
    "('p, 'm) src_ops_scheme \<Rightarrow> 'p \<Rightarrow> nat \<Rightarrow> string \<Rightarrow> fs \<Rightarrow> (fs \<times> nat option) res" where
  "install_into_dir ops p dir_path basename fs =
     (let existing_path = get_child fs dir_path basename in
      if op_is_dir ops p then
        rbind (case existing_path of
                 None \<Rightarrow> Inr (fs, None)
               | Some existing \<Rightarrow>
                   if is_dir fs existing then Inr (fs, Some existing)
                   else rmap (\<lambda>fs1. (fs1, None)) (unlink fs existing False)) (\<lambda>(fs1, current_dir).
          case current_dir of
            Some d \<Rightarrow> Inr (fs1, Some d)
          | None \<Rightarrow> rmap (\<lambda>(fs2, d). (fs2, Some d)) (install_directory ops p dir_path basename fs1))
      else if (case existing_path of None \<Rightarrow> False | Some existing \<Rightarrow> is_dir fs existing) then Inl UserError
      else rmap (\<lambda>(fs1, _). (fs1, None))
             (if op_is_symlink ops p then install_link ops p dir_path basename fs
              else install_file ops p dir_path basename fs))"

definition install_dest :: "('p, 'm) src_ops_scheme \<Rightarrow> 'p \<Rightarrow> string \<Rightarrow> fs \<Rightarrow> (fs \<times> nat option) res" where
  "install_dest ops p dest fs =
     rbind (mkdirs fs 0 (path_head dest)) (\<lambda>(fs1, dir_path). install_into_dir ops p dir_path (path_tail dest) fs1)"

fun install_dests ::
    "('p, 'm) src_ops_scheme \<Rightarrow> 'p \<Rightarrow> dest_and_root list \<Rightarrow> install_state \<Rightarrow> (install_state \<times> (string \<times> nat) list) res" where
  "install_dests ops p [] st = Inr (st, [])"
| "install_dests ops p ((dest, pkg) # dests) st =
     rbind (in_root pkg (install_dest ops p dest) st) (\<lambda>(st1, d).
       rmap (\<lambda>(st2, dirs). (st2, (case d of None \<Rightarrow> dirs | Some i \<Rightarrow> (pkg, i) # dirs))) (install_dests ops p dests st1))"

text \<open>The paths that are not reserved, asked one after the other.\<close>

fun unreserved ::
    "('p, 'm) src_ops_scheme \<Rightarrow> 'p discard_rules \<Rightarrow> 'p list \<Rightarrow> source_matcher \<Rightarrow> ('p list \<times> source_matcher) res" where
  "unreserved ops rules [] m = Inr ([], m)"
| "unreserved ops rules (p # ps) m =
     rbind (is_reserved ops rules p m) (\<lambda>(r, m1).
       rmap (\<lambda>(qs, m2). (if r then qs else p # qs, m2)) (unreserved ops rules ps m1))"

text \<open>One operation in each of the current directories.\<close>

fun in_dirs ::
    "(nat \<Rightarrow> fs \<Rightarrow> (fs \<times> nat) res) \<Rightarrow> (string \<times> nat) list \<Rightarrow> install_state \<Rightarrow> (install_state \<times> (string \<times> nat) list) res" where
  "in_dirs f [] st = Inr (st, [])"
| "in_dirs f ((pkg, d) # dirs) st =
     rbind (in_root pkg (f d) st) (\<lambda>(st1, i). rmap (\<lambda>(st2, is). (st2, (pkg, i) # is)) (in_dirs f dirs st1))"

text \<open>What \<^verbatim>\<open>_install_dir_recursively\<close> does with an entry: the new pairs for the stack, in the order of the code.\<close>

definition install_entry ::
    "('p, 'm) src_ops_scheme \<Rightarrow> 'p discard_rules \<Rightarrow> packages \<Rightarrow> string \<Rightarrow> (string \<times> nat) list \<Rightarrow> 'p \<Rightarrow> install_state \<Rightarrow>
     (((string \<times> nat) list \<times> 'p) list \<times> install_state) res" where
  "install_entry ops rules into src current_dirs e st =
     (let st1 = st\<lparr>st_matcher := reserve ops e into src False (st_matcher st)\<rparr>;
          name = op_name ops e
      in if op_is_dir ops e then
           rbind (in_dirs (\<lambda>d. install_directory ops e d name) current_dirs st1) (\<lambda>(st2, new_dirs).
             rmap (\<lambda>(qs, m). (map (\<lambda>q. (new_dirs, q)) qs, st2\<lparr>st_matcher := m\<rparr>))
               (unreserved ops rules (op_iterdir ops e) (st_matcher st2)))
         else if op_is_symlink ops e then
           rmap (\<lambda>(st2, _). ([], st2)) (in_dirs (\<lambda>d. install_link ops e d name) current_dirs st1)
         else if op_is_file ops e then
           rmap (\<lambda>(st2, _). ([], st2)) (in_dirs (\<lambda>d. install_file ops e d name) current_dirs st1)
         else Inl UserError)"

partial_function (option) install_loop ::
    "('p, 'm) src_ops_scheme \<Rightarrow> 'p discard_rules \<Rightarrow> packages \<Rightarrow> string \<Rightarrow> ((string \<times> nat) list \<times> 'p) list \<Rightarrow> install_state \<Rightarrow>
     install_state res option" where
  "install_loop ops rules into src stack st =
     (case stack of
        [] \<Rightarrow> Some (Inr st)
      | (current_dirs, e) # rest \<Rightarrow>
          (case install_entry ops rules into src current_dirs e st of
             Inl err \<Rightarrow> Some (Inl err)
           | Inr (new, st1) \<Rightarrow> install_loop ops rules into src (rev new @ rest) st1))"

definition install_dir_recursively ::
    "('p, 'm) src_ops_scheme \<Rightarrow> 'p discard_rules \<Rightarrow> packages \<Rightarrow> string \<Rightarrow> (string \<times> nat) list \<Rightarrow> 'p \<Rightarrow> install_state \<Rightarrow>
     install_state res" where
  "install_dir_recursively ops rules into src parent_dirs p st =
     rbind (unreserved ops rules (op_iterdir ops p) (st_matcher st)) (\<lambda>(qs, m).
       rbind (returns (install_loop ops rules into src (rev (map (\<lambda>q. (parent_dirs, q)) qs)) (st\<lparr>st_matcher := m\<rparr>)))
         (\<lambda>r. r))"

definition install_match ::
    "('p, 'm) src_ops_scheme \<Rightarrow> 'p discard_rules \<Rightarrow> 'p install_rule_context \<Rightarrow> 'p dest_paths \<Rightarrow> packages \<Rightarrow> string \<Rightarrow>
     'p path_match \<Rightarrow> install_state \<Rightarrow> install_state res" where
  "install_match ops rules irc dest_paths into src match st =
     rbind (resolve_match ops irc st dest_paths match) (\<lambda>dests.
       rbind (install_dests ops (pm_path match) dests st) (\<lambda>(st1, dirs).
         if dirs = [] then Inr st1 else install_dir_recursively ops rules into src dirs (pm_path match) st1))"

definition install_matches ::
    "('p, 'm) src_ops_scheme \<Rightarrow> 'p discard_rules \<Rightarrow> 'p install_rule_context \<Rightarrow> condition_context \<Rightarrow> 'p rule_base \<Rightarrow>
     'p dest_paths \<Rightarrow> packages \<Rightarrow> 'p path_match list \<Rightarrow> install_state \<Rightarrow> install_state res" where
  "install_matches ops rules irc cx base dest_paths into matches st =
     rbind (rule_enabled (rb_condition base) cx) (\<lambda>enabled.
       if \<not> enabled \<or> \<not> list_ex should_be_acted_on into then Inr st
       else if matches = [] then Inl ValueError
       else rfold (install_match ops rules irc dest_paths into (rb_definition_source base)) matches st)"

subsection \<open>Running a rule\<close>

definition install_source ::
    "('p, 'm) src_ops_scheme \<Rightarrow> 'p discard_rules \<Rightarrow> 'p install_rule_context \<Rightarrow> condition_context \<Rightarrow> 'p rule_base \<Rightarrow>
     'p dest_paths \<Rightarrow> packages \<Rightarrow> bool \<Rightarrow> fs_match_rule \<Rightarrow> install_state \<Rightarrow> install_state res" where
  "install_source ops rules irc cx base dest_paths into require_single_match source st =
     rbind (match_pattern ops rules cx base (irc_search_dirs irc) into source (st_matcher st)) (\<lambda>(matches, m).
       rbind (if require_single_match \<and> length matches > 1 then check_single_match matches else Inr ()) (\<lambda>_.
         install_matches ops rules irc cx base dest_paths into matches (st\<lparr>st_matcher := m\<rparr>)))"

definition discard_search_dirs ::
    "('p, 'm) src_ops_scheme \<Rightarrow> string list \<Rightarrow> 'p search_dir list \<Rightarrow> 'p search_dir list res" where
  "discard_search_dirs ops limit_to search_dirs =
     (if limit_to = [] then Inr search_dirs
      else
        (let sdirs = filter (\<lambda>s. op_fs_path ops (sd_search_dir s) \<in> set limit_to) search_dirs in
         if length limit_to \<noteq> length sdirs then Inl UserError else Inr sdirs))"

definition ppf_install :: "packager_provided_file \<Rightarrow> fs \<Rightarrow> (fs \<times> nat) res" where
  "ppf_install ppf fs =
     rbind (mkdirs fs 0 (ppf_dest_dir ppf)) (\<lambda>(fs1, dir_path).
       insert_file_from_fs_path fs1 dir_path (ppf_dest_name ppf) (ppf_fs_path ppf) (ppf_resolved ppf) (ppf_is_reg ppf)
         True False (ppf_default_mode ppf) True True None)"

fun perform_install ::
    "('p, 'm) src_ops_scheme \<Rightarrow> 'p discard_rules \<Rightarrow> 'p install_rule_context \<Rightarrow> condition_context \<Rightarrow> 'p install_rule \<Rightarrow>
     install_state \<Rightarrow> install_state res" where
  "perform_install ops rules irc cx (GenericInstallationRule sources dest_paths into condition src single match_filter) st =
     rfold (install_source ops rules irc cx
              \<lparr>rb_condition = condition, rb_definition_source = src, rb_match_filter = match_filter\<rparr> dest_paths into single)
       sources st"
| "perform_install ops rules irc cx (DiscardRule fs_match_rules condition limit_to src) st =
     rbind (discard_search_dirs ops limit_to (irc_search_dirs irc)) (\<lambda>search_dirs.
       rfold (\<lambda>r st. rmap (\<lambda>(_, m). st\<lparr>st_matcher := m\<rparr>)
                (match_pattern ops rules cx
                   \<lparr>rb_condition = condition, rb_definition_source = src, rb_match_filter = None\<rparr> search_dirs [] r
                   (st_matcher st))) fs_match_rules st)"
| "perform_install ops rules irc cx (PPFInstallRule into ppfs) st =
     (if st_roots st (package_name into) = None then Inl KeyError
      else rfold (\<lambda>ppf st. rmap fst (in_root (package_name into) (ppf_install ppf) st)) ppfs st)"

subsection \<open>The rules that the manifest writes\<close>

definition new_generic_rule ::
    "fs_match_rule list \<Rightarrow> 'p dest_paths \<Rightarrow> packages \<Rightarrow> manifest_condition option \<Rightarrow> string \<Rightarrow> bool \<Rightarrow> ('p \<Rightarrow> bool) option \<Rightarrow>
     'p install_rule res" where
  "new_generic_rule sources dest_paths into condition src single match_filter =
     (if single \<and> length sources \<noteq> 1 then Inl ValueError
      else Inr (GenericInstallationRule sources dest_paths into condition src single match_filter))"

definition install_as ::
    "fs_match_rule \<Rightarrow> string \<Rightarrow> packages \<Rightarrow> string \<Rightarrow> manifest_condition option \<Rightarrow> 'p install_rule res" where
  "install_as source dest_path into src condition =
     new_generic_rule [source] (DestTemplates [(dest_path, False)]) into condition src True None"

definition basename_field :: string where
  "basename_field = ''{basename}''"

definition install_dest_rule ::
    "fs_match_rule list \<Rightarrow> string option \<Rightarrow> packages \<Rightarrow> string \<Rightarrow> manifest_condition option \<Rightarrow> 'p install_rule res" where
  "install_dest_rule sources dest_dir into src condition =
     new_generic_rule sources
       (DestTemplates [(case dest_dir of None \<Rightarrow> ''{dirname}/'' @ basename_field | Some d \<Rightarrow> path_join d basename_field, True)])
       into condition src False None"

definition install_multi_as ::
    "fs_match_rule \<Rightarrow> string list \<Rightarrow> packages \<Rightarrow> string \<Rightarrow> manifest_condition option \<Rightarrow> 'p install_rule res" where
  "install_multi_as source dest_paths into src condition =
     (if length dest_paths < 2 then Inl ValueError
      else new_generic_rule [source] (DestTemplates (map (\<lambda>dp. (dp, False)) dest_paths)) into condition src True None)"

definition install_multi_dest ::
    "fs_match_rule list \<Rightarrow> string list \<Rightarrow> packages \<Rightarrow> string \<Rightarrow> manifest_condition option \<Rightarrow> 'p install_rule res" where
  "install_multi_dest sources dest_dirs into src condition =
     (if length dest_dirs < 2 then Inl ValueError
      else new_generic_rule sources (DestTemplates (map (\<lambda>dp. (path_join dp basename_field, True)) dest_dirs))
             into condition src False None)"

text \<open>Documentation is installed only when it is built, and when the rule's own condition holds.\<close>

definition doc_condition :: "manifest_condition option \<Rightarrow> manifest_condition option res" where
  "doc_condition condition =
     (case condition of None \<Rightarrow> Inr (Some BuildDocs) | Some c \<Rightarrow> rmap Some (manifest_group ALL_OF [BuildDocs, c]))"

definition install_doc ::
    "fs_match_rule list \<Rightarrow> string option \<Rightarrow> packages \<Rightarrow> string \<Rightarrow> manifest_condition option \<Rightarrow> 'p install_rule res" where
  "install_doc sources dest_dir into src condition =
     rbind (doc_condition condition) (\<lambda>cond.
       new_generic_rule sources
         (DestTemplates [case dest_dir of
            None \<Rightarrow> (''usr/share/doc/{doc_main_package_name}/'' @ basename_field, True) | Some d \<Rightarrow> (d, False)])
         into cond src False None)"

definition install_doc_as ::
    "fs_match_rule \<Rightarrow> string \<Rightarrow> packages \<Rightarrow> string \<Rightarrow> manifest_condition option \<Rightarrow> 'p install_rule res" where
  "install_doc_as source dest_path into src condition =
     rbind (doc_condition condition) (\<lambda>cond.
       new_generic_rule [source] (DestTemplates [(dest_path, False)]) into cond src True None)"

definition install_examples ::
    "fs_match_rule list \<Rightarrow> packages \<Rightarrow> string \<Rightarrow> manifest_condition option \<Rightarrow> 'p install_rule res" where
  "install_examples sources into src condition =
     rbind (doc_condition condition) (\<lambda>cond.
       new_generic_rule sources
         (DestTemplates [(''usr/share/doc/{doc_main_package_name}/examples/'' @ basename_field, True)]) into cond src False None)"

definition install_man ::
    "('p, 'm) src_ops_scheme \<Rightarrow> fs_match_rule list \<Rightarrow> packages \<Rightarrow> int option \<Rightarrow> string option \<Rightarrow> string \<Rightarrow>
     manifest_condition option \<Rightarrow> 'p install_rule res" where
  "install_man ops sources into sect language src condition =
     rbind (doc_condition condition) (\<lambda>cond.
       new_generic_rule sources (DestComputed (manpage_dest_path ops sect language)) into cond src False
         (Some (\<lambda>p. \<not> op_is_file ops p)))"

definition discard_paths :: "fs_match_rule list \<Rightarrow> string \<Rightarrow> manifest_condition option \<Rightarrow> string list \<Rightarrow> 'p install_rule" where
  "discard_paths paths src condition limit_to = DiscardRule paths condition limit_to src"

declare install_loop.simps [code]


subsection \<open>Directories are installed completely\<close>

lemma in_root_matcher: "in_root pkg f st = Inr (st', x) \<Longrightarrow> st_matcher st' = st_matcher st"
  by (auto simp: in_root_def res_simps split: option.splits)

lemma in_dirs_matcher: "in_dirs f dirs st = Inr (st', is) \<Longrightarrow> st_matcher st' = st_matcher st"
proof (induction f dirs st arbitrary: st' "is" rule: in_dirs.induct)
  case (2 f pkg d dirs st)
  then obtain st1 i "is'" where "in_root pkg (f d) st = Inr (st1, i)" "in_dirs f dirs st1 = Inr (st', is')"
    by (auto simp: res_simps)
  with 2(1)[of "(st1, i)" st1 i st' is'] in_root_matcher show ?case by metis
qed simp

lemma install_dests_matcher: "install_dests ops p dests st = Inr (st', dirs) \<Longrightarrow> st_matcher st' = st_matcher st"
proof (induction ops p dests st arbitrary: st' dirs rule: install_dests.induct)
  case (2 ops p dest pkg dests st)
  then obtain st1 d dirs' where "in_root pkg (install_dest ops p dest) st = Inr (st1, d)"
    "install_dests ops p dests st1 = Inr (st', dirs')"
    by (auto simp: res_simps)
  with 2(1)[of "(st1, d)" st1 d st' dirs'] in_root_matcher show ?case by metis
qed simp

lemma reserve_matched:
  "already_matched (reserve ops p into src False m) = (already_matched m)(op_fs_path ops p \<mapsto> (into, src))"
  "discarded (reserve ops p into src False m) = discarded m"
  by (simp_all add: reserve_def Let_def)

context source_tree
begin

lemma unreserved_ok:
  assumes "list_all valid ps"
  shows "\<exists>m'. unreserved ops rules ps m = Inr (filter (\<lambda>p. \<not> reserved_now ops rules chain m p) ps, m')
    \<and> same_taken m m' \<and> (\<forall>q. valid q \<longrightarrow> reserved_now ops rules chain m' q = reserved_now ops rules chain m q)"
  using assms
proof (induction ps arbitrary: m)
  case (Cons p ps)
  then have v: "valid p" "list_all valid ps" by simp_all
  obtain m1 where m1: "is_reserved ops rules p m = Inr (reserved_now ops rules chain m p, m1)" "same_taken m m1"
    and cv: "\<And>q. valid q \<Longrightarrow> chain_verdict ops rules (discarded m1) (chain q) = chain_verdict ops rules (discarded m) (chain q)"
    using is_reserved_ok[OF v(1), of rules m] by blast
  have rn: "reserved_now ops rules chain m1 q = reserved_now ops rules chain m q" if "valid q" for q
    using reserved_now_cong[OF m1(2) cv[OF that]] .
  from Cons.IH[OF v(2), of m1] obtain m' where m':
    "unreserved ops rules ps m1 = Inr (filter (\<lambda>p. \<not> reserved_now ops rules chain m1 p) ps, m')" "same_taken m1 m'"
    "\<And>q. valid q \<Longrightarrow> reserved_now ops rules chain m' q = reserved_now ops rules chain m1 q" by blast
  have f: "filter (\<lambda>p. \<not> reserved_now ops rules chain m1 p) ps = filter (\<lambda>p. \<not> reserved_now ops rules chain m p) ps"
    using rn v(2) by (intro filter_cong) (auto simp: list_all_iff)
  have "unreserved ops rules (p # ps) m = Inr (filter (\<lambda>p. \<not> reserved_now ops rules chain m p) (p # ps), m')"
    using m1(1) m'(1) f by simp
  then show ?case using same_taken_trans[OF m1(2) m'(2)] m'(3) rn by auto
qed simp

lemma reserve_reserves:
  "valid q \<Longrightarrow> valid p \<Longrightarrow> reserved_now ops rules chain (reserve ops p into src False m) q \<longleftrightarrow>
     reserved_now ops rules chain m q \<or> q = p"
  unfolding reserved_now_def reserve_matched using fs_path_eq by auto

lemma install_entry_ok:
  assumes v: "valid e" and ok: "install_entry ops rules into src dirs e st = Inr (new, st1)"
  shows "(\<forall>q. valid q \<longrightarrow> reserved_now ops rules chain (st_matcher st1) q = (reserved_now ops rules chain (st_matcher st) q \<or> q = e))
    \<and> (\<forall>x \<in> set new. snd x \<in> set (op_iterdir ops e))
    \<and> (\<forall>c \<in> set (op_iterdir ops e). c \<in> snd ` set new \<or> reserved_now ops rules chain (st_matcher st) c)
    \<and> distinct (map snd new)"
proof -
  let ?m = "reserve ops e into src False (st_matcher st)"
  note re = reserve_reserves[OF _ v, of _ rules into src "st_matcher st"]
  show ?thesis
  proof (cases "op_is_dir ops e")
    case True
    obtain st2 nd qs m where d: "in_dirs (\<lambda>d. install_directory ops e d (op_name ops e)) dirs (st\<lparr>st_matcher := ?m\<rparr>) = Inr (st2, nd)"
      and u: "unreserved ops rules (op_iterdir ops e) (st_matcher st2) = Inr (qs, m)"
      and n: "new = map (\<lambda>q. (nd, q)) qs" "st1 = st2\<lparr>st_matcher := m\<rparr>"
      using ok True by (auto simp: install_entry_def Let_def res_simps)
    have s2: "st_matcher st2 = ?m" using in_dirs_matcher[OF d] by simp
    have "list_all valid (op_iterdir ops e)" using child_valid[OF v] by (simp add: list_all_iff)
    from unreserved_ok[OF this, of rules "st_matcher st2"] u s2 have
      q: "qs = filter (\<lambda>p. \<not> reserved_now ops rules chain ?m p) (op_iterdir ops e)"
      and rn: "\<forall>q. valid q \<longrightarrow> reserved_now ops rules chain m q = reserved_now ops rules chain ?m q" by auto
    have "c \<in> snd ` set new \<or> reserved_now ops rules chain (st_matcher st) c" if c: "c \<in> set (op_iterdir ops e)" for c
    proof -
      have "c \<noteq> e" using not_under_child[OF v c] under_step[OF v, of e] by blast
      then have "reserved_now ops rules chain ?m c = reserved_now ops rules chain (st_matcher st) c"
        using re[OF child_valid[OF v c]] by simp
      then show ?thesis using c unfolding n q by force
    qed
    moreover have "distinct (map snd new)" unfolding n q using children_distinct_law[OF v] by (simp add: comp_def)
    ultimately show ?thesis using n q rn re by auto
  next
    case False
    then have none: "op_iterdir ops e = []" using child_law[OF v] by (cases "op_iterdir ops e") auto
    have "new = [] \<and> st_matcher st1 = ?m"
      using ok False in_dirs_matcher[of _ dirs "st\<lparr>st_matcher := ?m\<rparr>" st1]
      by (auto simp: install_entry_def Let_def res_simps split: if_splits)
    with re none show ?thesis by simp
  qed
qed

lemma apart_sub: "apart ys \<Longrightarrow> set xs \<subseteq> set ys \<Longrightarrow> distinct xs \<Longrightarrow> apart xs"
  unfolding apart_def by blast

text \<open>
  A path below \<open>p\<close> is covered by a step from \<open>m\<close> to \<open>m'\<close> when it is reserved after it, or when a path on the
  way up to \<open>p\<close> was reserved before it.
\<close>

definition covered :: "'p discard_rules \<Rightarrow> source_matcher \<Rightarrow> source_matcher \<Rightarrow> 'p \<Rightarrow> 'p \<Rightarrow> bool" where
  "covered rules m m' p q \<longleftrightarrow>
     reserved_now ops rules chain m' q \<or> (\<exists>a \<in> set (chain q). under p a \<and> reserved_now ops rules chain m a)"

text \<open>The loop returns; without an error it covers everything below the paths on the stack.\<close>

lemma install_loop_ok:
  assumes "\<forall>x \<in> set stack. valid (snd x)" and "apart (map snd stack)"
  shows "\<exists>r. install_loop ops rules into src stack st = Some r \<and> (\<forall>st'. r = Inr st' \<longrightarrow>
     (\<forall>q. valid q \<longrightarrow> reserved_now ops rules chain (st_matcher st) q \<longrightarrow> reserved_now ops rules chain (st_matcher st') q)
     \<and> (\<forall>x \<in> set stack. \<forall>q. under (snd x) q \<longrightarrow> covered rules (st_matcher st) (st_matcher st') (snd x) q))"
  using assms
proof (induction "(\<Sum>x \<leftarrow> stack. card {q. under (snd x) q})" arbitrary: stack st rule: less_induct)
  case less
  show ?case
  proof (cases stack)
    case Nil
    then show ?thesis by (simp add: install_loop.simps)
  next
    case (Cons x rest)
    obtain dirs e where x: "x = (dirs, e)" by (cases x)
    have v: "valid e" and vr: "\<forall>y \<in> set rest. valid (snd y)" using less.prems(1) Cons x by simp_all
    show ?thesis
    proof (cases "install_entry ops rules into src dirs e st")
      case (Inl err)
      then show ?thesis unfolding Cons x by (simp add: install_loop.simps[of ops rules into src "(dirs, e) # rest"])
    next
      case (Inr res)
      obtain new st1 where r: "res = (new, st1)" by (cases res)
      note ok = install_entry_ok[OF v Inr[unfolded r]]
      let ?st = "rev new @ rest" and ?R = "\<lambda>s. reserved_now ops rules chain (st_matcher s)"
      have loop: "install_loop ops rules into src stack st = install_loop ops rules into src ?st st1"
        unfolding Cons x install_loop.simps[of ops rules into src "(dirs, e) # rest"] using Inr r by simp
      have dn: "distinct (map snd new)" using ok by blast
      have sn: "set (map snd new) \<subseteq> set (op_iterdir ops e)" using ok by auto
      have "(\<Sum>y \<leftarrow> new. card {q. under (snd y) q}) = (\<Sum>c \<leftarrow> map snd new. card {q. under c q})" by (simp add: comp_def)
      also have "\<dots> = (\<Sum>c \<in> set (map snd new). card {q. under c q})" using dn by (simp only: sum_list_distinct_conv_sum_set)
      also have "\<dots> \<le> (\<Sum>c \<in> set (op_iterdir ops e). card {q. under c q})" using sn by (intro sum_mono2) auto
      also have "\<dots> = (\<Sum>c \<leftarrow> op_iterdir ops e. card {q. under c q})"
        using children_distinct_law[OF v] by (simp add: sum_list_distinct_conv_sum_set)
      also have "\<dots> < card {q. under e q}" by (rule children_count[OF v])
      finally have less: "(\<Sum>y \<leftarrow> ?st. card {q. under (snd y) q}) < (\<Sum>y \<leftarrow> stack. card {q. under (snd y) q})"
        unfolding Cons x by (simp add: rev_map[symmetric])
      have vs: "\<forall>y \<in> set ?st. valid (snd y)" using vr ok child_valid[OF v] by auto
      have ae: "apart (e # map snd rest)" using less.prems(2) Cons x by simp
      have "apart (rev (op_iterdir ops e) @ map snd rest)" by (rule apart_expand[OF v ae])
      moreover have "distinct (map snd ?st)" "set (map snd ?st) \<subseteq> set (rev (op_iterdir ops e) @ map snd rest)"
        using calculation dn sn unfolding apart_def by (auto simp: rev_map[symmetric])
      ultimately have as: "apart (map snd ?st)" using apart_sub by blast
      from less.hyps[OF less vs as, of st1] obtain r2 where r2: "install_loop ops rules into src ?st st1 = Some r2"
        and post: "\<And>st'. r2 = Inr st' \<Longrightarrow> (\<forall>q. valid q \<longrightarrow> ?R st1 q \<longrightarrow> ?R st' q)
          \<and> (\<forall>y \<in> set ?st. \<forall>q. under (snd y) q \<longrightarrow> covered rules (st_matcher st1) (st_matcher st') (snd y) q)"
        by blast
      have "(\<forall>q. valid q \<longrightarrow> ?R st q \<longrightarrow> ?R st' q)
          \<and> (\<forall>x \<in> set stack. \<forall>q. under (snd x) q \<longrightarrow> covered rules (st_matcher st) (st_matcher st') (snd x) q)"
        if r2': "r2 = Inr st'" for st'
      proof (intro conjI ballI allI impI)
        fix q assume "valid q" "?R st q"
        then show "?R st' q" using ok post[OF r2'] by blast
      next
        fix y q assume y: "y \<in> set stack" and u: "under (snd y) q"
        have vy: "valid (snd y)" using less.prems(1) y by blast
        then have vq: "valid q" using u under_law by blast
        have old: "covered rules (st_matcher st) (st_matcher st') z q"
          if c: "covered rules (st_matcher st1) (st_matcher st') z q" and ne: "\<not> under z e" and vz: "valid z" for z
          unfolding covered_def
        proof (cases "?R st' q")
          case False
          then obtain a where a: "a \<in> set (chain q)" "under z a" "?R st1 a" using c unfolding covered_def by blast
          then have "valid a" "a \<noteq> e" using under_law[OF vz] ne by blast+
          then have "?R st a" using ok a(3) by blast
          then show "?R st' q \<or> (\<exists>a \<in> set (chain q). under z a \<and> ?R st a)" using a by blast
        qed simp
        show "covered rules (st_matcher st) (st_matcher st') (snd y) q"
        proof (cases "y = x")
          case False
          then have yr: "y \<in> set rest" using y Cons by simp
          then have "covered rules (st_matcher st1) (st_matcher st') (snd y) q" using post[OF r2'] u by auto
          moreover have "\<not> under (snd y) e"
          proof
            assume ue: "under (snd y) e"
            have "under e e" using under_step[OF v] by blast
            then have "snd y = e" using ae ue yr unfolding apart_def by auto
            then show False using ae yr unfolding apart_def by force
          qed
          ultimately show ?thesis using old vy by blast
        next
          case True
          then have ye: "snd y = e" using x by simp
          show ?thesis
          proof (cases "q = e")
            case True
            then have "?R st' q" using ok post[OF r2'] v by blast
            then show ?thesis unfolding covered_def by blast
          next
            case qe: False
            then obtain c where c: "c \<in> set (op_iterdir ops e)" "under c q" using u under_step[OF v] ye by blast
            have vc: "valid c" using child_valid[OF v c(1)] .
            have ec: "under e a" if "under c a" for a using that under_step[OF v, of a] c(1) by blast
            have cc: "c \<in> set (chain q)" using c(2) under_chain_law[OF vc vq] by blast
            have "covered rules (st_matcher st) (st_matcher st') c q"
            proof (cases "c \<in> snd ` set new")
              case True
              then have "covered rules (st_matcher st1) (st_matcher st') c q" using post[OF r2'] c(2) by auto
              then show ?thesis using old vc not_under_child[OF v c(1)] by blast
            next
              case False
              then have "?R st c" using ok c(1) by blast
              then show ?thesis using cc under_step[OF vc, of c] unfolding covered_def by blast
            qed
            then show ?thesis using ec unfolding covered_def ye by blast
          qed
        qed
      qed
      then show ?thesis using loop r2 by auto
    qed
  qed
qed

lemma install_dir_recursively_ok:
  assumes v: "valid p"
  shows "\<exists>qs m r. unreserved ops rules (op_iterdir ops p) (st_matcher st) = Inr (qs, m)
    \<and> install_loop ops rules into src (rev (map (\<lambda>q. (dirs, q)) qs)) (st\<lparr>st_matcher := m\<rparr>) = Some r
    \<and> install_dir_recursively ops rules into src dirs p st = r
    \<and> (\<forall>st' q. r = Inr st' \<longrightarrow> under p q \<longrightarrow> q \<noteq> p \<longrightarrow>
         (\<exists>c \<in> set (op_iterdir ops p). under c q \<and> covered rules (st_matcher st) (st_matcher st') c q))"
proof -
  have lv: "list_all valid (op_iterdir ops p)" using child_valid[OF v] by (simp add: list_all_iff)
  from unreserved_ok[OF lv, of rules "st_matcher st"] obtain m where
    u: "unreserved ops rules (op_iterdir ops p) (st_matcher st)
      = Inr (filter (\<lambda>p. \<not> reserved_now ops rules chain (st_matcher st) p) (op_iterdir ops p), m)"
    and rn: "\<And>q. valid q \<Longrightarrow> reserved_now ops rules chain m q = reserved_now ops rules chain (st_matcher st) q" by blast
  let ?qs = "filter (\<lambda>p. \<not> reserved_now ops rules chain (st_matcher st) p) (op_iterdir ops p)"
  let ?stack = "rev (map (\<lambda>q. (dirs, q)) ?qs)"
  have "apart (map snd ?stack)"
    using children_distinct_law[OF v] by (intro apart_sub[OF apart_children[OF v]]) (auto simp: rev_map[symmetric] comp_def)
  moreover have "\<forall>x \<in> set ?stack. valid (snd x)" using child_valid[OF v] by auto
  ultimately obtain r where r: "install_loop ops rules into src ?stack (st\<lparr>st_matcher := m\<rparr>) = Some r"
    and post: "\<And>st'. r = Inr st' \<Longrightarrow> \<forall>x \<in> set ?stack. \<forall>q. under (snd x) q \<longrightarrow> covered rules m (st_matcher st') (snd x) q"
    using install_loop_ok[of ?stack rules into src "st\<lparr>st_matcher := m\<rparr>"] by auto
  have whole: "install_dir_recursively ops rules into src dirs p st = r"
    using u r by (simp add: install_dir_recursively_def returns_def)
  have "\<exists>c \<in> set (op_iterdir ops p). under c q \<and> covered rules (st_matcher st) (st_matcher st') c q"
    if r': "r = Inr st'" and q: "under p q" "q \<noteq> p" for st' q
  proof -
    obtain c where c: "c \<in> set (op_iterdir ops p)" "under c q" using q under_step[OF v] by blast
    have vc: "valid c" "valid q" using child_valid[OF v c(1)] under_law[OF v q(1)] by blast+
    have "covered rules (st_matcher st) (st_matcher st') c q"
    proof (cases "reserved_now ops rules chain (st_matcher st) c")
      case True
      have "c \<in> set (chain q)" "under c c" using c(2) under_chain_law vc under_step[OF vc(1)] by blast+
      with True show ?thesis unfolding covered_def by blast
    next
      case False
      then have "covered rules m (st_matcher st') c q" using post[OF r'] c by auto
      then show ?thesis unfolding covered_def using rn under_law[OF vc(1)] by blast
    qed
    with c show ?thesis by blast
  qed
  with u r whole show ?thesis by blast
qed

end


subsection \<open>Properties\<close>

lemma py_format_char: "c \<noteq> CHR ''{'' \<Longrightarrow> c \<noteq> CHR ''}'' \<Longrightarrow> py_format env (c # s) = rmap (\<lambda>t. c # t) (py_format env s)"
  by simp

lemma py_format_plain: "CHR ''{'' \<notin> set s \<Longrightarrow> CHR ''}'' \<notin> set s \<Longrightarrow> py_format env (s @ t) = rmap (\<lambda>u. s @ u) (py_format env t)"
proof (induction s)
  case Nil
  show ?case by (cases "py_format env t") simp_all
next
  case (Cons c s)
  then have c: "c \<noteq> CHR ''{''" "c \<noteq> CHR ''}''" and ih: "py_format env (s @ t) = rmap (\<lambda>u. s @ u) (py_format env t)"
    by auto
  show ?case unfolding append_Cons py_format_char[OF c] ih by (cases "py_format env t") simp_all
qed

lemma py_format_basename: "py_format (format_arguments ops p pkg main) basename_field = Inr (op_name ops p)"
  by (simp add: basename_field_def format_arguments_def ascii_digit_def)

text \<open>Installing without a destination or with a destination directory (one without braces) keeps the name of
  the match: the template gives the path of the name in that directory.\<close>

theorem install_keeps_basename:
  assumes "CHR ''{'' \<notin> set d" and "CHR ''}'' \<notin> set d" and "\<not> startswith (op_name ops p) ''/''"
  shows "py_format (format_arguments ops p pkg main) (path_join d basename_field) = Inr (path_join d (op_name ops p))"
proof -
  have b: "\<not> startswith basename_field ''/''" by (simp add: basename_field_def)
  have nil: "py_format env (s @ basename_field) = Inr (s @ op_name ops p)"
    if "CHR ''{'' \<notin> set s" "CHR ''}'' \<notin> set s" "env = format_arguments ops p pkg main" for s env
    unfolding that(3) by (simp add: py_format_plain[OF that(1,2)] py_format_basename)
  show ?thesis
    using b assms(3) nil[OF assms(1,2) refl] nil[of "d @ ''/''"] assms(1,2) by (simp add: path_join_def)
qed

lemma install_keeps_basename_witness:
  "py_format (format_arguments ov_ops (demo_so ''a.so'') ''foo'' ''foo'') (path_join ''usr/lib'' basename_field)
     = Inr ''usr/lib/a.so''"
proof -
  have "op_name ov_ops (demo_so ''a.so'') = ''a.so''" by code_simp
  then show ?thesis using install_keeps_basename[of "''usr/lib''" ov_ops "demo_so ''a.so''" "''foo''" "''foo''"]
    by (simp add: path_join_def endswith_single)
qed

text \<open>C24: the installation of a directory of a search directory ends: the loop over the stack returns.  When it does
  so without an error, every path below the directory is taken or discarded afterwards, except beneath a path
  (at or above it) that was taken or discarded before.\<close>

theorem directory_fully_taken:
  assumes "ov_source rs p"
  shows "\<exists>qs m r. unreserved ov_ops rules (ov_iterdir p) (st_matcher st) = Inr (qs, m)
    \<and> install_loop ov_ops rules into src (rev (map (\<lambda>q. (dirs, q)) qs)) (st\<lparr>st_matcher := m\<rparr>) = Some r
    \<and> install_dir_recursively ov_ops rules into src dirs p st = r
    \<and> (case r of
         Inl e \<Rightarrow> True
       | Inr st' \<Rightarrow>
           list_all (\<lambda>q. q = p \<or> reserved_now ov_ops rules ov_chain (st_matcher st') q
             \<or> list_ex (\<lambda>a. a \<noteq> p \<and> ov_under p a \<and> reserved_now ov_ops rules ov_chain (st_matcher st) a) (ov_chain q))
             (ov_all_paths p))"
proof -
  have it: "op_iterdir ov_ops = ov_iterdir" by (simp add: ov_ops_def)
  obtain qs m r where r: "unreserved ov_ops rules (ov_iterdir p) (st_matcher st) = Inr (qs, m)"
      "install_loop ov_ops rules into src (rev (map (\<lambda>q. (dirs, q)) qs)) (st\<lparr>st_matcher := m\<rparr>) = Some r"
      "install_dir_recursively ov_ops rules into src dirs p st = r"
    and cov: "\<And>st' q. r = Inr st' \<Longrightarrow> ov_under p q \<Longrightarrow> q \<noteq> p \<Longrightarrow> \<exists>c \<in> set (ov_iterdir p). ov_under c q
         \<and> source_tree.covered ov_ops ov_under ov_chain rules (st_matcher st) (st_matcher st') c q"
    using ov_tree.install_dir_recursively_ok[OF assms, of rules st into src dirs, unfolded it] by blast
  have "reserved_now ov_ops rules ov_chain (st_matcher st') q
      \<or> list_ex (\<lambda>a. a \<noteq> p \<and> ov_under p a \<and> reserved_now ov_ops rules ov_chain (st_matcher st) a) (ov_chain q)"
    if "r = Inr st'" "ov_under p q" "q \<noteq> p" for st' q
  proof -
    from cov[OF that] obtain c where c: "c \<in> set (op_iterdir ov_ops p)" "ov_under c q"
      and cov: "source_tree.covered ov_ops ov_under ov_chain rules (st_matcher st) (st_matcher st') c q" unfolding it by blast
    have np: "a \<noteq> p \<and> ov_under p a" if "ov_under c a" for a
      using ov_tree.under_step[OF assms, of a] ov_tree.not_under_child[OF assms c(1)] c(1) that by blast
    from cov show ?thesis unfolding ov_tree.covered_def list_ex_iff using np by blast
  qed
  then show ?thesis using r unfolding list_all_iff all_paths_set
    by (cases r) (simp_all, blast)
qed

lemma directory_fully_taken_witness:
  "\<exists>st'. install_dir_recursively ov_ops [] [demo_package] ''src'' []
       (the (ov_descend demo_source [''usr'', ''lib'', ''foo''])) \<lparr>st_matcher = new_source_matcher, st_roots = Map.empty\<rparr> = Inr st'
    \<and> reserved_now ov_ops [] ov_chain (st_matcher st') (demo_so ''a.so'')"
proof -
  let ?p = "the (ov_descend demo_source [''usr'', ''lib'', ''foo''])"
  let ?st = "\<lparr>st_matcher = new_source_matcher, st_roots = Map.empty\<rparr>"
  let ?r = "install_dir_recursively ov_ops [] [demo_package] ''src'' [] ?p ?st"
  have p: "ov_descend demo_source [''usr'', ''lib'', ''foo''] = Some ?p" by code_simp
  have v: "ov_source [demo_source] ?p" by (rule demo_source_member[OF p])
  have "\<not> isl ?r" by code_simp
  then obtain st' where r: "?r = Inr st'" by (cases ?r) simp_all
  have a: "demo_so ''a.so'' \<in> set (ov_all_paths ?p)" "demo_so ''a.so'' \<noteq> ?p"
    and n: "\<not> list_ex (\<lambda>a. a \<noteq> ?p \<and> reserved_now ov_ops [] ov_chain (st_matcher ?st) a) (ov_chain (demo_so ''a.so''))"
    by code_simp+
  from directory_fully_taken[OF v, of "[]" ?st "[demo_package]" "''src''" "[]", unfolded r]
  have "list_all (\<lambda>q. q = ?p \<or> reserved_now ov_ops [] ov_chain (st_matcher st') q
      \<or> list_ex (\<lambda>a. a \<noteq> ?p \<and> ov_under ?p a \<and> reserved_now ov_ops [] ov_chain (st_matcher ?st) a) (ov_chain q)) (ov_all_paths ?p)"
    by (elim exE conjE) (hypsubst, simp only: sum.case)
  then have "reserved_now ov_ops [] ov_chain (st_matcher st') (demo_so ''a.so'')"
    using a n unfolding list_all_iff list_ex_iff by blast
  with r show ?thesis by blast
qed

lemma new_generic_rule_Inr:
  "new_generic_rule ss dp i cond src sg f = Inr r \<Longrightarrow> r = GenericInstallationRule ss dp i cond src sg f"
  by (simp add: new_generic_rule_def split: if_splits)

text \<open>The rules for documentation, examples and manual pages leave the package trees alone when the build
  options name \<^verbatim>\<open>nodocs\<close>, whatever they match.\<close>

theorem nodocs_installs_nothing:
  assumes "Inr r \<in> {install_doc sources dest_dir into src condition, install_doc_as source dest into src condition,
      install_examples sources into src condition, install_man ops sources into sect language src condition}"
    and "map_of (cx_build_options cx) ''nodocs'' \<noteq> None"
    and "perform_install ops rules irc cx r st = Inr st'"
  shows "st_roots st' = st_roots st"
proof -
  from assms(1) consider "install_doc sources dest_dir into src condition = Inr r"
    | "install_doc_as source dest into src condition = Inr r" | "install_examples sources into src condition = Inr r"
    | "install_man ops sources into sect language src condition = Inr r"
    by (auto simp only: insert_iff empty_iff eq_commute[of "Inr r"])
  then have "\<exists>cond ss dp sg f. r = GenericInstallationRule ss dp into cond src sg f \<and> doc_condition condition = Inr cond"
    by cases (auto simp: install_doc_def install_doc_as_def install_examples_def install_man_def rbind_eq_Inr dest!: new_generic_rule_Inr)
  then obtain cond ss dp sg f where r: "r = GenericInstallationRule ss dp into cond src sg f" and c: "doc_condition condition = Inr cond"
    by blast
  have off: "rule_enabled cond cx = Inr False"
  proof (cases condition)
    case None
    then show ?thesis using c assms(2) by (auto simp: doc_condition_def rule_enabled_def)
  next
    case (Some d)
    then have "cond = Some (ManifestConditionGroup ALL_OF [BuildDocs, d])"
      using c by (auto simp: doc_condition_def manifest_group_def)
    then show ?thesis using assms(2) by (auto simp: rule_enabled_def)
  qed
  let ?base = "\<lparr>rb_condition = cond, rb_definition_source = src, rb_match_filter = f\<rparr>"
  have "rfold (install_source ops rules irc cx ?base dp into sg) ss st = Inr st'" using assms(3) r by simp
  then show ?thesis
  proof (rule rfold_invariant[where P = "\<lambda>s. st_roots s = st_roots st"])
    fix s t u
    assume "install_source ops rules irc cx ?base dp into sg s t = Inr u" "st_roots t = st_roots st"
    then show "st_roots u = st_roots st"
      using off by (auto simp: install_source_def install_matches_def res_simps)
  qed simp
qed

text \<open>The option that Debian's policy defines, \<^verbatim>\<open>nodoc\<close>, has no such effect.\<close>

lemma nodoc_is_not_nodocs: "evaluate (demo_context\<lparr>cx_build_options := [(''nodoc'', None)]\<rparr>) BuildDocs = Inr True"
  by code_simp

lemma nodocs_installs_nothing_witness:
  "\<exists>st'. perform_install ov_ops [] \<lparr>irc_search_dirs = [demo_search_dir], irc_doc_main_package = Map.empty\<rparr> demo_context
       (projr (install_doc [\<lparr>fr_raw_match_rule = ''usr/lib/foo/*'', fr_match_rule = demo_pattern\<rparr>] None [demo_package] ''src'' None))
       \<lparr>st_matcher = new_source_matcher, st_roots = Map.empty\<rparr> = Inr st' \<and> st_roots st' = Map.empty"
proof -
  let ?d = "install_doc [\<lparr>fr_raw_match_rule = ''usr/lib/foo/*'', fr_match_rule = demo_pattern\<rparr>] None [demo_package] ''src'' None"
  let ?irc = "\<lparr>irc_search_dirs = [demo_search_dir], irc_doc_main_package = Map.empty\<rparr>"
  let ?st = "\<lparr>st_matcher = new_source_matcher, st_roots = Map.empty\<rparr>"
  let ?r = "perform_install ov_ops [] ?irc demo_context (projr ?d) ?st"
  have "\<not> isl ?d" by code_simp
  then have d: "Inr (projr ?d) = ?d" by (rule sum.collapse(2))
  have "\<not> isl ?r" by code_simp
  then have r: "?r = Inr (projr ?r)" by (rule sum.collapse(2)[symmetric])
  have n: "map_of (cx_build_options demo_context) ''nodocs'' \<noteq> None" by code_simp
  note t = nodocs_installs_nothing[of "projr ?d", OF _ n r]
  have "st_roots (projr ?r) = st_roots ?st" by (rule t) (unfold d, rule insertI1)
  then have e: "st_roots (projr ?r) = Map.empty" by (rule trans) (rule install_state.select_convs)
  show ?thesis by (intro exI[of _ "projr ?r"] conjI r e)
qed


subsection \<open>Where the code differs from its messages and comments\<close>

text \<open>The check for a single match never raises: no package is ever entered in \<open>seen_pkgs\<close>.\<close>

lemma single_match_never_problem: "single_match_problem [] matches = []"
  by (induction matches) (simp_all add: Let_def)

lemma single_match_check_never_raises: "check_single_match matches = Inr ()"
  by (simp add: check_single_match_def single_match_never_problem)

text \<open>
  A discard rule that matches nothing is accepted when a search directory exists, and refused when none does:
  the comment in the code says the opposite.
\<close>

definition absent_pattern :: match_rule where
  "absent_pattern = ExactFileSystemPath ''./usr/share/absent''"

lemma discard_without_match_accepted:
  "\<not> isl (perform_install ov_ops [] \<lparr>irc_search_dirs = [demo_search_dir], irc_doc_main_package = Map.empty\<rparr> demo_context
     (discard_paths [\<lparr>fr_raw_match_rule = ''usr/share/absent'', fr_match_rule = absent_pattern\<rparr>] ''src'' None [])
     \<lparr>st_matcher = new_source_matcher, st_roots = Map.empty\<rparr>)"
  by code_simp

lemma discard_without_search_dir_refused:
  "isl (perform_install ov_ops [] \<lparr>irc_search_dirs = [], irc_doc_main_package = Map.empty\<rparr> demo_context
     (discard_paths [\<lparr>fr_raw_match_rule = ''usr/share/absent'', fr_match_rule = absent_pattern\<rparr>] ''src'' None [])
     \<lparr>st_matcher = new_source_matcher, st_roots = Map.empty\<rparr>)"
  by code_simp

text \<open>With a destination directory, the documentation is installed as that directory itself, every source as the same path.\<close>

lemma install_doc_dest_dir_is_the_path:
  "resolve_dest_paths ops irc st match [(d, False)] =
     (if endswith d ''/'' then Inl ValueError
      else rmap concat (rmapM (\<lambda>(p, f). rmapM (\<lambda>pkg. dest_of_package irc st pkg (\<lambda>_. Inr d)) (pm_into match)) [(d, False)]))"
  by (simp add: resolve_dest_paths_def)

end
