(* ===== verification/TarManifest.thy ===== *)
theory TarManifest
  imports Complex_Main VirtFsProps PathUtil Digits PathMatch
begin

section \<open>The intermediate manifest (\<^verbatim>\<open>src/debputy/intermediate_manifest.py\<close>)\<close>

text \<open>
  The list of members of a \<^verbatim>\<open>data.tar\<close>: how a member is made from a path of the package's tree
  (\<^verbatim>\<open>src/debputy/highlevel_manifest.py\<close>), how it is written as JSON and how it is read back by the program that
  packs the archive.  JSON is modelled as the values that \<^verbatim>\<open>json.dump\<close> and \<^verbatim>\<open>json.load\<close> exchange; a float is the
  rational number it stands for.
\<close>

subsection \<open>JSON values\<close>

datatype json =
    JNull | JBool bool | JInt int | JFloat rat | JStr string | JList "json list" | JObj "(string \<times> json) list"

text \<open>Python's truth value.\<close>

fun truthy :: "json \<Rightarrow> bool" where
  "truthy JNull = False"
| "truthy (JBool b) = b"
| "truthy (JInt i) = (i \<noteq> 0)"
| "truthy (JFloat r) = (r \<noteq> 0)"
| "truthy (JStr s) = (s \<noteq> [])"
| "truthy (JList xs) = (xs \<noteq> [])"
| "truthy (JObj kvs) = (kvs \<noteq> [])"

text \<open>\<^verbatim>\<open>float\<close>: the float of an integer and of a text are Python's, which may raise.\<close>

record float_ops =
  fl_of_int :: "int \<Rightarrow> rat res"
  fl_of_str :: "string \<Rightarrow> rat res"

fun py_float :: "float_ops \<Rightarrow> json \<Rightarrow> rat res" where
  "py_float ops (JFloat r) = Inr r"
| "py_float ops (JInt i) = fl_of_int ops i"
| "py_float ops (JBool b) = fl_of_int ops (if b then 1 else 0)"
| "py_float ops (JStr s) = fl_of_str ops s"
| "py_float ops _ = Inl TypeErr"

text \<open>The value of a number, for comparisons (they are exact between integers and floats).\<close>

fun num_value :: "json \<Rightarrow> rat" where
  "num_value (JFloat r) = r"
| "num_value (JInt i) = rat_of_int i"
| "num_value _ = 0"

text \<open>\<^verbatim>\<open>oct\<close>\<close>

definition py_oct :: "int \<Rightarrow> string" where
  "py_oct i = (if i < 0 then ''-0o'' @ base_digits 8 (nat (- i)) else ''0o'' @ base_digits 8 (nat i))"

subsection \<open>Members\<close>

definition manifest_key :: "path_type \<Rightarrow> string" where
  "manifest_key pt = (case pt of FILE \<Rightarrow> ''file'' | DIRECTORY \<Rightarrow> ''directory'' | SYMLINK \<Rightarrow> ''symlink'')"

definition can_be_virtual :: "path_type \<Rightarrow> bool" where
  "can_be_virtual pt \<longleftrightarrow> pt \<in> {DIRECTORY, SYMLINK}"

text \<open>\<^verbatim>\<open>KEY2PATH_TYPE[...]\<close>\<close>

definition key2path_type :: "json \<Rightarrow> path_type res" where
  "key2path_type k =
     (case k of
        JStr s \<Rightarrow>
          (case map_of (map (\<lambda>pt. (manifest_key pt, pt)) [FILE, DIRECTORY, SYMLINK]) s of
             None \<Rightarrow> Inl KeyError | Some pt \<Rightarrow> Inr pt)
      | JList _ \<Rightarrow> Inl TypeErr
      | JObj _ \<Rightarrow> Inl TypeErr
      | _ \<Rightarrow> Inl KeyError)"

text \<open>A \<^verbatim>\<open>TarMember\<close>; the fields that reading does not check hold whatever the JSON has.\<close>

record tar_member =
  tm_member_path :: json
  tm_path_type :: path_type
  tm_fs_path :: json
  tm_mode :: int
  tm_owner :: json
  tm_uid :: json
  tm_group :: json
  tm_gid :: json
  tm_mtime :: json
  tm_link_target :: json
  tm_is_virtual_entry :: json
  tm_may_steal_fs_path :: json

definition tar_dirname :: "string \<Rightarrow> string" where
  "tar_dirname p = (let q = rstrip (\<lambda>c. c = slash) p in if q = ''.'' then q else path_head q)"

text \<open>\<^verbatim>\<open>stat.S_ISREG\<close> and its kin look at the bits of the file type.\<close>

abbreviation o170000 :: int where "o170000 \<equiv> 61440"

definition fs_type_from_st_mode :: "int \<Rightarrow> path_type res" where
  "fs_type_from_st_mode st_mode =
     (if st_mode AND o170000 = 32768 then Inr FILE
      else if st_mode AND o170000 = 16384 then Inr DIRECTORY
      else Inl ValueError)"

subsection \<open>Making members\<close>

definition scratch_dir :: string where
  "scratch_dir = ''debputy/scratch-dir/''"

text \<open>\<^verbatim>\<open>TarMember.from_file\<close>: \<open>lstat\<close> gives the mode and the mtime of the backing file.\<close>

definition from_file ::
    "float_ops \<Rightarrow> (string \<Rightarrow> int \<times> rat) \<Rightarrow> string \<Rightarrow> string \<Rightarrow> int option \<Rightarrow> string \<times> int \<Rightarrow> string \<times> int \<Rightarrow> json option \<Rightarrow>
     int option \<Rightarrow> path_type option \<Rightarrow> bool \<Rightarrow> tar_member res" where
  "from_file ops lstat member_path fs_path mode owner grp path_mtime clamp_mtime_to path_type may_steal =
     rbind (case path_type of Some pt \<Rightarrow> Inr pt | None \<Rightarrow> fs_type_from_st_mode (fst (lstat fs_path))) (\<lambda>pt.
       let mode1 = (case mode of Some m \<Rightarrow> m | None \<Rightarrow> fst (lstat fs_path));
           mtime1 = (case path_mtime of Some t \<Rightarrow> t | None \<Rightarrow> JFloat (snd (lstat fs_path)));
           mtime2 = (case clamp_mtime_to of
                       None \<Rightarrow> mtime1
                     | Some c \<Rightarrow> if num_value mtime1 > rat_of_int c then JInt c else mtime1)
       in if may_steal \<and> \<not> infix_of scratch_dir fs_path then Inl AssertionErr
          else rmap (\<lambda>t. \<lparr>tm_member_path = JStr member_path, tm_path_type = pt, tm_fs_path = JStr fs_path,
                          tm_mode = mode1, tm_owner = JStr (fst owner), tm_uid = JInt (snd owner),
                          tm_group = JStr (fst grp), tm_gid = JInt (snd grp), tm_mtime = JFloat t,
                          tm_link_target = JStr [], tm_is_virtual_entry = JBool False,
                          tm_may_steal_fs_path = JBool may_steal\<rparr>) (py_float ops mtime2))"

definition virtual_path ::
    "string \<Rightarrow> path_type \<Rightarrow> json \<Rightarrow> int \<Rightarrow> string \<Rightarrow> string \<times> int \<Rightarrow> string \<times> int \<Rightarrow> tar_member res" where
  "virtual_path member_path path_type mtime mode link_target owner grp =
     (if \<not> can_be_virtual path_type then Inl ValueError
      else if (path_type = SYMLINK) \<noteq> (link_target \<noteq> []) then Inl ValueError
      else Inr \<lparr>tm_member_path = JStr member_path, tm_path_type = path_type, tm_fs_path = JNull,
                tm_mode = mode, tm_owner = JStr (fst owner), tm_uid = JInt (snd owner),
                tm_group = JStr (fst grp), tm_gid = JInt (snd grp), tm_mtime = mtime,
                tm_link_target = JStr link_target, tm_is_virtual_entry = JBool True,
                tm_may_steal_fs_path = JBool False\<rparr>)"

text \<open>
  What the model of the tree does not hold of a path: its mtime, and the backing path of a directory that was
  created after another path.
\<close>

record tar_source =
  ts_fs_path :: "nat \<Rightarrow> string"
  ts_mtime :: "nat \<Rightarrow> json"

definition fs_path_of :: "tar_source \<Rightarrow> fs \<Rightarrow> nat \<Rightarrow> string" where
  "fs_path_of src fs i =
     (case n_class (node fs i) of
        FSRootDir (Some p) \<Rightarrow> p
      | FSBackedFilePath p _ \<Rightarrow> p
      | _ \<Rightarrow> ts_fs_path src i)"

definition can_replace_inline :: "fs \<Rightarrow> nat \<Rightarrow> bool" where
  "can_replace_inline fs i = (case n_class (node fs i) of FSBackedFilePath _ r \<Rightarrow> r | _ \<Rightarrow> False)"

definition tar_path :: "fs \<Rightarrow> nat \<Rightarrow> string res" where
  "tar_path fs i = rmap (\<lambda>p. if is_dir fs i then p @ ''/'' else p) (path fs i)"

definition path_to_tar_member ::
    "float_ops \<Rightarrow> (string \<Rightarrow> int \<times> rat) \<Rightarrow> tar_source \<Rightarrow> fs \<Rightarrow> int \<Rightarrow> nat \<Rightarrow> tar_member res" where
  "path_to_tar_member ops lstat src fs clamp_mtime_to i =
     rbind (fl_of_int ops clamp_mtime_to) (\<lambda>clamp.
       let n = node fs i;
           mtime = (if has_fs_path fs i \<and> num_value (ts_mtime src i) < clamp then ts_mtime src i else JFloat clamp)
       in if is_symlink fs i then
            rbind (path fs i) (\<lambda>p.
              rbind (readlink fs i) (\<lambda>target.
                rbind (policy_symlink_target p target False) (\<lambda>link_target.
                  rbind (tar_path fs i) (\<lambda>tp.
                    virtual_path tp SYMLINK mtime o777 link_target (n_owner n) (n_group n)))))
          else
            let path_type = (if is_dir fs i then DIRECTORY else FILE) in
            rbind (tar_path fs i) (\<lambda>tp.
              if \<not> has_fs_path fs i then
                if is_file fs i then Inl AssertionErr
                else virtual_path tp path_type mtime (n_mode n) [] (n_owner n) (n_group n)
              else from_file ops lstat tp (fs_path_of src fs i) (Some (n_mode n)) (n_owner n) (n_group n) (Some mtime)
                     (Some clamp_mtime_to) (Some path_type) (can_replace_inline fs i)))"

text \<open>All members, the symlinks after everything else.\<close>

definition generate_intermediate_manifest ::
    "float_ops \<Rightarrow> (string \<Rightarrow> int \<times> rat) \<Rightarrow> tar_source \<Rightarrow> fs \<Rightarrow> int \<Rightarrow> tar_member list res" where
  "generate_intermediate_manifest ops lstat src fs clamp_mtime_to =
     rbind (returns (all_paths fs 0)) (\<lambda>ps.
       rmap (\<lambda>ms. filter (\<lambda>m. tm_path_type m \<noteq> SYMLINK) ms @ filter (\<lambda>m. tm_path_type m = SYMLINK) ms)
         (rmapM (path_to_tar_member ops lstat src fs clamp_mtime_to) ps))"

text \<open>\<^verbatim>\<open>finalize_data_tar_contents\<close>: once for each package, and the tree is read-only from then on.\<close>

definition finalize_data_tar_contents ::
    "float_ops \<Rightarrow> (string \<Rightarrow> int \<times> rat) \<Rightarrow> tar_source \<Rightarrow> string set \<Rightarrow> string set \<Rightarrow> string \<Rightarrow> fs \<Rightarrow> int \<Rightarrow>
     (string set \<times> fs \<times> tar_member list) res" where
  "finalize_data_tar_contents ops lstat src transformations used_for package fs clamp_mtime_to =
     (if package \<in> used_for then Inl ValueError
      else if package \<notin> transformations then Inl ValueError
      else let fs1 = fs\<lparr>fs_read_write := False\<rparr> in
           rmap (\<lambda>ms. (insert package used_for, fs1, ms))
             (generate_intermediate_manifest ops lstat src fs1 clamp_mtime_to))"

subsection \<open>Writing and reading\<close>

definition to_manifest :: "tar_member \<Rightarrow> json res" where
  "to_manifest m =
     (let virtual = truthy (tm_is_virtual_entry m) in
      if virtual \<and> tm_fs_path m \<noteq> JNull then Inl AssertionErr
      else Inr (JObj
        ([(''member_path'', tm_member_path m), (''path_type'', JStr (manifest_key (tm_path_type m)))]
         @ (if virtual then [] else [(''fs_path'', tm_fs_path m)])
         @ [(''mode'', JStr (py_oct (tm_mode m))), (''owner'', tm_owner m), (''uid'', tm_uid m),
            (''group'', tm_group m), (''gid'', tm_gid m), (''mtime'', tm_mtime m)]
         @ (if tm_link_target m = JNull \<or> tm_link_target m = JStr [] then [] else [(''link_target'', tm_link_target m)])
         @ (if virtual then [(''is_virtual_entry'', tm_is_virtual_entry m)] else [])
         @ [(''may_steal_fs_path'', tm_may_steal_fs_path m)])))"

text \<open>\<^verbatim>\<open>output_intermediate_manifest_to_fd\<close>\<close>

definition output_intermediate_manifest :: "tar_member list \<Rightarrow> json res" where
  "output_intermediate_manifest members = rmap JList (rmapM to_manifest members)"

definition item :: "(string \<times> json) list \<Rightarrow> string \<Rightarrow> json res" where
  "item kvs k = (case map_of kvs k of None \<Rightarrow> Inl KeyError | Some v \<Rightarrow> Inr v)"

definition item_or_none :: "(string \<times> json) list \<Rightarrow> string \<Rightarrow> json" where
  "item_or_none kvs k = (case map_of kvs k of None \<Rightarrow> JNull | Some v \<Rightarrow> v)"

definition item_or_false :: "(string \<times> json) list \<Rightarrow> string \<Rightarrow> json" where
  "item_or_false kvs k = (if truthy (item_or_none kvs k) then item_or_none kvs k else JBool False)"

text \<open>A method of \<^verbatim>\<open>str\<close> on another value does not exist.\<close>

definition as_str :: "json \<Rightarrow> string res" where
  "as_str v = (case v of JStr s \<Rightarrow> Inr s | _ \<Rightarrow> Inl AttributeErr)"

text \<open>\<^verbatim>\<open>"debputy/scratch-dir/" in fs_path\<close>\<close>

definition in_scratch_dir :: "json \<Rightarrow> bool res" where
  "in_scratch_dir v =
     (case v of
        JStr s \<Rightarrow> Inr (infix_of scratch_dir s)
      | JList xs \<Rightarrow> Inr (JStr scratch_dir \<in> set xs)
      | JObj kvs \<Rightarrow> Inr (map_of kvs scratch_dir \<noteq> None)
      | _ \<Rightarrow> Inl TypeErr)"

definition checked_link_target :: "path_type \<Rightarrow> int \<Rightarrow> json \<Rightarrow> json res" where
  "checked_link_target path_type mode link_target =
     (if path_type = SYMLINK then
        if mode \<noteq> o777 then Inl ValueError
        else if \<not> truthy link_target then Inl ValueError
        else Inr link_target
      else if link_target \<noteq> JNull \<and> link_target \<noteq> JStr [] then Inl ValueError
      else Inr (JStr []))"

definition from_dict :: "float_ops \<Rightarrow> json \<Rightarrow> tar_member res" where
  "from_dict ops d =
     (case d of
        JObj kvs \<Rightarrow>
          rbind (item kvs ''member_path'') (\<lambda>member_path.
          rbind (item kvs ''mode'') (\<lambda>mode_value.
          rbind (as_str mode_value) (\<lambda>raw_mode.
          if \<not> startswith raw_mode ''0o'' then Inl ValueError
          else
          let virtual_entry = item_or_false kvs ''is_virtual_entry'';
              fs_path = item_or_none kvs ''fs_path''
          in rbind (rbind (item kvs ''path_type'') key2path_type) (\<lambda>path_type.
          rbind (py_int 8 (drop 2 raw_mode)) (\<lambda>mode.
          if truthy virtual_entry \<and> (\<not> can_be_virtual path_type \<or> fs_path \<noteq> JNull) then Inl ValueError
          else if \<not> truthy virtual_entry \<and> fs_path = JNull then Inl ValueError
          else rbind (if path_type = DIRECTORY then rmap (\<lambda>p. endswith p ''/'') (as_str member_path) else Inr True) (\<lambda>slashed.
          if \<not> slashed then Inl ValueError
          else rbind (checked_link_target path_type mode (item_or_none kvs ''link_target'')) (\<lambda>link_target.
          let may_steal = item_or_false kvs ''may_steal_fs_path'' in
          rbind (if truthy may_steal then in_scratch_dir fs_path else Inr True) (\<lambda>stealable.
          if \<not> stealable then Inl AssertionErr
          else rbind (item kvs ''owner'') (\<lambda>owner.
          rbind (item kvs ''uid'') (\<lambda>uid.
          rbind (item kvs ''group'') (\<lambda>grp.
          rbind (item kvs ''gid'') (\<lambda>gid.
          rbind (rbind (item kvs ''mtime'') (py_float ops)) (\<lambda>mtime.
            Inr \<lparr>tm_member_path = member_path, tm_path_type = path_type, tm_fs_path = fs_path, tm_mode = mode,
                 tm_owner = owner, tm_uid = uid, tm_group = grp, tm_gid = gid, tm_mtime = JFloat mtime,
                 tm_link_target = link_target, tm_is_virtual_entry = virtual_entry,
                 tm_may_steal_fs_path = may_steal\<rparr>)))))))))))))
      | _ \<Rightarrow> Inl TypeErr)"

text \<open>Every member comes after the directory it is in.\<close>

fun check_directories :: "string list \<Rightarrow> tar_member list \<Rightarrow> unit res" where
  "check_directories directories [] = Inr ()"
| "check_directories directories (m # ms) =
     rbind (as_str (tm_member_path m)) (\<lambda>p.
       if tar_dirname p \<notin> set directories then Inl ValueError
       else check_directories
              (if tm_path_type m = DIRECTORY then rstrip (\<lambda>c. c = slash) p # directories else directories) ms)"

definition check_contents :: "tar_member list \<Rightarrow> tar_member list res" where
  "check_contents contents =
     (if contents = [] then Inl ValueError
      else if tm_member_path (hd contents) \<noteq> JStr ''./'' then Inl ValueError
      else rmap (\<lambda>_. contents) (check_directories [''.''] contents))"

text \<open>The elements that iterating over the data gives; those of a mapping are its keys.\<close>

definition json_elements :: "json \<Rightarrow> json list res" where
  "json_elements data =
     (case data of
        JList ms \<Rightarrow> Inr ms
      | JObj kvs \<Rightarrow> Inr (map (\<lambda>(k, v). JStr k) kvs)
      | JStr s \<Rightarrow> Inr (map (\<lambda>c. JStr [c]) s)
      | _ \<Rightarrow> Inl TypeErr)"

definition parse_intermediate_manifest :: "float_ops \<Rightarrow> json \<Rightarrow> tar_member list res" where
  "parse_intermediate_manifest ops data =
     rbind (rbind (json_elements data) (rmapM (from_dict ops))) check_contents"


subsection \<open>What is written is read back\<close>

lemma py_int_oct: "0 \<le> i \<Longrightarrow> py_int 8 (drop 2 (py_oct i)) = Inr i"
  using py_int_base_digits[of 8 "nat i"] by (simp add: py_oct_def)

text \<open>A member that reading accepts, with the types that writing produces.\<close>

definition member_ok :: "tar_member \<Rightarrow> bool" where
  "member_ok m \<longleftrightarrow>
     (\<exists>p. tm_member_path m = JStr p \<and> (tm_path_type m = DIRECTORY \<longrightarrow> endswith p ''/''))
     \<and> 0 \<le> tm_mode m
     \<and> tm_is_virtual_entry m \<in> {JBool True, JBool False}
     \<and> (tm_is_virtual_entry m = JBool True \<longrightarrow> can_be_virtual (tm_path_type m) \<and> tm_fs_path m = JNull)
     \<and> (tm_is_virtual_entry m = JBool False \<longrightarrow> (\<exists>f. tm_fs_path m = JStr f))
     \<and> (\<exists>t. tm_link_target m = JStr t \<and> (tm_path_type m = SYMLINK \<longleftrightarrow> t \<noteq> []))
     \<and> (tm_path_type m = SYMLINK \<longrightarrow> tm_mode m = o777)
     \<and> tm_may_steal_fs_path m \<in> {JBool True, JBool False}
     \<and> (tm_may_steal_fs_path m = JBool True \<longrightarrow> (\<exists>f. tm_fs_path m = JStr f \<and> infix_of scratch_dir f))"

lemma key2path_type_key [simp]: "key2path_type (JStr (manifest_key pt)) = Inr pt"
  by (cases pt) (simp_all add: key2path_type_def manifest_key_def)

text \<open>Reading a member that was written gives the member, with its mtime as a float.\<close>

lemma from_dict_to_manifest:
  assumes "member_ok m" and "py_float ops (tm_mtime m) = Inr t"
  shows "\<exists>d. to_manifest m = Inr d \<and> from_dict ops d = Inr (m\<lparr>tm_mtime := JFloat t\<rparr>)"
proof -
  obtain p where p: "tm_member_path m = JStr p" "tm_path_type m = DIRECTORY \<Longrightarrow> endswith p ''/''"
    using assms(1) by (auto simp: member_ok_def)
  obtain l where l: "tm_link_target m = JStr l" "tm_path_type m = SYMLINK \<longleftrightarrow> l \<noteq> []"
    using assms(1) by (auto simp: member_ok_def)
  have mode: "0 \<le> tm_mode m" "tm_path_type m = SYMLINK \<Longrightarrow> tm_mode m = o777" using assms(1) by (auto simp: member_ok_def)
  have oct: "py_int 8 (drop 2 (py_oct (tm_mode m))) = Inr (tm_mode m)" "startswith (py_oct (tm_mode m)) ''0o''"
    using py_int_oct[OF mode(1)] mode(1) by (simp_all add: py_oct_def)
  have lt: "checked_link_target (tm_path_type m) (tm_mode m) (if l = [] then JNull else JStr l) = Inr (JStr l)"
    using l mode(2) by (auto simp: checked_link_target_def)
  obtain steal where steal: "tm_may_steal_fs_path m = JBool steal"
    and st: "steal \<Longrightarrow> in_scratch_dir (tm_fs_path m) = Inr True"
    using assms(1) by (auto simp: member_ok_def in_scratch_dir_def)
  have dir: "(if tm_path_type m = DIRECTORY then rmap (\<lambda>q. endswith q ''/'') (as_str (JStr p)) else Inr True) = Inr True"
    using p(2) by (simp add: as_str_def)
  consider (virtual) "tm_is_virtual_entry m = JBool True" "can_be_virtual (tm_path_type m)" "tm_fs_path m = JNull"
    | (backed) f where "tm_is_virtual_entry m = JBool False" "tm_fs_path m = JStr f"
    using assms(1) by (auto simp: member_ok_def)
  then show ?thesis
  proof cases
    case virtual
    have ns: "steal = False" using st virtual(3) by (cases steal) (simp_all add: in_scratch_dir_def)
    show ?thesis
      using p(1) l(1) oct lt virtual steal ns assms(2) dir
      by (cases "l = []")
         (simp_all add: to_manifest_def from_dict_def item_def item_or_none_def item_or_false_def as_str_def del: infix_of.simps)
  next
    case backed
    show ?thesis
      using p(1) l(1) oct lt backed steal st assms(2) dir
      by (cases "l = []"; cases steal)
         (simp_all add: to_manifest_def from_dict_def item_def item_or_none_def item_or_false_def as_str_def Let_def del: infix_of.simps)
  qed
qed


subsection \<open>Directories come first\<close>

text \<open>Every path comes after its parent; \<open>S\<close> are the directories that came before.\<close>

fun parents_before :: "fs \<Rightarrow> nat set \<Rightarrow> nat list \<Rightarrow> bool" where
  "parents_before fs S [] = True"
| "parents_before fs S (i # is) =
     ((\<exists>p. n_parent (node fs i) = Some p \<and> p \<in> S) \<and> parents_before fs (if is_dir fs i then insert i S else S) is)"

lemma parents_before_mono: "parents_before fs S is \<Longrightarrow> S \<subseteq> T \<Longrightarrow> parents_before fs T is"
proof (induction "is" arbitrary: S T)
  case (Cons i "is")
  have "parents_before fs (if is_dir fs i then insert i T else T) is"
    by (rule Cons.IH[of "if is_dir fs i then insert i S else S"]) (use Cons.prems in auto)
  with Cons.prems show ?case by auto
qed simp

lemma parents_before_append:
  "parents_before fs S (xs @ ys) \<longleftrightarrow>
     parents_before fs S xs \<and> parents_before fs (S \<union> {x \<in> set xs. is_dir fs x}) ys"
proof (induction xs arbitrary: S)
  case (Cons x xs)
  have "(if is_dir fs x then insert x S else S) \<union> {y \<in> set xs. is_dir fs y} = S \<union> {y \<in> set (x # xs). is_dir fs y}"
    by auto
  with Cons.IH show ?case by simp
qed simp

lemma parents_before_filter:
  "parents_before fs S is \<Longrightarrow> \<forall>i \<in> set is. is_dir fs i \<longrightarrow> P i \<Longrightarrow> parents_before fs S (filter P is)"
proof (induction "is" arbitrary: S)
  case (Cons i "is")
  then show ?case by (cases "P i") auto
qed simp

lemma parents_before_leaves:
  "(\<forall>i \<in> set is. \<not> is_dir fs i) \<Longrightarrow>
     parents_before fs S is \<longleftrightarrow> (\<forall>i \<in> set is. \<exists>p. n_parent (node fs i) = Some p \<and> p \<in> S)"
  by (induction "is") auto

lemma parents_before_parent:
  "parents_before fs S is \<Longrightarrow> i \<in> set is \<Longrightarrow> \<exists>p. n_parent (node fs i) = Some p \<and> p \<in> S \<union> {x \<in> set is. is_dir fs x}"
proof (induction "is" arbitrary: S)
  case (Cons j "is")
  then show ?case by (cases "i = j") (fastforce split: if_splits)+
qed simp

text \<open>Paths that are not directories can be moved to the end.\<close>

lemma parents_before_leaves_last:
  assumes "parents_before fs S is" and "\<forall>i \<in> set is. is_dir fs i \<longrightarrow> P i"
  shows "parents_before fs S (filter P is @ filter (\<lambda>i. \<not> P i) is)"
proof -
  have "parents_before fs (S \<union> {x \<in> set (filter P is). is_dir fs x}) (filter (\<lambda>i. \<not> P i) is)"
    using assms parents_before_parent[OF assms(1)] by (subst parents_before_leaves) fastforce+
  then show ?thesis using parents_before_filter[OF assms] by (simp add: parents_before_append)
qed

lemma loop_parents_before:
  assumes wf: "wf_fs fs"
  shows "all_paths_loop fs stack = Some out \<Longrightarrow>
    (\<forall>c \<in> set stack. \<exists>p. n_parent (node fs c) = Some p \<and> p \<in> S) \<Longrightarrow> parents_before fs S out"
proof -
  have "fs0 = fs \<longrightarrow>
      (\<forall>S. (\<forall>c \<in> set stack. \<exists>p. n_parent (node fs c) = Some p \<and> p \<in> S) \<longrightarrow> parents_before fs S out)"
    if "all_paths_loop fs0 stack = Some out" for fs0
  proof (rule all_paths_loop.raw_induct[where P = "\<lambda>fs0 stack out. fs0 = fs \<longrightarrow>
      (\<forall>S. (\<forall>c \<in> set stack. \<exists>p. n_parent (node fs c) = Some p \<and> p \<in> S) \<longrightarrow> parents_before fs S out)", OF _ that], goal_cases)
    case (1 loop fs0 stack out)
    show ?case
    proof (intro impI allI)
      fix S
      assume e: "fs0 = fs" and par: "\<forall>c \<in> set stack. \<exists>p. n_parent (node fs c) = Some p \<and> p \<in> S"
      show "parents_before fs S out"
      proof (cases stack)
        case Nil
        with 1(2) show ?thesis by simp
      next
        case (Cons i rest)
        let ?S = "if is_dir fs i then insert i S else S"
        obtain st o' where o': "loop fs st = Some o'" "out = i # o'"
          and st: "set st \<subseteq> set rest \<union> (if is_dir fs i then set (sorted_children fs i) else {})"
          using 1(2) e Cons by (auto simp: bind_eq_Some_conv split: if_splits)
        have "n_parent (node fs c) = Some i" if "c \<in> set (sorted_children fs i)" for c
          using that wf_kid[OF wf] by (auto simp: sorted_children_def iterdir_kids)
        then have "\<forall>c \<in> set st. \<exists>p. n_parent (node fs c) = Some p \<and> p \<in> ?S" using st par Cons by fastforce
        with 1(1)[OF o'(1)] have "parents_before fs ?S o'" by blast
        with par Cons o'(2) show ?thesis by simp
      qed
    qed
  qed
  then show "all_paths_loop fs stack = Some out \<Longrightarrow>
    (\<forall>c \<in> set stack. \<exists>p. n_parent (node fs c) = Some p \<and> p \<in> S) \<Longrightarrow> parents_before fs S out" by blast
qed

lemma all_paths_parents_before:
  assumes wf: "wf_fs fs" and "all_paths fs 0 = Some ps"
  shows "\<exists>rest. ps = 0 # rest \<and> parents_before fs {0} rest"
proof -
  have d: "is_dir fs 0" using wf wf_root[OF wf, of 0] by (simp add: is_dir_def is_root_def split: node_class.splits)
  then obtain rest where r: "all_paths_loop fs (sorted_children fs 0) = Some rest" "ps = 0 # rest"
    using assms(2) by (auto simp: all_paths_def bind_eq_Some_conv)
  have "n_parent (node fs c) = Some 0" if "c \<in> set (sorted_children fs 0)" for c
    using that wf_kid[OF wf] by (auto simp: sorted_children_def iterdir_kids)
  with loop_parents_before[OF wf r(1), of "{0}"] r(2) show ?thesis by blast
qed


subsection \<open>The generated manifest is accepted\<close>

lemma attached_path_child:
  assumes "wf_fs fs" and "tree_names fs" and "is_detached_opt fs i = Some False" and "n_parent (node fs i) = Some p"
  shows "\<exists>pp n. path fs p = Inr pp \<and> path fs i = Inr (pp @ slash # n) \<and> pp \<noteq> [] \<and> last pp \<noteq> slash
    \<and> n \<noteq> [] \<and> slash \<notin> set n"
proof -
  have nr: "\<not> is_root fs i" using assms(1,4) wf_root[OF assms(1)] wf_root_parent[OF assms(1)] by force
  have il: "i < length (nodes fs)" using assms(3) by (rule attached_in_range)
  have "i \<noteq> 0" using nr wf_root[OF assms(1)] by blast
  then have n: "plain_segment (n_name (node fs i))" using assms(2) il by (simp add: tree_names_def)
  have "is_detached_opt fs p = Some False" using assms(3,4) nr det_child by simp
  then obtain ns where ns: "list_all plain_segment ns" "path fs p = Inr (join ''/'' (''.'' # ns))"
    using attached_path[OF assms(1,2)] by blast
  note e = dot_join_ends[OF ns(1)]
  have "path fs i = Inr (path_join (join ''/'' (''.'' # ns)) (n_name (node fs i)))"
    using path_child[OF assms(3) nr assms(4)] ns(2) by simp
  moreover have "\<not> startswith (n_name (node fs i)) ''/''"
    using n by (cases "n_name (node fs i)") (auto simp: plain_segment_def)
  ultimately have "path fs i = Inr (join ''/'' (''.'' # ns) @ slash # n_name (node fs i))"
    using e by (simp add: path_join_def endswith_single)
  with ns(2) e n show ?thesis by (auto simp: plain_segment_def)
qed

lemma tar_dirname_child:
  assumes "pp \<noteq> []" and "last pp \<noteq> slash" and "n \<noteq> []" and "slash \<notin> set n"
  shows "rstrip (\<lambda>c. c = slash) (pp @ slash # n) = pp @ slash # n"
    and "tar_dirname (pp @ slash # n) = pp" and "tar_dirname ((pp @ slash # n) @ ''/'') = pp"
proof -
  have "last n \<in> set n" using assms(3) by simp
  then have "last n \<noteq> slash" using assms(4) by metis
  then have l: "last (pp @ slash # n) \<noteq> slash" using assms(3) by simp
  then show r: "rstrip (\<lambda>c. c = slash) (pp @ slash # n) = pp @ slash # n" by (intro rstrip_id) simp
  have "rstrip (\<lambda>c. c = slash) ((pp @ slash # n) @ [slash]) = pp @ slash # n"
    using r by (subst rstrip_snoc) simp
  moreover have "pp @ slash # n \<noteq> ''.''" using assms(1,3) by (cases pp) auto
  ultimately show "tar_dirname (pp @ slash # n) = pp" "tar_dirname ((pp @ slash # n) @ ''/'') = pp"
    using r path_head_append[OF assms(4,1,2)] unfolding tar_dirname_def Let_def by (simp_all only: if_False)
qed

text \<open>The sources of the mtimes give floats, and no mode is negative.\<close>

definition source_ok :: "tar_source \<Rightarrow> fs \<Rightarrow> bool" where
  "source_ok src fs \<longleftrightarrow>
     (\<forall>i \<in> set [0..<length (nodes fs)]. 0 \<le> n_mode (node fs i) \<and> (\<exists>t. ts_mtime src i = JFloat t))"

lemma path_to_tar_member_ok:
  assumes ok: "path_to_tar_member ops lstat src fs clamp i = Inr m" and p: "path fs i = Inr p"
    and mode: "0 \<le> n_mode (node fs i)" and t: "ts_mtime src i = JFloat t"
  shows "tm_member_path m = JStr (if is_dir fs i then p @ ''/'' else p)
    \<and> tm_path_type m = (if is_symlink fs i then SYMLINK else if is_dir fs i then DIRECTORY else FILE)
    \<and> member_ok m \<and> (\<exists>f. tm_mtime m = JFloat f)"
proof -
  obtain c where c: "fl_of_int ops clamp = Inr c" using ok by (auto simp: path_to_tar_member_def res_simps)
  let ?mt = "if has_fs_path fs i \<and> num_value (ts_mtime src i) < c then ts_mtime src i else JFloat c"
  have mt: "\<exists>f. ?mt = JFloat f" using t by simp
  have tp: "tar_path fs i = Inr (if is_dir fs i then p @ ''/'' else p)" using p by (simp add: tar_path_def)
  show ?thesis
  proof (cases "is_symlink fs i")
    case True
    then have "\<not> is_dir fs i" by (auto simp: is_symlink_def is_dir_def split: node_class.splits)
    with True ok c tp mt show ?thesis
      by (auto simp: path_to_tar_member_def virtual_path_def member_ok_def can_be_virtual_def Let_def res_simps p split: if_splits)
  next
    case False
    show ?thesis
    proof (cases "has_fs_path fs i")
      case True
      with False ok c tp obtain m0 where "from_file ops lstat (if is_dir fs i then p @ ''/'' else p) (fs_path_of src fs i)
          (Some (n_mode (node fs i))) (n_owner (node fs i)) (n_group (node fs i)) (Some ?mt) (Some clamp)
          (Some (if is_dir fs i then DIRECTORY else FILE)) (can_replace_inline fs i) = Inr m"
        by (auto simp: path_to_tar_member_def Let_def)
      then show ?thesis using False mode
        by (auto simp: from_file_def member_ok_def Let_def res_simps split: if_splits)
    next
      case nf: False
      have "\<not> is_file fs i" using False ok c tp nf by (auto simp: path_to_tar_member_def Let_def split: if_splits)
      moreover have "is_dir fs i" using calculation False
        by (auto simp: is_file_def is_symlink_def is_dir_def split: node_class.splits)
      ultimately show ?thesis using False nf ok c tp mode mt
        by (auto simp: path_to_tar_member_def virtual_path_def member_ok_def can_be_virtual_def Let_def res_simps split: if_splits)
    qed
  qed
qed

text \<open>Reading accepts members in an order where every path comes after its parent.\<close>

lemma check_directories_ok:
  assumes wf: "wf_fs fs" and nm: "tree_names fs"
  shows "list_all2 (\<lambda>i m. \<exists>p. path fs i = Inr p \<and> tm_member_path m = JStr (if is_dir fs i then p @ ''/'' else p)
       \<and> tm_path_type m = (if is_symlink fs i then SYMLINK else if is_dir fs i then DIRECTORY else FILE)) is ms \<Longrightarrow>
    (\<forall>i \<in> set is. is_detached_opt fs i = Some False) \<Longrightarrow> parents_before fs S is \<Longrightarrow>
    (\<forall>p \<in> S. \<exists>d. path fs p = Inr d \<and> d \<in> set ds) \<Longrightarrow> check_directories ds ms = Inr ()"
proof (induction arbitrary: S ds rule: list_all2_induct)
  case (Cons i "is" m ms)
  from Cons.hyps obtain p where p: "path fs i = Inr p" "tm_member_path m = JStr (if is_dir fs i then p @ ''/'' else p)"
    "tm_path_type m = (if is_symlink fs i then SYMLINK else if is_dir fs i then DIRECTORY else FILE)" by blast
  obtain q where q: "n_parent (node fs i) = Some q" "q \<in> S" using Cons.prems(2) by auto
  have "is_detached_opt fs i = Some False" using Cons.prems(1) by simp
  from attached_path_child[OF wf nm this q(1)] p(1) obtain pp n where
    pp: "path fs q = Inr pp" "p = pp @ slash # n" "pp \<noteq> []" "last pp \<noteq> slash" "n \<noteq> []" "slash \<notin> set n" by auto
  note td = tar_dirname_child[OF pp(3-6)]
  have "pp \<in> set ds" using Cons.prems(3) q(2) pp(1) by force
  moreover have "tar_dirname (if is_dir fs i then p @ ''/'' else p) = pp" using td pp(2) by simp
  moreover have "tm_path_type m = DIRECTORY \<longleftrightarrow> is_dir fs i"
    using p(3) by (auto simp: is_symlink_def is_dir_def split: node_class.splits if_splits)
  moreover have "rstrip (\<lambda>c. c = slash) (p @ ''/'') = p" using td(1) pp(2) rstrip_snoc[of "\<lambda>c. c = slash" p slash] by simp
  moreover have "check_directories (if is_dir fs i then p # ds else ds) ms = Inr ()"
  proof (rule Cons.IH)
    show "\<forall>i \<in> set is. is_detached_opt fs i = Some False" using Cons.prems(1) by simp
    show "parents_before fs (if is_dir fs i then insert i S else S) is" using Cons.prems(2) by simp
    show "\<forall>r \<in> (if is_dir fs i then insert i S else S). \<exists>d. path fs r = Inr d \<and> d \<in> set (if is_dir fs i then p # ds else ds)"
      using Cons.prems(3) p(1) by auto
  qed
  ultimately show ?case using p(2) by (auto simp: as_str_def)
qed simp


lemma parents_before_attached:
  assumes wf: "wf_fs fs"
  shows "parents_before fs S is \<Longrightarrow> (\<forall>p \<in> S. is_detached_opt fs p = Some False) \<Longrightarrow>
    (\<forall>i \<in> set is. is_detached_opt fs i = Some False)"
proof (induction "is" arbitrary: S)
  case (Cons i "is")
  then obtain p where p: "n_parent (node fs i) = Some p" "is_detached_opt fs p = Some False" by auto
  then have "\<not> is_root fs i" using wf_root[OF wf] wf_root_parent[OF wf] by force
  with p have i: "is_detached_opt fs i = Some False" using det_child by simp
  have "\<forall>p \<in> (if is_dir fs i then insert i S else S). is_detached_opt fs p = Some False" using i Cons.prems(2) by simp
  from Cons.IH[OF _ this] i Cons.prems(1) show ?case by simp
qed simp

lemma list_all2_filter:
  "list_all2 R xs ys \<Longrightarrow> (\<And>x y. R x y \<Longrightarrow> P x = Q y) \<Longrightarrow> list_all2 R (filter P xs) (filter Q ys)"
  by (induction rule: list_all2_induct) auto

lemma parse_written_members:
  "list_all (\<lambda>m. member_ok m \<and> (\<exists>f. tm_mtime m = JFloat f)) ms \<Longrightarrow>
     \<exists>ds. rmapM to_manifest ms = Inr ds \<and> rmapM (from_dict ops) ds = Inr ms"
proof (induction ms)
  case (Cons m ms)
  then obtain ds f where ds: "rmapM to_manifest ms = Inr ds" "rmapM (from_dict ops) ds = Inr ms" and f: "tm_mtime m = JFloat f"
    by auto
  obtain d where "to_manifest m = Inr d" "from_dict ops d = Inr (m\<lparr>tm_mtime := JFloat f\<rparr>)"
    using from_dict_to_manifest[of m ops f] Cons.prems f by auto
  moreover have "m\<lparr>tm_mtime := JFloat f\<rparr> = m" using f by simp
  ultimately show ?case using ds by simp
qed simp

lemma generated_members:
  assumes wf: "wf_fs fs" and nm: "tree_names fs" and src: "source_ok src fs"
    and ok: "generate_intermediate_manifest ops lstat src fs clamp = Inr ms"
  shows "list_all (\<lambda>m. member_ok m \<and> (\<exists>f. tm_mtime m = JFloat f)) ms
    \<and> ms \<noteq> [] \<and> tm_member_path (hd ms) = JStr ''./'' \<and> check_directories [''.''] ms = Inr ()"
proof -
  obtain ps m0 where ps: "all_paths fs 0 = Some ps" and m0: "rmapM (path_to_tar_member ops lstat src fs clamp) ps = Inr m0"
    and ms: "ms = filter (\<lambda>m. tm_path_type m \<noteq> SYMLINK) m0 @ filter (\<lambda>m. tm_path_type m = SYMLINK) m0"
    using ok by (auto simp: generate_intermediate_manifest_def returns_def res_simps split: option.splits)
  obtain rest where r: "ps = 0 # rest" "parents_before fs {0} rest" using all_paths_parents_before[OF wf ps] by blast
  have root: "is_root fs 0" using wf_root[OF wf] by blast
  then have d0: "is_dir fs 0" "\<not> is_symlink fs 0" by (auto simp: is_root_def is_dir_def is_symlink_def split: node_class.splits)
  have p0: "path fs 0 = Inr ''.''" using path_root[OF root] nm by (simp add: tree_names_def)
  have att: "\<forall>i \<in> set ps. is_detached_opt fs i = Some False"
    using parents_before_attached[OF wf r(2)] det_root[OF root] r(1) by simp
  let ?R = "\<lambda>i m. (\<exists>p. path fs i = Inr p \<and> tm_member_path m = JStr (if is_dir fs i then p @ ''/'' else p)
       \<and> tm_path_type m = (if is_symlink fs i then SYMLINK else if is_dir fs i then DIRECTORY else FILE))"
  let ?Q = "\<lambda>m. member_ok m \<and> (\<exists>f. tm_mtime m = JFloat f)"
  have "list_all2 (\<lambda>i m. ?R i m \<and> ?Q m) ps m0"
  proof (rule list.rel_mono_strong[OF m0[unfolded rmapM_eq_Inr]])
    fix i m
    assume i: "i \<in> set ps" and m: "path_to_tar_member ops lstat src fs clamp i = Inr m"
    have a: "is_detached_opt fs i = Some False" using att i by blast
    obtain p where p: "path fs i = Inr p" using attached_path[OF wf nm a] by blast
    have "i < length (nodes fs)" using a by (rule attached_in_range)
    then have "0 \<le> n_mode (node fs i) \<and> (\<exists>t. ts_mtime src i = JFloat t)" using src by (simp add: source_ok_def)
    then obtain t where t: "0 \<le> n_mode (node fs i)" "ts_mtime src i = JFloat t" by blast
    from path_to_tar_member_ok[OF m p t] p show "?R i m \<and> ?Q m" by blast
  qed
  then have R: "list_all2 ?R ps m0" and Q: "list_all ?Q m0"
    by (auto simp: list_all2_conv_all_nth list_all_length)
  have f: "list_all2 ?R (filter (\<lambda>i. \<not> is_symlink fs i) ps @ filter (\<lambda>i. \<not> \<not> is_symlink fs i) ps) ms"
    unfolding ms by (intro list_all2_appendI list_all2_filter[OF R]) (auto split: if_splits)
  let ?o = "filter (\<lambda>i. \<not> is_symlink fs i) rest @ filter (\<lambda>i. \<not> \<not> is_symlink fs i) rest"
  have "list_all2 ?R (0 # ?o) ms" using f r(1) d0(2) by simp
  then obtain m ms' where mm: "ms = m # ms'" "?R 0 m" "list_all2 ?R ?o ms'" by (auto simp: list_all2_Cons1)
  have "\<forall>i \<in> set rest. is_dir fs i \<longrightarrow> \<not> is_symlink fs i"
    by (auto simp: is_dir_def is_symlink_def split: node_class.splits)
  from parents_before_leaves_last[OF r(2) this] have "parents_before fs {0} ?o" .
  moreover have "\<forall>i \<in> set ?o. is_detached_opt fs i = Some False" using att r(1) by auto
  moreover have "\<forall>p \<in> {0}. \<exists>d. path fs p = Inr d \<and> d \<in> set [''.'', ''.'']" using p0 by auto
  ultimately have "check_directories [''.'', ''.''] ms' = Inr ()" by (intro check_directories_ok[OF wf nm mm(3)])
  moreover have "tar_dirname ''./'' = ''.''" "rstrip (\<lambda>c. c = slash) ''./'' = ''.''" by code_simp+
  moreover have "tm_member_path m = JStr ''./''" "tm_path_type m = DIRECTORY" using mm(2) p0 d0 by auto
  ultimately have "ms \<noteq> [] \<and> tm_member_path (hd ms) = JStr ''./'' \<and> check_directories [''.''] ms = Inr ()"
    unfolding mm(1) by (simp add: as_str_def)
  moreover have "list_all ?Q ms" using Q unfolding ms by (auto simp: list_all_iff)
  ultimately show ?thesis by blast
qed

text \<open>C25: the manifest that is written for a package's tree is accepted when it is read back, and gives the members
  again: every member follows its directory, and every field survives.\<close>

theorem generated_manifest_accepted:
  assumes "wf_fs fs" and "tree_names fs" and "source_ok src fs"
    and "generate_intermediate_manifest ops lstat src fs clamp_mtime_to = Inr ms"
  shows "\<exists>d. output_intermediate_manifest ms = Inr d \<and> parse_intermediate_manifest ops d = Inr ms"
proof -
  note g = generated_members[OF assms]
  obtain ds where "rmapM to_manifest ms = Inr ds" "rmapM (from_dict ops) ds = Inr ms"
    using parse_written_members g by blast
  with g show ?thesis
    by (simp add: output_intermediate_manifest_def parse_intermediate_manifest_def json_elements_def check_contents_def)
qed

text \<open>A float is exact here, and no text is a float.\<close>

definition demo_floats :: float_ops where
  "demo_floats = \<lparr>fl_of_int = \<lambda>i. Inr (rat_of_int i), fl_of_str = \<lambda>_. Inl ValueError\<rparr>"

definition demo_tar_source :: tar_source where
  "demo_tar_source = \<lparr>ts_fs_path = \<lambda>_. ''debian/tmp/ref'', ts_mtime = \<lambda>_. JFloat 5\<rparr>"

definition demo_members :: "tar_member list" where
  "demo_members = projr (generate_intermediate_manifest demo_floats (\<lambda>_. (33188, 7)) demo_tar_source demo_fs 3)"

lemma generated_manifest_accepted_witness:
  "parse_intermediate_manifest demo_floats (projr (output_intermediate_manifest demo_members)) = Inr demo_members
    \<and> length demo_members = 4"
proof -
  have "\<not> isl (generate_intermediate_manifest demo_floats (\<lambda>_. (33188, 7)) demo_tar_source demo_fs 3)" by code_simp
  then have g: "generate_intermediate_manifest demo_floats (\<lambda>_. (33188, 7)) demo_tar_source demo_fs 3 = Inr demo_members"
    by (simp add: demo_members_def)
  have n: "tree_names demo_fs" by code_simp
  have "list_all (\<lambda>i. 0 \<le> n_mode (node demo_fs i)) [0..<length (nodes demo_fs)]" by code_simp
  then have s: "source_ok demo_tar_source demo_fs" by (simp add: source_ok_def demo_tar_source_def list_all_iff)
  have l: "length demo_members = 4" by code_simp
  from generated_manifest_accepted[OF reachable_wf[OF demo_fs_reachable] n s g] l show ?thesis by auto
qed

end
