(* ===== verification/SearchDirs.thy ===== *)
theory SearchDirs
  imports SourceMatch
begin

section \<open>The order of the search directories (\<^verbatim>\<open>src/debputy/highlevel_manifest.py\<close>)\<close>

text \<open>
  \<^verbatim>\<open>_determine_search_dir_order\<close>: the search directories that the packages ask for are merged into one order in
  which every package's own order is kept.  A set is the list of its elements in the order in which Python
  iterates over it; for the set that changes while the loop runs that order is a parameter.
\<close>

subsection \<open>State\<close>

record 'p order_state =
  so_search_dir :: 'p
  so_applies_to :: packages
  so_after :: "string list"

type_synonym 'p order_table = "(string \<times> 'p order_state) list"

text \<open>One path of a package; the state carries the previous search directory's path.\<close>

definition add_search_dir ::
    "('p, 'm) src_ops_scheme \<Rightarrow> binary_package \<Rightarrow> 'p \<Rightarrow> string option \<times> 'p order_table \<Rightarrow> string option \<times> 'p order_table" where
  "add_search_dir ops pkg q pt =
     (case pt of (previous_search_dir, table) \<Rightarrow>
        let k = op_fs_path ops q;
            s = (case map_of table k of
                   None \<Rightarrow> \<lparr>so_search_dir = q, so_applies_to = [], so_after = []\<rparr>
                 | Some s \<Rightarrow> s);
            s1 = s\<lparr>so_applies_to := List.insert pkg (so_applies_to s)\<rparr>;
            s2 = (case previous_search_dir of
                    None \<Rightarrow> s1 | Some a \<Rightarrow> s1\<lparr>so_after := List.insert a (so_after s1)\<rparr>)
        in (Some k, AList.update k s2 table))"

definition requested_dirs :: "(binary_package \<times> 'p list) list \<Rightarrow> 'p list \<Rightarrow> binary_package \<Rightarrow> 'p list" where
  "requested_dirs requested default_search_dirs pkg =
     (case map_of requested pkg of None \<Rightarrow> default_search_dirs | Some ps \<Rightarrow> ps)"

definition order_table ::
    "('p, 'm) src_ops_scheme \<Rightarrow> (binary_package \<times> 'p list) list \<Rightarrow> 'p list \<Rightarrow> packages \<Rightarrow> 'p order_table" where
  "order_table ops requested default_search_dirs all_pkgs =
     fold (\<lambda>pkg table. snd (fold (add_search_dir ops pkg) (requested_dirs requested default_search_dirs pkg) (None, table)))
       all_pkgs []"

text \<open>The directories in order, and the paths that are released and that remain.\<close>

type_synonym 'p release_state = "'p order_state list \<times> string list \<times> string list"

definition release :: "('p, 'm) src_ops_scheme \<Rightarrow> 'p order_state \<Rightarrow> 'p release_state \<Rightarrow> 'p release_state" where
  "release ops s st =
     (case st of (search_dirs_in_order, released, remaining) \<Rightarrow>
        let k = op_fs_path ops (so_search_dir s) in
        if \<not> set (so_after s) \<subseteq> set released then (search_dirs_in_order, released, List.insert k remaining)
        else (search_dirs_in_order @ [s], List.insert k released, remaining))"

definition table_entry :: "'p order_table \<Rightarrow> string \<Rightarrow> 'p order_state res" where
  "table_entry table k = (case map_of table k of None \<Rightarrow> Inl KeyError | Some s \<Rightarrow> Inr s)"

partial_function (option) release_loop ::
    "('p, 'm) src_ops_scheme \<Rightarrow> (string list \<Rightarrow> string list) \<Rightarrow> 'p order_table \<Rightarrow> 'p release_state \<Rightarrow>
     'p order_state list res option" where
  "release_loop ops iteration table st =
     (case st of (search_dirs_in_order, released, remaining) \<Rightarrow>
        if remaining = [] then Some (Inr search_dirs_in_order)
        else
          (case rmapM (table_entry table) (iteration remaining) of
             Inl e \<Rightarrow> Some (Inl e)
           | Inr states \<Rightarrow>
               (case fold (release ops) states st of (order1, released1, remaining1) \<Rightarrow>
                  if length released1 = length released then Some (Inl UserError)
                  else release_loop ops iteration table
                         (order1, released1, filter (\<lambda>k. k \<notin> set released1) remaining1))))"

declare release_loop.simps [code]

definition determine_search_dir_order ::
    "('p, 'm) src_ops_scheme \<Rightarrow> (string list \<Rightarrow> string list) \<Rightarrow> (binary_package \<times> 'p list) list \<Rightarrow> packages \<Rightarrow> 'p list \<Rightarrow> 'p \<Rightarrow>
     'p search_dir list res" where
  "determine_search_dir_order ops iteration requested all_pkgs default_search_dirs source_root =
     (if \<not> fst ` set requested \<subseteq> set all_pkgs then Inl AssertionErr
      else
        let table = order_table ops requested default_search_dirs all_pkgs in
        rbind (rbind (returns (release_loop ops iteration table (fold (release ops) (map snd table) ([], [], [])))) (\<lambda>r. r))
          (\<lambda>order. Inr (map (\<lambda>s. \<lparr>sd_search_dir = so_search_dir s,
                                 sd_applies_to = (if set (so_applies_to s) = set all_pkgs then all_pkgs
                                                  else so_applies_to s)\<rparr>)
                       (order @ [\<lparr>so_search_dir = source_root, so_applies_to = all_pkgs, so_after = []\<rparr>]))))"

subsection \<open>The table\<close>

text \<open>The paths of which one directly follows the other in some package's list.\<close>

definition adjacent :: "string list \<Rightarrow> (string \<times> string) set" where
  "adjacent ks = set (zip ks (tl ks))"

definition follows :: "('p, 'm) src_ops_scheme \<Rightarrow> (binary_package \<Rightarrow> 'p list) \<Rightarrow> packages \<Rightarrow> (string \<times> string) set" where
  "follows ops dirs pkgs = (\<Union>pkg \<in> set pkgs. adjacent (map (op_fs_path ops) (dirs pkg)))"

text \<open>What a table knows: for each path its packages and the paths it has to come after.\<close>

definition table_ok ::
    "('p, 'm) src_ops_scheme \<Rightarrow> 'p order_table \<Rightarrow> (binary_package \<times> string) set \<Rightarrow> (string \<times> string) set \<Rightarrow> bool" where
  "table_ok ops table uses R \<longleftrightarrow>
     distinct (map fst table) \<and> fst ` set table = snd ` uses \<and> R \<subseteq> (snd ` uses) \<times> (snd ` uses)
     \<and> (\<forall>(k, s) \<in> set table. op_fs_path ops (so_search_dir s) = k
          \<and> set (so_applies_to s) = {pkg. (pkg, k) \<in> uses} \<and> set (so_after s) = {a. (a, k) \<in> R})"

lemma update_set:
  assumes "distinct (map fst t)"
  shows "set (AList.update k v t) = {(k', v'). k' = k \<and> v' = v \<or> k' \<noteq> k \<and> (k', v') \<in> set t}"
proof -
  have d: "distinct (map fst (AList.update k v t))" using assms by (rule distinct_update)
  show ?thesis
  proof (intro set_eqI, clarify)
    fix k' v'
    have "(k', v') \<in> set (AList.update k v t) \<longleftrightarrow> map_of (AList.update k v t) k' = Some v'"
      using d by simp
    also have "\<dots> \<longleftrightarrow> (k' = k \<and> v' = v \<or> k' \<noteq> k \<and> (k', v') \<in> set t)"
      using assms by (auto simp: update_conv')
    finally show "((k', v') \<in> set (AList.update k v t)) =
        ((k', v') \<in> {(k', v'). k' = k \<and> v' = v \<or> k' \<noteq> k \<and> (k', v') \<in> set t})" by simp
  qed
qed

lemma add_search_dir_ok:
  assumes t: "table_ok ops table uses R" and p: "case prev of None \<Rightarrow> True | Some a \<Rightarrow> a \<in> snd ` uses"
    and a: "add_search_dir ops pkg q (prev, table) = (prev', table')"
  shows "prev' = Some (op_fs_path ops q) \<and>
    table_ok ops table' (insert (pkg, op_fs_path ops q) uses)
      (case prev of None \<Rightarrow> R | Some b \<Rightarrow> insert (b, op_fs_path ops q) R)"
proof -
  let ?k = "op_fs_path ops q"
  have d: "distinct (map fst table)" using t by (simp add: table_ok_def)
  define s where "s = (case map_of table ?k of None \<Rightarrow> \<lparr>so_search_dir = q, so_applies_to = [], so_after = []\<rparr> | Some s \<Rightarrow> s)"
  define s2 where "s2 = (case prev of
      None \<Rightarrow> s\<lparr>so_applies_to := List.insert pkg (so_applies_to s)\<rparr>
    | Some b \<Rightarrow> s\<lparr>so_applies_to := List.insert pkg (so_applies_to s), so_after := List.insert b (so_after s)\<rparr>)"
  have e: "prev' = Some ?k" "table' = AList.update ?k s2 table"
    using a by (auto simp: add_search_dir_def Let_def s_def s2_def split: option.splits)
  have s: "op_fs_path ops (so_search_dir s) = ?k \<and> set (so_applies_to s) = {pkg. (pkg, ?k) \<in> uses}
      \<and> set (so_after s) = {b. (b, ?k) \<in> R}"
  proof (cases "map_of table ?k")
    case None
    then have "?k \<notin> fst ` set table" by (simp add: map_of_eq_None_iff)
    then have k: "?k \<notin> snd ` uses" using t by (simp add: table_ok_def)
    then have "{pkg. (pkg, ?k) \<in> uses} = {}" by force
    moreover have "R \<subseteq> snd ` uses \<times> snd ` uses" using t by (simp add: table_ok_def)
    then have "{b. (b, ?k) \<in> R} = {}" using k by blast
    ultimately show ?thesis using None by (simp add: s_def)
  next
    case (Some s')
    then have "(?k, s') \<in> set table" by (rule map_of_SomeD)
    with t Some show ?thesis by (auto simp: table_ok_def s_def)
  qed
  let ?R = "case prev of None \<Rightarrow> R | Some b \<Rightarrow> insert (b, ?k) R"
  have A: "distinct (map fst table')" unfolding e(2) using d by (rule distinct_update)
  have B: "fst ` set table = snd ` uses" "R \<subseteq> snd ` uses \<times> snd ` uses" using t by (simp_all add: table_ok_def)
  have C: "fst ` set table' = insert ?k (fst ` set table)"
    unfolding e(2) by (simp add: dom_update)
  have D: "?R \<subseteq> (snd ` insert (pkg, ?k) uses) \<times> (snd ` insert (pkg, ?k) uses)"
    using B(2) p by (cases prev) auto
  have E: "op_fs_path ops (so_search_dir s') = k
          \<and> set (so_applies_to s') = {p. (p, k) \<in> insert (pkg, ?k) uses} \<and> set (so_after s') = {a. (a, k) \<in> ?R}"
    if m: "(k, s') \<in> set table'" for k s'
  proof (cases "k = ?k")
    case True
    then have "s' = s2" using m d by (simp add: e(2) update_set)
    have a: "set (so_applies_to s2) = insert pkg (set (so_applies_to s))" by (cases prev) (simp_all add: s2_def)
    have b: "set (so_after s2) = (case prev of None \<Rightarrow> set (so_after s) | Some b \<Rightarrow> insert b (set (so_after s)))"
      by (cases prev) (simp_all add: s2_def)
    have c: "so_search_dir s2 = so_search_dir s" by (cases prev) (simp_all add: s2_def)
    have "set (so_applies_to s2) = {p. (p, ?k) \<in> insert (pkg, ?k) uses}" using s unfolding a by auto
    moreover have "set (so_after s2) = {a. (a, ?k) \<in> ?R}" using s unfolding b by (cases prev) auto
    moreover have "op_fs_path ops (so_search_dir s2) = ?k" using s unfolding c by blast
    ultimately show ?thesis unfolding \<open>s' = s2\<close> True by blast
  next
    case False
    then have "(k, s') \<in> set table" using m d by (simp add: e(2) update_set)
    then have "op_fs_path ops (so_search_dir s') = k \<and> set (so_applies_to s') = {p. (p, k) \<in> uses}
        \<and> set (so_after s') = {a. (a, k) \<in> R}" using t unfolding table_ok_def by blast
    with False show ?thesis by (cases prev) auto
  qed
  have "fst ` set table' = snd ` insert (pkg, ?k) uses" using C B(1) by simp
  then have "table_ok ops table' (insert (pkg, ?k) uses) ?R"
    unfolding table_ok_def using A D E by (intro conjI ballI) auto
  with e(1) show ?thesis by (rule conjI)
qed


lemma adjacent_simps [simp]:
  "adjacent [] = {}" "adjacent [a] = {}" "adjacent (a # b # ks) = insert (a, b) (adjacent (b # ks))"
  by (simp_all add: adjacent_def)

lemma add_search_dirs_ok:
  "table_ok ops table uses R \<Longrightarrow> (case prev of None \<Rightarrow> True | Some a \<Rightarrow> a \<in> snd ` uses) \<Longrightarrow>
   table_ok ops (snd (fold (add_search_dir ops pkg) ps (prev, table))) (uses \<union> (\<lambda>q. (pkg, op_fs_path ops q)) ` set ps)
     (R \<union> adjacent ((case prev of None \<Rightarrow> [] | Some a \<Rightarrow> [a]) @ map (op_fs_path ops) ps))"
proof (induction ps arbitrary: prev table uses R)
  case Nil
  then show ?case by (cases prev) simp_all
next
  case (Cons q ps)
  let ?k = "op_fs_path ops q"
  obtain prev1 table1 where a: "add_search_dir ops pkg q (prev, table) = (prev1, table1)" by fastforce
  let ?R = "case prev of None \<Rightarrow> R | Some b \<Rightarrow> insert (b, ?k) R"
  from add_search_dir_ok[OF Cons.prems a] have p1: "prev1 = Some ?k" and t1: "table_ok ops table1 (insert (pkg, ?k) uses) ?R"
    by simp_all
  have f: "snd (fold (add_search_dir ops pkg) (q # ps) (prev, table)) = snd (fold (add_search_dir ops pkg) ps (prev1, table1))"
    using a by simp
  have u: "insert (pkg, ?k) uses \<union> (\<lambda>q. (pkg, op_fs_path ops q)) ` set ps = uses \<union> (\<lambda>q. (pkg, op_fs_path ops q)) ` set (q # ps)"
    by auto
  have r: "?R \<union> adjacent ((case prev1 of None \<Rightarrow> [] | Some a \<Rightarrow> [a]) @ map (op_fs_path ops) ps)
      = R \<union> adjacent ((case prev of None \<Rightarrow> [] | Some a \<Rightarrow> [a]) @ map (op_fs_path ops) (q # ps))"
    using p1 by (cases prev) simp_all
  have "case prev1 of None \<Rightarrow> True | Some a \<Rightarrow> a \<in> snd ` insert (pkg, ?k) uses" using p1 by simp
  from Cons.IH[OF t1 this] show ?case unfolding f u r .
qed

lemma order_table_ok:
  assumes "dirs = requested_dirs requested default_search_dirs"
  shows "table_ok ops (order_table ops requested default_search_dirs pkgs)
    {(pkg, k). pkg \<in> set pkgs \<and> k \<in> op_fs_path ops ` set (dirs pkg)} (follows ops dirs pkgs)"
proof -
  have "table_ok ops (fold (\<lambda>pkg table. snd (fold (add_search_dir ops pkg) (dirs pkg) (None, table))) pkgs table)
      (uses \<union> {(pkg, k). pkg \<in> set pkgs \<and> k \<in> op_fs_path ops ` set (dirs pkg)}) (R \<union> follows ops dirs pkgs)"
    if "table_ok ops table uses R" for table uses R
    using that
  proof (induction pkgs arbitrary: table uses R)
    case Nil
    then show ?case by (simp add: follows_def)
  next
    case (Cons pkg pkgs)
    have t: "table_ok ops (snd (fold (add_search_dir ops pkg) (dirs pkg) (None, table)))
        (uses \<union> (\<lambda>q. (pkg, op_fs_path ops q)) ` set (dirs pkg)) (R \<union> adjacent (map (op_fs_path ops) (dirs pkg)))"
      using add_search_dirs_ok[OF Cons.prems, of None pkg "dirs pkg"] by simp
    have u: "uses \<union> (\<lambda>q. (pkg, op_fs_path ops q)) ` set (dirs pkg) \<union> {(pkg, k). pkg \<in> set pkgs \<and> k \<in> op_fs_path ops ` set (dirs pkg)}
        = uses \<union> {(p, k). p \<in> set (pkg # pkgs) \<and> k \<in> op_fs_path ops ` set (dirs p)}" by auto
    have r: "R \<union> adjacent (map (op_fs_path ops) (dirs pkg)) \<union> follows ops dirs pkgs = R \<union> follows ops dirs (pkg # pkgs)"
      by (auto simp: follows_def)
    from Cons.IH[OF t] show ?case unfolding u r by simp
  qed
  from this[of "[]" "{}" "{}"] show ?thesis using assms by (simp add: order_table_def table_ok_def)
qed

subsection \<open>Releasing\<close>

abbreviation state_path :: "('p, 'm) src_ops_scheme \<Rightarrow> 'p order_state \<Rightarrow> string" where
  "state_path ops s \<equiv> op_fs_path ops (so_search_dir s)"

text \<open>The released directories come after everything they have to come after.\<close>

definition released_ok :: "('p, 'm) src_ops_scheme \<Rightarrow> 'p order_table \<Rightarrow> 'p order_state list \<Rightarrow> string list \<Rightarrow> bool" where
  "released_ok ops table order released \<longleftrightarrow>
     set order \<subseteq> snd ` set table \<and> distinct (map (state_path ops) order) \<and> distinct released
     \<and> set released = state_path ops ` set order
     \<and> (\<forall>xs s ys. order = xs @ s # ys \<longrightarrow> set (so_after s) \<subseteq> state_path ops ` set xs)"

lemma released_ok_snoc:
  assumes "released_ok ops table order released" and "s \<in> snd ` set table" and "state_path ops s \<notin> set released"
    and "set (so_after s) \<subseteq> set released"
  shows "released_ok ops table (order @ [s]) (List.insert (state_path ops s) released)"
proof -
  have "set (so_after t) \<subseteq> state_path ops ` set xs" if "order @ [s] = xs @ t # ys" for xs t ys
  proof (cases ys rule: rev_cases)
    case Nil
    with that assms(1,4) show ?thesis by (simp add: released_ok_def)
  next
    case (snoc zs z)
    with that have "order = xs @ t # zs" by simp
    with assms(1) show ?thesis by (simp add: released_ok_def)
  qed
  with assms show ?thesis by (auto simp: released_ok_def)
qed

lemma release_yes:
  "set (so_after s) \<subseteq> set released \<Longrightarrow>
     release ops s (order, released, remaining) = (order @ [s], List.insert (state_path ops s) released, remaining)"
  by (simp add: release_def Let_def)

lemma release_no:
  "\<not> set (so_after s) \<subseteq> set released \<Longrightarrow>
     release ops s (order, released, remaining) = (order, released, List.insert (state_path ops s) remaining)"
  by (simp add: release_def Let_def)

lemma fold_release_ok:
  assumes "released_ok ops table order released" and "set ss \<subseteq> snd ` set table" and "distinct (map (state_path ops) ss)"
    and "state_path ops ` set ss \<inter> set released = {}" and "distinct remaining"
    and "fold (release ops) ss (order, released, remaining) = (order1, released1, remaining1)"
  shows "released_ok ops table order1 released1 \<and> distinct remaining1 \<and> set released \<subseteq> set released1
    \<and> set released1 \<subseteq> set released \<union> state_path ops ` set ss
    \<and> set remaining1 = set remaining \<union> (state_path ops ` set ss - set released1)
    \<and> (set released1 = set released \<longrightarrow> (\<forall>s \<in> set ss. \<not> set (so_after s) \<subseteq> set released))"
  using assms
proof (induction ss arbitrary: order released remaining)
  case (Cons s ss)
  let ?k = "state_path ops s"
  show ?case
  proof (cases "set (so_after s) \<subseteq> set released")
    case True
    have ok: "released_ok ops table (order @ [s]) (List.insert ?k released)"
      using Cons.prems True by (intro released_ok_snoc) auto
    have f: "fold (release ops) ss (order @ [s], List.insert ?k released, remaining) = (order1, released1, remaining1)"
      using Cons.prems(6) by (simp add: release_yes[OF True])
    have "?k \<notin> set released" using Cons.prems(4) by auto
    from Cons.IH[OF ok _ _ _ Cons.prems(5) f] Cons.prems(2-4) this show ?thesis by auto
  next
    case False
    have f: "fold (release ops) ss (order, released, List.insert ?k remaining) = (order1, released1, remaining1)"
      using Cons.prems(6) by (simp add: release_no[OF False])
    have i: "released_ok ops table order1 released1 \<and> distinct remaining1 \<and> set released \<subseteq> set released1
      \<and> set released1 \<subseteq> set released \<union> state_path ops ` set ss
      \<and> set remaining1 = set (List.insert ?k remaining) \<union> (state_path ops ` set ss - set released1)
      \<and> (set released1 = set released \<longrightarrow> (\<forall>s \<in> set ss. \<not> set (so_after s) \<subseteq> set released))"
      using Cons.prems(2-5) by (intro Cons.IH[OF Cons.prems(1) _ _ _ _ f]) auto
    moreover have "?k \<notin> set released1" using i Cons.prems(3,4) by auto
    ultimately show ?thesis using False by auto
  qed
qed simp


lemma predecessors_cycle:
  assumes "finite S" and "S \<noteq> {}" and "\<forall>k \<in> S. \<exists>a \<in> S. (a, k) \<in> R"
  shows "\<not> acyclic R"
proof
  assume "acyclic R"
  then have "acyclic (R \<inter> S \<times> S)" by (rule acyclic_subset) simp
  then have "wf (R \<inter> S \<times> S)" using assms(1) by (intro finite_acyclic_wf) auto
  then obtain z where "z \<in> S" "\<forall>y. (y, z) \<in> R \<inter> S \<times> S \<longrightarrow> y \<notin> S"
    using assms(2) unfolding wf_eq_minimal by (metis ex_in_conv)
  with assms(3) show False by blast
qed

lemma table_entries:
  assumes "table_ok ops table uses R" and "set ks \<subseteq> fst ` set table"
  shows "\<exists>ss. rmapM (table_entry table) ks = Inr ss \<and> map (state_path ops) ss = ks \<and> set ss \<subseteq> snd ` set table"
  using assms(2)
proof (induction ks)
  case (Cons k ks)
  have d: "distinct (map fst table)" using assms(1) by (simp add: table_ok_def)
  obtain s where s: "(k, s) \<in> set table" using Cons.prems by auto
  then have "table_entry table k = Inr s" using d by (simp add: table_entry_def)
  moreover have "state_path ops s = k" using s assms(1) by (auto simp: table_ok_def)
  moreover have "s \<in> snd ` set table" using s by (rule image_eqI[rotated]) simp
  moreover obtain ss where "rmapM (table_entry table) ks = Inr ss" "map (state_path ops) ss = ks" "set ss \<subseteq> snd ` set table"
    using Cons by auto
  ultimately show ?case by (intro exI[of _ "s # ss"]) simp
qed simp

lemma table_paths:
  assumes "table_ok ops table uses R"
  shows "state_path ops ` snd ` set table = fst ` set table"
proof -
  have "\<And>e. e \<in> set table \<Longrightarrow> state_path ops (snd e) = fst e" using assms by (auto simp: table_ok_def)
  then show ?thesis by (simp add: image_image)
qed

lemma release_loop_ok:
  assumes t: "table_ok ops table uses R"
    and it: "\<And>xs. distinct xs \<Longrightarrow> set (iteration xs) = set xs \<and> distinct (iteration xs)"
  shows "released_ok ops table order released \<Longrightarrow> distinct remaining \<Longrightarrow>
    set remaining = fst ` set table - set released \<Longrightarrow>
    \<exists>r. release_loop ops iteration table (order, released, remaining) = Some r \<and>
      ((\<exists>order1 released1. r = Inr order1 \<and> released_ok ops table order1 released1
          \<and> state_path ops ` set order1 = fst ` set table)
       \<or> r = Inl UserError \<and> \<not> acyclic R)"
proof (induction "length remaining" arbitrary: order released remaining rule: less_induct)
  case less
  note ok = less.prems(1) and dr = less.prems(2) and rem = less.prems(3)
  have os: "set order \<subseteq> snd ` set table" and re: "set released = state_path ops ` set order"
    using ok by (simp_all add: released_ok_def)
  have rk: "set released \<subseteq> fst ` set table" unfolding re table_paths[OF t, symmetric] using os by (rule image_mono)
  show ?case
  proof (cases "remaining = []")
    case True
    then have "set released = fst ` set table" using rem rk by auto
    with ok have e: "state_path ops ` set order = fst ` set table" by (simp add: released_ok_def)
    have "release_loop ops iteration table (order, released, remaining) = Some (Inr order)"
      unfolding True by (simp add: release_loop.simps[of _ _ _ "(order, released, [])"])
    with ok e show ?thesis by blast
  next
    case False
    from it[OF dr] have i: "set (iteration remaining) = set remaining" "distinct (iteration remaining)" by simp_all
    obtain ss where ss: "rmapM (table_entry table) (iteration remaining) = Inr ss" "map (state_path ops) ss = iteration remaining"
      "set ss \<subseteq> snd ` set table"
      using table_entries[OF t, of "iteration remaining"] i(1) rem by auto
    have sn: "state_path ops ` set ss = set remaining" using ss(2) i(1) by (metis set_map)
    obtain order1 released1 remaining1 where f: "fold (release ops) ss (order, released, remaining) = (order1, released1, remaining1)"
      by (metis prod_cases3)
    have r: "released_ok ops table order1 released1 \<and> distinct remaining1 \<and> set released \<subseteq> set released1
      \<and> set released1 \<subseteq> set released \<union> state_path ops ` set ss
      \<and> set remaining1 = set remaining \<union> (state_path ops ` set ss - set released1)
      \<and> (set released1 = set released \<longrightarrow> (\<forall>s \<in> set ss. \<not> set (so_after s) \<subseteq> set released))"
      using ss(2) sn i(2) rem by (intro fold_release_ok[OF ok ss(3) _ _ dr f]) auto
    have dl: "distinct released" "distinct released1" using ok r by (simp_all add: released_ok_def)
    show ?thesis
    proof (cases "length released1 = length released")
      case True
      then have "card (set released1) = card (set released)" using dl by (simp add: distinct_card)
      then have e: "set released1 = set released" using r card_subset_eq[of "set released1" "set released"] by simp
      have "\<exists>a \<in> set remaining. (a, k) \<in> R" if k: "k \<in> set remaining" for k
      proof -
        obtain s where s: "s \<in> set ss" "state_path ops s = k" using k sn by (metis imageE)
        then obtain a where a: "a \<in> set (so_after s)" "a \<notin> set released" using r e by blast
        obtain k' where "(k', s) \<in> set table" using s(1) ss(3) by auto
        then have "(a, k) \<in> R" using a(1) s(2) t by (auto simp: table_ok_def)
        moreover have "a \<in> fst ` set table" using calculation t by (auto simp: table_ok_def)
        ultimately show ?thesis using a(2) rem by blast
      qed
      then have "\<not> acyclic R" using False by (intro predecessors_cycle[of "set remaining"]) auto
      moreover have "release_loop ops iteration table (order, released, remaining) = Some (Inl UserError)"
        using False ss(1) f True by (simp add: release_loop.simps[of _ _ _ "(order, released, remaining)"])
      ultimately show ?thesis by blast
    next
      case grown: False
      let ?rem = "filter (\<lambda>k. k \<notin> set released1) remaining1"
      have "set ?rem \<subset> set remaining"
      proof -
        have "set released \<subset> set released1" using r grown dl by (metis distinct_card psubsetI)
        then obtain k where "k \<in> set released1" "k \<notin> set released" by blast
        then have "k \<in> set remaining" "k \<notin> set ?rem" using r sn by auto
        moreover have "set ?rem \<subseteq> set remaining" using r sn by auto
        ultimately show ?thesis by blast
      qed
      then have "card (set ?rem) < card (set remaining)" by (intro psubset_card_mono) auto
      moreover have "distinct ?rem" using r by simp
      ultimately have "length ?rem < length remaining" using dr by (metis distinct_card)
      moreover have "set ?rem = fst ` set table - set released1"
      proof -
        have "set ?rem = set remaining - set released1" using r sn by auto
        also have "\<dots> = fst ` set table - set released1" unfolding rem using r by blast
        finally show ?thesis .
      qed
      moreover have "released_ok ops table order1 released1" using r by (rule conjunct1)
      ultimately obtain res where res: "release_loop ops iteration table (order1, released1, ?rem) = Some res"
        "(\<exists>order1 released1. res = Inr order1 \<and> released_ok ops table order1 released1
          \<and> state_path ops ` set order1 = fst ` set table) \<or> res = Inl UserError \<and> \<not> acyclic R"
        using less.hyps[of ?rem order1 released1] \<open>distinct ?rem\<close> by blast
      have "release_loop ops iteration table (order, released, remaining) = Some res"
        using False ss(1) f grown res(1) by (simp add: release_loop.simps[of _ _ _ "(order, released, remaining)"])
      with res(2) show ?thesis by blast
    qed
  qed
qed


subsection \<open>The order keeps every package's own order\<close>

lemma adjacent_pair: "(a, b) \<in> adjacent ks \<Longrightarrow> a \<in> set ks \<and> b \<in> set ks"
  unfolding adjacent_def by (cases ks) (auto dest: set_zip_leftD set_zip_rightD)

lemma subseq_of_adjacent:
  assumes "distinct keys"
  shows "ks \<noteq> [] \<Longrightarrow> hd ks \<in> set keys \<Longrightarrow>
    (\<forall>(a, b) \<in> adjacent ks. b \<in> set keys \<and> a \<in> set (takeWhile (\<lambda>k. k \<noteq> b) keys)) \<Longrightarrow>
    subseq ks (dropWhile (\<lambda>k. k \<noteq> hd ks) keys)"
proof (induction ks)
  case (Cons a ks)
  obtain xs ys where k: "keys = xs @ a # ys" "a \<notin> set xs" using Cons.prems(2) by (auto dest: split_list_first)
  then have d: "dropWhile (\<lambda>k. k \<noteq> a) keys = a # ys" by (auto simp: dropWhile_append)
  show ?case
  proof (cases ks)
    case Nil
    with d show ?thesis by simp
  next
    case (Cons b r)
    have b: "b \<in> set keys" "a \<in> set (takeWhile (\<lambda>k. k \<noteq> b) keys)" using Cons.prems(3) Cons by auto
    obtain us vs where u: "keys = us @ b # vs" "b \<notin> set us" using b(1) by (auto dest: split_list_first)
    then have "takeWhile (\<lambda>k. k \<noteq> b) keys = us" by (auto simp: takeWhile_append)
    then have "a \<in> set us" using b(2) by simp
    then obtain p q where p: "us = p @ a # q" by (auto dest: split_list)
    have "p @ a # (q @ b # vs) = xs @ a # ys" using u(1) p k(1) by simp
    moreover have "a \<notin> set p" "a \<notin> set (q @ b # vs)" using assms u(1) p by auto
    ultimately have "p = xs \<and> ys = q @ b # vs" by (metis append_Cons_eq_iff)
    moreover have "subseq ks (dropWhile (\<lambda>k. k \<noteq> b) keys)"
      using Cons.IH Cons.prems(3) Cons b(1) by simp
    moreover have "dropWhile (\<lambda>k. k \<noteq> b) keys = b # vs" using u by (auto simp: dropWhile_append)
    ultimately have "subseq ks ys" by (metis list_emb_append2)
    with d show ?thesis by simp
  qed
qed simp

text \<open>The merged order: every requested path once, each package's paths in its order, for the packages that asked.\<close>

definition merged_order ::
    "('p, 'm) src_ops_scheme \<Rightarrow> (binary_package \<Rightarrow> 'p list) \<Rightarrow> packages \<Rightarrow> 'p search_dir list \<Rightarrow> bool" where
  "merged_order ops dirs pkgs order \<longleftrightarrow>
     (let keys = map (\<lambda>s. op_fs_path ops (sd_search_dir s)) order in
      distinct keys \<and> set keys = (\<Union>pkg \<in> set pkgs. op_fs_path ops ` set (dirs pkg))
      \<and> (\<forall>pkg \<in> set pkgs. subseq (map (op_fs_path ops) (dirs pkg)) keys)
      \<and> (\<forall>s \<in> set order. set (sd_applies_to s)
           = {pkg \<in> set pkgs. op_fs_path ops (sd_search_dir s) \<in> op_fs_path ops ` set (dirs pkg)}))"

lemma takeWhile_earlier:
  "a \<in> set (takeWhile (\<lambda>k. k \<noteq> b) ks) \<Longrightarrow>
     length (takeWhile (\<lambda>k. k \<noteq> a) ks) < length (takeWhile (\<lambda>k. k \<noteq> b) ks)"
  by (induction ks) (auto split: if_splits)

lemma released_order:
  assumes t: "table_ok ops table {(pkg, k). pkg \<in> set pkgs \<and> k \<in> op_fs_path ops ` set (dirs pkg)} (follows ops dirs pkgs)"
    and r: "released_ok ops table order released" and all: "state_path ops ` set order = fst ` set table"
  shows "acyclic (follows ops dirs pkgs)
    \<and> merged_order ops dirs pkgs (map (\<lambda>s. \<lparr>sd_search_dir = so_search_dir s,
        sd_applies_to = (if set (so_applies_to s) = set pkgs then pkgs else so_applies_to s)\<rparr>) order)"
proof -
  let ?keys = "map (state_path ops) order"
  have dk: "distinct ?keys" using r by (simp add: released_ok_def)
  have "fst ` set table = snd ` {(pkg, k). pkg \<in> set pkgs \<and> k \<in> op_fs_path ops ` set (dirs pkg)}"
    using t by (simp add: table_ok_def)
  also have "\<dots> = (\<Union>pkg \<in> set pkgs. op_fs_path ops ` set (dirs pkg))" by force
  finally have keys: "set ?keys = (\<Union>pkg \<in> set pkgs. op_fs_path ops ` set (dirs pkg))" using all by simp
  have entry: "set (so_after s) = {a. (a, state_path ops s) \<in> follows ops dirs pkgs}
      \<and> set (so_applies_to s) = {pkg \<in> set pkgs. state_path ops s \<in> op_fs_path ops ` set (dirs pkg)}"
    if "s \<in> set order" for s
  proof -
    have "s \<in> snd ` set table" using that r by (auto simp: released_ok_def)
    then obtain k where "(k, s) \<in> set table" by auto
    with t have "state_path ops s = k \<and> set (so_after s) = {a. (a, k) \<in> follows ops dirs pkgs}
        \<and> set (so_applies_to s) = {pkg. pkg \<in> set pkgs \<and> k \<in> op_fs_path ops ` set (dirs pkg)}"
      by (auto simp: table_ok_def)
    then show ?thesis by simp
  qed
  have before: "b \<in> set ?keys \<and> a \<in> set (takeWhile (\<lambda>k. k \<noteq> b) ?keys)" if ab: "(a, b) \<in> follows ops dirs pkgs" for a b
  proof -
    have "b \<in> set ?keys" using ab adjacent_pair unfolding keys follows_def by fastforce
    then obtain s where s: "s \<in> set order" "state_path ops s = b" by auto
    then obtain xs ys where o: "order = xs @ s # ys" by (auto dest: split_list)
    have "a \<in> set (so_after s)" using entry[OF s(1)] s(2) ab by simp
    moreover have "set (so_after s) \<subseteq> state_path ops ` set xs" using r o unfolding released_ok_def by blast
    ultimately have a: "a \<in> state_path ops ` set xs" by blast
    have "b \<notin> state_path ops ` set xs" using dk o s(2) by auto
    then have "\<forall>k \<in> set (map (state_path ops) xs). k \<noteq> b" by auto
    then have "takeWhile (\<lambda>k. k \<noteq> b) (map (state_path ops) xs @ b # map (state_path ops) ys) = map (state_path ops) xs"
      by (subst takeWhile_append2) auto
    then have "takeWhile (\<lambda>k. k \<noteq> b) ?keys = map (state_path ops) xs" using o s(2) by simp
    with a \<open>b \<in> set ?keys\<close> show ?thesis by simp
  qed
  have "follows ops dirs pkgs \<subseteq> measure (\<lambda>k. length (takeWhile (\<lambda>x. x \<noteq> k) ?keys))"
  proof
    fix e assume e: "e \<in> follows ops dirs pkgs"
    obtain a b where ab: "e = (a, b)" by (cases e)
    with e before have b: "a \<in> set (takeWhile (\<lambda>k. k \<noteq> b) ?keys)" by blast
    then show "e \<in> measure (\<lambda>k. length (takeWhile (\<lambda>x. x \<noteq> k) ?keys))"
      unfolding ab by (simp add: takeWhile_earlier)
  qed
  then have "acyclic (follows ops dirs pkgs)" by (meson acyclic_subset wf_acyclic wf_measure)
  moreover have "subseq (map (op_fs_path ops) (dirs pkg)) ?keys" if p: "pkg \<in> set pkgs" for pkg
  proof (cases "dirs pkg = []")
    case False
    let ?ks = "map (op_fs_path ops) (dirs pkg)"
    have "hd ?ks \<in> set ?keys" using False p unfolding keys by (cases "dirs pkg") force+
    moreover have "\<forall>(a, b) \<in> adjacent ?ks. b \<in> set ?keys \<and> a \<in> set (takeWhile (\<lambda>k. k \<noteq> b) ?keys)"
      using before p unfolding follows_def by blast
    ultimately have "subseq ?ks (dropWhile (\<lambda>k. k \<noteq> hd ?ks) ?keys)"
      using False subseq_of_adjacent[OF dk, of ?ks] by simp
    moreover have "subseq (dropWhile (\<lambda>k. k \<noteq> hd ?ks) ?keys) ?keys" by (simp add: suffix_dropWhile suffix_imp_subseq)
    ultimately show ?thesis by (rule subseq_order.order_trans)
  qed simp
  moreover have "map (\<lambda>s. op_fs_path ops (sd_search_dir s)) (map (\<lambda>s. \<lparr>sd_search_dir = so_search_dir s,
        sd_applies_to = (if set (so_applies_to s) = set pkgs then pkgs else so_applies_to s)\<rparr>) order) = ?keys"
    by (simp add: comp_def)
  ultimately show ?thesis
    using dk keys entry unfolding merged_order_def Let_def by (simp only: set_map) simp
qed

text \<open>C26: for whatever order Python iterates over its sets in, every requested search directory is eventually released
  unless the packages' orders contradict each other: the loop returns, with an error exactly when the orders have a
  cycle, and else with an order that has every requested directory once and keeps every package's own order.\<close>

theorem search_dirs_ordered:
  assumes "\<forall>xs. distinct xs \<longrightarrow> set (iteration xs) = set xs \<and> distinct (iteration xs)"
    and "fst ` set requested \<subseteq> set pkgs"
  shows "(acyclic (follows ops (requested_dirs requested default_dirs) pkgs)
      \<and> (\<exists>order. determine_search_dir_order ops iteration requested pkgs default_dirs root
             = Inr (order @ [\<lparr>sd_search_dir = root, sd_applies_to = pkgs\<rparr>])
           \<and> merged_order ops (requested_dirs requested default_dirs) pkgs order))
    \<or> (\<not> acyclic (follows ops (requested_dirs requested default_dirs) pkgs)
      \<and> determine_search_dir_order ops iteration requested pkgs default_dirs root = Inl UserError)"
proof -
  let ?dirs = "requested_dirs requested default_dirs"
  let ?table = "order_table ops requested default_dirs pkgs"
  note t = order_table_ok[where ops = ops and pkgs = pkgs, OF refl[of ?dirs]]
  obtain order released remaining where f: "fold (release ops) (map snd ?table) ([], [], []) = (order, released, remaining)"
    by (metis prod_cases3)
  have n: "map (state_path ops) (map snd ?table) = map fst ?table" using t by (auto simp: table_ok_def)
  have e: "released_ok ops ?table [] []" by (simp add: released_ok_def)
  have dt: "distinct (map (state_path ops) (map snd ?table))" unfolding n using t by (simp add: table_ok_def)
  have st: "set (map snd ?table) \<subseteq> snd ` set ?table" by simp
  have i: "state_path ops ` set (map snd ?table) \<inter> set [] = {}" "distinct []" by simp_all
  note r = fold_release_ok[OF e st dt i f]
  have k: "state_path ops ` set (map snd ?table) = fst ` set ?table" using n by (metis set_map)
  have d: "distinct remaining" using r by blast
  have ok: "released_ok ops ?table order released" using r by blast
  have "set remaining = state_path ops ` set (map snd ?table) - set released" using r by simp
  then have rem: "set remaining = fst ` set ?table - set released" unfolding k .
  have it: "set (iteration xs) = set xs \<and> distinct (iteration xs)" if "distinct xs" for xs using that assms(1) by blast
  note loop = release_loop_ok[where iteration = iteration, OF t it ok d rem]
  then obtain res where res: "release_loop ops iteration ?table (order, released, remaining) = Some res"
    and out: "(\<exists>order1 released1. res = Inr order1 \<and> released_ok ops ?table order1 released1
          \<and> state_path ops ` set order1 = fst ` set ?table) \<or> res = Inl UserError \<and> \<not> acyclic (follows ops ?dirs pkgs)"
    by blast
  from out show ?thesis
  proof (elim disjE exE conjE)
    fix order1 released1
    assume o: "res = Inr order1" "released_ok ops ?table order1 released1" "state_path ops ` set order1 = fst ` set ?table"
    from released_order[OF t o(2,3)] show ?thesis
      using assms(2) res f o(1) by (auto simp: determine_search_dir_order_def Let_def returns_def)
  next
    assume "res = Inl UserError" "\<not> acyclic (follows ops ?dirs pkgs)"
    then show ?thesis using assms(2) res f by (auto simp: determine_search_dir_order_def Let_def returns_def)
  qed
qed


definition demo_doc_package :: binary_package where
  "demo_doc_package = demo_package\<lparr>bp_fields := [(''Package'', ''foo-doc''), (''Architecture'', ''all'')]\<rparr>"

definition demo_dir :: "string list \<Rightarrow> overlay" where
  "demo_dir ns = the (ov_descend demo_source ns)"

definition demo_requests :: "(binary_package \<times> overlay list) list" where
  "demo_requests = [(demo_doc_package, [demo_dir [''usr'', ''lib''], demo_dir [''usr'']]),
     (demo_package, [demo_dir [''usr'', ''lib'', ''foo''], demo_dir [''usr'', ''lib'']])]"

text \<open>The directories of the later package come first; had the packages asked in opposite orders, it would be an error.\<close>

lemma search_dirs_ordered_witness:
  "(\<exists>order. determine_search_dir_order ov_ops rev demo_requests [demo_doc_package, demo_package] [] demo_source
       = Inr (order @ [\<lparr>sd_search_dir = demo_source, sd_applies_to = [demo_doc_package, demo_package]\<rparr>])
     \<and> merged_order ov_ops (requested_dirs demo_requests []) [demo_doc_package, demo_package] order
     \<and> map (\<lambda>s. ov_fs_path (sd_search_dir s)) order
         = [''debian/tmp/usr/lib/foo'', ''debian/tmp/usr/lib'', ''debian/tmp/usr''])
   \<and> determine_search_dir_order ov_ops rev [(demo_doc_package, [demo_source, demo_dir [''usr'']])]
       [demo_doc_package, demo_package] [demo_dir [''usr''], demo_source] demo_source = Inl UserError"
proof -
  let ?r = "determine_search_dir_order ov_ops rev demo_requests [demo_doc_package, demo_package] [] demo_source"
  have r: "\<not> isl ?r" "map (\<lambda>s. ov_fs_path (sd_search_dir s)) (butlast (projr ?r))
      = [''debian/tmp/usr/lib/foo'', ''debian/tmp/usr/lib'', ''debian/tmp/usr'']"
    by code_simp+
  have "fst ` set demo_requests \<subseteq> set [demo_doc_package, demo_package]" by (simp add: demo_requests_def)
  from search_dirs_ordered[where ops = ov_ops and iteration = rev, OF _ this, of "[]" demo_source] r(1)
  obtain order where "?r = Inr (order @ [\<lparr>sd_search_dir = demo_source, sd_applies_to = [demo_doc_package, demo_package]\<rparr>])"
    "merged_order ov_ops (requested_dirs demo_requests []) [demo_doc_package, demo_package] order" by auto
  moreover have "determine_search_dir_order ov_ops rev [(demo_doc_package, [demo_source, demo_dir [''usr'']])]
       [demo_doc_package, demo_package] [demo_dir [''usr''], demo_source] demo_source = Inl UserError"
    by code_simp
  ultimately show ?thesis using r(2) by auto
qed

end
