(* ===== verification/ManifestTypes.thy ===== *)
theory ManifestTypes
  imports Complex_Main PyStr
begin

section \<open>Values and types of the manifest (\<^verbatim>\<open>src/debputy/manifest_parser\<close>)\<close>

text \<open>
  What the manifest parser works on: the values that reading YAML gives, with the objects that the mappers of
  registered types make of them; the types that describe a rule (\<^verbatim>\<open>typing\<close>'s \<^verbatim>\<open>List\<close>, \<^verbatim>\<open>Union\<close>, \<^verbatim>\<open>Annotated\<close> and
  so on, and classes, which are known by name); and the parse hints with which an attribute of a
  \<^verbatim>\<open>TypedDict\<close> is annotated (\<^verbatim>\<open>parse_hints.py\<close>, \<^verbatim>\<open>util.py\<close>).
\<close>

subsection \<open>Values\<close>

text \<open>\<open>VObj c x\<close> is the object \<open>x\<close> of class \<open>c\<close>.\<close>

datatype yvalue =
    VNone | VBool bool | VInt int | VFloat rat | VStr string
  | VList "yvalue list" | VDict "(yvalue \<times> yvalue) list" | VObj string string

fun numeric :: "yvalue \<Rightarrow> rat option" where
  "numeric (VBool b) = Some (if b then 1 else 0)"
| "numeric (VInt i) = Some (of_int i)"
| "numeric (VFloat r) = Some r"
| "numeric _ = None"

text \<open>Python's \<^verbatim>\<open>==\<close> against a value of a \<^verbatim>\<open>Literal\<close>: numbers are compared by value.\<close>

definition py_eq :: "yvalue \<Rightarrow> yvalue \<Rightarrow> bool" where
  "py_eq v a = (case (numeric v, numeric a) of (Some x, Some y) \<Rightarrow> x = y | _ \<Rightarrow> v = a)"

text \<open>The builtin classes that \<^verbatim>\<open>isinstance\<close> is used with; \<^verbatim>\<open>bool\<close> is a subclass of \<^verbatim>\<open>int\<close>.\<close>

datatype base_type = BStr | BInt | BBool | BList | BDict

fun isinstance_base :: "yvalue \<Rightarrow> base_type \<Rightarrow> bool" where
  "isinstance_base (VStr _) b = (b = BStr)"
| "isinstance_base (VInt _) b = (b = BInt)"
| "isinstance_base (VBool _) b = (b = BBool \<or> b = BInt)"
| "isinstance_base (VList _) b = (b = BList)"
| "isinstance_base (VDict _) b = (b = BDict)"
| "isinstance_base _ b = False"

subsection \<open>Parse hints\<close>

text \<open>\<^verbatim>\<open>PackageTypeSelector\<close>: one package type, or a collection of them.\<close>

datatype package_type_selector = SelectorStr string | SelectorSet "string list"

abbreviation ALL_PACKAGE_TYPES :: package_type_selector where
  "ALL_PACKAGE_TYPES \<equiv> SelectorSet [''deb'', ''udeb'']"

definition resolve_package_type_selectors :: "package_type_selector \<Rightarrow> string list" where
  "resolve_package_type_selectors sel = (case sel of SelectorStr s \<Rightarrow> [s] | SelectorSet ss \<Rightarrow> ss)"

text \<open>\<^verbatim>\<open>t in package_type\<close>, which for a text is the search for a substring.\<close>

definition in_selector :: "string \<Rightarrow> package_type_selector \<Rightarrow> bool" where
  "in_selector t sel = (case sel of SelectorStr s \<Rightarrow> infix_of t s | SelectorSet ss \<Rightarrow> t \<in> set ss)"

text \<open>The conditions that \<^verbatim>\<open>required_when_single_binary\<close> and \<^verbatim>\<open>required_when_multi_binary\<close> make.\<close>

datatype condition =
    IsSingleBinary | IsNotSingleBinary
  | ExactlyOneOf package_type_selector | NotExactlyOneOf package_type_selector

definition all_types :: "package_type_selector \<Rightarrow> bool" where
  "all_types sel \<longleftrightarrow> set (resolve_package_type_selectors sel) = {''deb'', ''udeb''}"

definition required_when_single_binary :: "package_type_selector \<Rightarrow> condition" where
  "required_when_single_binary sel = (if all_types sel then IsSingleBinary else ExactlyOneOf sel)"

definition required_when_multi_binary :: "package_type_selector \<Rightarrow> condition" where
  "required_when_multi_binary sel = (if all_types sel then IsNotSingleBinary else NotExactlyOneOf sel)"

text \<open>The condition, on the types of the binary packages of the source package.\<close>

definition condition_applies :: "condition \<Rightarrow> string list \<Rightarrow> bool" where
  "condition_applies c package_types =
     (case c of
        IsSingleBinary \<Rightarrow> length package_types = 1
      | IsNotSingleBinary \<Rightarrow> length package_types \<noteq> 1
      | ExactlyOneOf sel \<Rightarrow> length (filter (\<lambda>t. in_selector t sel) package_types) = 1
      | NotExactlyOneOf sel \<Rightarrow> length (filter (\<lambda>t. in_selector t sel) package_types) \<noteq> 1)"

text \<open>
  The condition is meant to look at the packages of the resolved types, but it uses the selector itself: a
  request about \<^verbatim>\<open>udeb\<close> packages given as a text also counts the \<^verbatim>\<open>deb\<close> packages.
\<close>

lemma udeb_condition_counts_debs:
  "condition_applies (required_when_single_binary (SelectorStr ''udeb'')) [''deb'']"
  "\<not> ''deb'' \<in> set (resolve_package_type_selectors (SelectorStr ''udeb''))"
  "\<not> condition_applies (required_when_single_binary (SelectorSet [''udeb''])) [''deb'']"
  by code_simp+

datatype annotation =
    TargetAttribute string | ManifestAttribute string | ConflictWithSourceAttribute "string list"
  | ConditionalRequired condition | NotPathHint | OtherAnnotation string

subsection \<open>Types\<close>

text \<open>
  A \<^verbatim>\<open>TypedDict\<close> has its name and, for each attribute, its name, whether it is in \<^verbatim>\<open>__required_keys__\<close>, and its type
  hint.  The subclasses of \<^verbatim>\<open>DebputyDispatchableType\<close> are \<open>TDispatch\<close>, other classes \<open>TClass\<close>.
\<close>

datatype ptype =
    TStr | TInt | TBool | TNone | TAny | TClass string | TDispatch string
  | TList "ptype list" | TDict "ptype list" | TUnion "ptype list" | TLiteral "yvalue list"
  | TAnnotated ptype "annotation list" | TRequired ptype | TNotRequired ptype
  | TTyped string "(string \<times> bool \<times> ptype) list"

type_synonym typed_dict = "(string \<times> bool \<times> ptype) list"

text \<open>Equality of types: classes by identity, the members of a union in any order.\<close>

fun ty_eq :: "ptype \<Rightarrow> ptype \<Rightarrow> bool" where
  "ty_eq (TTyped n fs) u = (u = TTyped n fs)"
| "ty_eq (TUnion ts) u = (case u of
     TUnion us \<Rightarrow> list_all (\<lambda>t. list_ex (ty_eq t) us) ts \<and> list_all (\<lambda>u. list_ex (\<lambda>t. ty_eq t u) ts) us
   | _ \<Rightarrow> False)"
| "ty_eq (TLiteral vs) u = (case u of TLiteral ws \<Rightarrow> set vs = set ws | _ \<Rightarrow> False)"
| "ty_eq (TList ts) u = (case u of TList us \<Rightarrow> list_all2 id (map ty_eq ts) us | _ \<Rightarrow> False)"
| "ty_eq (TDict ts) u = (case u of TDict us \<Rightarrow> list_all2 id (map ty_eq ts) us | _ \<Rightarrow> False)"
| "ty_eq (TAnnotated t as) u = (case u of TAnnotated t1 bs \<Rightarrow> ty_eq t t1 \<and> as = bs | _ \<Rightarrow> False)"
| "ty_eq (TRequired t) u = (case u of TRequired t1 \<Rightarrow> ty_eq t t1 | _ \<Rightarrow> False)"
| "ty_eq (TNotRequired t) u = (case u of TNotRequired t1 \<Rightarrow> ty_eq t t1 | _ \<Rightarrow> False)"
| "ty_eq (TClass n) u = (case u of TClass m \<Rightarrow> n = m | _ \<Rightarrow> False)"
| "ty_eq (TDispatch n) u = (case u of TDispatch m \<Rightarrow> n = m | _ \<Rightarrow> False)"
| "ty_eq TStr u = (u = TStr)"
| "ty_eq TInt u = (u = TInt)"
| "ty_eq TBool u = (u = TBool)"
| "ty_eq TNone u = (u = TNone)"
| "ty_eq TAny u = (u = TAny)"

datatype type_origin = OList | ODict | OUnion | OLiteral | OAnnotated | ORequired

fun get_origin :: "ptype \<Rightarrow> type_origin option" where
  "get_origin (TList _) = Some OList"
| "get_origin (TDict _) = Some ODict"
| "get_origin (TUnion _) = Some OUnion"
| "get_origin (TLiteral _) = Some OLiteral"
| "get_origin (TAnnotated _ _) = Some OAnnotated"
| "get_origin (TRequired _) = Some ORequired"
| "get_origin (TNotRequired _) = Some ORequired"
| "get_origin _ = None"

text \<open>The type arguments; the values of a literal and the annotations are not types.\<close>

fun get_args :: "ptype \<Rightarrow> ptype list" where
  "get_args (TList ts) = ts"
| "get_args (TDict ts) = ts"
| "get_args (TUnion ts) = ts"
| "get_args (TAnnotated t _) = [t]"
| "get_args (TRequired t) = [t]"
| "get_args (TNotRequired t) = [t]"
| "get_args _ = []"

text \<open>\<^verbatim>\<open>Union[...]\<close>: nested unions are flattened, duplicates dropped, and a single member stands for itself.\<close>

definition union_members :: "ptype list \<Rightarrow> ptype list" where
  "union_members ts = concat (map (\<lambda>t. case t of TUnion us \<Rightarrow> us | _ \<Rightarrow> [t]) ts)"

fun dedup_types :: "ptype list \<Rightarrow> ptype list" where
  "dedup_types [] = []"
| "dedup_types (t # ts) = t # dedup_types (filter (\<lambda>u. \<not> ty_eq t u) ts)"

definition mk_union :: "ptype list \<Rightarrow> ptype" where
  "mk_union ts = (case dedup_types (union_members ts) of [t] \<Rightarrow> t | us \<Rightarrow> TUnion us)"

fun strip_required :: "ptype \<Rightarrow> ptype" where
  "strip_required (TRequired t) = strip_required t"
| "strip_required (TNotRequired t) = strip_required t"
| "strip_required t = t"

definition unpack_type :: "ptype \<Rightarrow> bool \<Rightarrow> ptype res" where
  "unpack_type t parsing_typed_dict_attribute =
     (if \<not> parsing_typed_dict_attribute \<and> get_origin t = Some ORequired then Inl ValueError
      else Inr (strip_required t))"

fun is_typeddict :: "ptype \<Rightarrow> bool" where
  "is_typeddict (TTyped _ _) = True"
| "is_typeddict _ = False"

text \<open>\<^verbatim>\<open>_is_two_arg_x_list_x\<close>\<close>

definition is_two_arg_x_list_x :: "ptype list \<Rightarrow> bool" where
  "is_two_arg_x_list_x t_args =
     (case t_args of
        [lhs, rhs] \<Rightarrow>
          if get_origin lhs = Some OList then
            if get_origin rhs = Some OList then False
            else get_args lhs \<noteq> [] \<and> ty_eq (hd (get_args lhs)) rhs
          else if get_origin rhs = Some OList then get_args rhs \<noteq> [] \<and> ty_eq (hd (get_args rhs)) lhs
          else False
      | _ \<Rightarrow> False)"

text \<open>\<^verbatim>\<open>_parse_type\<close>: the type and its annotations.\<close>

definition parse_type :: "ptype \<Rightarrow> bool \<Rightarrow> bool \<Rightarrow> (ptype \<times> annotation list) res" where
  "parse_type orig_td forbid_optional parsing_typed_dict_attribute =
     rbind (unpack_type orig_td parsing_typed_dict_attribute) (\<lambda>td0.
     rbind (case td0 of
              TAnnotated t md \<Rightarrow> rmap (\<lambda>td. (td, md)) (unpack_type t parsing_typed_dict_attribute)
            | _ \<Rightarrow> Inr (td0, [])) (\<lambda>(td, md).
       if get_origin td0 = None then Inr (td, md)
       else if td = TNone then Inl ValueError
       else if forbid_optional \<and> get_origin td = Some OUnion \<and> TNone \<in> set (get_args td) then Inl ValueError
       else Inr (td, md)))"

text \<open>\<^verbatim>\<open>_normalize_attribute_name\<close>\<close>

definition normalize_attribute_name :: "string \<Rightarrow> string" where
  "normalize_attribute_name attribute =
     map (\<lambda>c. if c = CHR ''_'' then CHR ''-'' else c)
       (if endswith attribute ''_'' then butlast attribute else attribute)"

subsection \<open>The hints of an attribute\<close>

text \<open>\<^verbatim>\<open>find_annotation\<close>: the only annotation of a class.\<close>

definition find_annotation :: "(annotation \<Rightarrow> 'a option) \<Rightarrow> annotation list \<Rightarrow> 'a option res" where
  "find_annotation get annos =
     (case List.map_filter get annos of [] \<Rightarrow> Inr None | [a] \<Rightarrow> Inr (Some a) | _ \<Rightarrow> Inl ValueError)"

definition the_target_attribute :: "annotation \<Rightarrow> string option" where
  "the_target_attribute a = (case a of TargetAttribute s \<Rightarrow> Some s | _ \<Rightarrow> None)"

definition the_manifest_attribute :: "annotation \<Rightarrow> string option" where
  "the_manifest_attribute a = (case a of ManifestAttribute s \<Rightarrow> Some s | _ \<Rightarrow> None)"

definition the_conflicts :: "annotation \<Rightarrow> string list option" where
  "the_conflicts a = (case a of ConflictWithSourceAttribute s \<Rightarrow> Some s | _ \<Rightarrow> None)"

definition the_condition :: "annotation \<Rightarrow> condition option" where
  "the_condition a = (case a of ConditionalRequired c \<Rightarrow> Some c | _ \<Rightarrow> None)"

definition the_not_path_hint :: "annotation \<Rightarrow> unit option" where
  "the_not_path_hint a = (case a of NotPathHint \<Rightarrow> Some () | _ \<Rightarrow> None)"

record parse_hint =
  ph_target_attribute :: string
  ph_source_manifest_attribute :: "string option"
  ph_conflict_with_source_attributes :: "string list"
  ph_conditional_required :: "condition option"
  ph_applicable_as_path_hint :: bool

definition hint_target ::
    "string option \<Rightarrow> string option \<Rightarrow> string option \<Rightarrow> bool \<Rightarrow> string res" where
  "hint_target target_attr_anno default_target_attribute default_attribute_name allow_target_attribute_annotation =
     (case target_attr_anno of
        Some a \<Rightarrow> if allow_target_attribute_annotation then Inr a else Inl ValueError
      | None \<Rightarrow>
          (case default_target_attribute of
             Some a \<Rightarrow> Inr a
           | None \<Rightarrow> (case default_attribute_name of Some a \<Rightarrow> Inr a | None \<Rightarrow> Inl ValueError)))"

definition parse_annotations ::
    "annotation list \<Rightarrow> string option \<Rightarrow> bool \<Rightarrow> string option \<Rightarrow> bool \<Rightarrow> bool \<Rightarrow> parse_hint res" where
  "parse_annotations anno default_attribute_name is_required default_target_attribute
     allow_target_attribute_annotation allow_source_attribute_annotations =
     rbind (find_annotation the_target_attribute anno) (\<lambda>target_attr_anno.
     rbind (hint_target target_attr_anno default_target_attribute default_attribute_name
              allow_target_attribute_annotation) (\<lambda>target_attribute.
     rbind (find_annotation the_manifest_attribute anno) (\<lambda>source_attribute_anno.
     if \<not> (allow_source_attribute_annotations \<or> source_attribute_anno = None) then Inl ValueError
     else
     let source_attribute_name =
           (case source_attribute_anno of Some a \<Rightarrow> Some a
            | None \<Rightarrow> map_option normalize_attribute_name default_attribute_name)
     in rbind (find_annotation the_conflicts anno) (\<lambda>mutual_exclusive_with_anno.
     if \<not> (allow_source_attribute_annotations \<or> mutual_exclusive_with_anno = None) then Inl ValueError
     else rbind (find_annotation the_condition anno) (\<lambda>conditional_required.
     if conditional_required \<noteq> None \<and> is_required then Inl ValueError
     else rbind (find_annotation the_not_path_hint anno) (\<lambda>not_path_hint_anno.
       Inr \<lparr>ph_target_attribute = target_attribute, ph_source_manifest_attribute = source_attribute_name,
            ph_conflict_with_source_attributes =
              (case mutual_exclusive_with_anno of None \<Rightarrow> [] | Some c \<Rightarrow> c),
            ph_conditional_required = conditional_required,
            ph_applicable_as_path_hint = (not_path_hint_anno = None)\<rparr>))))))"

end
