(* ===== verification/DeclParser.thy ===== *)
theory DeclParser
  imports ManifestTypes "HOL-Library.AList"
begin

section \<open>The declarative manifest parser (\<^verbatim>\<open>src/debputy/manifest_parser/declarative_parser.py\<close>)\<close>

text \<open>
  \<^verbatim>\<open>ParserGenerator.generate_parser\<close> makes a parser out of a \<^verbatim>\<open>TypedDict\<close> that describes what a rule needs and,
  optionally, of a type that describes what a packager may write.  The closures of the source (the validators and
  mappers of an \<^verbatim>\<open>AttributeTypeHandler\<close>) are functions of the model.  Left out are the texts of error messages, the
  path hints that only occur in them, and the reference documentation of the parsers.
\<close>

subsection \<open>Context and mappers\<close>

text \<open>
  What parsing needs of the \<^verbatim>\<open>ParserContextData\<close>: the integration mode, the types of the binary packages, and the parser
  of each dispatchable type.
\<close>

record parser_context =
  cx_integration_mode :: string
  cx_package_types :: "string list"
  cx_dispatch :: "string \<Rightarrow> yvalue \<Rightarrow> yvalue res"

type_synonym mapper_fun = "yvalue \<Rightarrow> parser_context option \<Rightarrow> yvalue res"

text \<open>
  Mappers are compared with \<^verbatim>\<open>!=\<close>: the mapper of a registered type and the functions of \<^verbatim>\<open>mapper_code.py\<close> equal
  themselves, a closure made by a call equals no other.
\<close>

datatype mapper_id = RegisteredMapper string | WrapIntoList | NormalizeIntoList | Closure

record mapper =
  mp_id :: mapper_id
  mp_run :: mapper_fun

definition same_mapper :: "mapper option \<Rightarrow> mapper option \<Rightarrow> bool" where
  "same_mapper m n =
     (case (m, n) of
        (None, None) \<Rightarrow> True
      | (Some f, Some g) \<Rightarrow> mp_id f \<noteq> Closure \<and> mp_id f = mp_id g
      | _ \<Rightarrow> False)"

definition closure :: "mapper_fun \<Rightarrow> mapper" where
  "closure f = \<lparr>mp_id = Closure, mp_run = f\<rparr>"

definition wrap_into_list :: mapper where
  "wrap_into_list = \<lparr>mp_id = WrapIntoList, mp_run = (\<lambda>x _. Inr (VList [x]))\<rparr>"

fun into_list :: "yvalue \<Rightarrow> yvalue list" where
  "into_list (VList xs) = xs"
| "into_list x = [x]"

definition normalize_into_list :: mapper where
  "normalize_into_list = \<lparr>mp_id = NormalizeIntoList, mp_run = (\<lambda>x _. Inr (VList (into_list x)))\<rparr>"

fun elements :: "yvalue \<Rightarrow> yvalue list res" where
  "elements (VList xs) = Inr xs"
| "elements (VDict kvs) = Inr (map fst kvs)"
| "elements (VStr s) = Inr (map (\<lambda>c. VStr [c]) s)"
| "elements _ = Inl TypeErr"

definition map_list :: "mapper_fun \<Rightarrow> mapper_fun" where
  "map_list f xs c = rbind (elements xs) (\<lambda>l. rmap VList (rmapM (\<lambda>x. f x c) l))"

definition map_each_element :: "mapper \<Rightarrow> mapper" where
  "map_each_element m = closure (map_list (mp_run m))"

subsection \<open>Type handlers\<close>

record type_handler =
  ah_ensure_type :: "yvalue \<Rightarrow> unit res"
  ah_base_type :: "base_type option"
  ah_mapper :: "mapper option"

definition base_type_match :: "type_handler \<Rightarrow> yvalue \<Rightarrow> bool" where
  "base_type_match h v = (case ah_base_type h of None \<Rightarrow> False | Some b \<Rightarrow> isinstance_base v b)"

definition map_type :: "type_handler \<Rightarrow> mapper_fun" where
  "map_type h v c = (case ah_mapper h of None \<Rightarrow> Inr v | Some m \<Rightarrow> mp_run m v c)"

definition combine_mapper :: "type_handler \<Rightarrow> mapper option \<Rightarrow> type_handler" where
  "combine_mapper h mo =
     (case mo of
        None \<Rightarrow> h
      | Some f \<Rightarrow>
          (case ah_mapper h of
             None \<Rightarrow> h\<lparr>ah_mapper := Some f\<rparr>
           | Some m \<Rightarrow> h\<lparr>ah_mapper := Some (closure (\<lambda>v c. rbind (mp_run m v c) (\<lambda>w. mp_run f w c)))\<rparr>))"

definition type_check :: "bool \<Rightarrow> unit res" where
  "type_check b = rguard b ManifestParseError"

definition check_all :: "(yvalue \<Rightarrow> unit res) \<Rightarrow> yvalue list \<Rightarrow> unit res" where
  "check_all f vs = rmap (\<lambda>_. ()) (rmapM f vs)"

subsection \<open>The generator\<close>

record type_mapping =
  tmap_source_type :: ptype
  tmap_mapper :: mapper_fun

text \<open>The registered types by the name of their class, \<^verbatim>\<open>issubclass\<close>, and the parsers of the dispatchable types.\<close>

record parser_generator =
  pg_registered_types :: "(string \<times> type_mapping) list"
  pg_subclass :: "string \<Rightarrow> string \<Rightarrow> bool"
  pg_table_parsers :: "(string \<times> mapper_fun) list"

definition registered :: "parser_generator \<Rightarrow> ptype \<Rightarrow> (string \<times> type_mapping) option" where
  "registered pg t =
     (case t of TClass c \<Rightarrow> map_option (Pair c) (map_of (pg_registered_types pg) c) | _ \<Rightarrow> None)"

definition register_mapped_type :: "string \<Rightarrow> type_mapping \<Rightarrow> parser_generator \<Rightarrow> parser_generator res" where
  "register_mapped_type c m pg =
     (if map_of (pg_registered_types pg) c \<noteq> None then Inl ValueError
      else Inr (pg\<lparr>pg_registered_types := pg_registered_types pg @ [(c, m)]\<rparr>))"

definition discard_mapped_type :: "string \<Rightarrow> parser_generator \<Rightarrow> parser_generator res" where
  "discard_mapped_type c pg =
     (if map_of (pg_registered_types pg) c = None then Inl KeyError
      else Inr (pg\<lparr>pg_registered_types := AList.delete c (pg_registered_types pg)\<rparr>))"

definition registered_mapper :: "string \<times> type_mapping \<Rightarrow> mapper" where
  "registered_mapper cm = \<lparr>mp_id = RegisteredMapper (fst cm), mp_run = tmap_mapper (snd cm)\<rparr>"

text \<open>\<^verbatim>\<open>isinstance(x, target_arg)\<close> for a class\<close>

definition isinstance_class :: "parser_generator \<Rightarrow> yvalue \<Rightarrow> ptype \<Rightarrow> bool" where
  "isinstance_class pg v t =
     (case (v, t) of (VObj d _, TClass c) \<Rightarrow> pg_subclass pg d c | _ \<Rightarrow> False)"

lemma get_args_smaller: "a \<in> set (get_args t) \<Longrightarrow> size a < size t"
  by (cases t) (auto simp: less_Suc_eq_le intro: le_SucI dest: size_list_estimation'[OF _ order_refl])

lemma strip_required_size: "size (strip_required t) \<le> size t"
  by (induction t rule: strip_required.induct) auto

definition first_arg :: "ptype \<Rightarrow> ptype res" where
  "first_arg t = (case get_args t of [] \<Rightarrow> Inl IndexError | a # _ \<Rightarrow> Inr a)"

text \<open>\<^verbatim>\<open>_strip_mapped_types\<close>: the type that the packager writes for it.\<close>

function strip_mapped_types :: "parser_generator \<Rightarrow> bool \<Rightarrow> ptype \<Rightarrow> ptype res" where
  "strip_mapped_types pg parsing t =
     (case registered pg t of
        Some (_, m) \<Rightarrow> Inr (tmap_source_type m)
      | None \<Rightarrow>
          rbind (unpack_type t parsing) (\<lambda>u.
            if get_origin u = Some OList then
              rbind (first_arg u) (\<lambda>arg.
                case registered pg arg of Some (_, m) \<Rightarrow> Inr (TList [tmap_source_type m]) | None \<Rightarrow> Inr t)
            else if get_origin u = Some OUnion then
              rmap (\<lambda>stripped. if list_all2 ty_eq stripped (get_args (strip_required t)) then t else mk_union stripped)
                (rmapM (strip_mapped_types pg parsing) (get_args (strip_required t)))
            else Inr t))"
  by pat_completeness auto

termination
proof (relation "measure (\<lambda>(pg, parsing, t). size t)")
  fix pg parsing t u x
  assume "x \<in> set (get_args (strip_required t))"
  then show "((pg, parsing, x), pg, parsing, t) \<in> measure (\<lambda>(pg, parsing, t). size t)"
    using get_args_smaller[of x "strip_required t"] strip_required_size[of t] by simp
qed simp

declare strip_mapped_types.simps [simp del]

text \<open>\<^verbatim>\<open>_union_narrowing\<close>\<close>

definition union_narrowing :: "parser_generator \<Rightarrow> ptype \<Rightarrow> ptype \<Rightarrow> bool \<Rightarrow> mapper option res" where
  "union_narrowing pg input_type target_type parsing =
     rbind (unpack_type input_type parsing) (\<lambda>i.
     rbind (unpack_type target_type parsing) (\<lambda>t.
     let input_args = get_args i; target_args = get_args t in
     if get_origin i \<noteq> Some OUnion \<or> input_args = [] then Inl ValueError
     else if get_origin t \<notin> {Some OUnion, Some OList} \<or> target_args = [] then Inr None
     else if get_origin t = Some OUnion \<and> ty_eq (TUnion input_args) (TUnion target_args) then Inr None
     else if get_origin t = Some OList \<and> \<not> list_ex (\<lambda>a. get_origin a = Some OList) input_args then Inr None
     else
       let target_arg = hd target_args in
       rbind (strip_mapped_types pg parsing target_arg) (\<lambda>simplified_type.
       let in_target_format = (\<lambda>a. ty_eq a target_arg \<or> ty_eq a (TList [target_arg]));
           acceptable = (\<lambda>a. in_target_format a \<or> ty_eq a simplified_type \<or> ty_eq a (TList [simplified_type]))
       in
       if \<not> list_all acceptable input_args then Inr None
       else if list_all in_target_format input_args then Inr (Some normalize_into_list)
       else
         (case registered pg target_arg of
            None \<Rightarrow> Inl KeyError
          | Some (_, mapped) \<Rightarrow>
              if \<not> list_ex in_target_format input_args then
                Inr (Some (closure (\<lambda>x c. map_list (tmap_mapper mapped) (VList (into_list x)) c)))
              else
                Inr (Some (closure (\<lambda>x c. map_list
                  (\<lambda>y c. if isinstance_class pg y target_arg then Inr y else tmap_mapper mapped y c)
                  (VList (into_list x)) c)))))))"

text \<open>\<^verbatim>\<open>_type_normalize\<close>: how a value of the input type becomes one of the target type.\<close>

definition registered_normalize :: "parser_generator \<Rightarrow> ptype \<Rightarrow> ptype \<Rightarrow> ptype \<Rightarrow> ptype \<Rightarrow> mapper option res" where
  "registered_normalize pg input_type target_type i t =
     (case (case registered pg target_type of
              Some cm \<Rightarrow> if ty_eq input_type (tmap_source_type (snd cm)) then Some (registered_mapper cm) else None
            | None \<Rightarrow> None) of
        Some m \<Rightarrow> Inr (Some m)
      | None \<Rightarrow>
          if get_origin t = Some OList \<and> get_args t \<noteq> [] then
            (case registered pg (hd (get_args t)) of
               Some (_, mapped) \<Rightarrow>
                 if ty_eq input_type (tmap_source_type mapped) then
                   Inr (Some (closure (\<lambda>x c. rmap (\<lambda>y. VList [y]) (tmap_mapper mapped x c))))
                 else if get_origin i = Some OList \<and> get_args i \<noteq> []
                         \<and> ty_eq (hd (get_args i)) (tmap_source_type mapped) then
                   Inr (Some (closure (map_list (tmap_mapper mapped))))
                 else Inl ValueError
             | None \<Rightarrow> Inl ValueError)
          else Inl ValueError)"

definition type_normalize :: "parser_generator \<Rightarrow> ptype \<Rightarrow> ptype \<Rightarrow> bool \<Rightarrow> mapper option res" where
  "type_normalize pg input_type target_type parsing =
     (if ty_eq input_type target_type then Inr None
      else
        rbind (unpack_type input_type parsing) (\<lambda>i.
        rbind (unpack_type target_type parsing) (\<lambda>t.
        if get_origin i = Some OUnion then
          rbind (union_narrowing pg input_type target_type parsing) (\<lambda>r.
            case r of Some m \<Rightarrow> Inr (Some m) | None \<Rightarrow> registered_normalize pg input_type target_type i t)
        else if get_origin t = Some OList then
          rbind (first_arg t) (\<lambda>arg.
            if ty_eq arg input_type then Inr (Some wrap_into_list)
            else registered_normalize pg input_type target_type i t)
        else registered_normalize pg input_type target_type i t)))"


subsection \<open>Attributes and parsers\<close>

record attribute_description =
  ad_source_attribute_name :: string
  ad_target_attribute :: string
  ad_attribute_type :: ptype
  ad_type_validator :: type_handler
  ad_conflicting_attributes :: "string list"
  ad_conditional_required :: "condition option"

type_synonym attributes = "(string \<times> attribute_description) list"

definition check_integration_mode :: "parser_context option \<Rightarrow> string list option \<Rightarrow> unit res" where
  "check_integration_mode ctx modes =
     (case modes of
        None \<Rightarrow> Inr ()
      | Some ms \<Rightarrow>
          (case ctx of
             None \<Rightarrow> Inl AssertionErr
           | Some c \<Rightarrow> rguard (cx_integration_mode c \<in> set ms) ManifestParseError))"

text \<open>A value given without a mapping: the attribute that it is for, with the mapped value.\<close>

definition parse_alternative :: "attribute_description \<Rightarrow> mapper_fun" where
  "parse_alternative alt v ctx =
     rbind (ah_ensure_type (ad_type_validator alt) v) (\<lambda>_.
     rbind (map_type (ad_type_validator alt) v ctx) (\<lambda>w.
       Inr (VDict [(VStr (ad_target_attribute alt), w)])))"

record mapping_parser =
  mi_required_parameters :: "string list"
  mi_all_parameters :: "string list"
  mi_manifest_attributes :: attributes
  mi_source_attributes :: attributes
  mi_at_least_one_of :: "string list list"
  mi_alt_form_parser :: "attribute_description option"
  mi_mutually_exclusive :: "string list list"
  mi_integration_mode :: "string list option"

definition has_key :: "(yvalue \<times> yvalue) list \<Rightarrow> string \<Rightarrow> bool" where
  "has_key kvs k \<longleftrightarrow> VStr k \<in> fst ` set kvs"

definition attribute_of :: "attributes \<Rightarrow> yvalue \<Rightarrow> attribute_description res" where
  "attribute_of attrs k =
     (case k of VStr s \<Rightarrow> (case map_of attrs s of None \<Rightarrow> Inl KeyError | Some a \<Rightarrow> Inr a) | _ \<Rightarrow> Inl KeyError)"

definition conditionally_missing :: "attributes \<Rightarrow> parser_context option \<Rightarrow> string \<Rightarrow> unit res" where
  "conditionally_missing attrs ctx maybe_required =
     rbind (attribute_of attrs (VStr maybe_required)) (\<lambda>attr.
       case ad_conditional_required attr of
         None \<Rightarrow> Inr ()
       | Some cond \<Rightarrow>
           (case ctx of
              None \<Rightarrow> Inl AssertionErr
            | Some c \<Rightarrow> type_check (\<not> condition_applies cond (cx_package_types c))))"

definition validate_expected_keys ::
    "mapping_parser \<Rightarrow> (yvalue \<times> yvalue) list \<Rightarrow> parser_context option \<Rightarrow> unit res" where
  "validate_expected_keys mp kvs ctx =
     (if \<not> fst ` set kvs \<subseteq> VStr ` set (mi_all_parameters mp) then Inl ManifestParseError
      else if \<not> list_all (has_key kvs) (mi_required_parameters mp) then Inl ManifestParseError
      else
        rbind (rmapM (conditionally_missing (mi_manifest_attributes mp) ctx)
                 (filter (\<lambda>k. \<not> has_key kvs k) (mi_all_parameters mp))) (\<lambda>_.
        if \<not> list_all (list_ex (has_key kvs)) (mi_at_least_one_of mp) then Inl ManifestParseError
        else
          type_check (list_all (\<lambda>group. card (set (filter (has_key kvs) group)) \<le> 1) (mi_mutually_exclusive mp))))"

definition per_attribute_conflicts :: "mapping_parser \<Rightarrow> (string \<times> string list) list res" where
  "per_attribute_conflicts mp =
     rmapM (\<lambda>(_, a). rmap (\<lambda>cs. (ad_source_attribute_name a, cs))
              (rmapM (\<lambda>ca. rmap ad_source_attribute_name (attribute_of (mi_source_attributes mp) (VStr ca)))
                 (ad_conflicting_attributes a)))
       (mi_source_attributes mp)"

text \<open>One key and its value; the result is built up in the order of the keys.\<close>

definition parse_attribute ::
    "mapping_parser \<Rightarrow> (string \<times> string list) list \<Rightarrow> (yvalue \<times> yvalue) list \<Rightarrow> parser_context option \<Rightarrow>
     yvalue \<times> yvalue \<Rightarrow> (yvalue \<times> yvalue) list \<Rightarrow> (yvalue \<times> yvalue) list res" where
  "parse_attribute mp conflicts kvs ctx kv result =
     (case kv of (k, v) \<Rightarrow>
        rbind (attribute_of (mi_manifest_attributes mp) k) (\<lambda>attr.
        rbind (case map_of (map (\<lambda>(a, cs). (VStr a, cs)) conflicts) k of None \<Rightarrow> Inl KeyError | Some cs \<Rightarrow> Inr cs) (\<lambda>cs.
        if list_ex (has_key kvs) cs then Inl ManifestParseError
        else
          rbind (ah_ensure_type (ad_type_validator attr) v) (\<lambda>_.
          if v = VNone then Inr result
          else
            rmap (\<lambda>w. AList.update (VStr (ad_target_attribute attr)) w result)
              (map_type (ad_type_validator attr) v ctx)))))"

definition parse_typed_dict_form :: "mapping_parser \<Rightarrow> (yvalue \<times> yvalue) list \<Rightarrow> parser_context option \<Rightarrow> yvalue res" where
  "parse_typed_dict_form mp kvs ctx =
     rbind (validate_expected_keys mp kvs ctx) (\<lambda>_.
     rbind (per_attribute_conflicts mp) (\<lambda>conflicts.
       rmap VDict (rfold (parse_attribute mp conflicts kvs ctx) kvs [])))"

text \<open>The classes of parsers with their \<^verbatim>\<open>parse_input\<close>.\<close>

datatype input_parser =
    DeclarativeMapping mapping_parser
  | DeclarativeNonMapping attribute_description "string list option"
  | ListWrapped input_parser "string list option"
  | DispatchingTable mapper_fun

definition parse_mapping :: "mapping_parser \<Rightarrow> mapper_fun" where
  "parse_mapping mp v ctx =
     rbind (check_integration_mode ctx (mi_integration_mode mp)) (\<lambda>_.
       case v of
         VNone \<Rightarrow> Inl ManifestParseError
       | VDict kvs \<Rightarrow> parse_typed_dict_form mp kvs ctx
       | _ \<Rightarrow>
           (case mi_alt_form_parser mp of
              None \<Rightarrow> Inl ManifestParseError
            | Some alt \<Rightarrow> parse_alternative alt v ctx))"

definition parse_non_mapping :: "attribute_description \<Rightarrow> string list option \<Rightarrow> mapper_fun" where
  "parse_non_mapping alt modes v ctx =
     rbind (check_integration_mode ctx modes) (\<lambda>_.
       if v = VNone then Inl ManifestParseError else parse_alternative alt v ctx)"

fun parse_input :: "input_parser \<Rightarrow> mapper_fun" where
  "parse_input (DeclarativeMapping mp) v ctx = parse_mapping mp v ctx"
| "parse_input (DeclarativeNonMapping alt modes) v ctx = parse_non_mapping alt modes v ctx"
| "parse_input (ListWrapped delegate modes) v ctx =
     rbind (check_integration_mode ctx modes) (\<lambda>_.
       case v of
         VList xs \<Rightarrow> rmap VList (rmapM (\<lambda>x. parse_input delegate x ctx) xs)
       | _ \<Rightarrow> Inl ManifestParseError)"
| "parse_input (DispatchingTable f) v ctx = f v ctx"

subsection \<open>Generating a parser\<close>

text \<open>The \<open>validator\<close> is \<^verbatim>\<open>self._as_type_validator\<close>, which needs the generator itself for a nested \<^verbatim>\<open>TypedDict\<close>.\<close>

definition attribute_description_of ::
    "(ptype \<Rightarrow> type_handler res) \<Rightarrow> bool \<Rightarrow> bool \<Rightarrow> bool \<Rightarrow> string \<times> bool \<times> ptype \<Rightarrow>
     (string \<times> attribute_description) res" where
  "attribute_description_of validator forbid_optional allow_target allow_source attr =
     (case attr of (attribute, is_required, orig_td) \<Rightarrow>
        rbind (parse_type orig_td forbid_optional True) (\<lambda>(td, anno).
        rbind (validator td) (\<lambda>type_validator.
        rbind (parse_annotations anno (Some attribute) is_required None allow_target allow_source) (\<lambda>hint.
          Inr (attribute,
            \<lparr>ad_source_attribute_name = the (ph_source_manifest_attribute hint),
             ad_target_attribute = ph_target_attribute hint, ad_attribute_type = td,
             ad_type_validator = type_validator,
             ad_conflicting_attributes = ph_conflict_with_source_attributes hint,
             ad_conditional_required = ph_conditional_required hint\<rparr>)))))"

definition parse_types ::
    "(ptype \<Rightarrow> type_handler res) \<Rightarrow> bool \<Rightarrow> bool \<Rightarrow> bool \<Rightarrow> typed_dict \<Rightarrow> attributes res" where
  "parse_types validator forbid_optional allow_target allow_source spec =
     rmapM (attribute_description_of validator forbid_optional allow_target allow_source) spec"

text \<open>\<^verbatim>\<open>_parse_alt_form\<close>\<close>

definition parse_alt_form ::
    "(ptype \<Rightarrow> type_handler res) \<Rightarrow> ptype \<Rightarrow> string option \<Rightarrow> attribute_description res" where
  "parse_alt_form validator alt_form default_target_attribute =
     rbind (parse_type alt_form True False) (\<lambda>(td, anno).
     rbind (validator td) (\<lambda>type_validator.
     rbind (parse_annotations anno None False default_target_attribute True False) (\<lambda>hint.
       Inr \<lparr>ad_source_attribute_name = ''Alt form of the source_format'',
            ad_target_attribute = ph_target_attribute hint, ad_attribute_type = td,
            ad_type_validator = type_validator,
            ad_conflicting_attributes = ph_conflict_with_source_attributes hint,
            ad_conditional_required = ph_conditional_required hint\<rparr>)))"

definition required_keys :: "typed_dict \<Rightarrow> string list" where
  "required_keys spec = map fst (filter (\<lambda>(_, r, _). r) spec)"

text \<open>\<^verbatim>\<open>_extract_typed_dict\<close>; the alternative is the type with its annotations.\<close>

definition extract_typed_dict :: "ptype \<Rightarrow> string option \<Rightarrow> (ptype option \<times> ptype option) res" where
  "extract_typed_dict base_type default_target_attribute =
     (if is_typeddict base_type then Inr (Some base_type, None)
      else
        rbind (unpack_type base_type False) (\<lambda>u.
        if get_origin u \<noteq> Some OUnion then Inr (None, Some base_type)
        else
          let args = get_args u; typed_dicts = filter is_typeddict args;
              remaining = filter (\<lambda>t. \<not> is_typeddict t) args in
          if length typed_dicts > 1 then Inl ValueError
          else if TNone \<in> set args then Inl ValueError
          else
            rbind (case remaining of
                     [t] \<Rightarrow> parse_type t True False
                   | _ \<Rightarrow> if remaining = [] then Inl TypeErr else Inr (mk_union remaining, [])) (\<lambda>(target_type, anno).
            if default_target_attribute = None \<and> \<not> list_ex (\<lambda>a. the_target_attribute a \<noteq> None) anno then Inl ValueError
            else Inr (case typed_dicts of [] \<Rightarrow> None | d # _ \<Rightarrow> Some d,
                   Some (if anno = [] then target_type else TAnnotated target_type anno)))))"

text \<open>What the loop over the source attributes collects.\<close>

record sources_state =
  ss_seen_source_names :: "(string \<times> string) list"
  ss_seen_targets :: "string list"
  ss_sources :: "(string \<times> string list) list"
  ss_attributes :: attributes

definition add_source ::
    "parser_generator \<Rightarrow> bool \<Rightarrow> attributes \<Rightarrow> string \<times> attribute_description \<Rightarrow> sources_state \<Rightarrow> sources_state res" where
  "add_source pg source_and_parsed_differs target_attributes kia st =
     (case kia of (k, ia) \<Rightarrow>
        case (if source_and_parsed_differs then map_of target_attributes (ad_target_attribute ia) else Some ia) of
          None \<Rightarrow> Inl ValueError
        | Some ta \<Rightarrow>
            if map_of (ss_seen_source_names st) (ad_source_attribute_name ia) \<notin> {None, Some []} then Inl ValueError
            else
              rbind (if source_and_parsed_differs
                     then type_normalize pg (ad_attribute_type ia) (ad_attribute_type ta) False else Inr None) (\<lambda>bridge_mapper.
              let old = (case map_of (ss_sources st) (ad_target_attribute ia) of None \<Rightarrow> [] | Some ks \<Rightarrow> ks) in
              Inr \<lparr>ss_seen_source_names = AList.update (ad_source_attribute_name ia) k (ss_seen_source_names st),
                   ss_seen_targets = ss_seen_targets st @ [ad_target_attribute ta],
                   ss_sources = AList.update (ad_target_attribute ia) (old @ [k]) (ss_sources st),
                   ss_attributes = ss_attributes st
                     @ [(k, ia\<lparr>ad_type_validator := combine_mapper (ad_type_validator ia) bridge_mapper\<rparr>)]\<rparr>))"

definition check_attribute ::
    "typed_dict \<Rightarrow> typed_dict \<Rightarrow> attributes \<Rightarrow> (string \<times> string list) list \<Rightarrow> string \<Rightarrow> unit res" where
  "check_attribute content input_content attrs sources input_name =
     rbind (attribute_of attrs (VStr input_name)) (\<lambda>attr.
       let target_name = ad_target_attribute attr;
           source_names = (case map_of sources target_name of None \<Rightarrow> [] | Some ks \<Rightarrow> ks);
           input_is_required = input_name \<in> set (required_keys input_content);
           target_is_required = target_name \<in> set (required_keys content)
       in
       if source_names = [] then Inl AssertionErr
       else if input_is_required \<and> length source_names > 1 then Inl ValueError
       else if \<not> input_is_required \<and> target_is_required \<and> length source_names = 1 then Inl ValueError
       else Inr ())"

text \<open>\<^verbatim>\<open>_check_conflicts\<close> for one attribute\<close>

definition check_conflict :: "string list \<Rightarrow> string list \<Rightarrow> string \<times> attribute_description \<Rightarrow> unit res" where
  "check_conflict required_attributes all_attributes kattr =
     (case kattr of (attr_name, attr) \<Rightarrow>
        let conflicts = ad_conflicting_attributes attr in
        if attr_name \<in> set required_attributes \<and> conflicts \<noteq> [] then Inl ValueError
        else if set conflicts \<inter> set required_attributes \<noteq> {} then Inl ValueError
        else rguard (set conflicts \<subseteq> set all_attributes) ValueError)"

definition as_attr_names :: "attributes \<Rightarrow> string list \<Rightarrow> string list" where
  "as_attr_names attrs ks = List.map_filter (\<lambda>k. map_option ad_source_attribute_name (map_of attrs k)) ks"

text \<open>The alternative form has to be for the one required attribute, if there is one.\<close>

definition bridge_alt_form ::
    "parser_generator \<Rightarrow> string list \<Rightarrow> attributes \<Rightarrow> attribute_description \<Rightarrow> attribute_description res" where
  "bridge_alt_form pg required target_attributes alt =
     (if (ad_target_attribute alt \<notin> set required \<and> required \<noteq> []) \<or> length required > 1 then Inl NotImplementedErr
      else
        rbind (attribute_of target_attributes (VStr (ad_target_attribute alt))) (\<lambda>ta.
        rbind (type_normalize pg (ad_attribute_type alt) (ad_attribute_type ta) False) (\<lambda>bridge_mapper.
          Inr (alt\<lparr>ad_type_validator := combine_mapper (ad_type_validator alt) bridge_mapper\<rparr>))))"


text \<open>Both \<^verbatim>\<open>TypedDict\<close>s, their attributes and the alternative form.\<close>

record parser_source =
  ps_typed_dict :: typed_dict
  ps_attributes :: attributes
  ps_alt_form :: "attribute_description option"
  ps_differs :: bool
  ps_non_mapping :: bool

definition fields_of :: "ptype \<Rightarrow> typed_dict" where
  "fields_of t = (case t of TTyped _ fs \<Rightarrow> fs | _ \<Rightarrow> [])"

text \<open>The only required attribute is the default target.\<close>

definition default_target :: "typed_dict \<Rightarrow> string option" where
  "default_target content = (case required_keys content of [k] \<Rightarrow> Some k | _ \<Rightarrow> None)"

definition source_of ::
    "(ptype \<Rightarrow> type_handler res) \<Rightarrow> bool \<Rightarrow> typed_dict \<Rightarrow> attributes \<Rightarrow> ptype option \<Rightarrow> parser_source res" where
  "source_of validator allow_optional content target_attributes source_content =
     (case source_content of
        None \<Rightarrow> Inr \<lparr>ps_typed_dict = content, ps_attributes = target_attributes, ps_alt_form = None,
                     ps_differs = False, ps_non_mapping = False\<rparr>
      | Some source \<Rightarrow>
          rbind (extract_typed_dict source (default_target content)) (\<lambda>(source_typed_dict, alt_source_forms).
          rbind (case alt_source_forms of
                   None \<Rightarrow> Inr None
                 | Some alt \<Rightarrow> rmap Some (parse_alt_form validator alt (default_target content))) (\<lambda>parsed_alt_form.
            case source_typed_dict of
              None \<Rightarrow> Inr \<lparr>ps_typed_dict = content, ps_attributes = target_attributes, ps_alt_form = parsed_alt_form,
                           ps_differs = True, ps_non_mapping = True\<rparr>
            | Some d \<Rightarrow>
                rmap (\<lambda>attrs. \<lparr>ps_typed_dict = fields_of d, ps_attributes = attrs, ps_alt_form = parsed_alt_form,
                               ps_differs = True, ps_non_mapping = False\<rparr>)
                  (parse_types validator (\<not> allow_optional) True True (fields_of d)))))"

text \<open>Attributes with several sources need one of them if they are required, and never take two.\<close>

definition mapping_parser_of ::
    "typed_dict \<Rightarrow> parser_source \<Rightarrow> sources_state \<Rightarrow> attribute_description option \<Rightarrow> string list option \<Rightarrow> mapping_parser" where
  "mapping_parser_of content source st alt_form modes =
     (let attrs = ss_attributes st; typed = ps_typed_dict source;
          groups = filter (\<lambda>(_, g). length g > 1) (ss_sources st) in
      \<lparr>mi_required_parameters = as_attr_names attrs (required_keys typed),
       mi_all_parameters = as_attr_names attrs (map fst typed),
       mi_manifest_attributes = map (\<lambda>(_, a). (ad_source_attribute_name a, a)) attrs,
       mi_source_attributes = attrs,
       mi_at_least_one_of =
         map (\<lambda>(_, g). as_attr_names attrs g) (filter (\<lambda>(k, _). k \<in> set (required_keys content)) groups),
       mi_alt_form_parser = alt_form,
       mi_mutually_exclusive = map (\<lambda>(_, g). as_attr_names attrs g) groups,
       mi_integration_mode = modes\<rparr>)"

text \<open>The parser for a \<^verbatim>\<open>TypedDict\<close>, once its attributes are known.\<close>

definition assemble_parser ::
    "parser_generator \<Rightarrow> typed_dict \<Rightarrow> attributes \<Rightarrow> parser_source \<Rightarrow> string list option \<Rightarrow> input_parser res" where
  "assemble_parser pg content target_attributes source modes =
     (let required = required_keys content; typed = ps_typed_dict source in
      rbind (rfold (add_source pg (ps_differs source) target_attributes) (ps_attributes source)
               \<lparr>ss_seen_source_names = [], ss_seen_targets = [], ss_sources = [], ss_attributes = []\<rparr>) (\<lambda>st.
      let attrs = ss_attributes st; sources = ss_sources st in
      rbind (rmapM (check_attribute content typed attrs sources) (map fst typed)) (\<lambda>_.
      if ps_differs source \<and> set (ss_seen_targets st) \<noteq> fst ` set target_attributes then Inl ValueError
      else
        rbind (rmapM (check_conflict (required_keys typed) (map fst typed)) attrs) (\<lambda>_.
        rbind (case ps_alt_form source of
                 None \<Rightarrow> Inr None
               | Some alt \<Rightarrow> rmap Some (bridge_alt_form pg required target_attributes alt)) (\<lambda>alt_form.
          if ps_non_mapping source then
            (case alt_form of None \<Rightarrow> Inl AssertionErr | Some alt \<Rightarrow> Inr (DeclarativeNonMapping alt modes))
          else
            Inr (DeclarativeMapping (mapping_parser_of content source st alt_form modes)))))))"

definition generate_typed_parser ::
    "(ptype \<Rightarrow> type_handler res) \<Rightarrow> parser_generator \<Rightarrow> typed_dict \<Rightarrow> ptype option \<Rightarrow> bool \<Rightarrow> string list option \<Rightarrow>
     input_parser res" where
  "generate_typed_parser validator pg content source_content allow_optional modes =
     rbind (parse_types validator (\<not> allow_optional) False (source_content = None) content) (\<lambda>target_attributes.
     rbind (source_of validator allow_optional content target_attributes source_content) (\<lambda>source.
       assemble_parser pg content target_attributes source modes))"

text \<open>A type that is no class has no \<^verbatim>\<open>__qualname__\<close> for the error message.\<close>

definition unsupported_content :: "ptype \<Rightarrow> exn" where
  "unsupported_content t =
     (if get_origin t = None \<and> (case t of TLiteral _ \<Rightarrow> False | _ \<Rightarrow> True) then ValueError else AttributeErr)"

definition generate_parser ::
    "(ptype \<Rightarrow> type_handler res) \<Rightarrow> parser_generator \<Rightarrow> ptype \<Rightarrow> ptype option \<Rightarrow> bool \<Rightarrow> string list option \<Rightarrow>
     input_parser res" where
  "generate_parser validator pg orig_parsed_content source_content allow_optional modes =
     (if (case source_content of None \<Rightarrow> False | Some s \<Rightarrow> ty_eq s orig_parsed_content) then Inl ValueError
      else
        let is_list_wrapped = (get_origin orig_parsed_content = Some OList) in
        rbind (if is_list_wrapped then first_arg orig_parsed_content else Inr orig_parsed_content) (\<lambda>parsed_content.
        case parsed_content of
          TDispatch c \<Rightarrow>
            (case map_of (pg_table_parsers pg) c of
               None \<Rightarrow> Inl ValueError
             | Some f \<Rightarrow>
                 Inr (if is_list_wrapped then ListWrapped (DispatchingTable f) modes else DispatchingTable f))
        | TTyped _ content \<Rightarrow>
            rbind (case source_content of
                     None \<Rightarrow> Inr None
                   | Some s \<Rightarrow>
                       if \<not> is_list_wrapped then Inr (Some s)
                       else if get_origin s \<noteq> Some OList then Inl ValueError
                       else rmap Some (first_arg s)) (\<lambda>source.
            rmap (\<lambda>p. if is_list_wrapped then ListWrapped p modes else p)
              (generate_typed_parser validator pg content source allow_optional modes))
        | _ \<Rightarrow> Inl (unsupported_content parsed_content)))"

subsection \<open>Type validators\<close>

text \<open>The handlers of the branches of \<^verbatim>\<open>_as_type_validator\<close>.\<close>

definition dispatch_handler :: "string \<Rightarrow> type_handler" where
  "dispatch_handler c =
     \<lparr>ah_ensure_type = (\<lambda>_. Inr ()), ah_base_type = None,
      ah_mapper = Some (closure (\<lambda>v ctx. case ctx of None \<Rightarrow> Inl AssertionErr | Some cx \<Rightarrow> cx_dispatch cx c v))\<rparr>"

definition optional_handler :: "type_handler \<Rightarrow> mapper option \<Rightarrow> type_handler" where
  "optional_handler validator normalizer =
     \<lparr>ah_ensure_type = (\<lambda>v. if v = VNone then Inr () else ah_ensure_type validator v),
      ah_base_type = ah_base_type validator, ah_mapper = normalizer\<rparr>"

definition basic_type :: "ptype \<Rightarrow> base_type option" where
  "basic_type t = (case t of TStr \<Rightarrow> Some BStr | TInt \<Rightarrow> Some BInt | TBool \<Rightarrow> Some BBool | _ \<Rightarrow> None)"

definition basic_handler :: "base_type \<Rightarrow> mapper option \<Rightarrow> type_handler" where
  "basic_handler b normalizer =
     \<lparr>ah_ensure_type = (\<lambda>v. type_check (isinstance_base v b)), ah_base_type = Some b, ah_mapper = normalizer\<rparr>"

definition list_handler :: "type_handler \<Rightarrow> mapper option \<Rightarrow> type_handler" where
  "list_handler key_mapper normalizer =
     combine_mapper
       \<lparr>ah_ensure_type = (\<lambda>v. case v of VList xs \<Rightarrow> check_all (ah_ensure_type key_mapper) xs | _ \<Rightarrow> Inl ManifestParseError),
        ah_base_type = Some BList, ah_mapper = normalizer\<rparr>
       (map_option map_each_element (ah_mapper key_mapper))"

definition typed_dict_handler :: "input_parser \<Rightarrow> type_handler" where
  "typed_dict_handler subparser =
     \<lparr>ah_ensure_type = (\<lambda>_. Inr ()), ah_base_type = Some BDict, ah_mapper = Some (closure (parse_input subparser))\<rparr>"

definition dict_handler :: "type_handler \<Rightarrow> type_handler \<Rightarrow> mapper option \<Rightarrow> type_handler" where
  "dict_handler key_mapper value_mapper normalizer =
     combine_mapper
       \<lparr>ah_ensure_type = (\<lambda>uv. case uv of
            VDict kvs \<Rightarrow>
              rmap (\<lambda>_. ()) (rmapM (\<lambda>(k, v). rbind (type_check (base_type_match key_mapper k))
                                           (\<lambda>_. ah_ensure_type value_mapper v)) kvs)
          | _ \<Rightarrow> Inl ManifestParseError),
        ah_base_type = Some BDict, ah_mapper = normalizer\<rparr>
       (ah_mapper key_mapper)"

definition x_list_x_handler :: "type_handler \<Rightarrow> type_handler \<Rightarrow> mapper option \<Rightarrow> type_handler" where
  "x_list_x_handler x_checker list_x_checker normalizer =
     \<lparr>ah_ensure_type = (\<lambda>v. case v of VList _ \<Rightarrow> ah_ensure_type list_x_checker v | _ \<Rightarrow> ah_ensure_type x_checker v),
      ah_base_type = None, ah_mapper = normalizer\<rparr>"

fun ensure_one_of :: "type_handler list \<Rightarrow> yvalue \<Rightarrow> unit res" where
  "ensure_one_of [] v = Inl ManifestParseError"
| "ensure_one_of (sc # scs) v =
     (case ah_ensure_type sc v of
        Inr () \<Rightarrow> Inr ()
      | Inl e \<Rightarrow> if e = ManifestParseError then ensure_one_of scs v else Inl e)"

definition union_handler :: "type_handler list \<Rightarrow> mapper option \<Rightarrow> type_handler res" where
  "union_handler subtype_checker normalizer =
     (case subtype_checker of
        [] \<Rightarrow> Inl IndexError
      | sc # scs \<Rightarrow>
          if list_ex (\<lambda>s. \<not> same_mapper (ah_mapper sc) (ah_mapper s)) scs then Inl ValueError
          else Inr \<lparr>ah_ensure_type = ensure_one_of subtype_checker, ah_base_type = None, ah_mapper = normalizer\<rparr>)"

definition literal_handler :: "yvalue list \<Rightarrow> type_handler" where
  "literal_handler vs =
     \<lparr>ah_ensure_type = (\<lambda>v. type_check (list_ex (py_eq v) vs)), ah_base_type = None, ah_mapper = None\<rparr>"

definition any_handler :: type_handler where
  "any_handler = \<lparr>ah_ensure_type = (\<lambda>_. Inr ()), ah_base_type = None, ah_mapper = None\<rparr>"

text \<open>The kinds of unions: optional, \<^verbatim>\<open>X | List[X]\<close>, any other.\<close>

definition union_validator ::
    "(ptype \<Rightarrow> type_handler res) \<Rightarrow> ptype list \<Rightarrow> mapper option \<Rightarrow> type_handler res" where
  "union_validator rec t_args normalizer =
     (if is_two_arg_x_list_x t_args then
        let (x, list_x) = (if get_origin (t_args ! 1) = Some OList then (t_args ! 0, t_args ! 1)
                           else (t_args ! 1, t_args ! 0)) in
        rbind (rec x) (\<lambda>x_checker. rmap (\<lambda>l. x_list_x_handler x_checker l normalizer) (rec list_x))
      else rbind (rmapM rec t_args) (\<lambda>checkers. union_handler checkers normalizer))"

definition dict_validator ::
    "(ptype \<Rightarrow> type_handler res) \<Rightarrow> ptype list \<Rightarrow> mapper option \<Rightarrow> type_handler res" where
  "dict_validator rec t_args normalizer =
     (case t_args of
        [k, v] \<Rightarrow>
          if \<not> ty_eq k TStr then Inl ValueError
          else
            rbind (rec k) (\<lambda>key_mapper. rbind (rec v) (\<lambda>value_mapper.
              if ah_base_type key_mapper = None \<or> ah_mapper value_mapper \<noteq> None then Inl ValueError
              else Inr (dict_handler key_mapper value_mapper normalizer)))
      | _ \<Rightarrow> Inl ValueError)"

text \<open>\<^verbatim>\<open>_as_type_validator\<close> with the recursion as an argument.\<close>

definition type_validator_step ::
    "(ptype \<Rightarrow> type_handler res) \<Rightarrow> parser_generator \<Rightarrow> bool \<Rightarrow> ptype \<Rightarrow> type_handler res" where
  "type_validator_step rec pg parsing provided_type =
     (case provided_type of
        TDispatch c \<Rightarrow> Inr (dispatch_handler c)
      | _ \<Rightarrow>
        rbind (strip_mapped_types pg parsing provided_type) (\<lambda>unmapped_type.
        rbind (type_normalize pg unmapped_type provided_type parsing) (\<lambda>normalizer.
        rbind (unpack_type unmapped_type parsing) (\<lambda>u.
        let t_args = get_args u in
        if get_origin u = Some OUnion \<and> length t_args = 2 \<and> TNone \<in> set t_args then
          rbind (unpack_type provided_type parsing) (\<lambda>p.
            case filter (\<lambda>a. a \<noteq> TNone) (get_args p) of
              [] \<Rightarrow> Inl IndexError
            | actual_type # _ \<Rightarrow> rmap (\<lambda>validator. optional_handler validator normalizer) (rec actual_type))
        else
          (case basic_type unmapped_type of
             Some b \<Rightarrow> Inr (basic_handler b normalizer)
           | None \<Rightarrow>
               if get_origin u = Some OList then
                 (case t_args of
                    [] \<Rightarrow> Inl ValueError
                  | t # _ \<Rightarrow> rmap (\<lambda>key_mapper. list_handler key_mapper normalizer) (rec t))
               else if is_typeddict provided_type then
                 rmap typed_dict_handler (generate_parser rec pg provided_type None False None)
               else if get_origin u = Some ODict then dict_validator rec t_args normalizer
               else if get_origin u = Some OUnion then union_validator rec t_args normalizer
               else
                 (case u of
                    TLiteral vs \<Rightarrow> Inr (literal_handler vs)
                  | _ \<Rightarrow> if provided_type = TAny then Inr any_handler else Inl ValueError))))))"

text \<open>The fuel is Python's limit on the depth of calls; a type that contains itself exceeds it.\<close>

fun as_type_validator :: "nat \<Rightarrow> parser_generator \<Rightarrow> bool \<Rightarrow> ptype \<Rightarrow> type_handler res" where
  "as_type_validator 0 pg parsing t = Inl RecursionErr"
| "as_type_validator (Suc n) pg parsing t = type_validator_step (as_type_validator n pg parsing) pg parsing t"

end
