(* ===== verification/DeclProps.thy ===== *)
theory DeclProps
  imports DeclParser
begin

section \<open>What the generated parsers accept\<close>

text \<open>
  The types of values, and that a generated parser only returns values of the types that the rule's \<^verbatim>\<open>TypedDict\<close>
  declares; which attributes are present in what it returns; and the cases in which neither holds.
\<close>

subsection \<open>Values of a type\<close>

text \<open>The type of an attribute, without \<^verbatim>\<open>Required\<close> and annotations.\<close>

fun bare_type :: "ptype \<Rightarrow> ptype" where
  "bare_type (TRequired t) = bare_type t"
| "bare_type (TNotRequired t) = bare_type t"
| "bare_type (TAnnotated t _) = bare_type t"
| "bare_type t = t"

inductive has_type :: "(string \<Rightarrow> string \<Rightarrow> bool) \<Rightarrow> ptype \<Rightarrow> yvalue \<Rightarrow> bool" for sub where
  str: "has_type sub TStr (VStr s)"
| int: "has_type sub TInt (VInt i)"
| int_bool: "has_type sub TInt (VBool b)"
| bool: "has_type sub TBool (VBool b)"
| none: "has_type sub TNone VNone"
| any: "has_type sub TAny v"
| class_object: "sub d c \<Longrightarrow> has_type sub (TClass c) (VObj d x)"
| dispatch: "sub d c \<Longrightarrow> has_type sub (TDispatch c) (VObj d x)"
| list: "(\<And>x. x \<in> set xs \<Longrightarrow> has_type sub t x) \<Longrightarrow> has_type sub (TList [t]) (VList xs)"
| dict: "(\<And>k v. (k, v) \<in> set kvs \<Longrightarrow> (\<exists>s. k = VStr s) \<and> has_type sub t v) \<Longrightarrow> has_type sub (TDict [TStr, t]) (VDict kvs)"
| union: "t \<in> set ts \<Longrightarrow> has_type sub t v \<Longrightarrow> has_type sub (TUnion ts) v"
| literal: "list_ex (py_eq v) vs \<Longrightarrow> has_type sub (TLiteral vs) v"
| typed: "(\<And>k v. (k, v) \<in> set kvs \<Longrightarrow> \<exists>a r t. k = VStr a \<and> (a, r, t) \<in> set fs \<and> has_type sub (bare_type t) v)
    \<Longrightarrow> distinct (map fst kvs) \<Longrightarrow> has_type sub (TTyped n fs) (VDict kvs)"

inductive_cases has_type_union: "has_type sub (TUnion ts) v"

lemma ty_eq_refl [simp]: "ty_eq t t"
proof (induction t)
  case (TList ts)
  then show ?case by (simp add: list_all2_map1 list.rel_refl_strong)
next
  case (TDict ts)
  then show ?case by (simp add: list_all2_map1 list.rel_refl_strong)
next
  case (TUnion ts)
  then show ?case by (auto simp: list_all_iff list_ex_iff)
qed simp_all


lemma ty_eq_TStr [simp]: "ty_eq t TStr \<longleftrightarrow> t = TStr"
  by (cases t) auto















subsection \<open>The validator of a plain type\<close>







lemma normalize_refl [simp]: "type_normalize pg t t p = Inr None"
  by (simp add: type_normalize_def)



lemma rmapM_Inr_member: "rmapM f xs = Inr ys \<Longrightarrow> x \<in> set xs \<Longrightarrow> \<exists>y. f x = Inr y"
  by (induction xs arbitrary: ys) (auto simp: res_simps)


lemma type_check_ok [simp]: "type_check b = Inr () \<longleftrightarrow> b"
  by (simp add: type_check_def rguard_def)













subsection \<open>The validator of a type with mapped parts\<close>































subsection \<open>Parsing a mapping\<close>

definition attribute_result :: "parser_context option \<Rightarrow> attribute_description \<Rightarrow> yvalue \<Rightarrow> bool" where
  "attribute_result ctx a w \<longleftrightarrow>
     (\<exists>v. ah_ensure_type (ad_type_validator a) v = Inr () \<and> map_type (ad_type_validator a) v ctx = Inr w)"




lemma alternative_result:
  "parse_alternative alt v ctx = Inr w \<Longrightarrow> \<exists>x. w = VDict [(VStr (ad_target_attribute alt), x)] \<and> attribute_result ctx alt x"
  by (auto simp: parse_alternative_def attribute_result_def res_simps)

lemma parse_mapping_result:
  assumes "parse_mapping mp v ctx = Inr w"
  shows "(\<exists>kvs. v = VDict kvs \<and> parse_typed_dict_form mp kvs ctx = Inr w)
    \<or> (\<exists>alt. mi_alt_form_parser mp = Some alt \<and> parse_alternative alt v ctx = Inr w)"
  using assms by (auto simp: parse_mapping_def rbind_eq_Inr split: yvalue.splits option.splits)


subsection \<open>From the types to the attributes\<close>








lemma hint_default_target:
  assumes "parse_annotations anno (Some k) r None False s = Inr hint"
  shows "ph_target_attribute hint = k"
proof -
  have "\<exists>a. hint_target a None (Some k) False = Inr (ph_target_attribute hint)"
    using assms unfolding parse_annotations_def Let_def by (elim rbind_InrE if_Inl_InrE) (auto simp del: not_None_eq)
  then obtain a where "hint_target a None (Some k) False = Inr (ph_target_attribute hint)" ..
  then show ?thesis by (cases a) (simp_all add: hint_target_def)
qed











lemma combine_mapper_None [simp]: "combine_mapper h None = h"
  by (simp add: combine_mapper_def)



text \<open>What the loop over the source attributes makes of an attribute.\<close>

definition bridged :: "parser_generator \<Rightarrow> bool \<Rightarrow> attributes \<Rightarrow> attribute_description \<Rightarrow> attribute_description \<Rightarrow> bool" where
  "bridged pg differs targets ia a \<longleftrightarrow>
     (if differs then
        (\<exists>ta mo. map_of targets (ad_target_attribute ia) = Some ta
           \<and> type_normalize pg (ad_attribute_type ia) (ad_attribute_type ta) False = Inr mo
           \<and> a = ia\<lparr>ad_type_validator := combine_mapper (ad_type_validator ia) mo\<rparr>)
      else a = ia)"

lemma add_source_bridged:
  assumes "add_source pg differs targets (k, ia) st = Inr st'"
  obtains a where "ss_attributes st' = ss_attributes st @ [(k, a)]" "bridged pg differs targets ia a"
proof -
  obtain ta where ta: "(if differs then map_of targets (ad_target_attribute ia) else Some ia) = Some ta"
    using assms by (auto simp: add_source_def split: option.splits)
  obtain mo where mo: "(if differs then type_normalize pg (ad_attribute_type ia) (ad_attribute_type ta) False else Inr None) = Inr mo"
    "ss_attributes st' = ss_attributes st @ [(k, ia\<lparr>ad_type_validator := combine_mapper (ad_type_validator ia) mo\<rparr>)]"
    using assms unfolding add_source_def prod.case ta option.case Let_def
    by (elim if_Inl_InrE rbind_InrE) (simp, metis sources_state.select_convs(4) sum.inject(2))
  with ta show thesis by (intro that[OF mo(2)]) (auto simp: bridged_def split: if_splits)
qed

lemma add_sources_bridged:
  assumes "rfold (add_source pg differs targets) attrs st = Inr st'" and "ss_attributes st = []"
  shows "list_all2 (\<lambda>(k, ia) (k', a). k' = k \<and> bridged pg differs targets ia a) attrs (ss_attributes st')"
proof -
  have "\<exists>new. ss_attributes st' = ss_attributes st @ new
      \<and> list_all2 (\<lambda>(k, ia) (k', a). k' = k \<and> bridged pg differs targets ia a) attrs new"
    using assms(1)
  proof (induction attrs arbitrary: st)
    case (Cons x xs)
    obtain k ia where x: "x = (k, ia)" by (cases x)
    obtain st1 where st1: "add_source pg differs targets (k, ia) st = Inr st1" "rfold (add_source pg differs targets) xs st1 = Inr st'"
      using Cons.prems x by (auto simp: rbind_eq_Inr)
    obtain a where a: "ss_attributes st1 = ss_attributes st @ [(k, a)]" "bridged pg differs targets ia a"
      using add_source_bridged[OF st1(1)] by blast
    from Cons.IH[OF st1(2)] obtain new where "ss_attributes st' = ss_attributes st1 @ new"
      "list_all2 (\<lambda>(k, ia) (k', a). k' = k \<and> bridged pg differs targets ia a) xs new" by blast
    with a x have "ss_attributes st' = ss_attributes st @ (k, a) # new
      \<and> list_all2 (\<lambda>(k, ia) (k', a). k' = k \<and> bridged pg differs targets ia a) (x # xs) ((k, a) # new)" by simp
    then show ?case by blast
  qed simp
  with assms(2) show ?thesis by simp
qed







subsection \<open>The generated parser\<close>












text \<open>A rule with a path match that is registered, and a packager's shorter form of it.\<close>

definition demo_match :: ptype where
  "demo_match = TClass ''FileSystemMatchRule''"

definition demo_generator :: parser_generator where
  "demo_generator =
     \<lparr>pg_registered_types =
        [(''FileSystemMatchRule'',
          \<lparr>tmap_source_type = TStr,
           tmap_mapper = (\<lambda>v _. case v of VStr s \<Rightarrow> Inr (VObj ''FileSystemMatchRule'' s) | _ \<Rightarrow> Inl TypeErr)\<rparr>)],
      pg_subclass = (=), pg_table_parsers = []\<rparr>"

definition demo_content :: typed_dict where
  "demo_content = [(''sources'', True, TList [demo_match]), (''dest_dir'', False, TNotRequired TStr),
     (''into'', False, TNotRequired (TList [TStr]))]"

definition demo_input :: typed_dict where
  "demo_input =
     [(''source'', False, TNotRequired (TAnnotated demo_match [TargetAttribute ''sources''])),
      (''sources'', False, TNotRequired (TList [demo_match])),
      (''dest_dir'', False, TNotRequired TStr), (''into'', False, TNotRequired (TUnion [TStr, TList [TStr]]))]"

definition demo_source_content :: ptype where
  "demo_source_content = TUnion [TTyped ''Input'' demo_input, demo_match, TList [demo_match]]"

definition demo_parser :: "input_parser res" where
  "demo_parser = generate_parser (as_type_validator 9 demo_generator True) demo_generator
     (TTyped ''Rule'' demo_content) (Some demo_source_content) False None"

definition demo_value :: yvalue where
  "demo_value = VDict [(VStr ''source'', VStr ''docs/*''), (VStr ''into'', VStr ''foo''), (VStr ''dest-dir'', VStr ''usr'')]"




subsection \<open>Required attributes\<close>

text \<open>The bookkeeping of the loop over the source attributes.\<close>

definition names_for :: "attributes \<Rightarrow> string \<Rightarrow> string list" where
  "names_for attrs t = map fst (filter (\<lambda>(_, a). ad_target_attribute a = t) attrs)"

definition sources_ok :: "sources_state \<Rightarrow> bool" where
  "sources_ok st \<longleftrightarrow>
     distinct (map fst (ss_sources st))
     \<and> (\<forall>t. map_of (ss_sources st) t = (if names_for (ss_attributes st) t = [] then None
                                     else Some (names_for (ss_attributes st) t)))
     \<and> (\<forall>sn. (sn \<in> (\<lambda>(_, a). ad_source_attribute_name a) ` set (ss_attributes st)
            \<longleftrightarrow> map_of (ss_seen_source_names st) sn \<notin> {None, Some []}))
     \<and> distinct (map (\<lambda>(_, a). ad_source_attribute_name a) (ss_attributes st))
     \<and> set (ss_seen_targets st) = (\<lambda>(_, a). ad_target_attribute a) ` set (ss_attributes st)"

lemma add_source_ok:
  assumes ok: "sources_ok st" and a: "add_source pg differs targets (k, ia) st = Inr st'" and k: "k \<noteq> []"
    and targets: "\<And>t a. (t, a) \<in> set targets \<Longrightarrow> ad_target_attribute a = t"
  shows "sources_ok st'"
proof -
  obtain ta where ta: "(if differs then map_of targets (ad_target_attribute ia) else Some ia) = Some ta"
    using a by (auto simp: add_source_def split: option.splits)
  then have tt: "ad_target_attribute ta = ad_target_attribute ia"
    using targets by (auto dest: map_of_SomeD split: if_splits)
  let ?old = "case map_of (ss_sources st) (ad_target_attribute ia) of None \<Rightarrow> [] | Some ks \<Rightarrow> ks"
  have "\<exists>mo. map_of (ss_seen_source_names st) (ad_source_attribute_name ia) \<in> {None, Some []}
      \<and> st' = \<lparr>ss_seen_source_names = AList.update (ad_source_attribute_name ia) k (ss_seen_source_names st),
           ss_seen_targets = ss_seen_targets st @ [ad_target_attribute ta],
           ss_sources = AList.update (ad_target_attribute ia) (?old @ [k]) (ss_sources st),
           ss_attributes = ss_attributes st
             @ [(k, ia\<lparr>ad_type_validator := combine_mapper (ad_type_validator ia) mo\<rparr>)]\<rparr>"
    using a unfolding add_source_def prod.case ta option.case Let_def
    by (elim if_Inl_InrE rbind_InrE) (metis sum.inject(2))
  then obtain mo where fresh: "map_of (ss_seen_source_names st) (ad_source_attribute_name ia) \<in> {None, Some []}"
    and st': "st' = \<lparr>ss_seen_source_names = AList.update (ad_source_attribute_name ia) k (ss_seen_source_names st),
           ss_seen_targets = ss_seen_targets st @ [ad_target_attribute ta],
           ss_sources = AList.update (ad_target_attribute ia) (?old @ [k]) (ss_sources st),
           ss_attributes = ss_attributes st
             @ [(k, ia\<lparr>ad_type_validator := combine_mapper (ad_type_validator ia) mo\<rparr>)]\<rparr>" by blast
  have o: "?old = names_for (ss_attributes st) (ad_target_attribute ia)"
    using ok by (simp add: sources_ok_def)
  have A: "distinct (map fst (ss_sources st'))" using ok by (simp add: st' sources_ok_def distinct_update)
  have n: "names_for (ss_attributes st') t
      = names_for (ss_attributes st) t @ (if ad_target_attribute ia = t then [k] else [])" for t
    by (simp add: st' names_for_def)
  have B: "map_of (ss_sources st') t = (if names_for (ss_attributes st') t = [] then None
      else Some (names_for (ss_attributes st') t))" for t
    unfolding n using ok o by (auto simp: st' sources_ok_def update_conv')
  let ?sn = "\<lambda>(_, a). ad_source_attribute_name a"
  have C: "sn \<in> ?sn ` set (ss_attributes st') \<longleftrightarrow> map_of (ss_seen_source_names st') sn \<notin> {None, Some []}" for sn
  proof (cases "sn = ad_source_attribute_name ia")
    case True
    then show ?thesis using k by (simp add: st' update_conv')
  next
    case False
    then have "sn \<in> ?sn ` set (ss_attributes st') \<longleftrightarrow> sn \<in> ?sn ` set (ss_attributes st)" by (auto simp: st')
    also have "\<dots> \<longleftrightarrow> map_of (ss_seen_source_names st) sn \<notin> {None, Some []}" using ok unfolding sources_ok_def by blast
    finally show ?thesis using False by (simp add: st' update_conv')
  qed
  have "ad_source_attribute_name ia \<notin> ?sn ` set (ss_attributes st)"
    using fresh ok unfolding sources_ok_def by blast
  then have D: "distinct (map ?sn (ss_attributes st'))" using ok by (simp add: st' sources_ok_def)
  have E: "set (ss_seen_targets st') = (\<lambda>(_, a). ad_target_attribute a) ` set (ss_attributes st')"
    using ok tt by (simp add: st' sources_ok_def)
  from A B C D E show ?thesis unfolding sources_ok_def by blast
qed

lemma add_sources_ok:
  assumes "rfold (add_source pg differs targets) attrs st = Inr st'" "sources_ok st" "[] \<notin> fst ` set attrs"
    and "\<And>t a. (t, a) \<in> set targets \<Longrightarrow> ad_target_attribute a = t"
  shows "sources_ok st'"
  using assms(1,2)
proof (rule rfold_invariant)
  fix x s s' assume "x \<in> set attrs" "sources_ok s" "add_source pg differs targets x s = Inr s'"
  then show "sources_ok s'" using add_source_ok[of s pg differs targets "fst x" "snd x" s'] assms(3,4) by force
qed

definition proper_fields :: "typed_dict \<Rightarrow> bool" where
  "proper_fields fs \<longleftrightarrow> distinct (map fst fs) \<and> [] \<notin> fst ` set fs"

lemma parse_types_names: "parse_types V fo tgt s fs = Inr attrs \<Longrightarrow> map fst attrs = map fst fs"
  unfolding parse_types_def
proof (induction fs arbitrary: attrs)
  case (Cons f fs)
  then obtain a as where a: "attribute_description_of V fo tgt s f = Inr a" "attrs = a # as"
    "rmapM (attribute_description_of V fo tgt s) fs = Inr as"
    by (auto simp: rbind_eq_Inr rmap_eq_Inr)
  have "fst a = fst f" using a(1) by (cases f) (auto simp: attribute_description_of_def rbind_eq_Inr)
  with Cons.IH[OF a(3)] a(2) show ?case by simp
qed simp

lemma parse_types_targets:
  assumes "parse_types V fo False s fs = Inr attrs" "(k, a) \<in> set attrs"
  shows "ad_target_attribute a = k"
proof -
  obtain f where f: "attribute_description_of V fo False s f = Inr (k, a)"
    using rmapM_member[OF assms(1)[unfolded parse_types_def] assms(2)] by blast
  obtain k' r t where k: "f = (k', r, t)" by (cases f)
  from f k obtain anno hint where "k' = k" "parse_annotations anno (Some k) r None False s = Inr hint"
    "ad_target_attribute a = ph_target_attribute hint"
    by (auto simp: attribute_description_of_def rbind_eq_Inr)
  with hint_default_target show ?thesis by metis
qed

lemma as_attr_names_member:
  assumes "distinct (map fst attrs)"
  shows "sn \<in> set (as_attr_names attrs ks) \<longleftrightarrow> (\<exists>k a. k \<in> set ks \<and> (k, a) \<in> set attrs \<and> ad_source_attribute_name a = sn)"
  using assms by (auto simp: as_attr_names_def map_filter_def image_iff) (metis map_of_SomeD option.sel)+

text \<open>A required attribute of the content has a source whose key the mapping has to have.\<close>

lemma required_source:
  assumes asm: "assemble_parser pg content targets src modes = Inr (DeclarativeMapping mp)"
    and nm: "proper_fields (ps_typed_dict src)" "map fst (ps_attributes src) = map fst (ps_typed_dict src)"
    and targets: "\<And>t a. (t, a) \<in> set targets \<Longrightarrow> ad_target_attribute a = t"
    and cover: "if ps_differs src then fst ` set content \<subseteq> fst ` set targets else
       ps_attributes src = targets \<and> fst ` set content \<subseteq> fst ` set targets"
    and keys: "validate_expected_keys mp kvs ctx = Inr ()" and k: "k \<in> set (required_keys content)"
  shows "\<exists>sn a. map_of (mi_manifest_attributes mp) sn = Some a \<and> ad_target_attribute a = k \<and> has_key kvs sn"
proof -
  let ?typed = "ps_typed_dict src"
  obtain st us alt where st: "rfold (add_source pg (ps_differs src) targets) (ps_attributes src)
      \<lparr>ss_seen_source_names = [], ss_seen_targets = [], ss_sources = [], ss_attributes = []\<rparr> = Inr st"
    and us: "rmapM (check_attribute content ?typed (ss_attributes st) (ss_sources st)) (map fst ?typed) = Inr us"
    and seen: "\<not> (ps_differs src \<and> set (ss_seen_targets st) \<noteq> fst ` set targets)"
    and mp: "mp = mapping_parser_of content src st alt modes"
    using asm unfolding assemble_parser_def Let_def
    by (elim rbind_InrE if_Inl_InrE) (auto split: if_splits option.splits)
  let ?attrs = "ss_attributes st"
  note br = add_sources_bridged[OF st]
  have names: "map fst ?attrs = map fst ?typed"
    using br nm(2) by (auto simp: list_all2_conv_all_nth list_eq_iff_nth_eq split_beta)
  then have dn: "distinct (map fst ?attrs)" using nm(1) by (simp add: proper_fields_def)
  have "[] \<notin> fst ` set (ps_attributes src)" using nm by (metis proper_fields_def set_map)
  then have ok: "sources_ok st"
    by (intro add_sources_ok[OF st]) (auto simp: sources_ok_def names_for_def intro: targets)
  have "k \<in> fst ` set targets" using k cover by (auto simp: required_keys_def split: if_splits)
  have "\<exists>s a. (s, a) \<in> set ?attrs \<and> ad_target_attribute a = k"
  proof (cases "ps_differs src")
    case True
    then have "k \<in> (\<lambda>(_, a). ad_target_attribute a) ` set ?attrs"
      using seen ok \<open>k \<in> fst ` set targets\<close> by (simp add: sources_ok_def)
    then show ?thesis by auto
  next
    case False
    then have "?attrs = targets" using br cover by (auto simp: bridged_def list_all2_conv_all_nth list_eq_iff_nth_eq split_beta prod_eq_iff)
    then show ?thesis using \<open>k \<in> fst ` set targets\<close> targets by fastforce
  qed
  then have ne: "names_for ?attrs k \<noteq> []" by (force simp: names_for_def filter_empty_conv)
  then have src_k: "map_of (ss_sources st) k = Some (names_for ?attrs k)" using ok by (simp add: sources_ok_def)
  have target: "ad_target_attribute a = k" if "s \<in> set (names_for ?attrs k)" "(s, a) \<in> set ?attrs" for s a
    using that dn by (auto simp: names_for_def) (metis (no_types, lifting) eq_key_imp_eq_value)
  have "\<exists>s a. (s, a) \<in> set ?attrs \<and> s \<in> set (names_for ?attrs k) \<and> has_key kvs (ad_source_attribute_name a)"
  proof (cases "length (names_for ?attrs k) = 1")
    case True
    then obtain s where s: "names_for ?attrs k = [s]" by (auto simp: length_Suc_conv)
    then have "s \<in> fst ` set ?attrs" by (force simp: names_for_def filter_eq_Cons_iff)
    then obtain a where a: "(s, a) \<in> set ?attrs" by auto
    then have "map_of ?attrs s = Some a" using dn by simp
    moreover have "s \<in> set (map fst ?typed)" using a names by (metis fst_conv image_eqI set_map)
    then obtain u where "check_attribute content ?typed ?attrs (ss_sources st) s = Inr u"
      using rmapM_Inr_member[OF us] by blast
    ultimately have "s \<in> set (required_keys ?typed)"
      using target[of s a] a s src_k k by (auto simp: check_attribute_def attribute_of_def Let_def split: if_splits)
    then have "ad_source_attribute_name a \<in> set (mi_required_parameters mp)"
      using a dn mp by (auto simp: mapping_parser_of_def Let_def as_attr_names_member)
    then have "has_key kvs (ad_source_attribute_name a)"
      using keys by (auto simp: validate_expected_keys_def list_all_iff split: if_splits)
    with a s show ?thesis by auto
  next
    case False
    with ne have "length (names_for ?attrs k) > 1" by (cases "names_for ?attrs k") auto
    moreover have "(k, names_for ?attrs k) \<in> set (ss_sources st)" using src_k by (rule map_of_SomeD)
    ultimately have "as_attr_names ?attrs (names_for ?attrs k) \<in> set (mi_at_least_one_of mp)"
      using k mp by (force simp: mapping_parser_of_def Let_def)
    then have "list_ex (has_key kvs) (as_attr_names ?attrs (names_for ?attrs k))"
      using keys by (auto simp: validate_expected_keys_def list_all_iff rbind_eq_Inr split: if_splits)
    then obtain sn where "sn \<in> set (as_attr_names ?attrs (names_for ?attrs k))" "has_key kvs sn" by (auto simp: list_ex_iff)
    then show ?thesis unfolding as_attr_names_member[OF dn] by blast
  qed
  then obtain s a where a: "(s, a) \<in> set ?attrs" "s \<in> set (names_for ?attrs k)" "has_key kvs (ad_source_attribute_name a)" by blast
  have mm: "map fst (mi_manifest_attributes mp) = map (\<lambda>(_, a). ad_source_attribute_name a) ?attrs"
    unfolding mp by (auto simp: mapping_parser_of_def Let_def)
  have "distinct (map fst (mi_manifest_attributes mp))" using ok unfolding mm sources_ok_def by blast
  moreover have "(ad_source_attribute_name a, a) \<in> set (mi_manifest_attributes mp)"
    using a(1) mp by (force simp: mapping_parser_of_def Let_def)
  ultimately have "map_of (mi_manifest_attributes mp) (ad_source_attribute_name a) = Some a" by simp
  with target[OF a(2,1)] a(3) show ?thesis by blast
qed


lemma parse_attribute_keeps:
  assumes "rfold (parse_attribute mp cs kvs ctx) todo acc = Inr res" and "k \<in> fst ` set acc"
  shows "k \<in> fst ` set res"
  using assms(1,2)
proof (rule rfold_invariant)
  fix kv acc acc' assume k: "k \<in> fst ` set acc" and step: "parse_attribute mp cs kvs ctx kv acc = Inr acc'"
  obtain a v where kv: "kv = (a, v)" by (cases kv)
  from step kv have "acc' = acc \<or> (\<exists>t w. acc' = AList.update t w acc)"
    by (auto simp: parse_attribute_def res_simps split: if_splits)
  with k show "k \<in> fst ` set acc'" by (elim disjE exE) (simp_all add: dom_update)
qed

lemma parsed_attribute_present:
  assumes "rfold (parse_attribute mp cs kvs ctx) todo acc = Inr res" and "(VStr sn, v) \<in> set todo" "v \<noteq> VNone"
    and "map_of (mi_manifest_attributes mp) sn = Some a"
  shows "VStr (ad_target_attribute a) \<in> fst ` set res"
  using assms(1,2)
proof (induction todo arbitrary: acc)
  case (Cons kv todo)
  obtain acc1 where acc1: "parse_attribute mp cs kvs ctx kv acc = Inr acc1"
    "rfold (parse_attribute mp cs kvs ctx) todo acc1 = Inr res"
    using Cons.prems(1) by (auto simp: rbind_eq_Inr)
  show ?case
  proof (cases "kv = (VStr sn, v)")
    case True
    with acc1(1) assms(3,4) have "VStr (ad_target_attribute a) \<in> fst ` set acc1"
      by (auto simp: parse_attribute_def attribute_of_def res_simps dom_update split: if_splits)
    with acc1(2) show ?thesis by (rule parse_attribute_keeps)
  next
    case False
    with Cons.prems(2) Cons.IH[OF acc1(2)] show ?thesis by auto
  qed
qed simp

definition source_proper :: "typed_dict \<Rightarrow> ptype option \<Rightarrow> bool" where
  "source_proper content source \<longleftrightarrow>
     (case source of
        None \<Rightarrow> True
      | Some s \<Rightarrow>
          (case extract_typed_dict s (default_target content) of
             Inr (Some d, _) \<Rightarrow> proper_fields (fields_of d)
           | _ \<Rightarrow> True))"

lemma source_of_names:
  assumes src: "source_of V ao content targets source = Inr src" and t: "map fst targets = map fst content"
    and p: "proper_fields content"
    and ps: "source_proper content source"
  shows "proper_fields (ps_typed_dict src) \<and> map fst (ps_attributes src) = map fst (ps_typed_dict src)
    \<and> (ps_differs src \<or> ps_attributes src = targets)"
proof (cases source)
  case None
  then show ?thesis using src t p by (auto simp: source_of_def)
next
  case (Some x)
  note u = src[unfolded source_of_def Some option.case]
  obtain da where da: "extract_typed_dict x (default_target content) = Inr da"
    using u by (rule rbind_InrE)
  obtain d alt where dalt: "da = (d, alt)" by (cases da)
  note u' = u[unfolded da dalt rbind_Inr prod.case]
  obtain pa where r: "(case d of None \<Rightarrow> Inr \<lparr>ps_typed_dict = content, ps_attributes = targets, ps_alt_form = pa,
                       ps_differs = True, ps_non_mapping = True\<rparr>
        | Some d \<Rightarrow> rmap (\<lambda>attrs. \<lparr>ps_typed_dict = fields_of d, ps_attributes = attrs, ps_alt_form = pa,
                                   ps_differs = True, ps_non_mapping = False\<rparr>)
              (parse_types V (\<not> ao) True True (fields_of d))) = Inr src"
    using u' by (rule rbind_InrE)
  show ?thesis
  proof (cases d)
    case None
    with r t p show ?thesis by auto
  next
    case (Some y)
    with r obtain attrs where "parse_types V (\<not> ao) True True (fields_of y) = Inr attrs"
      "ps_attributes src = attrs" "ps_typed_dict src = fields_of y" "ps_differs src" by (auto simp: rmap_eq_Inr)
    moreover have "proper_fields (fields_of y)" using ps \<open>source = Some x\<close> da dalt Some by (simp add: source_proper_def)
    ultimately show ?thesis using parse_types_names by metis
  qed
qed

text \<open>C28: in what a generated parser returns, every required attribute of the rule is present, through whichever alias
  or alternative form it was given, unless the packager wrote an explicit null somewhere.\<close>

theorem required_attributes_present:
  assumes "proper_fields content" and "source_proper content source_content"
    and "generate_parser (as_type_validator n pg True) pg (TTyped name content) source_content allow_optional modes = Inr p"
    and "parse_input p v ctx = Inr w" and "k \<in> set (required_keys content)"
  shows "\<exists>kvs. w = VDict kvs \<and> (VStr k \<in> fst ` set kvs \<or> (\<exists>given. v = VDict given \<and> VNone \<in> snd ` set given))"
proof -
  let ?V = "as_type_validator n pg True"
  have "generate_typed_parser ?V pg content source_content allow_optional modes = Inr p"
    using assms(3) by (auto simp: generate_parser_def rbind_eq_Inr rmap_eq_Inr split: if_splits option.splits)
  then obtain targets src where t: "parse_types ?V (\<not> allow_optional) False (source_content = None) content = Inr targets"
    and src: "source_of ?V allow_optional content targets source_content = Inr src"
    and asm: "assemble_parser pg content targets src modes = Inr p"
    unfolding generate_typed_parser_def by (auto simp: rbind_eq_Inr)
  have names: "proper_fields (ps_typed_dict src) \<and> map fst (ps_attributes src) = map fst (ps_typed_dict src)
    \<and> (ps_differs src \<or> ps_attributes src = targets)"
    by (rule source_of_names[OF src parse_types_names[OF t] assms(1,2)])
  have tt: "ad_target_attribute a = t'" if "(t', a) \<in> set targets" for t' a
    using parse_types_targets[OF t that] .
  have alternative: "\<exists>x. w = VDict [(VStr k, x)]"
    if "parse_alternative a v ctx = Inr w" "bridge_alt_form pg (required_keys content) targets alt = Inr a" for a alt
  proof -
    have l: "k = ad_target_attribute alt"
      using that(2) assms(5) by (cases "required_keys content") (auto simp: bridge_alt_form_def split: if_splits)
    have "ad_target_attribute a = ad_target_attribute alt"
      using that(2) by (auto simp: bridge_alt_form_def rbind_eq_Inr split: if_splits)
    with l alternative_result[OF that(1)] show ?thesis by auto
  qed
  from asm obtain st alt_form where af: "(case ps_alt_form src of None \<Rightarrow> Inr None
      | Some alt \<Rightarrow> rmap Some (bridge_alt_form pg (required_keys content) targets alt)) = Inr alt_form"
    and p: "(if ps_non_mapping src then (case alt_form of None \<Rightarrow> Inl AssertionErr | Some alt \<Rightarrow> Inr (DeclarativeNonMapping alt modes))
       else Inr (DeclarativeMapping (mapping_parser_of content src st alt_form modes))) = Inr p"
    unfolding assemble_parser_def Let_def by (elim rbind_InrE if_Inl_InrE) blast
  have alt: "\<exists>alt. bridge_alt_form pg (required_keys content) targets alt = Inr a" if "alt_form = Some a" for a
    using af that by (auto simp: rmap_eq_Inr split: option.splits)
  show ?thesis
  proof (cases "ps_non_mapping src")
    case True
    with p obtain a where a: "alt_form = Some a" "p = DeclarativeNonMapping a modes" by (auto split: option.splits)
    from assms(4) a(2) have "parse_alternative a v ctx = Inr w"
      by (auto simp: parse_non_mapping_def rbind_eq_Inr split: if_splits)
    with alternative alt[OF a(1)] show ?thesis by fastforce
  next
    case False
    let ?mp = "mapping_parser_of content src st alt_form modes"
    from False p have pm: "p = DeclarativeMapping ?mp" by simp
    with assms(4) have "parse_mapping ?mp v ctx = Inr w" by simp
    from parse_mapping_result[OF this] show ?thesis
    proof (elim disjE exE conjE)
      fix kvs assume v: "v = VDict kvs" and r: "parse_typed_dict_form ?mp kvs ctx = Inr w"
      then obtain cs res where res: "validate_expected_keys ?mp kvs ctx = Inr ()"
        "rfold (parse_attribute ?mp cs kvs ctx) kvs [] = Inr res" "w = VDict res"
        by (auto simp: parse_typed_dict_form_def rbind_eq_Inr rmap_eq_Inr)
      have c: "if ps_differs src then fst ` set content \<subseteq> fst ` set targets
          else ps_attributes src = targets \<and> fst ` set content \<subseteq> fst ` set targets"
        using names arg_cong[OF parse_types_names[OF t], of set] by auto
      obtain sn a where a: "map_of (mi_manifest_attributes ?mp) sn = Some a" "ad_target_attribute a = k" "has_key kvs sn"
        using required_source[OF asm[unfolded pm] _ _ tt c res(1) assms(5)] names by blast
      then obtain x where x: "(VStr sn, x) \<in> set kvs" by (auto simp: has_key_def)
      show ?thesis
      proof (cases "x = VNone")
        case True
        then have "VNone \<in> snd ` set kvs" using x by force
        with v res(3) show ?thesis by blast
      next
        case False
        from parsed_attribute_present[OF res(2) x False a(1)] a(2) res(3) show ?thesis by blast
      qed
    next
      fix a assume "mi_alt_form_parser ?mp = Some a" "parse_alternative a v ctx = Inr w"
      then show ?thesis using alternative alt[of a] by (fastforce simp: mapping_parser_of_def Let_def)
    qed
  qed
qed

lemma required_attributes_present_witness:
  "\<exists>kvs. rbind demo_parser (\<lambda>p. parse_input p demo_value None) = Inr (VDict kvs) \<and> VStr ''sources'' \<in> fst ` set kvs"
proof -
  have "\<not> isl (rbind demo_parser (\<lambda>p. parse_input p demo_value None))" by code_simp
  then obtain p w where p: "demo_parser = Inr p" "parse_input p demo_value None = Inr w"
    by (cases "rbind demo_parser (\<lambda>p. parse_input p demo_value None)") (auto simp: rbind_eq_Inr)
  have e: "proper_fields demo_content" "source_proper demo_content (Some demo_source_content)"
    "''sources'' \<in> set (required_keys demo_content)" by code_simp+
  have "VNone \<notin> snd ` set [(VStr ''source'', VStr ''docs/*''), (VStr ''into'', VStr ''foo''), (VStr ''dest-dir'', VStr ''usr'')]"
    by simp
  moreover obtain kvs where "w = VDict kvs" "VStr ''sources'' \<in> fst ` set kvs \<or> (\<exists>given. demo_value = VDict given \<and> VNone \<in> snd ` set given)"
    using required_attributes_present[OF e(1,2) p(1)[unfolded demo_parser_def] p(2) e(3)] by blast
  ultimately have "w = VDict kvs" "VStr ''sources'' \<in> fst ` set kvs" unfolding demo_value_def by auto
  moreover have "rbind demo_parser (\<lambda>p. parse_input p demo_value None) = Inr w" unfolding p(1) rbind_Inr by (rule p(2))
  ultimately show ?thesis by blast
qed

text \<open>
  Where these results need their conditions.  A required attribute with an explicit null is accepted and is then
  missing, if its validator leaves null alone, as those of nested mappings, of dispatching parsers and of \<^verbatim>\<open>Any\<close> do.
\<close>

definition demo_parse :: "typed_dict \<Rightarrow> ptype option \<Rightarrow> yvalue \<Rightarrow> yvalue res" where
  "demo_parse content source v =
     rbind (generate_parser (as_type_validator 9 demo_generator True) demo_generator (TTyped ''Rule'' content) source True None)
       (\<lambda>p. parse_input p v None)"

lemma null_drops_required_attribute:
  "demo_parse [(''env'', True, TTyped ''Env'' [(''name'', True, TStr)])] None (VDict [(VStr ''env'', VNone)])
     = Inr (VDict [])"
  by code_simp

text \<open>
  In a union of a mapping and the list of it, and in an optional mapping, the mapping is neither checked nor mapped:
  the parser of the \<^verbatim>\<open>TypedDict\<close> is the mapper, which unions drop.
\<close>

lemma nested_mapping_in_union_unchecked:
  "let t = TTyped ''Env'' [(''name'', True, TStr)]; bad = VDict [(VStr ''env'', VDict [(VStr ''typo'', VInt 1)])] in
   demo_parse [(''env'', True, t)] None bad = Inl ManifestParseError
   \<and> demo_parse [(''env'', True, TUnion [t, TList [t]])] None bad = Inr bad
   \<and> demo_parse [(''env'', True, TUnion [t, TNone])] None bad = Inr bad"
  by code_simp

text \<open>
  Narrowing to another union makes a list even where the target has no list: the acceptable types contain the list of
  the target's first member, whether or not the target does.
\<close>

lemma narrowing_leaves_target_union:
  "demo_parse [(''mode'', True, TUnion [TStr, TInt])]
     (Some (TTyped ''Input'' [(''mode'', True, TUnion [TStr, TList [TStr]])])) (VDict [(VStr ''mode'', VStr ''a'')])
   = Inr (VDict [(VStr ''mode'', VList [VStr ''a''])])"
  "\<not> has_type (=) (TUnion [TStr, TInt]) (VList [VStr ''a''])"
  by code_simp (auto elim!: has_type_union elim: has_type.cases)

text \<open>An optional attribute of a registered type cannot be declared, although \<^verbatim>\<open>Optional\<close> of its source type can.\<close>

lemma optional_registered_type_rejected:
  "(case as_type_validator 9 demo_generator True (TUnion [demo_match, TNone]) of Inl e \<Rightarrow> e = ValueError | Inr _ \<Rightarrow> False)"
  "\<not> isl (as_type_validator 9 demo_generator True (TUnion [TStr, TNone]))"
  by code_simp+

end
