(* ===== verification/Interp.thy ===== *)
theory Interp
  imports TransformProps
begin

section \<open>Interpreter lines (\<^verbatim>\<open>interpreter.py\<close>)\<close>

text \<open>
  The interpreter that the first line of a script names, its version, the canonical line for the
  interpreters whose place is known, and the transformation that rewrites the scripts of a package.
  Bytes and the text decoded from them are lists of characters: decoded text is represented by its UTF-8
  form, so decoding is the check that the bytes are valid.  The version expression's \<^verbatim>\<open>\d\<close> is
  the ASCII digits here.  The regular expressions are written out as functions, in the order in which
  their greedy parts give back what they took.
\<close>

subsection \<open>Bytes\<close>

definition byte_space :: "char \<Rightarrow> bool" where
  "byte_space c \<longleftrightarrow> c \<in> set [CHR '' '', CHR 0x09, CHR 0x0A, CHR 0x0B, CHR 0x0C, CHR 0x0D]"

definition in_range :: "nat \<Rightarrow> nat \<Rightarrow> char \<Rightarrow> bool" where
  "in_range a b c \<longleftrightarrow> a \<le> of_char c \<and> of_char c \<le> (b::nat)"

text \<open>What \<^verbatim>\<open>bytes.decode("utf-8")\<close> accepts: no overlong forms, no surrogates, nothing above U+10FFFF.\<close>

fun utf8_valid :: "string \<Rightarrow> bool" where
  "utf8_valid [] = True"
| "utf8_valid (a # s) =
     (if in_range 0x00 0x7F a then utf8_valid s
      else (case s of
         [] \<Rightarrow> False
       | b # t \<Rightarrow>
           if in_range 0xC2 0xDF a then in_range 0x80 0xBF b \<and> utf8_valid t
           else (case t of
              [] \<Rightarrow> False
            | c # u \<Rightarrow>
                if in_range 0xE0 0xEF a then
                  in_range (if a = CHR 0xE0 then 0xA0 else 0x80) (if a = CHR 0xED then 0x9F else 0xBF) b
                  \<and> in_range 0x80 0xBF c \<and> utf8_valid u
                else if in_range 0xF0 0xF4 a then
                  in_range (if a = CHR 0xF0 then 0x90 else 0x80) (if a = CHR 0xF4 then 0x8F else 0xBF) b
                  \<and> in_range 0x80 0xBF c
                  \<and> (case u of [] \<Rightarrow> False | d # v \<Rightarrow> in_range 0x80 0xBF d \<and> utf8_valid v)
                else False)))"

definition utf8_decode :: "string \<Rightarrow> string res" where
  "utf8_decode s = (if utf8_valid s then Inr s else Inl ValueError)"

subsection \<open>The expressions\<close>

definition ascii_letter :: "char \<Rightarrow> bool" where
  "ascii_letter c \<longleftrightarrow> ascii_lower c \<or> ascii_upper c"

definition starts_command :: "string \<Rightarrow> bool" where
  "starts_command s = (case s of a # b # _ \<Rightarrow> a = slash \<and> ascii_letter b | _ \<Rightarrow> False)"

text \<open>\<^verbatim>\<open>_SHEBANG_RE.search\<close>: both groups and the end of the match.\<close>

definition shebang_match :: "string \<Rightarrow> (string \<times> string \<times> nat) option" where
  "shebang_match first_line =
     (if \<not> startswith first_line ''#!'' then None
      else
        let n = length (takeWhile byte_space (drop 2 first_line)) in
        (case drop (2 + n) first_line of
           [] \<Rightarrow> None
         | c # rest \<Rightarrow>
             if c \<noteq> slash then None
             else
               let run = takeWhile (\<lambda>c. \<not> byte_space c) rest in
               (case find (\<lambda>k. starts_command (drop k run)) (rev [1..<length run]) of
                  None \<Rightarrow> None
                | Some k \<Rightarrow>
                    let word = takeWhile (\<lambda>c. c \<noteq> slash) (drop (Suc k) run) in
                    Some (c # take (Suc k) run @ word, word, 2 + n + 1 + Suc k + length word))))"

text \<open>\<^verbatim>\<open>_WORD.search\<close> from a position: the word and the end of the match.\<close>

definition next_word :: "string \<Rightarrow> nat \<Rightarrow> (string \<times> nat) option" where
  "next_word first_line pos =
     (let skipped = takeWhile (\<lambda>c. \<not> byte_space c) (drop pos first_line);
          gap = takeWhile byte_space (drop (pos + length skipped) first_line);
          w = takeWhile (\<lambda>c. \<not> byte_space c) (drop (pos + length skipped + length gap) first_line)
      in if w = [] then None else Some (w, pos + length skipped + length gap + length w))"

text \<open>\<^verbatim>\<open>_STRIP_VERSION.search\<close>: the version is the longest suffix of the required form.\<close>

definition version_at :: "string \<Rightarrow> bool" where
  "version_at s =
     (let t = (case s of [] \<Rightarrow> s | c # r \<Rightarrow> if c = CHR ''-'' then r else s);
          rest = dropWhile ascii_digit t
      in takeWhile ascii_digit t \<noteq> []
         \<and> (case rest of [] \<Rightarrow> True | a # b # c # _ \<Rightarrow> a = dot \<and> ascii_digit b | _ \<Rightarrow> False))"

fun strip_version :: "string \<Rightarrow> string option" where
  "strip_version [] = None"
| "strip_version (c # s) = (if version_at (c # s) then Some (c # s) else strip_version s)"

subsection \<open>Detecting the interpreter\<close>

record detected_interpreter =
  original_command :: string
  command_full_basename :: string
  command_stem :: string
  interpreter_version :: string
  correct_command :: "string option"
  corrected_shebang_line :: "string option"

definition fixup_needed :: "detected_interpreter \<Rightarrow> bool" where
  "fixup_needed d \<longleftrightarrow> corrected_shebang_line d \<noteq> None"

definition KNOWN_INTERPRETERS :: "(string \<times> string) list" where
  "KNOWN_INTERPRETERS = map (\<lambda>c. (path_tail c, c))
     [''/bin/sh'', ''/bin/bash'', ''/bin/dash'', ''/usr/bin/perl'', ''/usr/bin/python'']"

definition detected :: "string \<Rightarrow> string \<Rightarrow> string \<Rightarrow> nat \<Rightarrow> detected_interpreter res" where
  "detected first_line raw basename endpos =
     (let version = (case strip_version basename of None \<Rightarrow> [] | Some v \<Rightarrow> v);
          stem = take (length basename - length version) basename;
          correct = map_option (\<lambda>c. c @ version) (map_of KNOWN_INTERPRETERS stem)
      in rbind
        (case correct of
           None \<Rightarrow> Inr None
         | Some c \<Rightarrow>
             if c = raw then Inr None
             else rmap (\<lambda>trailing. Some (''#! '' @ c @ (if trailing = [] then [] else CHR '' '' # trailing)))
                    (utf8_decode (strip byte_space (drop (endpos + 1) first_line))))
        (\<lambda>line. Inr
          \<lparr> original_command = raw, command_full_basename = basename, command_stem = stem,
            interpreter_version = version, correct_command = correct, corrected_shebang_line = line \<rparr>))"

definition extract_shebang_interpreter :: "string \<Rightarrow> detected_interpreter option res" where
  "extract_shebang_interpreter first_line =
     (case shebang_match first_line of
        None \<Rightarrow> Inr None
      | Some (g1, g2, endpos) \<Rightarrow>
          rbind (utf8_decode g1) (\<lambda>raw_command.
            rbind (utf8_decode g2) (\<lambda>basename.
              if basename = ''env'' then
                (case next_word first_line endpos of
                   None \<Rightarrow> rmap Some (detected first_line raw_command basename endpos)
                 | Some (w, endpos') \<Rightarrow>
                     rbind (utf8_decode w) (\<lambda>word.
                       rmap Some (detected first_line (raw_command @ '' '' @ word) word endpos')))
              else rmap Some (detected first_line raw_command basename endpos))))"

definition readline :: "string \<Rightarrow> string" where
  "readline s = (case lines_keep s of [] \<Rightarrow> [] | l # _ \<Rightarrow> l)"

definition extract_shebang_interpreter_from_file :: "string \<Rightarrow> detected_interpreter option res" where
  "extract_shebang_interpreter_from_file content =
     (let first_line = take 4096 (readline content)
      in if CHR 0x0A \<notin> set first_line then Inr None else extract_shebang_interpreter first_line)"


subsection \<open>Rewriting the line of a file\<close>

text \<open>
  What the file system underneath gives: the modification time that an object without one of its own takes
  (of its reference path, or the clock), the name of the new backing file, whether the backing file is still
  a regular file afterwards, the size of the buffer a file is read through, and what is left of a file that
  is too large for it when it is overwritten while it is still being read.
\<close>

record disk_env =
  env_mtime :: "nat \<Rightarrow> int"
  env_new_path :: "nat \<Rightarrow> string"
  env_still_file :: "nat \<Rightarrow> bool"
  env_buffer :: nat
  env_overwritten :: "string \<Rightarrow> string \<Rightarrow> string"

text \<open>\<^verbatim>\<open>FSPath.replace_fs_path_content\<close>, around its \<^verbatim>\<open>yield\<close>; a file that may not be replaced inline is copied.\<close>

definition can_replace_inline :: "fs \<Rightarrow> nat \<Rightarrow> bool" where
  "can_replace_inline fs i = (case n_class (node fs i) of FSBackedFilePath _ b \<Rightarrow> b | _ \<Rightarrow> False)"

definition replaced_path :: "nat \<Rightarrow> string \<Rightarrow> fs \<Rightarrow> fs" where
  "replaced_path i new_fs_path =
     set_node i (\<lambda>n. n\<lparr>n_class := FSBackedFilePath new_fs_path True, n_reference := None\<rparr>)"

definition replace_fs_path_content :: "disk_env \<Rightarrow> fs \<Rightarrow> nat \<Rightarrow> fs res" where
  "replace_fs_path_content env fs i =
     (if \<not> is_file fs i then Inl TypeErr
      else rbind (rw_check fs i) (\<lambda>_.
        let fs1 = (if can_replace_inline fs i then fs else replaced_path i (env_new_path env i) fs)
        in if \<not> env_still_file env i then Inl TypeErr else Inr (reset_caches i fs1)))"

definition replaced_content :: "string \<Rightarrow> string \<Rightarrow> string" where
  "replaced_content new_line content =
     (if endswith new_line [CHR 0x0A] then new_line else new_line @ [CHR 0x0A])
     @ drop (length (readline content)) content"

definition written_content :: "disk_env \<Rightarrow> bool \<Rightarrow> string \<Rightarrow> string \<Rightarrow> string" where
  "written_content env inline new_line content =
     (if inline \<and> (env_buffer env < length content \<or> env_buffer env < length (replaced_content new_line content))
      then env_overwritten env new_line content
      else replaced_content new_line content)"

text \<open>The contents of the files are kept by object.\<close>

definition replace_shebang_line ::
    "disk_env \<Rightarrow> detected_interpreter \<Rightarrow> nat \<Rightarrow> fs \<times> (nat \<Rightarrow> string) \<Rightarrow> (fs \<times> (nat \<Rightarrow> string)) res" where
  "replace_shebang_line env d i st =
     (case corrected_shebang_line d of
        None \<Rightarrow> Inl RuntimeErr
      | Some new_line \<Rightarrow>
          if \<not> startswith new_line ''#!'' then Inl AssertionErr
          else rbind (parent_dir (fst st) i) (\<lambda>pd.
            if pd = None then Inl AssertionErr
            else if \<not> startswith (readline (snd st i)) ''#!'' then Inl ValueError
            else
              let mtime = (case n_mtime (node (fst st) i) of None \<Rightarrow> env_mtime env i | Some t \<Rightarrow> t);
                  fs1 = set_node i (\<lambda>n. n\<lparr>n_mtime := Some mtime\<rparr>) (fst st)
              in rbind (replace_fs_path_content env fs1 i) (\<lambda>fs2.
                   rmap (\<lambda>fs3. (fs3, (snd st)(i :=
                       written_content env (can_replace_inline (fst st) i) new_line (snd st i))))
                     (set_mtime fs2 i mtime))))"

text \<open>\<^verbatim>\<open>NormalizeShebangLineTransformation.transform_file_system\<close>; rewriting changes no listing, so the
  paths are those of the start.\<close>

definition normalize_shebang ::
    "disk_env \<Rightarrow> nat \<Rightarrow> fs \<times> (nat \<Rightarrow> string) \<Rightarrow> (fs \<times> (nat \<Rightarrow> string)) res" where
  "normalize_shebang env i st =
     (if \<not> is_file (fst st) i then Inr st
      else rbind (extract_shebang_interpreter_from_file (snd st i)) (\<lambda>interpreter.
        case interpreter of
          None \<Rightarrow> Inr st
        | Some d \<Rightarrow> if fixup_needed d then replace_shebang_line env d i st else Inr st))"

definition normalize_shebang_lines ::
    "disk_env \<Rightarrow> fs \<times> (nat \<Rightarrow> string) \<Rightarrow> (fs \<times> (nat \<Rightarrow> string)) res" where
  "normalize_shebang_lines env st =
     rbind (returns (all_paths (fst st) 0)) (\<lambda>is. rfold (normalize_shebang env) is st)"

subsection \<open>Facts about the expressions\<close>

lemma find_append: "find P (xs @ ys) = (case find P xs of None \<Rightarrow> find P ys | Some x \<Rightarrow> Some x)"
  by (induction xs) auto

lemma find_greatest:
  assumes "P k" and "a \<le> k" and "k < m" and "\<And>j. k < j \<Longrightarrow> j < m \<Longrightarrow> \<not> P j"
  shows "find P (rev [a..<m]) = Some (k::nat)"
proof -
  have "[a..<m] = [a..<k] @ k # [Suc k..<m]"
    using assms(2,3) by (metis le_add_diff_inverse less_imp_le upt_add_eq_append upt_conv_Cons)
  then have "rev [a..<m] = rev [Suc k..<m] @ k # rev [a..<k]" by simp
  moreover have "find P (rev [Suc k..<m]) = None" using assms(4) by (auto simp: find_None_iff)
  ultimately show ?thesis by (simp add: find_append assms(1))
qed

lemma slash_not_space [simp]: "\<not> byte_space slash"
  by (simp add: byte_space_def)

lemma letter_no_slash: "ascii_letter c \<Longrightarrow> c \<noteq> slash"
  by (auto simp: ascii_letter_def ascii_lower_def ascii_upper_def)

lemma takeWhile_stop: "list_all P xs \<Longrightarrow> ys = [] \<or> \<not> P (hd ys) \<Longrightarrow> takeWhile P (xs @ ys) = xs"
  by (induction xs) (cases ys, auto)

lemma starts_command_slash: "starts_command s \<Longrightarrow> slash \<in> set s"
  by (auto simp: starts_command_def split: list.splits)

lemma shebang_match_canonical:
  assumes d: "d \<noteq> []" and sp: "list_all (\<lambda>c. \<not> byte_space c) (d @ w)" and w: "slash \<notin> set w"
    and l: "w \<noteq> []" "ascii_letter (hd w)" and t: "t = [] \<or> byte_space (hd t)"
  shows "shebang_match (''#! '' @ slash # d @ slash # w @ t)
    = Some (slash # d @ slash # w, w, 3 + length (slash # d @ slash # w))"
proof -
  let ?run = "d @ slash # w"
  have run: "takeWhile (\<lambda>c. \<not> byte_space c) (d @ slash # w @ t) = ?run"
    using takeWhile_stop[of "\<lambda>c. \<not> byte_space c" ?run t] sp t by simp
  have k: "starts_command (drop (length d) ?run)" using l by (cases w) (simp_all add: starts_command_def)
  have no: "\<not> starts_command (drop j ?run)" if "length d < j" "j < length ?run" for j
  proof -
    have "drop j ?run = drop (j - length d - 1) w" using that by (simp add: drop_Cons')
    moreover have "set (drop (j - length d - 1) w) \<subseteq> set w" by (rule set_drop_subset)
    ultimately have "slash \<notin> set (drop j ?run)" using w by auto
    then show ?thesis using starts_command_slash by blast
  qed
  have "find (\<lambda>k. starts_command (drop k ?run)) (rev [1..<length ?run]) = Some (length d)"
  proof (rule find_greatest)
    show "starts_command (drop (length d) ?run)" by (rule k)
    show "1 \<le> length d" using d by (cases d) simp_all
    show "length d < length ?run" by simp
    show "\<not> starts_command (drop j ?run)" if "length d < j" "j < length ?run" for j using that by (rule no)
  qed
  then have f: "find (\<lambda>k. starts_command (drop k ?run)) (rev [1..<length ?run]) = Some (length d)" .
  have tw: "takeWhile (\<lambda>c. c \<noteq> slash) (drop (Suc (length d)) ?run) = w"
  proof -
    have "drop (Suc (length d)) ?run = w" by simp
    moreover have "\<forall>x \<in> set w. x \<noteq> slash" using w by blast
    ultimately show ?thesis by (simp only: takeWhile_eq_all_conv)
  qed
  have tk: "take (Suc (length d)) ?run = d @ [slash]" by simp
  have sp2: "byte_space (CHR '' '')" by (simp add: byte_space_def)
  have d2: "drop 2 (''#! '' @ slash # d @ slash # w @ t) = CHR '' '' # slash # d @ slash # w @ t" by simp
  have d3: "drop (2 + 1) (''#! '' @ slash # d @ slash # w @ t) = slash # d @ slash # w @ t" by simp
  have n: "length (takeWhile byte_space (drop 2 (''#! '' @ slash # d @ slash # w @ t))) = 1"
    unfolding d2 by (simp add: sp2)
  have st: "startswith (''#! '' @ slash # d @ slash # w @ t) ''#!''" by (simp add: startswith_def)
  show ?thesis
    unfolding shebang_match_def Let_def n d3 by (simp only: st run f tw tk list.case option.case simp_thms if_False not_True_eq_False) simp
qed


lemma shebang_match_facts:
  assumes "shebang_match s = Some (g1, g2, e)"
  shows "list_all (\<lambda>c. \<not> byte_space c) g1" "list_all (\<lambda>c. \<not> byte_space c) g2" "slash \<notin> set g2"
proof -
  from assms obtain c rest k where m: "\<not> byte_space c" "g2 = takeWhile (\<lambda>c. c \<noteq> slash) (drop (Suc k) (takeWhile (\<lambda>c. \<not> byte_space c) rest))"
      "g1 = c # take (Suc k) (takeWhile (\<lambda>c. \<not> byte_space c) rest) @ g2"
    by (auto simp: shebang_match_def Let_def split: if_splits list.splits option.splits)
  show g2: "list_all (\<lambda>c. \<not> byte_space c) g2"
    unfolding m(2) list_all_iff by (blast dest: set_takeWhileD in_set_dropD)
  have "list_all (\<lambda>c. \<not> byte_space c) (take (Suc k) (takeWhile (\<lambda>c. \<not> byte_space c) rest))"
    unfolding list_all_iff by (blast dest: set_takeWhileD in_set_takeD)
  with g2 m(1,3) show "list_all (\<lambda>c. \<not> byte_space c) g1" by simp
  show "slash \<notin> set g2" unfolding m(2) by (blast dest: set_takeWhileD)
qed

lemma next_word_facts: "next_word s n = Some (w, e) \<Longrightarrow> list_all (\<lambda>c. \<not> byte_space c) w"
  by (auto simp: next_word_def Let_def list_all_iff split: if_splits dest: set_takeWhileD)

lemma utf8_decode_simps: "utf8_decode s = Inr t \<longleftrightarrow> utf8_valid s \<and> t = s"
  by (auto simp: utf8_decode_def)

lemma utf8_ascii_append: "list_all (in_range 0x00 0x7F) p \<Longrightarrow> utf8_valid (p @ s) = utf8_valid s"
  by (induction p) simp_all

lemma strip_version_suffix: "strip_version s = Some v \<Longrightarrow> \<exists>p. s = p @ v"
proof (induction s)
  case (Cons c s)
  show ?case
  proof (cases "version_at (c # s)")
    case False
    with Cons obtain p where "s = p @ v" by auto
    then show ?thesis by (intro exI[of _ "c # p"]) simp
  qed (use Cons in simp)
qed simp

definition version_of :: "string \<Rightarrow> string" where
  "version_of basename = (case strip_version basename of None \<Rightarrow> [] | Some v \<Rightarrow> v)"

definition stem_of :: "string \<Rightarrow> string" where
  "stem_of basename = take (length basename - length (version_of basename)) basename"

lemma stem_version: "stem_of b @ version_of b = b"
proof (cases "strip_version b")
  case (Some v)
  then obtain p where "b = p @ v" using strip_version_suffix by blast
  with Some show ?thesis by (simp add: stem_of_def version_of_def)
qed (simp add: stem_of_def version_of_def)

text \<open>The known interpreters: an absolute path in a directory, whose base name is what they are found by.\<close>

definition known_shape :: "string \<Rightarrow> string \<Rightarrow> string \<Rightarrow> bool" where
  "known_shape k c d \<longleftrightarrow>
     c = slash # d @ slash # k \<and> d \<noteq> [] \<and> k \<noteq> [] \<and> ascii_letter (hd k) \<and> slash \<notin> set k
     \<and> list_all (\<lambda>c. \<not> byte_space c) (d @ k) \<and> list_all (in_range 0x00 0x7F) (d @ k) \<and> hd k \<noteq> CHR ''e''"

lemma known_interpreter:
  assumes "map_of KNOWN_INTERPRETERS stem = Some c"
  obtains d where "c = slash # d @ slash # stem" "d \<noteq> []" "stem \<noteq> []" "ascii_letter (hd stem)" "slash \<notin> set stem"
    "list_all (\<lambda>c. \<not> byte_space c) (d @ stem)" "list_all (in_range 0x00 0x7F) (d @ stem)" "hd stem \<noteq> CHR ''e''"
proof -
  have "list_all (\<lambda>(k, c). known_shape k c (take (length c - length k - 2) (tl c))) KNOWN_INTERPRETERS"
    by code_simp
  moreover have "(stem, c) \<in> set KNOWN_INTERPRETERS" using assms by (rule map_of_SomeD)
  ultimately have "known_shape stem c (take (length c - length stem - 2) (tl c))"
    unfolding list_all_iff by blast
  then show thesis using that unfolding known_shape_def by blast
qed


subsection \<open>The canonical line is left alone\<close>

lemma detected_facts:
  assumes "detected s raw b e = Inr d"
  shows "command_full_basename d = b" "correct_command d = map_option (\<lambda>c. c @ version_of b) (map_of KNOWN_INTERPRETERS (stem_of b))"
    "original_command d = raw" "interpreter_version d = version_of b" "command_stem d = stem_of b"
    "corrected_shebang_line d = Some l \<Longrightarrow> \<exists>c trailing. map_of KNOWN_INTERPRETERS (stem_of b) = Some c
       \<and> utf8_valid trailing \<and> trailing = strip byte_space (drop (e + 1) s)
       \<and> l = ''#! '' @ c @ version_of b @ (if trailing = [] then [] else CHR '' '' # trailing)"
    "correct_command d = Some raw \<Longrightarrow> \<not> fixup_needed d"
  using assms unfolding detected_def Let_def version_of_def[symmetric] stem_of_def[symmetric]
  by (auto simp: res_simps utf8_decode_simps fixup_needed_def split: option.splits if_splits)

lemma detected_correct:
  assumes "map_of KNOWN_INTERPRETERS (stem_of b) = Some c"
  shows "\<exists>d. detected s (c @ version_of b) b e = Inr d \<and> original_command d = c @ version_of b
    \<and> command_full_basename d = b \<and> \<not> fixup_needed d"
  using assms unfolding detected_def Let_def version_of_def[symmetric] stem_of_def[symmetric]
  by (simp add: fixup_needed_def)

text \<open>What a line consists of whose interpreter was detected.\<close>

lemma extract_facts:
  assumes "extract_shebang_interpreter s = Inr (Some d)"
  obtains raw b e where "detected s raw b e = Inr d" "utf8_valid b" "list_all (\<lambda>c. \<not> byte_space c) b"
proof -
  from assms obtain g1 g2 e where m: "shebang_match s = Some (g1, g2, e)"
    by (auto simp: extract_shebang_interpreter_def split: option.splits)
  note g = shebang_match_facts[OF m]
  have *: "extract_shebang_interpreter s =
      rbind (utf8_decode g1) (\<lambda>raw_command. rbind (utf8_decode g2) (\<lambda>basename.
              if basename = ''env'' then
                (case next_word s e of
                   None \<Rightarrow> rmap Some (detected s raw_command basename e)
                 | Some (w, e') \<Rightarrow> rbind (utf8_decode w) (\<lambda>word.
                     rmap Some (detected s (raw_command @ '' '' @ word) word e')))
              else rmap Some (detected s raw_command basename e)))"
    by (simp add: extract_shebang_interpreter_def m)
  show thesis
  proof (cases "g2 = ''env'' \<and> next_word s e \<noteq> None")
    case False
    with assms * have "detected s g1 g2 e = Inr d" "utf8_valid g2"
      by (auto simp: res_simps utf8_decode_simps split: if_splits option.splits)
    with that g(2) show thesis by blast
  next
    case True
    then obtain w e' where w: "next_word s e = Some (w, e')" by auto
    with True assms * have "detected s (g1 @ '' '' @ w) w e' = Inr d" "utf8_valid w"
      by (auto simp: res_simps utf8_decode_simps)
    with that next_word_facts[OF w] show thesis by blast
  qed
qed

lemma extract_canonical:
  assumes c: "map_of KNOWN_INTERPRETERS (stem_of b) = Some c"
    and b: "utf8_valid b" "list_all (\<lambda>c. \<not> byte_space c) b" "slash \<notin> set (version_of b)"
    and t: "t = [] \<or> byte_space (hd t)"
  shows "\<exists>d. extract_shebang_interpreter (''#! '' @ c @ version_of b @ t) = Inr (Some d)
    \<and> original_command d = c @ version_of b \<and> command_full_basename d = b \<and> \<not> fixup_needed d"
proof -
  obtain dir where k: "c = slash # dir @ slash # stem_of b" "dir \<noteq> []" "stem_of b \<noteq> []"
      "ascii_letter (hd (stem_of b))" "slash \<notin> set (stem_of b)"
      "list_all (\<lambda>c. \<not> byte_space c) (dir @ stem_of b)" "list_all (in_range 0x00 0x7F) (dir @ stem_of b)"
      "hd (stem_of b) \<noteq> CHR ''e''"
    using known_interpreter[OF c] by blast
  have bb: "stem_of b @ version_of b = b" by (rule stem_version)
  have hdb: "b \<noteq> []" "hd b = hd (stem_of b)" using k(3) bb by (metis append_is_Nil_conv, metis hd_append2)
  have ns: "slash \<notin> set b" using bb k(5) b(3) by (metis Un_iff set_append)
  have line: "''#! '' @ c @ version_of b @ t = ''#! '' @ slash # dir @ slash # b @ t"
    using k(1) bb by (metis append.assoc append_Cons)
  have raw: "slash # dir @ slash # b = c @ version_of b" using k(1) bb by (metis append.assoc append_Cons)
  have m: "shebang_match (''#! '' @ c @ version_of b @ t) = Some (c @ version_of b, b, 3 + length (c @ version_of b))"
    unfolding line raw[symmetric]
    by (rule shebang_match_canonical) (use k b(2) hdb ns t in simp_all)
  have vs: "utf8_valid (c @ version_of b)"
  proof -
    have pre: "list_all (in_range 0x00 0x7F) (slash # dir @ [slash])"
      using k(7) by (simp add: in_range_def)
    have "c @ version_of b = (slash # dir @ [slash]) @ b" using raw by simp
    then show ?thesis using utf8_ascii_append[OF pre, of b] b(1) by simp
  qed
  have ne: "b \<noteq> ''env''" using hdb k(8) by auto
  from detected_correct[OF c] obtain d where d: "detected (''#! '' @ c @ version_of b @ t) (c @ version_of b) b
      (3 + length (c @ version_of b)) = Inr d" "original_command d = c @ version_of b" "command_full_basename d = b"
      "\<not> fixup_needed d" by blast
  have "extract_shebang_interpreter (''#! '' @ c @ version_of b @ t) = Inr (Some d)"
    unfolding extract_shebang_interpreter_def m using vs b(1) ne d(1) by (simp add: utf8_decode_def)
  with d show ?thesis by blast
qed


subsection \<open>Rewriting a file once is enough\<close>

lemma readline_simps [simp]:
  "readline [] = []"
  "readline (x # xs) = (if x = CHR 0x0A then [x] else x # readline xs)"
  by (auto simp: readline_def split: list.splits)

lemma readline_butlast: "CHR 0x0A \<notin> set (butlast (readline s))"
  by (induction s) auto

lemma readline_append: "CHR 0x0A \<notin> set l \<Longrightarrow> readline (l @ CHR 0x0A # r) = l @ [CHR 0x0A]"
  by (induction l) auto

lemma butlast_take_subset: "set (butlast (take n l)) \<subseteq> set (butlast l)"
proof (cases "n < length l")
  case True
  then have "butlast (take n l) = take (n - 1) l" by (simp add: butlast_take)
  moreover have "take (n - 1) l = take (n - 1) (butlast l)" using True by (simp add: butlast_conv_take)
  ultimately show ?thesis by (metis set_take_subset)
qed simp

lemma strip_no_newline:
  assumes "CHR 0x0A \<notin> set (butlast s)"
  shows "CHR 0x0A \<notin> set (strip byte_space s)"
proof
  let ?u = "strip byte_space s"
  assume nl: "CHR 0x0A \<in> set ?u"
  obtain r where r: "lstrip byte_space s = ?u @ r"
    using rstrip_prefix[of "lstrip byte_space s" byte_space] by (auto simp: strip_def)
  define a where "a = takeWhile byte_space s"
  have s: "s = a @ ?u @ r"
    using r takeWhile_dropWhile_id[of byte_space s] by (simp add: a_def lstrip_def)
  have ne: "?u \<noteq> []" using nl by auto
  have "butlast s = a @ (if r = [] then butlast ?u else ?u @ butlast r)"
    using ne by (subst s) (simp add: butlast_append)
  with assms nl have "r = []" "CHR 0x0A \<notin> set (butlast ?u)" by (auto split: if_splits)
  with nl ne have "last ?u = CHR 0x0A" by (metis append_butlast_last_id in_set_conv_decomp_last rotate1.simps(2) set_ConsD set_rotate1)
  moreover have "\<not> byte_space (last ?u)" using ne by (rule strip_ends)
  ultimately show False by (simp add: byte_space_def)
qed

lemma space_newline: "byte_space (CHR 0x0A)" "byte_space (CHR '' '')"
  by (simp_all add: byte_space_def)

lemma version_no_newline:
  assumes "list_all (\<lambda>c. \<not> byte_space c) b"
  shows "CHR 0x0A \<notin> set (version_of b)"
proof -
  have "set (version_of b) \<subseteq> set b" using stem_version[of b] by (metis Un_upper2 set_append)
  with assms space_newline(1) show ?thesis unfolding list_all_iff by blast
qed

text \<open>A script whose line is rewritten names the same interpreter afterwards, in its canonical place, and
  needs no further change.\<close>

lemma replaced_line_stable:
  assumes ex: "extract_shebang_interpreter_from_file content = Inr (Some d)" and l: "corrected_shebang_line d = Some l"
    and v: "slash \<notin> set (interpreter_version d)" and len: "length l < 4096"
  shows "replaced_content l content = l @ CHR 0x0A # drop (length (readline content)) content"
    and "readline (replaced_content l content) = l @ [CHR 0x0A]"
    and "\<exists>d'. extract_shebang_interpreter_from_file (replaced_content l content) = Inr (Some d')
      \<and> \<not> fixup_needed d' \<and> correct_command d = Some (original_command d')
      \<and> command_full_basename d' = command_full_basename d"
proof -
  let ?s = "take 4096 (readline content)"
  from ex have e: "extract_shebang_interpreter ?s = Inr (Some d)"
    by (auto simp: extract_shebang_interpreter_from_file_def Let_def split: if_splits)
  then obtain raw b e where d: "detected ?s raw b e = Inr d" and b: "utf8_valid b" "list_all (\<lambda>c. \<not> byte_space c) b"
    by (rule extract_facts)
  note f = detected_facts[OF d]
  from f(6)[OF l] obtain c trailing where c: "map_of KNOWN_INTERPRETERS (stem_of b) = Some c"
    and t: "trailing = strip byte_space (drop (e + 1) ?s)"
    and l': "l = ''#! '' @ c @ version_of b @ (if trailing = [] then [] else CHR '' '' # trailing)" by blast
  have "set (butlast (drop (e + 1) ?s)) \<subseteq> set (butlast (readline content))"
    using butlast_take_subset set_drop_subset by (fastforce simp: butlast_drop)
  then have nt: "CHR 0x0A \<notin> set trailing" unfolding t using readline_butlast strip_no_newline by blast
  have nv: "CHR 0x0A \<notin> set (version_of b)" using b(2) by (rule version_no_newline)
  obtain dir where k: "c = slash # dir @ slash # stem_of b" "list_all (\<lambda>c. \<not> byte_space c) (dir @ stem_of b)"
    using known_interpreter[OF c] by blast
  have nc: "CHR 0x0A \<notin> set c"
    using k(2) space_newline(1) unfolding k(1) list_all_iff by auto
  have nl: "CHR 0x0A \<notin> set l" using nt nv nc unfolding l' by auto
  have ne: "\<not> endswith l [CHR 0x0A]"
  proof
    assume "endswith l [CHR 0x0A]"
    then have "set [CHR 0x0A] \<subseteq> set l" unfolding endswith_def by (metis set_drop_subset)
    with nl show False by simp
  qed
  show r: "replaced_content l content = l @ CHR 0x0A # drop (length (readline content)) content"
    using ne by (simp add: replaced_content_def)
  show rl: "readline (replaced_content l content) = l @ [CHR 0x0A]" unfolding r using nl by (rule readline_append)
  have tk: "take 4096 (l @ [CHR 0x0A]) = ''#! '' @ c @ version_of b @ ((if trailing = [] then [] else CHR '' '' # trailing) @ [CHR 0x0A])"
    using len l' by simp
  have "slash \<notin> set (version_of b)" using v f(4) by simp
  moreover have "byte_space (hd ((if trailing = [] then [] else CHR '' '' # trailing) @ [CHR 0x0A]))"
    using space_newline by simp
  ultimately obtain d' where d': "extract_shebang_interpreter (take 4096 (l @ [CHR 0x0A])) = Inr (Some d')"
    "original_command d' = c @ version_of b" "command_full_basename d' = b" "\<not> fixup_needed d'"
    unfolding tk using extract_canonical[OF c b] by blast
  have "CHR 0x0A \<in> set (take 4096 (l @ [CHR 0x0A]))" using tk by simp
  then have "extract_shebang_interpreter_from_file (replaced_content l content) = Inr (Some d')"
    using d'(1) by (simp add: extract_shebang_interpreter_from_file_def rl Let_def)
  with d' c f(1,2) show "\<exists>d'. extract_shebang_interpreter_from_file (replaced_content l content) = Inr (Some d')
      \<and> \<not> fixup_needed d' \<and> correct_command d = Some (original_command d')
      \<and> command_full_basename d' = command_full_basename d" by auto
qed


subsection \<open>The transformation of the tree\<close>

text \<open>Everything of the store but the backing files and the modification times is as before.\<close>

definition same_shape :: "fs \<Rightarrow> fs \<Rightarrow> bool" where
  "same_shape fs fs' \<longleftrightarrow>
     length (nodes fs') = length (nodes fs) \<and> fs_read_write fs' = fs_read_write fs \<and>
     (\<forall>j. is_root fs' j = is_root fs j \<and> is_dir fs' j = is_dir fs j \<and> is_file fs' j = is_file fs j
       \<and> n_name (node fs' j) = n_name (node fs j) \<and> n_parent (node fs' j) = n_parent (node fs j)
       \<and> kids fs' j = kids fs j \<and> n_mode (node fs' j) = n_mode (node fs j)
       \<and> n_owner (node fs' j) = n_owner (node fs j) \<and> n_group (node fs' j) = n_group (node fs j))"

lemma same_shape_refl [simp]: "same_shape fs fs"
  by (simp add: same_shape_def)

lemma same_shape_trans: "same_shape a b \<Longrightarrow> same_shape b c \<Longrightarrow> same_shape a c"
  by (simp add: same_shape_def)

lemma same_shape_det: "same_shape fs fs' \<Longrightarrow> is_detached_opt fs' j = is_detached_opt fs j"
  by (rule det_parents) (simp_all add: same_shape_def)

lemma same_shape_wf:
  assumes "same_shape fs fs'" and "wf_fs fs"
  shows "wf_fs fs'"
proof (rule wf_fsI)
  note s = assms(1)[unfolded same_shape_def]
  show "n_parent (node fs' i) = Some p \<Longrightarrow> p < length (nodes fs') \<and> is_dir fs' p \<and>
      map_of (kids fs' p) (n_name (node fs' i)) = Some i" for i p
    using s wf_parent[OF assms(2), of i p] by simp
  show "(k, c) \<in> set (kids fs' i) \<Longrightarrow> c < length (nodes fs') \<and> n_name (node fs' c) = k \<and>
       n_parent (node fs' c) = Some i" for k c i
    using s wf_kid[OF assms(2), of k c i] by simp
  show "is_root fs' i \<longleftrightarrow> i = 0" for i using s wf_root[OF assms(2)] by simp
  show "is_detached_opt fs' i \<noteq> None" for i using same_shape_det assms wf_det by simp
  show "distinct (map fst (kids fs' i))" for i using s wf_distinct[OF assms(2)] by simp
qed (use assms wf_zero wf_root_parent in \<open>auto simp: same_shape_def\<close>)

text \<open>What becomes of the content of one object, and the modification time an object shows.\<close>

definition normalized_content :: "disk_env \<Rightarrow> fs \<Rightarrow> (nat \<Rightarrow> string) \<Rightarrow> nat \<Rightarrow> string" where
  "normalized_content env fs content i =
     (if \<not> is_file fs i then content i
      else (case extract_shebang_interpreter_from_file (content i) of
              Inr (Some d) \<Rightarrow>
                (case corrected_shebang_line d of
                   None \<Rightarrow> content i
                 | Some l \<Rightarrow> written_content env (can_replace_inline fs i) l (content i))
            | _ \<Rightarrow> content i))"

definition shown_mtime :: "disk_env \<Rightarrow> fs \<Rightarrow> nat \<Rightarrow> int" where
  "shown_mtime env fs i = (case n_mtime (node fs i) of None \<Rightarrow> env_mtime env i | Some t \<Rightarrow> t)"

definition shebang_step :: "disk_env \<Rightarrow> nat \<Rightarrow> fs \<times> (nat \<Rightarrow> string) \<Rightarrow> fs \<times> (nat \<Rightarrow> string) \<Rightarrow> bool" where
  "shebang_step env i st st' \<longleftrightarrow>
     same_shape (fst st) (fst st') \<and> (\<forall>j. shown_mtime env (fst st') j = shown_mtime env (fst st) j)
     \<and> (\<forall>j. j \<noteq> i \<longrightarrow> can_replace_inline (fst st') j = can_replace_inline (fst st) j)
     \<and> snd st' = (snd st)(i := normalized_content env (fst st) (snd st) i)"

lemma step_refl: "normalized_content env (fst st) (snd st) i = snd st i \<Longrightarrow> shebang_step env i st st"
  by (simp add: shebang_step_def)

lemma out_not_file: "\<not> i < length (nodes fs) \<Longrightarrow> \<not> is_file fs i"
  by (simp add: is_file_def)

lemma replace_shape:
  assumes "is_file fs i"
  shows "same_shape fs (set_node i (\<lambda>n. n\<lparr>n_mtime := t\<rparr>) fs)"
    and "same_shape fs (replaced_path i p fs)"
  using assms out_not_file[of i fs]
  by (auto simp: same_shape_def replaced_path_def node_set_node is_root_def is_dir_def is_file_def kids_def
      split: node_class.splits)


lemma replace_step:
  assumes f: "is_file (fst st) i" and l: "corrected_shebang_line d = Some l"
    and r: "replace_shebang_line env d i st = Inr st'"
  shows "same_shape (fst st) (fst st')" "shown_mtime env (fst st') j = shown_mtime env (fst st) j"
    "j \<noteq> i \<Longrightarrow> can_replace_inline (fst st') j = can_replace_inline (fst st) j"
    "snd st' = (snd st)(i := written_content env (can_replace_inline (fst st) i) l (snd st i))"
proof -
  define t where "t = (case n_mtime (node (fst st) i) of None \<Rightarrow> env_mtime env i | Some t \<Rightarrow> t)"
  define fs1 where "fs1 = set_node i (\<lambda>n. n\<lparr>n_mtime := Some t\<rparr>) (fst st)"
  from r l obtain fs2 fs3 where r2: "replace_fs_path_content env fs1 i = Inr fs2" and r3: "set_mtime fs2 i t = Inr fs3"
    and st': "st' = (fs3, (snd st)(i := written_content env (can_replace_inline (fst st) i) l (snd st i)))"
    by (auto simp: replace_shebang_line_def t_def fs1_def res_simps Let_def split: if_splits)
  have s1: "same_shape (fst st) fs1" unfolding fs1_def using f by (rule replace_shape(1))
  then have f1: "is_file fs1 i" using f by (simp add: same_shape_def)
  define fs1' where "fs1' = (if can_replace_inline fs1 i then fs1 else replaced_path i (env_new_path env i) fs1)"
  have fs2: "fs2 = reset_caches i fs1'"
    using r2 f1 by (auto simp: replace_fs_path_content_def fs1'_def res_simps Let_def split: if_splits)
  have s1': "same_shape fs1 fs1'" using replace_shape(2)[OF f1] by (simp add: fs1'_def)
  then have f1': "is_file fs1' i" using f1 by (simp add: same_shape_def)
  have s2: "same_shape fs1' fs2"
    using replace_shape(1)[OF f1'] unfolding fs2 reset_caches_def by simp
  then have f2: "is_file fs2 i" using f1' by (simp add: same_shape_def)
  have fs3: "fs3 = set_node i (\<lambda>n. n\<lparr>n_mtime := Some t\<rparr>) fs2"
    using r3 by (auto simp: set_mtime_def res_simps)
  have s3: "same_shape fs2 fs3" unfolding fs3 using f2 by (rule replace_shape(1))
  show "same_shape (fst st) (fst st')"
    using same_shape_trans[OF same_shape_trans[OF s1 s1'] same_shape_trans[OF s2 s3]] st' by simp
  have len: "i < length (nodes fs2)" using f2 out_not_file by blast
  have other: "node fs3 j = node (fst st) j" if "j \<noteq> i" for j
    using that by (simp add: fs3 fs2 fs1'_def fs1_def reset_caches_def replaced_path_def node_set_node)
  have at_i: "n_mtime (node fs3 i) = Some t" using len by (simp add: fs3 node_set_node)
  show "shown_mtime env (fst st') j = shown_mtime env (fst st) j"
    using other[of j] at_i st' by (cases "j = i") (simp_all add: shown_mtime_def t_def)
  show "can_replace_inline (fst st') j = can_replace_inline (fst st) j" if "j \<noteq> i"
    using other[OF that] st' by (simp add: can_replace_inline_def)
  show "snd st' = (snd st)(i := written_content env (can_replace_inline (fst st) i) l (snd st i))"
    using st' by simp
qed

lemma normalize_shebang_step:
  assumes "normalize_shebang env i st = Inr st'"
  shows "shebang_step env i st st'"
proof (cases "is_file (fst st) i")
  case False
  with assms show ?thesis by (simp add: normalize_shebang_def shebang_step_def normalized_content_def)
next
  case True
  with assms obtain interpreter where x: "extract_shebang_interpreter_from_file (snd st i) = Inr interpreter"
    and s: "(case interpreter of None \<Rightarrow> Inr st
        | Some d \<Rightarrow> if fixup_needed d then replace_shebang_line env d i st else Inr st) = Inr st'"
    by (auto simp: normalize_shebang_def res_simps)
  show ?thesis
  proof (cases interpreter)
    case None
    with s x have "st' = st" by simp
    with None x True show ?thesis by (simp add: step_refl normalized_content_def)
  next
    case (Some d)
    show ?thesis
    proof (cases "corrected_shebang_line d")
      case None
      with s Some have "st' = st" by (simp add: fixup_needed_def)
      with None Some x True show ?thesis by (simp add: step_refl normalized_content_def)
    next
      case (Some l)
      with s \<open>interpreter = Some d\<close> have r: "replace_shebang_line env d i st = Inr st'" by (simp add: fixup_needed_def)
      note facts = replace_step[OF True Some r]
      have "normalized_content env (fst st) (snd st) i = written_content env (can_replace_inline (fst st) i) l (snd st i)"
        using True x Some \<open>interpreter = Some d\<close> by (simp add: normalized_content_def)
      with facts show ?thesis by (simp add: shebang_step_def)
    qed
  qed
qed

lemma normalized_content_step:
  assumes "shebang_step env i st st'" and "j \<noteq> i"
  shows "normalized_content env (fst st') (snd st') j = normalized_content env (fst st) (snd st) j"
proof -
  have e: "snd st' j = snd st j" "is_file (fst st') j = is_file (fst st) j"
    "can_replace_inline (fst st') j = can_replace_inline (fst st) j"
    using assms by (simp_all add: shebang_step_def same_shape_def)
  show ?thesis unfolding normalized_content_def e ..
qed

lemma normalize_shebangs_each:
  "rfold (normalize_shebang env) is st = Inr st' \<Longrightarrow> distinct is \<Longrightarrow>
     same_shape (fst st) (fst st') \<and> (\<forall>j. shown_mtime env (fst st') j = shown_mtime env (fst st) j)
     \<and> (\<forall>j. snd st' j = (if j \<in> set is then normalized_content env (fst st) (snd st) j else snd st j))"
proof (induction "is" arbitrary: st)
  case (Cons i "is")
  then obtain st1 where s: "normalize_shebang env i st = Inr st1" and r: "rfold (normalize_shebang env) is st1 = Inr st'"
    by (auto simp: res_simps)
  from s have step: "shebang_step env i st st1" by (rule normalize_shebang_step)
  have IH: "same_shape (fst st1) (fst st')" "\<forall>j. shown_mtime env (fst st') j = shown_mtime env (fst st1) j"
    "\<forall>j. snd st' j = (if j \<in> set is then normalized_content env (fst st1) (snd st1) j else snd st1 j)"
    using Cons.IH[OF r] Cons.prems(2) by simp_all
  have "snd st' j = (if j \<in> set (i # is) then normalized_content env (fst st) (snd st) j else snd st j)" for j
  proof (cases "j = i")
    case True
    with IH(3) Cons.prems(2) step show ?thesis by (simp add: shebang_step_def)
  next
    case False
    with IH(3) step normalized_content_step[OF step False] show ?thesis by (simp add: shebang_step_def)
  qed
  moreover have "same_shape (fst st) (fst st')"
    using step IH(1) same_shape_trans unfolding shebang_step_def by blast
  ultimately show ?case using step IH(2) by (simp add: shebang_step_def)
qed simp


lemma attached_below_root:
  assumes "wf_fs fs" and "is_detached_opt fs i = Some b" and "b = False"
  shows "below fs 0 i"
  using assms(2,3)
proof (induction rule: det_induct)
  case (root i)
  then show ?case using wf_root[OF assms(1)] by simp
next
  case (child i p b)
  then show ?case using below_child by blast
qed simp

lemma below_root_attached: "wf_fs fs \<Longrightarrow> below fs 0 i \<longleftrightarrow> is_detached_opt fs i = Some False"
  using attached_below_root below_detached root_attached by blast

lemma normalize_shebang_lines_each:
  assumes wf: "wf_fs (fst st)" and ok: "normalize_shebang_lines env st = Inr st'"
  shows "same_shape (fst st) (fst st')" "wf_fs (fst st')"
    "shown_mtime env (fst st') j = shown_mtime env (fst st) j"
    "snd st' j = (if is_detached (fst st) j = Inr False then normalized_content env (fst st) (snd st) j else snd st j)"
proof -
  have "fs_valid (fst st) 0" using wf root_attached by (simp add: fs_valid_def)
  from fs_tree.all_paths_law[OF this] obtain ps where ps: "returns (all_paths (fst st) 0) = Inr ps" "distinct ps"
      "set ps = {q. below (fst st) 0 q}" by (auto simp: fs_ops_def)
  with ok have r: "rfold (normalize_shebang env) ps st = Inr st'" by (simp add: normalize_shebang_lines_def)
  note each = normalize_shebangs_each[OF r ps(2)]
  show s: "same_shape (fst st) (fst st')" using each by blast
  show "wf_fs (fst st')" using same_shape_wf[OF s wf] .
  show "shown_mtime env (fst st') j = shown_mtime env (fst st) j" using each by blast
  show "snd st' j = (if is_detached (fst st) j = Inr False then normalized_content env (fst st) (snd st) j else snd st j)"
    using each ps(3) below_root_attached[OF wf] by (simp add: is_detached_Inr)
qed

text \<open>The rest of the file is kept, and the interpreter is the same one.\<close>

definition rewritten_well :: "detected_interpreter \<Rightarrow> string \<Rightarrow> string \<Rightarrow> bool" where
  "rewritten_well d content content' \<longleftrightarrow>
     drop (length (readline content')) content' = drop (length (readline content)) content
     \<and> (case extract_shebang_interpreter_from_file content' of
          Inr (Some d') \<Rightarrow> \<not> fixup_needed d' \<and> correct_command d = Some (original_command d')
            \<and> command_full_basename d' = command_full_basename d
        | _ \<Rightarrow> False)"

text \<open>The scripts of the tree whose line is to be rewritten: the interpreter is known and not in its canonical place.\<close>

definition to_rewrite :: "fs \<Rightarrow> (nat \<Rightarrow> string) \<Rightarrow> nat \<Rightarrow> detected_interpreter \<Rightarrow> string \<Rightarrow> bool" where
  "to_rewrite fs content i d l \<longleftrightarrow>
     is_detached fs i = Inr False \<and> is_file fs i
     \<and> extract_shebang_interpreter_from_file (content i) = Inr (Some d) \<and> corrected_shebang_line d = Some l"

lemma rewritten_well_line:
  assumes "extract_shebang_interpreter_from_file content = Inr (Some d)" and "corrected_shebang_line d = Some l"
    and "slash \<notin> set (interpreter_version d)" and "length l < 4096"
  shows "rewritten_well d content (replaced_content l content)"
proof -
  note stable = replaced_line_stable[OF assms]
  have "drop (length (l @ [CHR 0x0A])) (replaced_content l content) = drop (length (readline content)) content"
    unfolding stable(1) by simp
  with stable(2,3) show ?thesis unfolding rewritten_well_def by auto
qed

text \<open>C29: the normalisation of interpreter lines changes no structure, no mode and no modification time.  Every
  script of the tree whose interpreter is known and not in its canonical place gets the canonical line, written
  once, and no other content changes.  A rewritten script (unless the version has a slash, or the line has become
  too long to be looked at, or a large file was overwritten while it was being read) has all its other lines,
  names the same interpreter, and needs no further change.\<close>

theorem shebang_lines_normalised:
  assumes wf: "wf_fs (fst st)" and ok: "normalize_shebang_lines env st = Inr st'"
  shows "same_shape (fst st) (fst st') \<and> wf_fs (fst st')
    \<and> (\<forall>i. shown_mtime env (fst st') i = shown_mtime env (fst st) i)
    \<and> (\<forall>i d l. to_rewrite (fst st) (snd st) i d l \<longrightarrow>
         snd st' i = written_content env (can_replace_inline (fst st) i) l (snd st i)
         \<and> (slash \<notin> set (interpreter_version d) \<and> length l < 4096 \<and> \<not> can_replace_inline (fst st) i
            \<longrightarrow> rewritten_well d (snd st i) (snd st' i)))
    \<and> (\<forall>i. (\<forall>d l. \<not> to_rewrite (fst st) (snd st) i d l) \<longrightarrow> snd st' i = snd st i)"
proof -
  note each = normalize_shebang_lines_each[OF assms]
  have new: "snd st' i = written_content env (can_replace_inline (fst st) i) l (snd st i)"
    if "to_rewrite (fst st) (snd st) i d l" for i d l
    using that each(4)[of i] by (simp add: to_rewrite_def normalized_content_def)
  have "rewritten_well d (snd st i) (snd st' i)"
    if t: "to_rewrite (fst st) (snd st) i d l"
      and "slash \<notin> set (interpreter_version d)" "length l < 4096" "\<not> can_replace_inline (fst st) i" for i d l
  proof -
    have "snd st' i = replaced_content l (snd st i)" using new[OF t] that(4) by (simp add: written_content_def)
    then show ?thesis using rewritten_well_line[of "snd st i" d l] t that(2,3) by (simp add: to_rewrite_def)
  qed
  moreover have "snd st' i = snd st i" if "\<And>d l. \<not> to_rewrite (fst st) (snd st) i d l" for i
    using that each(4)[of i] by (auto simp: to_rewrite_def normalized_content_def split: sum.splits option.splits)
  ultimately show ?thesis using each(1-3) new by blast
qed

definition script_fs :: fs where
  "script_fs = fst (projr (insert_file_from_fs_path (new_root_dir None) 0 ''run'' ''src/run'' ''src/run'' True True False o755
     True True None))"

definition demo_disk :: disk_env where
  "demo_disk = \<lparr> env_mtime = (\<lambda>_. 7), env_new_path = (\<lambda>_. ''tmp__run''), env_still_file = (\<lambda>_. True),
     env_buffer = 4096, env_overwritten = (\<lambda>_ _. []) \<rparr>"

definition demo_script :: "nat \<Rightarrow> string" where
  "demo_script i = (if i = 1 then ''#!/usr/bin/env python3 -b'' @ [CHR 0x0A] @ ''pass'' @ [CHR 0x0A] else [])"

lemma script_fs_wf: "wf_fs script_fs"
proof -
  let ?call = "insert_file_from_fs_path (new_root_dir None) 0 ''run'' ''src/run'' ''src/run'' True True False o755 True True None"
  have "\<not> isl ?call" by code_simp
  then have "?call = Inr (script_fs, snd (projr ?call))" by (cases ?call) (simp_all add: script_fs_def)
  moreover have "is_detached_opt (new_root_dir None) 0 = Some False"
    using wf_new_root root_attached by blast
  ultimately show ?thesis using insert_file_ok(1)[OF wf_new_root] unfolding fs_ok_def by blast
qed

lemma shebang_lines_normalised_witness:
  "case normalize_shebang_lines demo_disk (script_fs, demo_script) of
     Inl _ \<Rightarrow> False
   | Inr st' \<Rightarrow> same_shape script_fs (fst st') \<and> shown_mtime demo_disk (fst st') 1 = 7
       \<and> snd st' 1 = ''#! /usr/bin/python3 -b'' @ [CHR 0x0A] @ ''pass'' @ [CHR 0x0A]"
proof -
  have n: "case normalize_shebang_lines demo_disk (script_fs, demo_script) of
     Inl _ \<Rightarrow> False
   | Inr st' \<Rightarrow> snd st' 1 = ''#! /usr/bin/python3 -b'' @ [CHR 0x0A] @ ''pass'' @ [CHR 0x0A]" by code_simp
  then obtain st' where st': "normalize_shebang_lines demo_disk (script_fs, demo_script) = Inr st'"
    by (auto split: sum.splits)
  have wf: "wf_fs (fst (script_fs, demo_script))" by (simp add: script_fs_wf)
  have "same_shape (fst (script_fs, demo_script)) (fst st')"
    "shown_mtime demo_disk (fst st') 1 = shown_mtime demo_disk (fst (script_fs, demo_script)) 1"
    using shebang_lines_normalised[OF wf st'] by blast+
  moreover have "shown_mtime demo_disk script_fs 1 = 7" by code_simp
  ultimately show ?thesis using n st' by simp
qed

text \<open>A version with a single digit after the dot is not recognised, although one with two digits is.\<close>

lemma single_digit_minor_version:
  "version_of ''python3.12'' = ''3.12'' \<and> stem_of ''python3.12'' = ''python''
   \<and> version_of ''python3.9'' = ''9'' \<and> stem_of ''python3.9'' = ''python3.''"
  by code_simp

text \<open>A word after \<^verbatim>\<open>env\<close> may have a slash, and then the rewritten line is rewritten again.\<close>

lemma env_word_with_slash:
  "(case extract_shebang_interpreter ''#!/usr/bin/env python3.12/sh'' of
      Inr (Some d) \<Rightarrow> corrected_shebang_line d = Some ''#! /usr/bin/python3.12/sh'' | _ \<Rightarrow> False)
   \<and> (case extract_shebang_interpreter ''#! /usr/bin/python3.12/sh'' of
      Inr (Some d) \<Rightarrow> corrected_shebang_line d = Some ''#! /bin/sh'' | _ \<Rightarrow> False)"
  by code_simp

end
