(* ===== verification/RefineFs.thy ===== *)
theory RefineFs
  imports VirtFsProps
begin

section \<open>The virtual file system refines a map from paths to entries\<close>

text \<open>
  What a store means to its users: a partial map from the lists of names that lead from the root to what is
  there.  Each call that changes the tree is an operation on this map: an entry is put in place, a subtree is
  cut off, or a subtree is moved.  The calls of the store are shown to implement these operations.
\<close>

subsection \<open>Maps from paths to entries\<close>

datatype entry = EDir | EFile string | ELink string

type_synonym path_map = "string list \<Rightarrow> entry option"

definition cut :: "string list \<Rightarrow> path_map \<Rightarrow> path_map" where
  "cut q T = (\<lambda>x. if prefix q x then None else T x)"

definition put :: "string list \<Rightarrow> entry \<Rightarrow> path_map \<Rightarrow> path_map" where
  "put q e T = (cut q T)(q \<mapsto> e)"

text \<open>Moving the subtree at one path to another one, in place of what is there.\<close>

definition graft :: "string list \<Rightarrow> string list \<Rightarrow> path_map \<Rightarrow> path_map" where
  "graft q d T =
     (\<lambda>x. if prefix d x then T (q @ drop (length d) x) else if prefix q x then None else T x)"

subsection \<open>The map of a store\<close>

fun descend :: "(nat \<Rightarrow> string \<Rightarrow> nat option) \<Rightarrow> nat \<Rightarrow> string list \<Rightarrow> nat option" where
  "descend G i [] = Some i"
| "descend G i (k # ks) = (case G i k of None \<Rightarrow> None | Some c \<Rightarrow> descend G c ks)"

definition entry_of :: "fs \<Rightarrow> nat \<Rightarrow> entry" where
  "entry_of fs i =
     (case n_class (node fs i) of
        FSRootDir _ \<Rightarrow> EDir | VirtualDirectoryFSPath \<Rightarrow> EDir
      | SymlinkVirtualPath t \<Rightarrow> ELink t | FSBackedFilePath p _ \<Rightarrow> EFile p)"

definition path_map_of :: "fs \<Rightarrow> path_map" where
  "path_map_of fs q = map_option (entry_of fs) (descend (get_child fs) 0 q)"

text \<open>The names that lead to an object.\<close>

partial_function (option) names_opt :: "fs \<Rightarrow> nat \<Rightarrow> string list option" where
  "names_opt fs i =
     (if is_root fs i then Some []
      else (case n_parent (node fs i) of
              None \<Rightarrow> None
            | Some p \<Rightarrow> Option.bind (names_opt fs p) (\<lambda>q. Some (q @ [n_name (node fs i)]))))"

declare names_opt.simps [code]

definition names :: "fs \<Rightarrow> nat \<Rightarrow> string list" where
  "names fs i = (case names_opt fs i of None \<Rightarrow> [] | Some q \<Rightarrow> q)"

subsection \<open>What the calls do to the map\<close>

text \<open>The calls that change one place of the tree; \<^verbatim>\<open>mkdirs\<close> and \<^verbatim>\<open>prune_if_empty_dir\<close> are loops over them.\<close>

fun elementary :: "fs_call \<Rightarrow> bool" where
  "elementary (Mkdirs _ _) = False"
| "elementary (PruneIfEmptyDir _) = False"
| "elementary _ = True"

fun spec_call :: "(nat \<Rightarrow> string list) \<Rightarrow> fs_call \<Rightarrow> path_map \<Rightarrow> path_map" where
  "spec_call pos (Mkdir i nm _) T = put (pos i @ [nm]) EDir T"
| "spec_call pos (AddSymlink i nm t _) T = put (pos i @ [nm]) (ELink t) T"
| "spec_call pos (AddFile i nm _ _ _ _ p) T = put (pos i @ [nm]) (EFile p) T"
| "spec_call pos (InsertFile i nm p resolved _ _ _ _ _ follow _) T =
     put (pos i @ [nm]) (EFile (if follow then resolved else p)) T"
| "spec_call pos (Unlink i _) T = cut (pos i) T"
| "spec_call pos (SetName i nm) T = (if i = 0 then T else graft (pos i) (butlast (pos i) @ [nm]) T)"
| "spec_call pos (SetParentDir i p) T = graft (pos i) (pos p @ [last (pos i)]) T"
| "spec_call pos _ T = T"

subsection \<open>Changing one entry\<close>

definition entry_update ::
    "(nat \<Rightarrow> string \<Rightarrow> nat option) \<Rightarrow> nat \<Rightarrow> string \<Rightarrow> nat option \<Rightarrow> nat \<Rightarrow> string \<Rightarrow> nat option" where
  "entry_update G p nm v = (\<lambda>j k. if j = p \<and> k = nm then v else G j k)"

lemma descend_append: "descend G i (xs @ ys) = (case descend G i xs of None \<Rightarrow> None | Some j \<Rightarrow> descend G j ys)"
  by (induction xs arbitrary: i) (auto split: option.splits)

text \<open>An object that only one path leads to.\<close>

definition only_at :: "(nat \<Rightarrow> string \<Rightarrow> nat option) \<Rightarrow> nat \<Rightarrow> string list \<Rightarrow> bool" where
  "only_at G p q \<longleftrightarrow> (\<forall>y. descend G 0 y = Some p \<longleftrightarrow> y = q)"

lemma descend_update_from:
  assumes p: "only_at G p q"
  shows "descend G 0 y = Some j \<Longrightarrow> \<not> prefix (q @ [nm]) y \<Longrightarrow>
     descend (entry_update G p nm v) j x =
       (if prefix (q @ [nm]) (y @ x)
        then (case v of None \<Rightarrow> None | Some c \<Rightarrow> descend (entry_update G p nm v) c (drop (Suc (length q)) (y @ x)))
        else descend G j x)"
proof (induction x arbitrary: j y)
  case Nil
  then show ?case by simp
next
  case (Cons k x)
  show ?case
  proof (cases "j = p \<and> k = nm")
    case True
    then have "y = q" using Cons.prems(1) p by (simp add: only_at_def)
    with True show ?thesis by (cases v) (simp_all add: entry_update_def)
  next
    case other: False
    have no: "\<not> prefix (q @ [nm]) (y @ [k])"
    proof
      assume pr: "prefix (q @ [nm]) (y @ [k])"
      with Cons.prems(2) have "q @ [nm] = y @ [k]" by (metis prefix_snoc)
      then have "q = y" "nm = k" by simp_all
      moreover have "descend G 0 q = Some p" using p by (simp add: only_at_def)
      ultimately show False using Cons.prems(1) other by simp
    qed
    show ?thesis
    proof (cases "G j k")
      case None
      have np: "\<not> prefix (q @ [nm]) (y @ k # x)"
      proof
        assume pr: "prefix (q @ [nm]) (y @ k # x)"
        then have "\<not> prefix (q @ [nm]) (y @ [k])" using no by simp
        with pr have "prefix (y @ [k]) (q @ [nm])"
          by (metis append_Cons append_Nil append_assoc prefixI prefix_same_cases)
        with no have "prefix (y @ [k]) q" by (metis prefix_order.refl prefix_snoc)
        then obtain z where "q = (y @ [k]) @ z" by (auto simp: prefix_def)
        moreover have "descend G 0 q = Some p" using p by (simp add: only_at_def)
        ultimately show False using Cons.prems(1) None by (simp add: descend_append)
      qed
      have "entry_update G p nm v j k = None" using other None by (auto simp: entry_update_def)
      with np None show ?thesis by simp
    next
      case (Some c)
      then have u: "entry_update G p nm v j k = Some c" using other by (auto simp: entry_update_def)
      have "descend G 0 (y @ [k]) = Some c" using Cons.prems(1) Some by (simp add: descend_append)
      moreover have "(y @ [k]) @ x = y @ k # x" by simp
      ultimately show ?thesis using Cons.IH[OF _ no, of c] u Some by (simp only: descend.simps option.case)
    qed
  qed
qed

lemma descend_update:
  assumes "only_at G p q"
  shows "descend (entry_update G p nm v) 0 x =
    (if prefix (q @ [nm]) x
     then (case v of None \<Rightarrow> None | Some c \<Rightarrow> descend (entry_update G p nm v) c (drop (Suc (length q)) x))
     else descend G 0 x)"
proof -
  have "descend G 0 [] = Some 0" "\<not> prefix (q @ [nm]) []" by simp_all
  from descend_update_from[OF assms this] show ?thesis by (simp only: append_Nil)
qed

lemma descend_update_away:
  "(\<And>z. descend G c z \<noteq> Some p) \<Longrightarrow> descend (entry_update G p nm v) c x = descend G c x"
proof (induction x arbitrary: c)
  case (Cons k x)
  have c: "c \<noteq> p" using Cons.prems[of "[]"] by auto
  show ?case
  proof (cases "G c k")
    case (Some d)
    have "descend G d z \<noteq> Some p" for z using Cons.prems[of "k # z"] Some by simp
    with Cons.IH c Some show ?thesis by (simp add: entry_update_def)
  qed (use c in \<open>simp add: entry_update_def\<close>)
qed simp


subsection \<open>Well-formed stores\<close>

lemma option_eqI: "(\<And>c. a = Some c \<longleftrightarrow> b = Some c) \<Longrightarrow> a = b"
  by (cases a; cases b) auto

lemma child_iff:
  assumes "wf_fs fs"
  shows "get_child fs p k = Some c \<longleftrightarrow> n_parent (node fs c) = Some p \<and> n_name (node fs c) = k"
  using wf_kid_map[OF assms, of p k c] wf_parent[OF assms, of c p] by (auto simp: get_child_kids)

lemma descend_snoc: "descend G i (ys @ [k]) = Some j \<longleftrightarrow> (\<exists>p. descend G i ys = Some p \<and> G p k = Some j)"
  by (auto simp: descend_append split: option.splits)

lemma descend_unique:
  assumes wf: "wf_fs fs"
  shows "descend (get_child fs) 0 y = Some j \<Longrightarrow> descend (get_child fs) 0 y' = Some j \<Longrightarrow> y = y'"
proof (induction y arbitrary: j y' rule: rev_induct)
  case Nil
  then have j: "j = 0" by simp
  show ?case
  proof (cases y' rule: rev_cases)
    case (snoc z k)
    then obtain p where "get_child fs p k = Some 0" using Nil.prems(2) j by (auto simp: descend_snoc)
    then show ?thesis using child_iff[OF wf] wf_root_parent[OF wf] by simp
  qed simp
next
  case (snoc k y)
  then obtain p where p: "descend (get_child fs) 0 y = Some p" "get_child fs p k = Some j"
    by (auto simp: descend_snoc)
  then have pj: "n_parent (node fs j) = Some p" "n_name (node fs j) = k" using child_iff[OF wf] by simp_all
  show ?case
  proof (cases y' rule: rev_cases)
    case Nil
    then show ?thesis using snoc.prems(2) pj wf_root_parent[OF wf] by simp
  next
    case (snoc z k')
    then obtain p' where p': "descend (get_child fs) 0 z = Some p'" "get_child fs p' k' = Some j"
      using snoc.prems(2) by (auto simp: descend_snoc)
    then have "p' = p" "k' = k" using pj child_iff[OF wf] by simp_all
    with snoc.IH[OF p(1)] p'(1) snoc show ?thesis by simp
  qed
qed

lemma descend_attached:
  assumes "wf_fs fs"
  shows "descend (get_child fs) i x = Some j \<Longrightarrow> is_detached_opt fs i = Some False \<Longrightarrow> is_detached_opt fs j = Some False"
proof (induction x arbitrary: i)
  case (Cons k x)
  then show ?case using child_attached(1)[OF assms] by (auto split: option.splits)
qed simp

lemma descend_below:
  assumes "wf_fs fs"
  shows "descend (get_child fs) i x = Some j \<Longrightarrow> below fs i j"
proof (induction x arbitrary: j rule: rev_induct)
  case (snoc k x)
  then obtain p where p: "descend (get_child fs) i x = Some p" "get_child fs p k = Some j"
    by (auto simp: descend_snoc)
  then have "n_parent (node fs j) = Some p" using child_iff[OF assms] by simp
  moreover have "\<not> is_root fs j" using calculation wf_root[OF assms] wf_root_parent[OF assms] by force
  ultimately show ?case using snoc.IH[OF p(1)] below_child by blast
qed simp

lemma names_descend:
  assumes wf: "wf_fs fs" and "is_detached_opt fs i = Some b" and "b = False"
  shows "\<exists>q. names_opt fs i = Some q \<and> descend (get_child fs) 0 q = Some i"
  using assms(2,3)
proof (induction rule: det_induct)
  case (root i)
  then show ?case using wf_root[OF wf] by (simp add: names_opt.simps)
next
  case (child i p b)
  then obtain q where q: "names_opt fs p = Some q" "descend (get_child fs) 0 q = Some p" by blast
  have "get_child fs p (n_name (node fs i)) = Some i" using child_iff[OF wf] child.hyps(2) by simp
  with q child.hyps(1,2) show ?case by (simp add: names_opt.simps[of fs i] descend_snoc)
qed simp

lemma names_at:
  assumes "wf_fs fs" and "is_detached_opt fs i = Some False"
  shows "descend (get_child fs) 0 (names fs i) = Some i"
  using names_descend[OF assms] by (auto simp: names_def)

lemma names_child:
  assumes "\<not> is_root fs i" and "n_parent (node fs i) = Some p" and "wf_fs fs" and "is_detached_opt fs p = Some False"
  shows "names fs i = names fs p @ [n_name (node fs i)]"
  using names_descend[OF assms(3,4)] assms(1,2) by (auto simp: names_def names_opt.simps[of fs i])

lemma only_at_wf:
  assumes "wf_fs fs" and "descend (get_child fs) 0 q = Some p"
  shows "only_at (get_child fs) p q"
  using assms descend_unique by (auto simp: only_at_def)

text \<open>Stores in which the same entries have the same classes mean the same.\<close>

lemma same_map:
  assumes "\<And>p k. get_child fs' p k = get_child fs p k" and "\<And>j. n_class (node fs' j) = n_class (node fs j)"
  shows "path_map_of fs' = path_map_of fs"
proof -
  have g: "get_child fs' = get_child fs" using assms(1) by blast
  have e: "entry_of fs' = entry_of fs" using assms(2) by (simp add: entry_of_def fun_eq_iff)
  show ?thesis by (intro ext) (simp only: path_map_of_def g e)
qed

lemma same_tree_map: "same_tree fs fs' \<Longrightarrow> path_map_of fs' = path_map_of fs"
  by (rule same_map) (simp_all add: same_tree_def get_child_kids)


subsection \<open>Cutting off\<close>

lemma detaches_map:
  assumes wf: "wf_fs fs" and at: "descend (get_child fs) 0 q = Some p" and d: "detaches fs fs' i p"
  shows "path_map_of fs' = cut (q @ [n_name (node fs i)]) (path_map_of fs)"
    and "get_child fs' = entry_update (get_child fs) p (n_name (node fs i)) None"
proof -
  show g: "get_child fs' = entry_update (get_child fs) p (n_name (node fs i)) None"
    using d by (auto simp: fun_eq_iff detaches_def get_child_kids entry_update_def delete_conv')
  have e: "entry_of fs' = entry_of fs" using d by (simp add: detaches_def entry_of_def fun_eq_iff)
  show "path_map_of fs' = cut (q @ [n_name (node fs i)]) (path_map_of fs)"
    unfolding path_map_of_def cut_def g e using descend_update[OF only_at_wf[OF wf at]] by (simp add: fun_eq_iff)
qed

lemma unlink_map:
  assumes wf: "wf_fs fs" and att: "is_detached_opt fs i = Some False" and ok: "unlink fs i r = Inr fs'"
  shows "path_map_of fs' = cut (names fs i) (path_map_of fs)"
proof (rule unlink_ok[OF wf att ok])
  fix p
  assume p: "n_parent (node fs i) = Some p" "is_detached_opt fs p = Some False" and d: "detaches fs fs' i p"
    and i: "i \<noteq> 0"
  have "\<not> is_root fs i" using i wf_root[OF wf] by simp
  from names_child[OF this p(1) wf p(2)] detaches_map(1)[OF wf names_at[OF wf p(2)] d] show ?thesis by simp
qed

subsection \<open>Putting in place\<close>

text \<open>Setting the parent of an object that has none: exactly one entry changes.\<close>

lemma set_parent_child:
  assumes wf: "wf_fs fs" and ok: "set_parent fs i p = Inr fs'"
    and i: "i < length (nodes fs)" and p: "is_detached_opt fs p = Some False"
    and src: "is_detached_opt fs i = Some False \<or> n_parent (node fs i) = None"
  shows "get_child fs' = entry_update
      (case n_parent (node fs i) of None \<Rightarrow> get_child fs
         | Some old \<Rightarrow> entry_update (get_child fs) old (n_name (node fs i)) None) p (n_name (node fs i)) (Some i)"
proof (intro ext option_eqI)
  fix d k c
  note eff = set_parent_effect[OF assms]
  let ?nm = "n_name (node fs i)"
  let ?G = "case n_parent (node fs i) of None \<Rightarrow> get_child fs
         | Some old \<Rightarrow> entry_update (get_child fs) old ?nm None"
  have lhs: "get_child fs' d k = Some c \<longleftrightarrow> n_parent (node fs' c) = Some d \<and> n_name (node fs c) = k"
    using child_iff[OF eff(1)] eff(7) by simp
  have G: "?G d k = Some c \<longleftrightarrow> n_parent (node fs c) = Some d \<and> n_name (node fs c) = k \<and> c \<noteq> i"
  proof (cases "n_parent (node fs i)")
    case None
    then have "c \<noteq> i" if "n_parent (node fs c) = Some d" using that by auto
    with None show ?thesis using child_iff[OF wf, of d k c] by auto
  next
    case (Some old)
    have i: "get_child fs old ?nm = Some i" using child_iff[OF wf] Some by simp
    show ?thesis
    proof (cases "d = old \<and> k = ?nm")
      case True
      then have "?G d k = None" using Some by (simp add: entry_update_def)
      moreover have "c = i" if "n_parent (node fs c) = Some d" "n_name (node fs c) = k"
        using that True i child_iff[OF wf, of d k c] by simp
      ultimately show ?thesis by auto
    next
      case False
      then have "?G d k = get_child fs d k" using Some by (auto simp: entry_update_def)
      moreover have "c \<noteq> i" if "n_parent (node fs c) = Some d" "n_name (node fs c) = k"
        using that False Some by auto
      ultimately show ?thesis using child_iff[OF wf, of d k c] by auto
    qed
  qed
  have entry: "get_child fs' p ?nm = Some i" using child_iff[OF eff(1)] eff(5,7) by simp
  have out: "get_child fs' d k = Some c \<longleftrightarrow> ?G d k = Some c" if "d \<noteq> p \<or> k \<noteq> ?nm"
  proof (cases "c = i")
    case True
    then show ?thesis using that lhs G eff(5) by auto
  next
    case False
    with eff(11)[OF this] lhs G that show ?thesis by auto
  qed
  show "get_child fs' d k = Some c \<longleftrightarrow> entry_update ?G p ?nm (Some i) d k = Some c"
    using entry out by (auto simp: entry_update_def)
qed

lemma create_map:
  assumes wf: "wf_fs fs" and at: "descend (get_child fs) 0 q = Some p" and n: "fresh_node n"
    and ok: "create fs p n = Inr (fs', c)"
  shows "path_map_of fs' = put (q @ [n_name n]) (entry_of fs' c) (path_map_of fs)"
proof -
  have p: "is_detached_opt fs p = Some False"
    using descend_attached[OF wf at] root_attached[OF wf] by blast
  obtain fs1 i where fs1: "new_node n fs = (fs1, i)" by (cases "new_node n fs")
  note w = new_node_wf[OF wf n fs1]
  have sp: "set_parent fs1 i p = Inr fs'" and ci: "c = i"
    using ok fs1 by (auto simp: create_def res_simps)
  have orphan: "n_parent (node fs1 i) = None" using w(6) n by (simp add: fresh_node_def)
  have p1: "is_detached_opt fs1 p = Some False" using w(7) p by simp
  have i1: "i < length (nodes fs1)" using w(2,3) by simp
  note eff = set_parent_effect[OF w(1) sp i1 p1 disjI2[OF orphan]]
  have g1: "get_child fs1 = get_child fs"
  proof (intro ext)
    fix d k
    show "get_child fs1 d k = get_child fs d k"
      using w(5)[of d] w(2,6) n by (cases "d = i") (simp_all add: get_child_kids kids_def fresh_node_def)
  qed
  have g': "get_child fs' = entry_update (get_child fs) p (n_name n) (Some i)"
    using set_parent_child[OF w(1) sp i1 p1 disjI2[OF orphan]] orphan w(6) g1 by simp
  have pi: "p \<noteq> i" using eff(8) by auto
  have leaf: "descend (get_child fs') i z = (if z = [] then Some i else None)" for z
  proof (cases z)
    case (Cons k ks)
    have "get_child fs i k = None" using w(2) by (simp add: get_child_kids kids_def)
    then show ?thesis using Cons pi by (simp add: g' entry_update_def)
  qed simp
  have e: "entry_of fs' j = entry_of fs j" if "j \<noteq> i" for j
    using that eff(7)[of j] w(5)[OF that] by (simp add: entry_of_def)
  have no_i: "descend (get_child fs) 0 x \<noteq> Some i" for x
    using descend_attached[OF wf, of 0 x i] root_attached[OF wf] attached_in_range[of fs i] w(2) by auto
  have "path_map_of fs' x = put (q @ [n_name n]) (entry_of fs' c) (path_map_of fs) x" for x
  proof (cases "prefix (q @ [n_name n]) x")
    case True
    then obtain z where z: "x = q @ [n_name n] @ z" by (auto simp: prefix_def)
    then have "descend (get_child fs') 0 x = descend (get_child fs') i z"
      unfolding g' using descend_update[OF only_at_wf[OF wf at], of "n_name n" "Some i" x] by simp
    with z leaf show ?thesis by (simp add: path_map_of_def put_def cut_def ci)
  next
    case False
    then have "descend (get_child fs') 0 x = descend (get_child fs) 0 x"
      unfolding g' using descend_update[OF only_at_wf[OF wf at]] by simp
    moreover have "x \<noteq> q @ [n_name n]" using False by auto
    moreover have "entry_of fs' a = entry_of fs a" if "descend (get_child fs) 0 x = Some a" for a
      using that e no_i by metis
    ultimately show ?thesis using False
      by (cases "descend (get_child fs) 0 x") (simp_all add: path_map_of_def put_def cut_def)
  qed
  then show ?thesis by blast
qed

lemma put_cut: "put q e (cut q T) = put q e T"
  by (simp add: put_def cut_def fun_eq_iff)

lemma unlink_existing_map:
  assumes wf: "wf_fs fs" and at: "descend (get_child fs) 0 q = Some p"
    and u: "(case get_child fs p nm of None \<Rightarrow> Inr fs | Some x \<Rightarrow> unlink fs x r) = Inr fs1"
  shows "path_map_of fs1 = path_map_of fs \<or> path_map_of fs1 = cut (q @ [nm]) (path_map_of fs)"
    and "descend (get_child fs1) 0 q = Some p"
proof -
  have "(path_map_of fs1 = path_map_of fs \<or> path_map_of fs1 = cut (q @ [nm]) (path_map_of fs))
      \<and> descend (get_child fs1) 0 q = Some p"
  proof (cases "get_child fs p nm")
    case None
    with u at show ?thesis by simp
  next
    case (Some x)
    have p: "is_detached_opt fs p = Some False"
      using descend_attached[OF wf at] root_attached[OF wf] by blast
    note x = child_attached[OF wf p Some]
    from u Some have ux: "unlink fs x r = Inr fs1" by simp
    show ?thesis
    proof (rule unlink_ok[OF wf x(1) ux])
      fix p'
      assume "n_parent (node fs x) = Some p'" "detaches fs fs1 x p'"
      then have d: "detaches fs fs1 x p" using x(2) by simp
      have "descend (get_child fs1) 0 q = Some p"
        unfolding detaches_map(2)[OF wf at d] using descend_update[OF only_at_wf[OF wf at]] at by simp
      with detaches_map(1)[OF wf at d] x(3) show ?thesis by simp
    qed
  qed
  then show "path_map_of fs1 = path_map_of fs \<or> path_map_of fs1 = cut (q @ [nm]) (path_map_of fs)"
    and "descend (get_child fs1) 0 q = Some p" by blast+
qed


subsection \<open>Moving\<close>

lemma descend_from: "descend G 0 q = Some i \<Longrightarrow> descend G i z = descend G 0 (q @ z)"
  by (simp add: descend_append)

lemma regraft_map:
  assumes wf: "wf_fs fs" and i: "is_detached_opt fs i = Some False" "i \<noteq> 0" and p: "is_detached_opt fs p = Some False"
    and old: "n_parent (node fs i) = Some old" and nb: "\<not> below fs i p"
    and g: "get_child fs' = entry_update (entry_update (get_child fs) old (n_name (node fs i)) None) p nm (Some i)"
    and cl: "\<And>j. n_class (node fs' j) = n_class (node fs j)"
  shows "path_map_of fs' = graft (names fs i) (names fs p @ [nm]) (path_map_of fs)"
proof -
  let ?G = "get_child fs" and ?qi = "names fs i" and ?qp = "names fs p"
  let ?G1 = "entry_update ?G old (n_name (node fs i)) None"
  have nr: "\<not> is_root fs i" using i(2) wf_root[OF wf] by simp
  have oa: "is_detached_opt fs old = Some False" using i(1) det_child[OF nr old] by simp
  note ati = names_at[OF wf i(1)] and atp = names_at[OF wf p] and ato = names_at[OF wf oa]
  have qi: "?qi = names fs old @ [n_name (node fs i)]" by (rule names_child[OF nr old wf oa])
  have G1: "descend ?G1 0 x = (if prefix ?qi x then None else descend ?G 0 x)" for x
    unfolding qi using descend_update[OF only_at_wf[OF wf ato]] by simp
  have not_p: "descend ?G i z \<noteq> Some p" for z using descend_below[OF wf] nb by blast
  have not_old: "descend ?G i z \<noteq> Some old" for z
    using descend_below[OF wf] wf_not_below_parent(1)[OF wf old] by blast
  have G1i: "descend ?G1 i z = descend ?G i z" for z
    using not_old by (rule descend_update_away)
  have np: "\<not> prefix ?qi ?qp"
  proof
    assume "prefix ?qi ?qp"
    then obtain z where "?qp = ?qi @ z" by (auto simp: prefix_def)
    then show False using atp not_p[of z] descend_from[OF ati] by metis
  qed
  have only: "only_at ?G1 p ?qp"
    unfolding only_at_def using G1 np only_at_wf[OF wf atp] by (auto simp: only_at_def split: if_splits)
  have e: "entry_of fs' = entry_of fs" using cl by (simp add: entry_of_def fun_eq_iff)
  have inner: "descend (get_child fs') i z = descend ?G 0 (?qi @ z)" for z
    unfolding g using descend_update_away[of ?G1 i p nm "Some i" z] G1i not_p descend_from[OF ati] by metis
  show ?thesis
  proof
    fix x
    have "descend (get_child fs') 0 x =
        (if prefix (?qp @ [nm]) x then descend (get_child fs') i (drop (Suc (length ?qp)) x) else descend ?G1 0 x)"
      unfolding g using descend_update[OF only] by (simp only: option.case)
    then show "path_map_of fs' x = graft ?qi (?qp @ [nm]) (path_map_of fs) x"
      using inner G1 by (simp add: path_map_of_def graft_def e)
  qed
qed

lemma set_parent_map:
  assumes wf: "wf_fs fs" and i: "is_detached_opt fs i = Some False" and p: "is_detached_opt fs p = Some False"
    and ok: "set_parent fs i p = Inr fs'"
  shows "path_map_of fs' = graft (names fs i) (names fs p @ [last (names fs i)]) (path_map_of fs)"
proof -
  note il = attached_in_range[OF i]
  note eff = set_parent_effect[OF wf ok il p disjI1[OF i]]
  have nr: "\<not> is_root fs i" using eff(10) wf_root[OF wf] by simp
  obtain old where old: "n_parent (node fs i) = Some old" "is_detached_opt fs old = Some False"
    using attached_parent[OF i nr] by blast
  have "last (names fs i) = n_name (node fs i)" using names_child[OF nr old(1) wf old(2)] by simp
  moreover have "get_child fs' = entry_update (entry_update (get_child fs) old (n_name (node fs i)) None) p (n_name (node fs i)) (Some i)"
    using set_parent_child[OF wf ok il p disjI1[OF i]] old(1) by simp
  ultimately show ?thesis using regraft_map[OF wf i eff(10) p old(1) eff(8)] eff(7) by simp
qed

lemma graft_same: "graft q q T = T"
  by (auto simp: graft_def fun_eq_iff prefix_def)

lemma set_name_map:
  assumes wf: "wf_fs fs" and i: "is_detached_opt fs i = Some False" and ok: "set_name fs i nm = Inr fs'"
  shows "path_map_of fs' = (if i = 0 then path_map_of fs else graft (names fs i) (butlast (names fs i) @ [nm]) (path_map_of fs))"
proof -
  note rw = rw_check_det[OF i]
  have w: "fs_read_write fs"
    using ok by (cases "fs_read_write fs") (simp_all add: set_name_def rw)
  show ?thesis
  proof (cases "i = 0")
    case True
    then have root: "is_root fs i" using wf_root[OF wf] by simp
    have r: "is_root (set_node i f fs) i = is_root fs i" if "\<And>n. n_class (f n) = n_class n" for f
      using that by (simp add: is_root_def node_set_node)
    have "fs' = fs \<or> fs' = set_node i (\<lambda>n. n\<lparr>n_name := nm\<rparr>) fs"
      using ok w root r by (auto simp: set_name_def rw is_detached_simp[OF i] parent_dir_def set_parent_none_def
          split: if_splits)
    then have "path_map_of fs' = path_map_of fs"
      by (intro same_map) (auto simp: get_child_def node_set_node)
    with True show ?thesis by simp
  next
    case False
    then have nr: "\<not> is_root fs i" using wf_root[OF wf] by simp
    obtain q where q: "n_parent (node fs i) = Some q" "is_detached_opt fs q = Some False"
      using attached_parent[OF i nr] by blast
    have qi: "names fs i = names fs q @ [n_name (node fs i)]" by (rule names_child[OF nr q(1) wf q(2)])
    show ?thesis
    proof (cases "nm = n_name (node fs i)")
      case True
      then have "fs' = fs" using ok w by (simp add: set_name_def rw)
      with False True qi graft_same show ?thesis by simp
    next
      case nm: False
      obtain fs1 where fs1: "set_parent_none fs i = Inr fs1"
        and fs': "set_parent (set_node i (\<lambda>n. n\<lparr>n_name := nm\<rparr>) fs1) i q = Inr fs'"
        using ok w nm nr q(1)
        by (auto simp: set_name_def rw is_detached_simp[OF i] parent_dir_def res_simps)
      obtain p where p: "n_parent (node fs i) = Some p" "detaches fs fs1 i p" "fs_ok fs fs1"
        "is_detached_opt fs1 p = Some False"
        by (rule set_parent_none_ok[OF wf i False fs1]) (rule that; assumption)
      have pq: "p = q" using p q by simp
      define fs2 where "fs2 = set_node i (\<lambda>n. n\<lparr>n_name := nm\<rparr>) fs1"
      have orphan: "n_parent (node fs1 i) = None" using p(2) by (simp add: detaches_def)
      have wf2: "wf_fs fs2" unfolding fs2_def using p(3) orphan by (intro wf_rename) (simp_all add: fs_ok_def)
      have q2: "is_detached_opt fs2 q = Some False"
        using p(4) pq det_parents[of fs2 fs1 q] by (simp add: fs2_def node_set_node is_root_def)
      have l2: "i < length (nodes fs2)"
        using attached_in_range[OF i] p(2) by (simp add: fs2_def detaches_def)
      have orphan2: "n_parent (node fs2 i) = None" using orphan by (simp add: fs2_def node_set_node)
      have sp: "set_parent fs2 i q = Inr fs'" using fs' by (simp add: fs2_def)
      note eff = set_parent_effect[OF wf2 sp l2 q2 disjI2[OF orphan2]]
      have nm2: "n_name (node fs2 i) = nm" using l2 by (simp add: fs2_def node_set_node)
      have g2: "get_child fs2 = get_child fs1" by (simp add: fs2_def get_child_def node_set_node fun_eq_iff)
      have g1: "get_child fs1 = entry_update (get_child fs) q (n_name (node fs i)) None"
        using detaches_map(2)[OF wf names_at[OF wf q(2)]] p(2) pq by blast
      have g: "get_child fs' = entry_update (entry_update (get_child fs) q (n_name (node fs i)) None) q nm (Some i)"
        using set_parent_child[OF wf2 sp l2 q2 disjI2[OF orphan2]] orphan2 nm2 g1 g2 by simp
      have cl: "n_class (node fs' j) = n_class (node fs j)" for j
        using eff(7)[of j] p(2) by (simp add: fs2_def node_set_node detaches_def)
      from regraft_map[OF wf i False q(2) q(1) wf_not_below_parent(1)[OF wf q(1)] g cl] False qi
      show ?thesis by simp
    qed
  qed
qed


subsection \<open>Every call\<close>

lemma local_map: "(\<And>n. n_class (f n) = n_class n) \<Longrightarrow> (\<And>n. n_children (f n) = n_children n) \<Longrightarrow>
    path_map_of (set_node i f fs) = path_map_of fs"
  by (rule same_map) (simp_all add: get_child_def node_set_node)

lemma set_mode_map: "set_mode fs i m = Inr fs' \<Longrightarrow> path_map_of fs' = path_map_of fs"
  by (auto simp: set_mode_def Let_def res_simps split: if_splits intro!: local_map)

lemma ensure_min_mode_map: "ensure_min_mode fs i = Inr fs' \<Longrightarrow> path_map_of fs' = path_map_of fs"
  using set_mode_map by (auto simp: ensure_min_mode_def Let_def split: if_splits)

lemma create_entry:
  assumes "wf_fs fs" and "descend (get_child fs) 0 q = Some p"
    and "\<forall>r. c \<noteq> FSRootDir r" and "create fs p (fs_path_init nm None c m r) = Inr (fs', i)"
  shows "path_map_of fs' = put (q @ [nm]) (case c of FSRootDir _ \<Rightarrow> EDir | VirtualDirectoryFSPath \<Rightarrow> EDir
      | SymlinkVirtualPath t \<Rightarrow> ELink t | FSBackedFilePath f _ \<Rightarrow> EFile f) (path_map_of fs)"
proof -
  have n: "fresh_node (fs_path_init nm None c m r)" using assms(3) by simp
  have p: "is_detached_opt fs p = Some False"
    using descend_attached[OF assms(1,2)] root_attached[OF assms(1)] by blast
  have "n_class (node fs' i) = c" using create_ok(6)[OF assms(1) p n assms(4)] by simp
  with create_map[OF assms(1,2) n assms(4)] show ?thesis by (simp add: entry_of_def)
qed

lemma new_file_map:
  assumes "wf_fs fs" and "descend (get_child fs) 0 q = Some p"
    and "new_file fs p nm f inl m t r = Inr (fs', i)"
  shows "path_map_of fs' = put (q @ [nm]) (EFile f) (path_map_of fs)"
proof -
  obtain fs1 fs2 where c: "create fs p (fs_path_init nm None (FSBackedFilePath f inl) (reference_mode r o644) r) = Inr (fs1, i)"
    and m: "(case m of None \<Rightarrow> Inr fs1 | Some m \<Rightarrow> set_mode fs1 i m) = Inr fs2"
    and e: "ensure_min_mode (if t = None then fs2 else set_node i (\<lambda>n. n\<lparr>n_mtime := t\<rparr>) fs2) i = Inr fs'"
    using assms(3) by (auto simp: new_file_def res_simps Let_def split: if_splits)
  have "path_map_of fs' = path_map_of (if t = None then fs2 else set_node i (\<lambda>n. n\<lparr>n_mtime := t\<rparr>) fs2)"
    using e by (rule ensure_min_mode_map)
  also have "\<dots> = path_map_of fs2" by (simp add: local_map)
  also have "\<dots> = path_map_of fs1" using m set_mode_map by (auto split: option.splits)
  also have "\<dots> = put (q @ [nm]) (EFile f) (path_map_of fs)"
    using create_entry[OF assms(1,2) _ c] by simp
  finally show ?thesis .
qed

lemma unlinked_then_put:
  assumes "path_map_of fs1 = path_map_of fs \<or> path_map_of fs1 = cut q (path_map_of fs)"
    and "path_map_of fs' = put q e (path_map_of fs1)"
  shows "path_map_of fs' = put q e (path_map_of fs)"
  using assms by (auto simp: put_cut)

lemma add_symlink_map:
  assumes wf: "wf_fs fs" and at: "descend (get_child fs) 0 q = Some p" and ok: "add_symlink fs p nm t r = Inr (fs', i)"
  shows "path_map_of fs' = put (q @ [nm]) (ELink t) (path_map_of fs)"
proof -
  have p: "is_detached_opt fs p = Some False"
    using descend_attached[OF wf at] root_attached[OF wf] by blast
  from ok have rw: "fs_read_write fs"
    using rw_check_det[OF p] by (cases "fs_read_write fs") (auto simp: add_symlink_def split: if_splits)
  from ok obtain fs1 where u: "(case get_child fs p nm of None \<Rightarrow> Inr fs | Some x \<Rightarrow> unlink fs x False) = Inr fs1"
    and c: "create fs1 p (fs_path_init nm None (SymlinkVirtualPath t) (reference_mode r o777) r) = Inr (fs', i)"
    by (auto simp: add_symlink_def res_simps split: if_splits)
  have "wf_fs fs1" using unlink_existing_ok[OF wf p u rw] by (simp add: fs_ok_def)
  from create_entry[OF this unlink_existing_map(2)[OF wf at u] _ c]
  have "path_map_of fs' = put (q @ [nm]) (ELink t) (path_map_of fs1)" by simp
  with unlink_existing_map(1)[OF wf at u] show ?thesis by (rule unlinked_then_put)
qed

lemma add_file_map:
  assumes wf: "wf_fs fs" and at: "descend (get_child fs) 0 q = Some p"
    and ok: "add_file fs p nm unl usem m t f (\<lambda>fs c. Inr fs) True = Inr (fs', i)"
  shows "path_map_of fs' = put (q @ [nm]) (EFile f) (path_map_of fs)"
proof -
  have p: "is_detached_opt fs p = Some False"
    using descend_attached[OF wf at] root_attached[OF wf] by blast
  from ok have rw: "fs_read_write fs"
    using rw_check_det[OF p] by (cases "fs_read_write fs") (auto simp: add_file_def split: if_splits)
  from ok obtain fs1 fs2 where
    u: "(case get_child fs p nm of None \<Rightarrow> Inr fs | Some x \<Rightarrow> if \<not> unl then Inl ValueError else unlink fs x False) = Inr fs1"
    and n: "new_file fs1 p nm f True None t None = Inr (fs2, i)"
    and m: "(if usem then Inr (reset_caches i fs2, i)
        else rmap (\<lambda>fs5. (fs5, i)) (set_mode (reset_caches i fs2) i m)) = Inr (fs', i)"
    by (auto simp: add_file_def res_simps Let_def split: if_splits)
  from u have u: "(case get_child fs p nm of None \<Rightarrow> Inr fs | Some x \<Rightarrow> unlink fs x False) = Inr fs1"
    by (auto split: option.splits if_splits)
  have "wf_fs fs1" using unlink_existing_ok[OF wf p u rw] by (simp add: fs_ok_def)
  note new = new_file_map[OF this unlink_existing_map(2)[OF wf at u] n]
  have "path_map_of (reset_caches i fs2) = path_map_of fs2" unfolding reset_caches_def by (rule local_map) simp_all
  then have "path_map_of fs' = path_map_of fs2"
    using m set_mode_map[of "reset_caches i fs2" i m fs'] by (auto simp: res_simps split: if_splits)
  with new have "path_map_of fs' = put (q @ [nm]) (EFile f) (path_map_of fs1)" by simp
  with unlink_existing_map(1)[OF wf at u] show ?thesis by (rule unlinked_then_put)
qed

text \<open>C30: the store implements the map from paths to entries: each call that changes one place of the tree, made
  on attached objects, does to the map what the specification of the call says: it puts an entry in place,
  cuts a subtree off, moves a subtree, or leaves the map alone.\<close>

theorem calls_refine_path_map:
  assumes wf: "wf_fs fs" and att: "attached_call fs c" and el: "elementary c" and ok: "run_call c fs = Inr fs'"
  shows "path_map_of fs' = spec_call (names fs) c (path_map_of fs)"
proof -
  have at: "is_detached_opt fs i = Some False" "descend (get_child fs) 0 (names fs i) = Some i"
    if "i \<in> set (call_paths c)" for i
    using that att names_at[OF wf] by (simp_all add: attached_call_def is_detached_Inr)
  show ?thesis
  proof (cases c)
    case (Mkdir i nm r)
    with ok obtain fs1 k where "create fs i (fs_path_init nm None VirtualDirectoryFSPath (reference_mode r o755) r) = Inr (fs1, k)"
      "ensure_min_mode fs1 k = Inr fs'" by (auto simp: mkdir_def res_simps split: if_splits)
    then show ?thesis
      using create_entry[OF wf, of "names fs i" i VirtualDirectoryFSPath] at[of i] ensure_min_mode_map[of fs1 k fs'] Mkdir
      by simp
  next
    case (AddSymlink i nm t r)
    with ok show ?thesis using add_symlink_map[OF wf, of "names fs i" i nm t r] at[of i] by (auto simp: res_simps)
  next
    case (AddFile i nm u usem m t f)
    with ok show ?thesis using add_file_map[OF wf, of "names fs i" i nm u usem m t f] at[of i] by (auto simp: res_simps)
  next
    case (InsertFile i nm f resolved reg ex usem m cow follow r)
    with ok obtain k where "new_file fs i nm (if follow then resolved else f) (\<not> cow) (if usem then None else Some m) None r
        = Inr (fs', k)" by (auto simp: insert_file_from_fs_path_def res_simps Let_def split: if_splits)
    with InsertFile show ?thesis using new_file_map[OF wf, of "names fs i" i] at[of i] by simp
  next
    case (Unlink i r)
    with ok show ?thesis using unlink_map[OF wf] at[of i] by simp
  next
    case (SetName i nm)
    with ok show ?thesis using set_name_map[OF wf] at[of i] by simp
  next
    case (SetParentDir i p)
    with ok show ?thesis using set_parent_map[OF wf] at[of i] at[of p] by simp
  next
    case (SetMode i m)
    with ok show ?thesis using set_mode_map by simp
  next
    case (Chown i a b)
    with ok show ?thesis by (auto simp: chown_def res_simps intro!: local_map)
  next
    case (SetMtime i t)
    with ok show ?thesis by (auto simp: set_mtime_def res_simps intro!: local_map)
  qed (use el in simp_all)
qed

text \<open>Moving the directory \<^verbatim>\<open>usr/share\<close> of the demonstration store to the root.\<close>

lemma calls_refine_path_map_witness:
  "case run_call (SetParentDir 2 0) demo_fs of
     Inl _ \<Rightarrow> False
   | Inr fs' \<Rightarrow> path_map_of fs' = graft [''usr'', ''share''] [''share''] (path_map_of demo_fs)
       \<and> path_map_of fs' [''share''] = Some EDir \<and> path_map_of fs' [''usr'', ''share''] = None"
proof -
  have r: "case run_call (SetParentDir 2 0) demo_fs of
     Inl _ \<Rightarrow> False
   | Inr fs' \<Rightarrow> path_map_of fs' [''share''] = Some EDir \<and> path_map_of fs' [''usr'', ''share''] = None" by code_simp
  then obtain fs' where fs': "run_call (SetParentDir 2 0) demo_fs = Inr fs'" by (auto split: sum.splits)
  have att: "attached_call demo_fs (SetParentDir 2 0)" by code_simp
  have n: "names demo_fs 2 = [''usr'', ''share'']" "names demo_fs 0 = []" by code_simp+
  have wf: "wf_fs demo_fs" using demo_fs_reachable by (rule reachable_wf)
  have "path_map_of fs' = graft [''usr'', ''share''] [''share''] (path_map_of demo_fs)"
    using calls_refine_path_map[OF wf att _ fs'] n by simp
  with r fs' show ?thesis by simp
qed

end
