(* ===== verification/Maintscript.thy ===== *)
theory Maintscript
  imports Util VirtFsProps
begin

section \<open>Maintainer script snippets (\<^verbatim>\<open>maintscript_snippet.py\<close>, \<^verbatim>\<open>packaging/alternatives.py\<close>)\<close>

text \<open>
  The snippets that the parts of the program add to the maintainer scripts of a package, the script that is
  generated of them, the commands of \<^verbatim>\<open>dpkg-maintscript-helper\<close>, and the snippets that register the alternatives
  of a package.  The scripts are kept by name; a stanza of the alternatives file is given by its fields.
\<close>

abbreviation newline :: char where "newline \<equiv> CHR 0x0A"

definition STD_CONTROL_SCRIPTS :: "string list" where
  "STD_CONTROL_SCRIPTS = [''preinst'', ''prerm'', ''postinst'', ''postrm'']"

subsection \<open>Snippets and their container\<close>

record maintscript_snippet =
  ms_definition_source :: string
  ms_snippet :: string
  ms_snippet_order :: "string option"

definition script_content :: "maintscript_snippet \<Rightarrow> string" where
  "script_content s =
     concat ([''# Snippet source: '' @ ms_definition_source s @ [newline], ms_snippet s]
       @ (if \<not> endswith (ms_snippet s) [newline] then [[newline]] else []))"

record snippet_container =
  sc_generic_snippets :: "maintscript_snippet list"
  sc_snippets_by_order :: "(string \<times> maintscript_snippet list) list"

definition new_container :: snippet_container where
  "new_container = \<lparr>sc_generic_snippets = [], sc_snippets_by_order = []\<rparr>"

definition container_append :: "maintscript_snippet \<Rightarrow> snippet_container \<Rightarrow> snippet_container" where
  "container_append s c =
     (case ms_snippet_order s of
        None \<Rightarrow> c\<lparr>sc_generic_snippets := sc_generic_snippets c @ [s]\<rparr>
      | Some order \<Rightarrow>
          let existing = (case map_of (sc_snippets_by_order c) order of None \<Rightarrow> [] | Some l \<Rightarrow> l)
          in c\<lparr>sc_snippets_by_order := AList.update order (existing @ [s]) (sc_snippets_by_order c)\<rparr>)"

definition snippets_in_order :: "snippet_container \<Rightarrow> string option \<Rightarrow> maintscript_snippet list" where
  "snippets_in_order c snippet_order =
     (case snippet_order of
        None \<Rightarrow> sc_generic_snippets c
      | Some order \<Rightarrow> (case map_of (sc_snippets_by_order c) order of None \<Rightarrow> [] | Some l \<Rightarrow> l))"

definition has_content :: "snippet_container \<Rightarrow> string option \<Rightarrow> bool" where
  "has_content c snippet_order \<longleftrightarrow> snippets_in_order c snippet_order \<noteq> []"

definition all_snippets :: "snippet_container \<Rightarrow> maintscript_snippet list" where
  "all_snippets c = sc_generic_snippets c @ concat (map snd (sc_snippets_by_order c))"

definition generate_snippet :: "snippet_container \<Rightarrow> string option \<Rightarrow> string option \<Rightarrow> bool \<Rightarrow> string option" where
  "generate_snippet c tool_with_version snippet_order reverse =
     (let snippets = snippets_in_order c snippet_order;
          inner_content = concat (map script_content (if reverse then rev snippets else snippets))
      in if inner_content = [] then None
         else
           (case tool_with_version of
              None \<Rightarrow> Some inner_content
            | Some tool \<Rightarrow>
                if tool = [] then Some inner_content
                else Some (''# Automatically added by '' @ tool @ [newline] @ inner_content
                           @ ''# End automatically added section'')))"

type_synonym script_snippets = "(string \<times> snippet_container) list"

definition container_for :: "string \<Rightarrow> script_snippets \<Rightarrow> snippet_container" where
  "container_for script d = (case map_of d script of None \<Rightarrow> new_container | Some c \<Rightarrow> c)"

definition add_snippet :: "string \<Rightarrow> maintscript_snippet \<Rightarrow> script_snippets \<Rightarrow> script_snippets" where
  "add_snippet script s d = AList.update script (container_append s (container_for script d)) d"

text \<open>\<^verbatim>\<open>_generate_snippet\<close> of \<^verbatim>\<open>deb_packaging_support.py\<close>: the content of the script, if there is one.\<close>

definition generate_script :: "string \<Rightarrow> script_snippets \<Rightarrow> string option" where
  "generate_script script d =
     (case map_of d script of
        None \<Rightarrow> None
      | Some c \<Rightarrow>
          let reverse = (script = ''prerm'' \<or> script = ''postrm'');
              snippets = [generate_snippet c None None reverse, generate_snippet c None (Some ''service'') reverse];
              ordered = (if reverse then rev snippets else snippets);
              full_content = concat (map (\<lambda>s. case s of None \<Rightarrow> [] | Some t \<Rightarrow> t @ [newline]) ordered)
          in if full_content = [] then None
             else Some (''#!/bin/sh'' @ [newline] @ ''set -e'' @ [newline, newline] @ full_content))"

subsection \<open>\<^verbatim>\<open>dpkg-maintscript-helper\<close>\<close>

record maintscript_helper_command =
  mh_cmdline :: "string list"
  mh_definition_source :: string

definition finish_cmd ::
    "string \<Rightarrow> string list \<Rightarrow> string option \<Rightarrow> string option \<Rightarrow> maintscript_helper_command" where
  "finish_cmd definition_source cmdline prior_version owning_package =
     \<lparr> mh_cmdline = cmdline
         @ (case prior_version of None \<Rightarrow> [] | Some v \<Rightarrow> [v])
         @ (case owning_package of
              None \<Rightarrow> []
            | Some p \<Rightarrow> (if prior_version = None then [[]] else []) @ [p]),
       mh_definition_source = definition_source \<rparr>"

definition rm_conffile ::
    "string \<Rightarrow> string \<Rightarrow> string option \<Rightarrow> string option \<Rightarrow> maintscript_helper_command" where
  "rm_conffile src conffile = finish_cmd src [''rm_conffile'', conffile]"

definition mv_conffile ::
    "string \<Rightarrow> string \<Rightarrow> string \<Rightarrow> string option \<Rightarrow> string option \<Rightarrow> maintscript_helper_command" where
  "mv_conffile src old_conffile new_conffile = finish_cmd src [''mv_conffile'', old_conffile, new_conffile]"

definition symlink_to_dir ::
    "string \<Rightarrow> string \<Rightarrow> string \<Rightarrow> string option \<Rightarrow> string option \<Rightarrow> maintscript_helper_command" where
  "symlink_to_dir src pathname old_target = finish_cmd src [''symlink_to_dir'', pathname, old_target]"

definition dir_to_symlink ::
    "string \<Rightarrow> string \<Rightarrow> string \<Rightarrow> string option \<Rightarrow> string option \<Rightarrow> maintscript_helper_command" where
  "dir_to_symlink src pathname new_target = finish_cmd src [''dir_to_symlink'', pathname, new_target]"

text \<open>\<^verbatim>\<open>HighLevelManifestParser._transform_dpkg_maintscript_helpers_to_snippets\<close>\<close>

definition helper_snippet :: "maintscript_helper_command \<Rightarrow> maintscript_snippet" where
  "helper_snippet dmh =
     \<lparr> ms_definition_source = mh_definition_source dmh,
       ms_snippet = ''dpkg-maintscript-helper '' @ escape_shell (mh_cmdline dmh) @ '' -- '' @ [CHR 0x22] @ ''$@'' @ [CHR 0x22, newline],
       ms_snippet_order = None \<rparr>"

definition add_helper_snippets :: "maintscript_helper_command list \<Rightarrow> script_snippets \<Rightarrow> script_snippets" where
  "add_helper_snippets dmhs d =
     fold (\<lambda>dmh. fold (\<lambda>script. add_snippet script (helper_snippet dmh)) STD_CONTROL_SCRIPTS) dmhs d"

subsection \<open>Alternatives\<close>

type_synonym deb822 = "string \<Rightarrow> string option"

definition mandatory_key :: "string \<Rightarrow> deb822 \<Rightarrow> string res" where
  "mandatory_key key stanza = (case stanza key of None \<Rightarrow> Inl UserError | Some v \<Rightarrow> Inr v)"

definition parse_dependent_link :: "string \<Rightarrow> (string \<times> string \<times> string) res" where
  "parse_dependent_link line =
     (case words line of
        [dlink_path, dlink_name, dimpl_path] \<Rightarrow>
          if slash \<in> set dlink_name then Inl UserError
          else if dlink_path = dimpl_path then Inl UserError
          else Inr (dlink_path, dlink_name, dimpl_path)
      | _ \<Rightarrow> Inl UserError)"

text \<open>The path exists in the package and is not a directory.\<close>

definition implementation_exists :: "fs \<Rightarrow> string \<Rightarrow> unit res" where
  "implementation_exists fs impl_path =
     rbind (lookup_path fs 0 impl_path) (\<lambda>impl.
       case impl of None \<Rightarrow> Inl UserError | Some i \<Rightarrow> rguard (\<not> is_dir fs i) UserError)"

fun dependent_links :: "fs \<Rightarrow> string list \<Rightarrow> string list \<Rightarrow> (string \<times> string \<times> string) list res" where
  "dependent_links fs seen [] = Inr []"
| "dependent_links fs seen (l # ls) =
     (let line = strip py_space l in
      if line = [] then dependent_links fs seen ls
      else rbind (parse_dependent_link line) (\<lambda>(dlink_path, dlink_name, dimpl_path).
        if dlink_path \<in> set seen then Inl UserError
        else rbind (implementation_exists fs dimpl_path) (\<lambda>_.
          rmap (\<lambda>ds. (dlink_path, dlink_name, dimpl_path) # ds) (dependent_links fs (dlink_path # seen) ls))))"

definition LINE_PREFIX :: string where
  "LINE_PREFIX = [backslash, newline] @ ''            ''"

definition slave_option :: "string \<times> string \<times> string \<Rightarrow> string list" where
  "slave_option d = (case d of (link, name, impl) \<Rightarrow> [''--slave'', link, name, impl])"

definition install_command :: "string list \<Rightarrow> (string \<times> string \<times> string) list \<Rightarrow> string" where
  "install_command command ds =
     join '' '' (escape_shell command # concat (map (\<lambda>d. [LINE_PREFIX, escape_shell (slave_option d)]) ds))"

text \<open>\<^verbatim>\<open>[ "$1" = "..." ]\<close>: the script was called for this action of dpkg.\<close>

definition called_for :: "string \<Rightarrow> string" where
  "called_for action =
     ''[ '' @ [dquote] @ ''$1'' @ [dquote] @ '' = '' @ [dquote] @ action @ [dquote] @ '' ]''"

definition POSTINST_DEFAULT_CONDITION :: string where
  "POSTINST_DEFAULT_CONDITION =
     join '' || '' (map called_for [''configure'', ''abort-upgrade'', ''abort-deconfigure'', ''abort-remove''])"

text \<open>The template of the snippets: a command that runs under a condition.\<close>

definition conditional_snippet :: "string \<Rightarrow> string \<Rightarrow> string \<Rightarrow> maintscript_snippet" where
  "conditional_snippet source condition command =
     \<lparr> ms_definition_source = source,
       ms_snippet = ''if '' @ condition @ ''; then'' @ [newline] @ ''    '' @ command @ [newline] @ ''fi'' @ [newline],
       ms_snippet_order = None \<rparr>"

fun split_lines :: "string \<Rightarrow> string list" where
  "split_lines [] = []"
| "split_lines (c # s) =
     (if c = newline then [] # split_lines s
      else (case split_lines s of [] \<Rightarrow> [[c]] | l # ls \<Rightarrow> (c # l) # ls))"

text \<open>\<^verbatim>\<open>process_alternative\<close>; the lines of \<^verbatim>\<open>Dependents\<close> end with newlines only.\<close>

definition process_alternative :: "string \<Rightarrow> fs \<Rightarrow> deb822 \<Rightarrow> script_snippets \<Rightarrow> script_snippets res" where
  "process_alternative provided_alternatives_fs_path fs stanza d =
     rbind (mandatory_key ''Name'' stanza) (\<lambda>name.
     rbind (mandatory_key ''Link'' stanza) (\<lambda>link_path.
     rbind (mandatory_key ''Alternative'' stanza) (\<lambda>impl_path.
     rbind (mandatory_key ''Priority'' stanza) (\<lambda>priority.
       if slash \<in> set name then Inl UserError
       else if link_path = impl_path then Inl UserError
       else rbind (implementation_exists fs impl_path) (\<lambda>_.
         if list_ex (\<lambda>key. stanza key \<noteq> None) [''Slave'', ''Slaves'', ''Slave-Links''] then Inl UserError
         else rbind (case stanza ''Dependents'' of
                       None \<Rightarrow> Inr []
                     | Some dependents \<Rightarrow> dependent_links fs [] (split_lines dependents)) (\<lambda>ds.
           let source = ''debputy (via '' @ provided_alternatives_fs_path @ '')'';
               postinst = conditional_snippet source POSTINST_DEFAULT_CONDITION
                 (install_command [''update-alternatives'', ''--install'', link_path, name, impl_path, priority] ds);
               prerm = conditional_snippet source (called_for ''remove'')
                 (escape_shell [''update-alternatives'', ''--remove'', name, impl_path])
           in Inr (add_snippet ''prerm'' prerm (add_snippet ''postinst'' postinst d))))))))"

text \<open>\<^verbatim>\<open>process_alternatives\<close>: the file that is reserved under the name \<^verbatim>\<open>alternatives\<close>, with its stanzas.\<close>

definition resolve_reserved_provided_file :: "string \<Rightarrow> (string \<times> 'f list) list \<Rightarrow> 'f option res" where
  "resolve_reserved_provided_file basename reserved =
     (case map_of reserved basename of
        None \<Rightarrow> Inr None
      | Some matches \<Rightarrow>
          if \<not> length matches < 2 then Inl AssertionErr
          else Inr (case matches of [] \<Rightarrow> None | m # _ \<Rightarrow> Some m))"

definition process_alternatives ::
    "bool \<Rightarrow> fs \<Rightarrow> (string \<times> (string \<times> deb822 list) list) list \<Rightarrow> script_snippets \<Rightarrow> script_snippets res" where
  "process_alternatives is_udeb fs reserved d =
     (if is_udeb then Inr d
      else rbind (resolve_reserved_provided_file ''alternatives'' reserved) (\<lambda>provided.
        case provided of
          None \<Rightarrow> Inr d
        | Some (fs_path, stanzas) \<Rightarrow> rfold (process_alternative fs_path fs) stanzas d))"

subsection \<open>Snippets reach the scripts\<close>

lemma snippets_in_order_append:
  "snippets_in_order (container_append s c) o1 =
     snippets_in_order c o1 @ (if ms_snippet_order s = o1 then [s] else [])"
  by (auto simp: snippets_in_order_def container_append_def Let_def update_conv' split: option.splits)

lemma container_for_add:
  "container_for script (add_snippet script' s d) =
     (if script = script' then container_append s (container_for script d) else container_for script d)"
  by (simp add: add_snippet_def container_for_def update_conv')


lemma script_content_not_empty: "script_content s \<noteq> []"
  by (simp add: script_content_def)

lemma snippet_text:
  "generate_snippet c None o1 reverse =
     (if has_content c o1
      then Some (concat (map script_content (if reverse then rev (snippets_in_order c o1) else snippets_in_order c o1)))
      else None)"
proof -
  have "concat (map script_content l) = [] \<longleftrightarrow> l = []" for l
    using script_content_not_empty by (cases l) auto
  then show ?thesis by (simp add: generate_snippet_def has_content_def Let_def)
qed

subsection \<open>The commands of the alternatives, as the shell reads them\<close>

lemma sh_read_escaped:
  assumes "list_all sh_safe args" and "args \<noteq> []"
  shows "sh_read False None (escape_shell args @ r) = map_option ((@) (butlast args)) (sh_read False (Some (last args)) r)"
  using assms
proof (induction args)
  case (Cons w args)
  then have w: "sh_safe w" by simp
  show ?case
  proof (cases "args = []")
    case True
    then show ?thesis
      using sh_read_word[OF w, of r] by (simp add: escape_shell_def option.map_ident del: sh_read.simps)
  next
    case False
    have "sh_read False None (escape_shell_word w @ CHR '' '' # escape_shell args @ r) =
        sh_read False (Some w) (CHR '' '' # escape_shell args @ r)"
      by (rule sh_read_word[OF w])
    also have "\<dots> = map_option ((#) w) (sh_read False None (escape_shell args @ r))" by simp
    also have "\<dots> = map_option ((@) (w # butlast args)) (sh_read False (Some (last args)) r)"
      using Cons False by (cases "sh_read False (Some (last args)) r") (simp_all del: sh_read.simps)
    finally show ?thesis
      using False by (cases "sh_read False (Some (last args)) r") (simp_all add: escape_shell_def join_Cons)
  qed
qed simp

lemma sh_read_escaped_end: "list_all sh_safe args \<Longrightarrow> args \<noteq> [] \<Longrightarrow> sh_read False None (escape_shell args) = Some args"
  using sh_read_escaped[of args "[]"] by simp

lemma sh_read_escaped_blank:
  assumes "list_all sh_safe args" and "args \<noteq> []"
  shows "sh_read False None (escape_shell args @ CHR '' '' # r) = map_option ((@) args) (sh_read False None r)"
proof -
  have "(\<lambda>ws. butlast args @ last args # ws) = (@) args" using assms(2) by (auto simp: fun_eq_iff)
  then show ?thesis using sh_read_escaped[OF assms, of "CHR '' '' # r"] by (simp add: option.map_comp comp_def)
qed

lemma sh_read_line_prefix: "sh_read False None (LINE_PREFIX @ CHR '' '' # r) = sh_read False None r"
  by (simp add: LINE_PREFIX_def)

definition slave_options :: "(string \<times> string \<times> string) list \<Rightarrow> string list" where
  "slave_options ds = concat (map slave_option ds)"

lemma sh_read_install_command:
  assumes "list_all sh_safe (command @ slave_options ds)" and "command \<noteq> []"
  shows "sh_read False None (install_command command ds) = Some (command @ slave_options ds)"
  using assms
proof (induction ds arbitrary: command)
  case Nil
  then show ?case using sh_read_escaped_end by (simp add: install_command_def slave_options_def)
next
  case (Cons d ds)
  have s: "list_all sh_safe (slave_option d @ slave_options ds)" "slave_option d \<noteq> []"
    using Cons.prems(1) by (simp_all add: slave_options_def slave_option_def split: prod.splits)
  have "install_command command (d # ds)
      = escape_shell command @ CHR '' '' # LINE_PREFIX @ CHR '' '' # install_command (slave_option d) ds"
    by (simp add: install_command_def join_Cons)
  then show ?case
    using sh_read_escaped_blank[of command] sh_read_line_prefix Cons.IH[OF s] Cons.prems
    by (simp add: slave_options_def)
qed

lemma parse_dependent_link_facts:
  assumes "parse_dependent_link line = Inr (link, name, impl)"
  shows "words line = [link, name, impl]" "slash \<notin> set name" "link \<noteq> impl"
  using assms by (auto simp: parse_dependent_link_def split: list.splits if_splits)

lemma dependent_links_facts:
  "dependent_links fs seen lines = Inr ds \<Longrightarrow>
     map (\<lambda>(link, name, impl). [link, name, impl]) ds = map words (filter (\<lambda>l. l \<noteq> []) (map (strip py_space) lines))
     \<and> distinct (map fst ds) \<and> set (map fst ds) \<inter> set seen = {}
     \<and> list_all (\<lambda>(link, name, impl). slash \<notin> set name \<and> link \<noteq> impl \<and> implementation_exists fs impl = Inr ()) ds"
proof (induction lines arbitrary: seen ds)
  case (Cons l lines)
  show ?case
  proof (cases "strip py_space l = []")
    case True
    with Cons show ?thesis by (simp add: Let_def)
  next
    case False
    with Cons.prems obtain link name impl u ds' where
      p: "parse_dependent_link (strip py_space l) = Inr (link, name, impl)" "link \<notin> set seen"
        "implementation_exists fs impl = Inr u"
      and r: "dependent_links fs (link # seen) lines = Inr ds'" and ds: "ds = (link, name, impl) # ds'"
      by (auto simp: Let_def res_simps split: if_splits)
    from Cons.IH[OF r] p parse_dependent_link_facts[OF p(1)] ds False show ?thesis by auto
  qed
qed simp

text \<open>C31: an alternative that is accepted is registered as it was declared: the scripts get one snippet each, run
  when the package is configured or removed; the command of the first has the name, the link, the path and the
  priority of the stanza and, for each line of its dependents, the three words of the line, and a POSIX shell reads
  it so if none of these words is one that \<open>escape_shell\<close> does not quote (empty, with a newline, or with an ampersand and
  no blank).  The links of the dependents differ from each other; no link is its own path, and the paths exist in
  the package and are not directories.\<close>

theorem alternatives_registered:
  assumes ok: "process_alternative src fs stanza d = Inr d'"
    and fields: "stanza ''Name'' = Some name" "stanza ''Link'' = Some link" "stanza ''Alternative'' = Some impl"
      "stanza ''Priority'' = Some prio"
    and lines: "lines = (case stanza ''Dependents'' of None \<Rightarrow> [] | Some t \<Rightarrow> split_lines t)"
  shows "\<exists>ds install remove.
      map (\<lambda>(link, name, impl). [link, name, impl]) ds = map words (filter (\<lambda>l. l \<noteq> []) (map (strip py_space) lines))
    \<and> distinct (map fst ds) \<and> slash \<notin> set name \<and> link \<noteq> impl \<and> implementation_exists fs impl = Inr ()
    \<and> list_all (\<lambda>(link, name, impl). slash \<notin> set name \<and> link \<noteq> impl \<and> implementation_exists fs impl = Inr ()) ds
    \<and> container_for ''postinst'' d' =
        container_append (conditional_snippet (''debputy (via '' @ src @ '')'') POSTINST_DEFAULT_CONDITION install)
          (container_for ''postinst'' d)
    \<and> container_for ''prerm'' d' =
        container_append (conditional_snippet (''debputy (via '' @ src @ '')'') (called_for ''remove'') remove)
          (container_for ''prerm'' d)
    \<and> (list_all sh_safe ([link, name, impl, prio] @ slave_options ds) \<longrightarrow>
         sh_read False None install
           = Some ([''update-alternatives'', ''--install'', link, name, impl, prio] @ slave_options ds)
         \<and> sh_read False None remove = Some [''update-alternatives'', ''--remove'', name, impl])"
proof -
  let ?ds = "case stanza ''Dependents'' of None \<Rightarrow> Inr [] | Some t \<Rightarrow> dependent_links fs [] (split_lines t)"
  from ok obtain u ds where g: "slash \<notin> set name" "link \<noteq> impl" "implementation_exists fs impl = Inr u" "?ds = Inr ds"
    and d': "d' = add_snippet ''prerm'' (conditional_snippet (''debputy (via '' @ src @ '')'') (called_for ''remove'')
          (escape_shell [''update-alternatives'', ''--remove'', name, impl]))
        (add_snippet ''postinst'' (conditional_snippet (''debputy (via '' @ src @ '')'') POSTINST_DEFAULT_CONDITION
          (install_command [''update-alternatives'', ''--install'', link, name, impl, prio] ds)) d)"
    unfolding process_alternative_def mandatory_key_def fields option.case rbind_Inr Let_def
    by (elim rbind_InrE if_Inl_InrE) simp
  have "dependent_links fs [] lines = Inr ds"
    using g(4) unfolding lines by (cases "stanza ''Dependents''") simp_all
  note f = dependent_links_facts[OF this]
  have c: "list_all sh_safe [''update-alternatives'', ''--install'', ''--remove'']" by code_simp
  have "sh_read False None (install_command [''update-alternatives'', ''--install'', link, name, impl, prio] ds)
        = Some ([''update-alternatives'', ''--install'', link, name, impl, prio] @ slave_options ds)
      \<and> sh_read False None (escape_shell [''update-alternatives'', ''--remove'', name, impl])
        = Some [''update-alternatives'', ''--remove'', name, impl]"
    if "list_all sh_safe ([link, name, impl, prio] @ slave_options ds)"
    using that c by (intro conjI sh_read_install_command sh_read_escaped_end) simp_all
  with f g d' show ?thesis
    by (intro exI[of _ ds] exI[of _ "install_command [''update-alternatives'', ''--install'', link, name, impl, prio] ds"]
        exI[of _ "escape_shell [''update-alternatives'', ''--remove'', name, impl]"])
      (simp add: container_for_add)
qed


definition demo_fs_tools :: fs where
  "demo_fs_tools = projr (rbind (run_call (Mkdirs 0 ''usr/bin'') (new_root_dir None))
     (run_call (AddFile 2 ''nvim'' False False 493 None ''debputy/scratch-dir/nvim'')))"

definition demo_stanza :: deb822 where
  "demo_stanza = map_of [(''Name'', ''vi''), (''Link'', ''/usr/bin/vi''), (''Alternative'', ''/usr/bin/nvim''),
     (''Priority'', ''30''), (''Dependents'', newline # ''  /usr/bin/ex ex /usr/bin/nvim'')]"

lemma demo_stanza_facts:
  "process_alternative ''a'' demo_fs_tools demo_stanza [] = Inr (projr (process_alternative ''a'' demo_fs_tools demo_stanza []))"
  "demo_stanza ''Name'' = Some ''vi''" "demo_stanza ''Link'' = Some ''/usr/bin/vi''"
  "demo_stanza ''Alternative'' = Some ''/usr/bin/nvim''" "demo_stanza ''Priority'' = Some ''30''"
  "[[], ''  /usr/bin/ex ex /usr/bin/nvim''] =
     (case demo_stanza ''Dependents'' of None \<Rightarrow> [] | Some t \<Rightarrow> split_lines t)"
  by code_simp+

lemma alternatives_registered_witness:
  "\<exists>ds install.
      map (\<lambda>(link, name, impl). [link, name, impl]) ds = [[''/usr/bin/ex'', ''ex'', ''/usr/bin/nvim'']]
    \<and> container_for ''postinst'' (projr (process_alternative ''a'' demo_fs_tools demo_stanza [])) =
        container_append (conditional_snippet ''debputy (via a)'' POSTINST_DEFAULT_CONDITION install) new_container"
proof -
  have w: "map words (filter (\<lambda>l. l \<noteq> []) (map (strip py_space) [[], ''  /usr/bin/ex ex /usr/bin/nvim'']))
      = [[''/usr/bin/ex'', ''ex'', ''/usr/bin/nvim'']]" by code_simp
  have e: "container_for ''postinst'' [] = new_container" "''debputy (via '' @ ''a'' @ '')'' = ''debputy (via a)''"
    by (simp_all add: container_for_def)
  show ?thesis
    using alternatives_registered[OF demo_stanza_facts] unfolding w e
    by (elim exE conjE) (intro exI conjI; assumption)
qed

text \<open>With an owning package and no prior version the command has an empty word, which the quoting leaves out: dpkg
  reads the name of the package as the version.\<close>

lemma helper_owner_read_as_version:
  "sh_read False None (escape_shell (mh_cmdline (rm_conffile src ''/etc/foo.conf'' None (Some ''foo''))))
     = Some (mh_cmdline (rm_conffile src ''/etc/foo.conf'' (Some ''foo'') None))"
  by code_simp

lemma helper_commands_in_all_scripts:
  "script \<in> set STD_CONTROL_SCRIPTS \<Longrightarrow>
     snippets_in_order (container_for script (add_helper_snippets dmhs d)) None
       = snippets_in_order (container_for script d) None @ map helper_snippet dmhs"
proof -
  assume s: "script \<in> set STD_CONTROL_SCRIPTS"
  have one: "snippets_in_order (container_for script
        (fold (\<lambda>script. add_snippet script (helper_snippet m)) STD_CONTROL_SCRIPTS d)) None
      = snippets_in_order (container_for script d) None @ [helper_snippet m]" for m d
    using s by (auto simp: STD_CONTROL_SCRIPTS_def container_for_add snippets_in_order_append helper_snippet_def)
  show ?thesis by (induction dmhs arbitrary: d) (simp_all add: add_helper_snippets_def one)
qed

end
