(* ===== verification/Dispatch.thy ===== *)
theory Dispatch
  imports ManifestTypes Subst PathMatch Maintscript
begin

section \<open>The parsers of the whole manifest (\<^verbatim>\<open>plugin/api/impl_types.py\<close>, \<^verbatim>\<open>highlevel_manifest_parser.py\<close>)\<close>

text \<open>
  The manifest is read by a tree of parsers that plugins register under keywords.  The parsers share a
  context: the states of the packages, a stack that says which package is being read about, the variables
  and the build environments.  The parsers of the rules themselves and their handlers are arguments; results of
  handlers have the type \<open>'r\<close>.
\<close>

subsection \<open>Results\<close>

text \<open>What parsing returns.\<close>

datatype 'r parsed =
    PNone | PText string | PRaw yvalue | PValue 'r | PHelper maintscript_helper_command | PList "'r parsed list" | PMapping "(string \<times> 'r parsed) list"
  | PPackages "(string \<times> string \<times> 'r parsed) list"

subsection \<open>The context\<close>

text \<open>
  \<^verbatim>\<open>PackageTransformationDefinition\<close>: the state of a package while the manifest is read.  Its substitution is the
  scope with the variable \<^verbatim>\<open>PACKAGE\<close> on top of the shared scopes.
\<close>

record 'r package_state =
  ps_binary_package :: string
  ps_scope :: subst_scope
  ps_is_auto_generated_package :: bool
  ps_binary_version :: "string option"
  ps_search_dirs :: "'r parsed option"
  ps_dpkg_maintscript_helper_snippets :: "maintscript_helper_command list"
  ps_maintscript_snippets :: script_snippets
  ps_transformations :: "'r parsed list"
  ps_install_rules :: "'r parsed list"
  ps_requested_service_rules :: "'r parsed list"

record 'r parse_state =
  st_substitution :: "subst_scope list"
  st_binary_packages :: "string list"
  st_package_states :: "(string \<times> 'r package_state) list option"
  st_stack :: "string list"
  st_declared_variables :: "string list"
  st_integration_mode :: string
  st_environments :: "(string \<times> 'r) list"
  st_default_environment :: "'r option"
  st_has_set_default :: bool
  st_read_build_environment :: bool
  st_used_named_envs :: "string list"
  st_used :: bool

text \<open>\<^verbatim>\<open>HighLevelManifestParser.__init__\<close>\<close>

definition new_manifest_parser :: "subst_scope list \<Rightarrow> string list \<Rightarrow> string \<Rightarrow> 'r parse_state" where
  "new_manifest_parser substitution binary_packages debputy_integration_mode =
     \<lparr> st_substitution = substitution, st_binary_packages = binary_packages, st_package_states = None, st_stack = [],
       st_declared_variables = [], st_integration_mode = debputy_integration_mode, st_environments = [],
       st_default_environment = None, st_has_set_default = False, st_read_build_environment = False,
       st_used_named_envs = [], st_used = False \<rparr>"

definition known_state :: "'r parse_state \<Rightarrow> string \<Rightarrow> 'r package_state option res" where
  "known_state st n =
     (case st_package_states st of None \<Rightarrow> Inl AssertionErr | Some ps \<Rightarrow> Inr (map_of ps n))"

definition put_state :: "string \<Rightarrow> 'r package_state \<Rightarrow> 'r parse_state \<Rightarrow> 'r parse_state" where
  "put_state n p st = st\<lparr>st_package_states := map_option (AList.update n p) (st_package_states st)\<rparr>"

definition per_package_scope :: "subst_scope list \<Rightarrow> string \<Rightarrow> subst_scope" where
  "per_package_scope chain name = hd (with_extra_substitutions [(''PACKAGE'', name)] chain)"

definition new_package_state :: "subst_scope list \<Rightarrow> string \<Rightarrow> string \<Rightarrow> bool \<Rightarrow> 'r package_state" where
  "new_package_state chain p name auto =
     \<lparr> ps_binary_package = p, ps_scope = per_package_scope chain name, ps_is_auto_generated_package = auto,
       ps_binary_version = None, ps_search_dirs = None, ps_dpkg_maintscript_helper_snippets = [],
       ps_maintscript_snippets = [], ps_transformations = [], ps_install_rules = [],
       ps_requested_service_rules = [] \<rparr>"

text \<open>\<^verbatim>\<open>_ensure_package_states_is_initialized\<close>: the packages, and a \<^verbatim>\<open>-dbgsym\<close> package for each that has none.\<close>

definition add_dbgsym_state :: "subst_scope list \<Rightarrow> string \<Rightarrow> (string \<times> 'r package_state) list \<Rightarrow> (string \<times> 'r package_state) list" where
  "add_dbgsym_state chain n ps =
     (let dbgsym_name = n @ ''-dbgsym''
      in if map_of ps dbgsym_name \<noteq> None then ps
         else ps @ [(dbgsym_name, new_package_state chain n dbgsym_name True)])"

definition ensure_package_states_is_initialized :: "'r parse_state \<Rightarrow> 'r parse_state" where
  "ensure_package_states_is_initialized st =
     (case st_package_states st of
        Some _ \<Rightarrow> st
      | None \<Rightarrow>
          let chain = st_substitution st; names = st_binary_packages st;
              own = map (\<lambda>n. (n, new_package_state chain n n False)) names
          in st\<lparr>st_package_states := Some (fold (add_dbgsym_state chain) names own)\<rparr>)"

text \<open>\<^verbatim>\<open>parser_context.substitution\<close>: the chain of the package on top of the stack, or the shared one.  Use marks
  and cached values go back to where the scopes are kept.\<close>

definition current_chain :: "'r parse_state \<Rightarrow> subst_scope list" where
  "current_chain st =
     (case (st_stack st, st_package_states st) of
        (n # _, Some ps) \<Rightarrow> (case map_of ps n of None \<Rightarrow> st_substitution st | Some p \<Rightarrow> ps_scope p # st_substitution st)
      | _ \<Rightarrow> st_substitution st)"

definition store_chain :: "subst_scope list \<Rightarrow> 'r parse_state \<Rightarrow> 'r parse_state" where
  "store_chain chain st =
     (case (st_stack st, st_package_states st) of
        (n # _, Some ps) \<Rightarrow>
          (case map_of ps n of
             None \<Rightarrow> st\<lparr>st_substitution := chain\<rparr>
           | Some p \<Rightarrow> put_state n (p\<lparr>ps_scope := hd chain\<rparr>) (st\<lparr>st_substitution := tl chain\<rparr>))
      | _ \<Rightarrow> st\<lparr>st_substitution := chain\<rparr>)"

definition context_substitute :: "bool \<Rightarrow> string \<Rightarrow> 'r parse_state \<Rightarrow> (string \<times> 'r parse_state) res" where
  "context_substitute escape_glob_characters v st =
     rmap (\<lambda>(chain, t). (t, store_chain chain st)) (substitute escape_glob_characters v (current_chain st))"

text \<open>\<^verbatim>\<open>binary_package_context\<close>: the package is on top of the stack while the body runs.\<close>

definition binary_package_context ::
    "string \<Rightarrow> ('r package_state \<Rightarrow> 'r parse_state \<Rightarrow> ('a \<times> 'r parse_state) res) \<Rightarrow> 'r parse_state \<Rightarrow> ('a \<times> 'r parse_state) res" where
  "binary_package_context package_name body st =
     rbind (known_state st package_name) (\<lambda>p.
       case p of
         None \<Rightarrow> Inl ManifestParseError
       | Some package_state \<Rightarrow>
           rbind (body package_state (st\<lparr>st_stack := package_name # st_stack st\<rparr>)) (\<lambda>(x, st1).
             if length (st_stack st1) \<noteq> Suc (length (st_stack st)) then Inl RuntimeErr
             else Inr (x, st1\<lparr>st_stack := tl (st_stack st1)\<rparr>)))"

definition check_mode :: "string list option \<Rightarrow> 'r parse_state \<Rightarrow> unit res" where
  "check_mode expected st =
     (case expected of None \<Rightarrow> Inr () | Some modes \<Rightarrow> rguard (st_integration_mode st \<in> set modes) ManifestParseError)"

text \<open>
  \<^verbatim>\<open>run_in_context_of_plugin_wrap_errors\<close>: errors that are meant for users pass, and so does the end of the
  process; every other exception is a bug of the plugin.
\<close>

definition meant_for_users :: "exn \<Rightarrow> bool" where
  "meant_for_users e \<longleftrightarrow>
     e \<in> set [UserError, FSIsROError, MetadataAccessError, SubstitutionError, ManifestParseError, TransformationError,
       PathAlreadyInstalledOrDiscarded, ExactPathMatchTwice, NoMatchForInstallPattern, PluginConflictError,
       PluginAPIViolation, UnhandledPluginError, DebputyRuntimeErr]"

definition wrap_errors :: "string \<Rightarrow> 'a res \<Rightarrow> 'a res" where
  "wrap_errors plugin r =
     (case r of
        Inl e \<Rightarrow> if meant_for_users e then Inl e
                 else if plugin \<noteq> ''debputy'' then Inl UnhandledPluginError else Inl AssertionErr
      | Inr x \<Rightarrow> Inr x)"

lemma wrap_errors_Inr [simp]: "wrap_errors plugin r = Inr x \<longleftrightarrow> r = Inr x"
  by (simp add: wrap_errors_def split: sum.splits)

subsection \<open>Parsers\<close>

type_synonym ('v, 'r) state_parser = "'v \<Rightarrow> 'r parse_state \<Rightarrow> ('r parsed \<times> 'r parse_state) res"

datatype 'r input_parser =
    LeafParser "(yvalue, 'r) state_parser"
  | ValuelessKeyword
  | ListWrapped "string list option" "'r input_parser"
  | ObjectParser "string list option" "(string \<times> 'r provided_parser) list"
  | InPackageContext "'r input_parser"
  | TableParser "(string \<times> 'r provided_parser) list"
and 'r provided_parser =
    Provided "'r input_parser" "string \<Rightarrow> ('r parsed, 'r) state_parser" string

fun provided_plugin :: "'r provided_parser \<Rightarrow> string" where
  "provided_plugin (Provided _ _ plugin) = plugin"

text \<open>The values of a mapping under a key, where an explicit null counts as absent.\<close>

definition value_at :: "(yvalue \<times> yvalue) list \<Rightarrow> string \<Rightarrow> yvalue" where
  "value_at kvs k = (case map_of kvs (VStr k) of None \<Rightarrow> VNone | Some v \<Rightarrow> v)"

definition package_name_of :: "yvalue \<Rightarrow> 'r parse_state \<Rightarrow> (string \<times> string \<times> 'r parse_state) res" where
  "package_name_of k st =
     (case k of
        VStr raw \<Rightarrow>
          if infix_of ''{{'' raw then rmap (\<lambda>(n, st1). (raw, n, st1)) (context_substitute False raw st)
          else Inr (raw, raw, st)
      | _ \<Rightarrow> Inl TypeErr)"

fun is_object_parser :: "'r input_parser \<Rightarrow> bool" where
  "is_object_parser (ObjectParser _ _) = True"
| "is_object_parser _ = False"

lemma binary_package_context_cong [fundef_cong]:
  assumes "n = n'" and "st = st'" and "\<And>p s. body p s = body' p s"
  shows "binary_package_context n body st = binary_package_context n' body' st'"
proof -
  have "body = body'" by (intro ext assms(3))
  with assms(1,2) show ?thesis by simp
qed

text \<open>The size of a table of parsers: every call of the parser below goes to a smaller parser, or to the rest of
  a list with the same parser.\<close>

definition table_size :: "(string \<times> 'r provided_parser) list \<Rightarrow> nat" where
  "table_size ps = size_list (size_prod (\<lambda>_. 0) size) ps"

function (sequential) parse_input :: "'r input_parser \<Rightarrow> yvalue \<Rightarrow> 'r parse_state \<Rightarrow> ('r parsed \<times> 'r parse_state) res"
and parse_provided :: "'r provided_parser \<Rightarrow> string \<Rightarrow> yvalue \<Rightarrow> 'r parse_state \<Rightarrow> ('r parsed \<times> 'r parse_state) res"
and parse_entries ::
    "(string \<times> 'r provided_parser) list \<Rightarrow> (yvalue \<times> yvalue) list \<Rightarrow> 'r parse_state \<Rightarrow>
     ((string \<times> 'r parsed) list \<times> 'r parse_state) res"
and parse_keyword ::
    "(string \<times> 'r provided_parser) list \<Rightarrow> string \<Rightarrow> yvalue \<Rightarrow> 'r parse_state \<Rightarrow> ('r parsed \<times> 'r parse_state) res"
and parse_elements :: "'r input_parser \<Rightarrow> yvalue list \<Rightarrow> 'r parse_state \<Rightarrow> ('r parsed list \<times> 'r parse_state) res"
and parse_packages ::
    "'r input_parser \<Rightarrow> (yvalue \<times> yvalue) list \<Rightarrow> 'r parse_state \<Rightarrow>
     ((string \<times> string \<times> 'r parsed) list \<times> 'r parse_state) res"
where
  "parse_input (LeafParser f) v st = f v st"
| "parse_input ValuelessKeyword v st = (if v = VNone then Inr (PNone, st) else Inl ManifestParseError)"
| "parse_input (ListWrapped modes p) v st =
     rbind (check_mode modes st) (\<lambda>_.
       case v of
         VList vs \<Rightarrow> rmap (\<lambda>(xs, st1). (PList xs, st1)) (parse_elements p vs st)
       | _ \<Rightarrow> Inl ManifestParseError)"
| "parse_input (ObjectParser modes ps) v st =
     rbind (check_mode modes st) (\<lambda>_.
       case v of
         VDict kvs \<Rightarrow>
           if kvs = [] then Inl ManifestParseError
           else if list_ex (\<lambda>(k, _). case k of VStr s \<Rightarrow> map_of ps s = None | _ \<Rightarrow> True) kvs then Inl ManifestParseError
           else rmap (\<lambda>(r, st1). (PMapping r, st1)) (parse_entries ps kvs st)
       | _ \<Rightarrow> Inl ManifestParseError)"
| "parse_input (InPackageContext p) v st =
     (case v of
        VDict kvs \<Rightarrow>
          if kvs = [] then Inl ManifestParseError
          else rmap (\<lambda>(r, st1). (PPackages r, st1)) (parse_packages p kvs st)
      | _ \<Rightarrow> Inl ManifestParseError)"
| "parse_input (TableParser ps) v st =
     (case v of
        VStr key \<Rightarrow> parse_keyword ps key VNone st
      | VDict [(k, w)] \<Rightarrow> (case k of VStr key \<Rightarrow> parse_keyword ps key w st | _ \<Rightarrow> Inl ManifestParseError)
      | _ \<Rightarrow> Inl ManifestParseError)"
| "parse_provided (Provided p h _) name v st = rbind (parse_input p v st) (\<lambda>(x, st1). h name x st1)"
| "parse_entries [] kvs st = Inr ([], st)"
| "parse_entries ((key, provided) # ps) kvs st =
     (if value_at kvs key = VNone then
        (case provided of
           Provided p h _ \<Rightarrow>
             rbind (if is_object_parser p then rmap snd (h key (PMapping []) st) else Inr st) (\<lambda>st1.
               parse_entries ps kvs st1))
      else
        rbind (parse_provided provided key (value_at kvs key) st) (\<lambda>(x, st1).
          rmap (\<lambda>(r, st2). ((key, x) # r, st2)) (parse_entries ps kvs st1)))"
| "parse_keyword [] key v st = Inl ManifestParseError"
| "parse_keyword ((k, provided) # ps) key v st =
     (if k = key then parse_provided provided key v st else parse_keyword ps key v st)"
| "parse_elements p [] st = Inr ([], st)"
| "parse_elements p (v # vs) st =
     rbind (parse_input p v st) (\<lambda>(x, st1). rmap (\<lambda>(xs, st2). (x # xs, st2)) (parse_elements p vs st1))"
| "parse_packages p [] st = Inr ([], st)"
| "parse_packages p ((k, v) # kvs) st =
     rbind (package_name_of k st) (\<lambda>(raw, package_name, st1).
       rbind (binary_package_context package_name
                (\<lambda>package_state st2.
                   if ps_is_auto_generated_package package_state then Inl ManifestParseError
                   else parse_input p v st2) st1) (\<lambda>(x, st3).
         rmap (\<lambda>(r, st4). ((raw, package_name, x) # r, st4)) (parse_packages p kvs st3)))"
  by pat_completeness auto

termination
  by (relation "measures
      [case_sum (case_sum (\<lambda>(p, _). size p) (case_sum (\<lambda>(p, _). size p) (\<lambda>(ps, _). table_size ps)))
         (case_sum (\<lambda>(ps, _). table_size ps) (case_sum (\<lambda>(p, _). size p) (\<lambda>(p, _). size p))),
       case_sum (\<lambda>_. 0) (case_sum (\<lambda>_. 0) (case_sum (\<lambda>(_, vs, _). Suc (length vs)) (\<lambda>(_, kvs, _). Suc (length kvs))))]")
     (auto simp: table_size_def)


subsection \<open>Registering parsers\<close>

type_synonym 'r parser_table = "(string \<times> 'r provided_parser) list"

text \<open>\<^verbatim>\<open>_add_parser\<close>: a parser under one or several keywords, none of which may be taken.\<close>

fun add_parser :: "string list \<Rightarrow> 'r provided_parser \<Rightarrow> 'r parser_table \<Rightarrow> 'r parser_table res" where
  "add_parser [] ppp ps = Inr ps"
| "add_parser (k # ks) ppp ps =
     (if map_of ps k \<noteq> None then Inl PluginConflictError
      else add_parser ks ppp (ps @ [(k, ppp)]))"

definition register_parser ::
    "string list \<Rightarrow> 'r input_parser \<Rightarrow> (string \<Rightarrow> ('r parsed, 'r) state_parser) \<Rightarrow> string \<Rightarrow>
     'r parser_table \<Rightarrow> 'r parser_table res" where
  "register_parser ks parser handler plugin = add_parser ks (Provided parser handler plugin)"

text \<open>\<open>attribute_doc\<close> and \<open>alt_doc\<close> say whether the documentation that comes with the keyword has parts that only
  a mapping can have.\<close>

definition register_keyword ::
    "string list \<Rightarrow> (string \<Rightarrow> 'r parse_state \<Rightarrow> ('r parsed \<times> 'r parse_state) res) \<Rightarrow> string \<Rightarrow> bool \<Rightarrow> bool \<Rightarrow>
     'r parser_table \<Rightarrow> 'r parser_table res" where
  "register_keyword ks handler plugin attribute_doc alt_doc ps =
     (if attribute_doc then Inl ValueError
      else if alt_doc then Inl ValueError
      else add_parser ks (Provided ValuelessKeyword (\<lambda>name _. handler name) plugin) ps)"

text \<open>The handler that \<^verbatim>\<open>register_child_parser\<close> makes: it calls \<^verbatim>\<open>on_end_parse_step\<close>, also when that is \<^verbatim>\<open>None\<close>.\<close>

definition child_handler ::
    "(string \<Rightarrow> 'r parsed \<Rightarrow> 'r parse_state \<Rightarrow> 'r parse_state res) option \<Rightarrow> string \<Rightarrow> ('r parsed, 'r) state_parser" where
  "child_handler on_end_parse_step name v st =
     (case on_end_parse_step of None \<Rightarrow> Inl TypeErr | Some f \<Rightarrow> rmap (\<lambda>st1. (v, st1)) (f name v st))"

definition register_child_parser ::
    "string \<Rightarrow> 'r input_parser \<Rightarrow> string \<Rightarrow>
     (string \<Rightarrow> 'r parsed \<Rightarrow> 'r parse_state \<Rightarrow> 'r parse_state res) option \<Rightarrow> bool \<Rightarrow>
     'r parser_table \<Rightarrow> 'r parser_table res" where
  "register_child_parser keyword parser plugin on_end_parse_step nested_in_package_context =
     add_parser [keyword]
       (Provided (if nested_in_package_context then InPackageContext parser else parser)
         (child_handler on_end_parse_step) plugin)"

lemma add_parser_keys:
  "add_parser ks ppp ps = Inr qs \<Longrightarrow>
     qs = ps @ map (\<lambda>k. (k, ppp)) ks \<and> (distinct (map fst ps) \<longrightarrow> distinct (map fst qs))"
proof (induction ks arbitrary: ps)
  case (Cons k ks)
  then have k: "map_of ps k = None" and r: "add_parser ks ppp (ps @ [(k, ppp)]) = Inr qs"
    by (auto split: if_splits)
  from k have "distinct (map fst ps) \<longrightarrow> distinct (map fst (ps @ [(k, ppp)]))" by (simp add: map_of_eq_None_iff)
  with Cons.IH[OF r] show ?case by (intro conjI) (simp, blast)
qed simp

lemma add_parser_taken: "k \<in> set ks \<Longrightarrow> map_of ps k \<noteq> None \<Longrightarrow> add_parser ks ppp ps = Inl PluginConflictError"
  by (induction ks arbitrary: ps) (auto simp: map_add_Some_iff map_of_append)

subsection \<open>The entries of a mapping are read in the order of registration\<close>

lemma parse_entries_append:
  "parse_entries (ps @ qs) kvs st =
     rbind (parse_entries ps kvs st) (\<lambda>(r, st1). rmap (\<lambda>(s, st2). (r @ s, st2)) (parse_entries qs kvs st1))"
proof (induction ps arbitrary: st)
  case Nil
  show ?case by (cases "parse_entries qs kvs st") auto
next
  case (Cons p ps)
  obtain key q h plugin where p: "p = (key, Provided q h plugin)"
    by (metis provided_parser.exhaust surj_pair)
  show ?case
    by (auto simp: p Cons.IH rbind_def rmap_def split: sum.splits)
qed

lemma parse_entries_cong:
  "(\<And>k. k \<in> fst ` set ps \<Longrightarrow> value_at kvs k = value_at kvs' k) \<Longrightarrow> parse_entries ps kvs st = parse_entries ps kvs' st"
proof (induction ps arbitrary: st)
  case (Cons p ps)
  obtain key q h plugin where p: "p = (key, Provided q h plugin)"
    by (metis provided_parser.exhaust surj_pair)
  have v: "value_at kvs key = value_at kvs' key" and r: "parse_entries ps kvs = parse_entries ps kvs'"
    using Cons by (simp_all add: p fun_eq_iff)
  show ?case by (simp add: p v r)
qed simp

lemma parse_entries_keys:
  "parse_entries ps kvs st = Inr (r, st1) \<Longrightarrow> map fst r = filter (\<lambda>k. value_at kvs k \<noteq> VNone) (map fst ps)"
proof (induction ps arbitrary: st r)
  case (Cons p ps)
  obtain key q h plugin where p: "p = (key, Provided q h plugin)"
    by (metis provided_parser.exhaust surj_pair)
  from Cons.prems Cons.IH show ?case
    by (auto simp: p res_simps split: if_splits)
qed simp

lemma value_at_set:
  assumes "distinct (map fst kvs)" and "distinct (map fst kvs')" and "set kvs = set kvs'"
  shows "value_at kvs = value_at kvs'"
proof -
  have "map_of kvs = map_of kvs'" using map_of_inject_set[OF assms(1,2)] assms(3) by blast
  then show ?thesis by (simp add: value_at_def fun_eq_iff)
qed

text \<open>C32: an object of the manifest is read in the order in which its keywords were registered: the outcome, with
  the effects on the context, is the same for every order of the keys in the file; the result has exactly the
  registered keywords that are not null, in that order; and a key that nobody registered is an error, whatever the
  values are.\<close>

theorem object_read_in_registration_order:
  assumes keys: "distinct (map fst kvs)" "distinct (map fst kvs')" and same: "set kvs = set kvs'"
  shows "parse_input (ObjectParser modes ps) (VDict kvs) st = parse_input (ObjectParser modes ps) (VDict kvs') st
    \<and> (\<forall>x st1. parse_input (ObjectParser modes ps) (VDict kvs) st = Inr (x, st1) \<longrightarrow>
        (\<exists>r. x = PMapping r \<and> map fst r = filter (\<lambda>k. value_at kvs k \<noteq> VNone) (map fst ps)))
    \<and> (VStr k \<in> fst ` set kvs \<and> k \<notin> fst ` set ps \<longrightarrow>
        parse_input (ObjectParser modes ps) (VDict kvs) st = Inl ManifestParseError)"
proof (intro conjI allI impI)
  have v: "value_at kvs = value_at kvs'" by (rule value_at_set[OF keys same])
  then have "parse_entries ps kvs = parse_entries ps kvs'" by (intro ext parse_entries_cong) simp
  then show "parse_input (ObjectParser modes ps) (VDict kvs) st = parse_input (ObjectParser modes ps) (VDict kvs') st"
    using same by (cases kvs; cases kvs') (simp_all add: list_ex_iff)
  show "\<exists>r. x = PMapping r \<and> map fst r = filter (\<lambda>k. value_at kvs k \<noteq> VNone) (map fst ps)"
    if "parse_input (ObjectParser modes ps) (VDict kvs) st = Inr (x, st1)" for x st1
    using that parse_entries_keys by (auto simp: res_simps split: if_splits)
  show "parse_input (ObjectParser modes ps) (VDict kvs) st = Inl ManifestParseError"
    if "VStr k \<in> fst ` set kvs \<and> k \<notin> fst ` set ps"
  proof -
    from that obtain w where "(VStr k, w) \<in> set kvs" "map_of ps k = None" by (auto simp: map_of_eq_None_iff)
    then have "list_ex (\<lambda>(k, _). case k of VStr s \<Rightarrow> map_of ps s = None | _ \<Rightarrow> True) kvs"
      by (auto simp: list_ex_iff intro!: bexI[of _ "(VStr k, w)"])
    then show ?thesis by (auto simp: check_mode_def rguard_def split: option.splits)
  qed
qed

subsection \<open>What the parsers of a tree leave of the context\<close>

definition keeps :: "('r parse_state \<Rightarrow> 'r parse_state \<Rightarrow> bool) \<Rightarrow> ('v, 'r) state_parser \<Rightarrow> bool" where
  "keeps R f \<longleftrightarrow> (\<forall>v st x st1. f v st = Inr (x, st1) \<longrightarrow> R st st1)"

lemma keepsD: "keeps R f \<Longrightarrow> f v st = Inr (x, st1) \<Longrightarrow> R st st1"
  by (simp add: keeps_def)

fun all_keep :: "('r parse_state \<Rightarrow> 'r parse_state \<Rightarrow> bool) \<Rightarrow> 'r input_parser \<Rightarrow> bool"
and all_keep_table :: "('r parse_state \<Rightarrow> 'r parse_state \<Rightarrow> bool) \<Rightarrow> 'r parser_table \<Rightarrow> bool" where
  "all_keep R (LeafParser f) = keeps R f"
| "all_keep R ValuelessKeyword = True"
| "all_keep R (ListWrapped _ p) = all_keep R p"
| "all_keep R (ObjectParser _ ps) = all_keep_table R ps"
| "all_keep R (InPackageContext p) = all_keep R p"
| "all_keep R (TableParser ps) = all_keep_table R ps"
| "all_keep_table R [] = True"
| "all_keep_table R ((k, Provided p h _) # ps) = (all_keep R p \<and> (\<forall>name. keeps R (h name)) \<and> all_keep_table R ps)"

text \<open>
  A relation between the context before and after: it is closed under what the parsers themselves do with the
  context, which is substituting in the names of packages and entering and leaving a package.
\<close>

locale context_relation =
  fixes R :: "'r parse_state \<Rightarrow> 'r parse_state \<Rightarrow> bool"
  assumes refl [simp]: "R st st"
    and trans: "R a b \<Longrightarrow> R b c \<Longrightarrow> R a c"
    and substituted: "context_substitute False t st = Inr (u, st1) \<Longrightarrow> R st st1"
    and in_package: "R (st\<lparr>st_stack := n # st_stack st\<rparr>) st1 \<Longrightarrow> R st (st1\<lparr>st_stack := tl (st_stack st1)\<rparr>)"
begin

lemma package_context_keeps:
  assumes "binary_package_context n body st = Inr (x, st1)"
    and "\<And>p s y t. body p s = Inr (y, t) \<Longrightarrow> R s t"
  shows "R st st1"
  using assms(1) by (auto simp: binary_package_context_def res_simps split: option.splits if_splits
      dest!: assms(2) intro: in_package)

lemma package_name_keeps: "package_name_of k st = Inr (raw, n, st1) \<Longrightarrow> R st st1"
  by (auto simp: package_name_of_def res_simps split: yvalue.splits if_splits dest: substituted)

lemma parsing_keeps:
  "all_keep R p \<Longrightarrow> parse_input p v st = Inr (x, st1) \<Longrightarrow> R st st1"
  "all_keep_table R [(''k'', pp)] \<Longrightarrow> parse_provided pp name v st = Inr (x, st1) \<Longrightarrow> R st st1"
  "all_keep_table R ps \<Longrightarrow> parse_entries ps kvs st = Inr (r, st1) \<Longrightarrow> R st st1"
  "all_keep_table R ps \<Longrightarrow> parse_keyword ps key v st = Inr (x, st1) \<Longrightarrow> R st st1"
  "all_keep R p \<Longrightarrow> parse_elements p vs st = Inr (xs, st1) \<Longrightarrow> R st st1"
  "all_keep R p \<Longrightarrow> parse_packages p kvs st = Inr (pcds, st1) \<Longrightarrow> R st st1"
proof (induction p v st and pp name v st and ps kvs st and ps key v st and p vs st and p kvs st
    arbitrary: x st1 and x st1 and r st1 and x st1 and xs st1 and pcds st1
    rule: parse_input_parse_provided_parse_entries_parse_keyword_parse_elements_parse_packages.induct)
  case (1 f v st)
  then show ?case by (auto dest: keepsD)
next
  case (2 v st)
  then show ?case by (auto split: if_splits)
next
  case (3 modes p v st)
  then show ?case by (auto simp: res_simps split: yvalue.splits)
next
  case (4 modes ps v st)
  then show ?case by (auto simp: res_simps split: yvalue.splits if_splits)
next
  case (5 p v st)
  then show ?case by (auto simp: res_simps split: yvalue.splits if_splits)
next
  case (6 ps v st)
  then show ?case by (auto split: yvalue.splits list.splits)
next
  case (7 p h pl name v st)
  then obtain y st2 where "parse_input p v st = Inr (y, st2)" "h name y st2 = Inr (x, st1)" "all_keep R p" "keeps R (h name)"
    by (auto simp: res_simps)
  with 7(1) show ?case by (blast intro: trans dest: keepsD)
next
  case (9 key provided ps kvs st)
  obtain p h pl where pp: "provided = Provided p h pl" by (cases provided)
  show ?case
  proof (cases "value_at kvs key = VNone")
    case True
    with 9(5) obtain st2 where "(if is_object_parser p then rmap snd (h key (PMapping []) st) else Inr st) = Inr st2"
      and r: "parse_entries ps kvs st2 = Inr (r, st1)"
      by (auto simp: pp res_simps)
    moreover from this 9(4) have "R st st2"
      by (auto simp: pp res_simps split: if_splits dest: keepsD)
    ultimately show ?thesis using 9(1)[OF True pp] 9(4) pp by (auto intro: trans)
  next
    case False
    with 9(5) obtain y st2 r' where y: "parse_provided provided key (value_at kvs key) st = Inr (y, st2)"
      and r: "parse_entries ps kvs st2 = Inr (r', st1)"
      by (auto simp: res_simps)
    have k: "all_keep_table R [(''k'', provided)]" "all_keep_table R ps" using 9(4) by (simp_all add: pp)
    show ?thesis
      by (rule trans[OF 9(2)[OF False k(1) y] 9(3)[OF False y HOL.refl k(2) r]])
  qed
next
  case (11 k provided ps key v st)
  then show ?case by (cases provided) (auto split: if_splits)
next
  case (13 p v vs st)
  then obtain y st2 xs' where "parse_input p v st = Inr (y, st2)" "parse_elements p vs st2 = Inr (xs', st1)"
    by (auto simp: res_simps)
  with 13 show ?case by (blast intro: trans)
next
  case (15 p k v kvs st)
  then obtain raw n st2 y st3 pcds' where n: "package_name_of k st = Inr (raw, n, st2)"
    and b: "binary_package_context n (\<lambda>package_state st2.
        if ps_is_auto_generated_package package_state then Inl ManifestParseError else parse_input p v st2) st2 = Inr (y, st3)"
    and r: "parse_packages p kvs st3 = Inr (pcds', st1)"
    by (auto simp: res_simps)
  have "R st2 st3"
    using b by (rule package_context_keeps) (use 15(3) in \<open>auto split: if_splits intro: 15(1)[OF n HOL.refl HOL.refl]\<close>)
  moreover have "R st3 st1" by (rule 15(2)[OF n HOL.refl HOL.refl b HOL.refl 15(3) r])
  ultimately show ?case using package_name_keeps[OF n] by (blast intro: trans)
qed auto

end

text \<open>What a parser leaves alone: the stack, and the packages once they are known, with their kind.\<close>

definition package_kinds :: "'r parse_state \<Rightarrow> (string \<times> string \<times> bool) list option" where
  "package_kinds st =
     map_option (map (\<lambda>(n, p). (n, ps_binary_package p, ps_is_auto_generated_package p))) (st_package_states st)"

definition context_kept :: "'r parse_state \<Rightarrow> 'r parse_state \<Rightarrow> bool" where
  "context_kept a b \<longleftrightarrow>
     st_stack b = st_stack a \<and> (\<forall>ks. package_kinds a = Some ks \<longrightarrow> package_kinds b = Some ks)"

lemma package_kinds_cong:
  "st_package_states a = st_package_states b \<Longrightarrow> package_kinds a = package_kinds b"
  by (simp add: package_kinds_def)

lemma package_kinds_simps [simp]:
  "package_kinds (st\<lparr>st_stack := s\<rparr>) = package_kinds st"
  "package_kinds (st\<lparr>st_substitution := c\<rparr>) = package_kinds st"
  by (simp_all add: package_kinds_def)

lemma package_kinds_put_state:
  assumes "st_package_states st = Some ps" and "map_of ps n = Some p"
    and "ps_binary_package q = ps_binary_package p" "ps_is_auto_generated_package q = ps_is_auto_generated_package p"
  shows "package_kinds (put_state n q st) = package_kinds st"
proof -
  have "map_of ps n = Some p \<Longrightarrow>
      map (\<lambda>(n, p). (n, ps_binary_package p, ps_is_auto_generated_package p)) (AList.update n q ps)
      = map (\<lambda>(n, p). (n, ps_binary_package p, ps_is_auto_generated_package p)) ps"
    using assms(3,4) by (induction ps) auto
  with assms show ?thesis by (simp add: package_kinds_def put_state_def)
qed

lemma put_state_stack [simp]: "st_stack (put_state n p st) = st_stack st"
  by (simp add: put_state_def)

lemma store_chain_kept: "context_kept st (store_chain chain st)"
  by (auto simp: context_kept_def store_chain_def package_kinds_put_state split: list.splits option.splits)

interpretation kept: context_relation context_kept
proof
  show "context_kept st st" for st :: "'r parse_state" by (simp add: context_kept_def)
  show "context_kept a c" if "context_kept a b" "context_kept b c" for a b c :: "'r parse_state"
    using that by (simp add: context_kept_def)
  show "context_kept st st1" if "context_substitute False t st = Inr (u, st1)" for st st1 :: "'r parse_state" and t u
    using that store_chain_kept by (auto simp: context_substitute_def res_simps)
  show "context_kept st (st1\<lparr>st_stack := tl (st_stack st1)\<rparr>)" if "context_kept (st\<lparr>st_stack := n # st_stack st\<rparr>) st1"
    for st st1 :: "'r parse_state" and n
    using that by (simp add: context_kept_def)
qed

definition declared_package :: "'r parse_state \<Rightarrow> string \<Rightarrow> bool" where
  "declared_package st n \<longleftrightarrow> (\<exists>ks b. package_kinds st = Some ks \<and> map_of ks n = Some (b, False))"

lemma declared_kept: "context_kept st st1 \<Longrightarrow> declared_package st n \<Longrightarrow> declared_package st1 n"
  by (auto simp: declared_package_def context_kept_def)

lemma known_state_kinds:
  "known_state st n = Inr (Some p) \<Longrightarrow>
     \<exists>ks. package_kinds st = Some ks \<and> map_of ks n = Some (ps_binary_package p, ps_is_auto_generated_package p)"
  by (auto simp: known_state_def package_kinds_def map_of_map split: option.splits)

lemma parse_packages_declared:
  "all_keep context_kept p \<Longrightarrow> parse_packages p kvs st = Inr (r, st1) \<Longrightarrow>
     map (\<lambda>(raw, _). VStr raw) r = map fst kvs \<and> (\<forall>(raw, n, x) \<in> set r. declared_package st1 n)"
proof (induction kvs arbitrary: st r)
  case (Cons kv kvs)
  obtain k v where kv: "kv = (k, v)" by (cases kv)
  from Cons.prems obtain raw n st2 y st3 r' where n: "package_name_of k st = Inr (raw, n, st2)"
    and b: "binary_package_context n (\<lambda>q st2.
        if ps_is_auto_generated_package q then Inl ManifestParseError else parse_input p v st2) st2 = Inr (y, st3)"
    and rest: "parse_packages p kvs st3 = Inr (r', st1)" and r: "r = (raw, n, y) # r'"
    by (auto simp: kv res_simps)
  have k: "k = VStr raw" using n by (auto simp: package_name_of_def res_simps split: yvalue.splits if_splits)
  have "context_kept st2 st3"
    using b by (rule kept.package_context_keeps) (use kept.parsing_keeps(1)[OF Cons.prems(1)] in \<open>auto split: if_splits\<close>)
  moreover have "context_kept st3 st1" by (rule kept.parsing_keeps(6)[OF Cons.prems(1) rest])
  moreover from b obtain q where "known_state st2 n = Inr (Some q)" "\<not> ps_is_auto_generated_package q"
    by (auto simp: binary_package_context_def res_simps split: option.splits if_splits)
  then have "declared_package st2 n" using known_state_kinds by (fastforce simp: declared_package_def)
  ultimately have "declared_package st1 n" by (blast intro: declared_kept)
  with Cons.IH[OF Cons.prems(1) rest] show ?case by (simp add: r kv k)
qed simp

text \<open>C33: the rules of a package are read for the packages of the source and for nothing else: when a mapping
  from packages is accepted, each key, with its variables replaced, is a package that debian/control declares (not
  one that is generated with it), and afterwards no package is left on the stack, provided that the parsers beneath
  leave stack and packages alone.\<close>

theorem rules_only_for_declared_packages:
  assumes p: "all_keep context_kept p" and ok: "parse_input (InPackageContext p) v st = Inr (x, st1)"
  shows "\<exists>kvs r. v = VDict kvs \<and> x = PPackages r \<and> map (\<lambda>(raw, _). VStr raw) r = map fst kvs
      \<and> (\<forall>(raw, n, y) \<in> set r. declared_package st1 n) \<and> st_stack st1 = st_stack st"
proof -
  from ok obtain kvs r where "v = VDict kvs" "x = PPackages r" "parse_packages p kvs st = Inr (r, st1)"
    by (auto simp: res_simps split: yvalue.splits if_splits)
  moreover have "context_kept st st1"
    using kept.parsing_keeps(1)[of "InPackageContext p", OF _ ok] p by simp
  ultimately show ?thesis using parse_packages_declared[OF p] by (auto simp: context_kept_def)
qed

text \<open>A source with one package, and rules that are read without looking at them.\<close>

definition demo_parser :: "nat parse_state" where
  "demo_parser = ensure_package_states_is_initialized (new_manifest_parser demo_chain [''foo''] ''full'')"

definition demo_leaf :: "nat input_parser" where
  "demo_leaf = LeafParser (\<lambda>v st. Inr (PRaw v, st))"

lemma demo_leaf_keeps: "all_keep context_kept demo_leaf"
  by (simp add: demo_leaf_def keeps_def)

lemma rules_only_for_declared_packages_witness:
  "declared_package (snd (projr (parse_input (InPackageContext demo_leaf)
     (VDict [(VStr ''foo'', VNone)]) demo_parser))) ''foo''"
proof -
  let ?v = "VDict [(VStr ''foo'', VNone)]"
  have "\<not> isl (parse_input (InPackageContext demo_leaf) ?v demo_parser)"
    and "fst (projr (parse_input (InPackageContext demo_leaf) ?v demo_parser)) = PPackages [(''foo'', ''foo'', PRaw VNone)]"
    by code_simp+
  then obtain st1 where ok: "parse_input (InPackageContext demo_leaf) ?v demo_parser
      = Inr (PPackages [(''foo'', ''foo'', PRaw VNone)], st1)"
    by (cases "parse_input (InPackageContext demo_leaf) ?v demo_parser") auto
  from rules_only_for_declared_packages[OF demo_leaf_keeps ok] show ?thesis unfolding ok by simp
qed

lemma object_read_in_registration_order_witness:
  "case parse_input (ObjectParser None [(''b'', Provided demo_leaf (\<lambda>_ x st. Inr (x, st)) ''p''),
        (''a'', Provided demo_leaf (\<lambda>_ x st. Inr (x, st)) ''p'')])
      (VDict [(VStr ''a'', VInt 1), (VStr ''b'', VInt 2)]) demo_parser of
     Inl _ \<Rightarrow> False
   | Inr (x, _) \<Rightarrow> \<exists>r. x = PMapping r \<and> map fst r = [''b'', ''a'']"
proof -
  let ?ps = "[(''b'', Provided demo_leaf (\<lambda>_ x st. Inr (x, st)) ''p''), (''a'', Provided demo_leaf (\<lambda>_ x st. Inr (x, st)) ''p'')]"
  let ?kvs = "[(VStr ''a'', VInt 1), (VStr ''b'', VInt 2)]"
  have "\<not> isl (parse_input (ObjectParser None ?ps) (VDict ?kvs) demo_parser)" by code_simp
  then obtain x st1 where ok: "parse_input (ObjectParser None ?ps) (VDict ?kvs) demo_parser = Inr (x, st1)"
    by (cases "parse_input (ObjectParser None ?ps) (VDict ?kvs) demo_parser") auto
  have d: "distinct (map fst ?kvs)" by simp
  from object_read_in_registration_order[OF d d HOL.refl, of None ?ps demo_parser] ok
  have "\<exists>r. x = PMapping r \<and> map fst r = filter (\<lambda>k. value_at ?kvs k \<noteq> VNone) (map fst ?ps)" by blast
  then show ?thesis unfolding ok by (simp add: value_at_def)
qed

end
