(* ===== verification/CleanRules.thy ===== *)
theory CleanRules
  imports Dispatch
begin

section \<open>The rules \<^verbatim>\<open>clean-after-removal\<close> (\<^verbatim>\<open>plugin/debputy/binary_package_rules.py\<close>)\<close>

text \<open>
  A rule names paths that the \<^verbatim>\<open>postrm\<close> script removes when the package is purged or removed.  The handler
  refuses every pattern that could reach outside of a few directories.  The model covers the handler from the parsed
  rules to the snippet; the parser of a single rule is an argument, and so is the text that says where a rule is.
\<close>

subsection \<open>Match rules, with the context that replaces variables\<close>

text \<open>\<^verbatim>\<open>MatchRule.from_path_or_glob\<close> with a substitution that keeps a state.\<close>

definition from_path_or_glob_st ::
    "(bool \<Rightarrow> string \<Rightarrow> 's \<Rightarrow> (string \<times> 's) res) \<Rightarrow> path_type option \<Rightarrow> string \<Rightarrow> 's \<Rightarrow> (match_rule \<times> 's) res" where
  "from_path_or_glob_st subst pt path_or_glob st =
     rbind (normalize_path path_or_glob False) (\<lambda>normalized_no_prefix.
       if path_or_glob \<in> set [''*'', ''**/*'', ''.'', ''/''] then
         (if pt \<noteq> None then Inl AssertionErr else Inr (MatchAnything, st))
       else if CHR ''{'' \<in> set path_or_glob \<and> brace_expansion path_or_glob then Inl UserError
       else
         (let with_prefix = ''./'' @ normalized_no_prefix in
          if \<not> glob_has_magic with_prefix then
            (if pt \<noteq> None then Inl AssertionErr
             else rmap (\<lambda>(t, st1). (ExactFileSystemPath t, st1)) (subst False with_prefix st))
          else
            (let directory = path_head with_prefix; basename = path_tail with_prefix in
             if (infix_of ''**'' directory \<and> directory \<noteq> ''./**'') \<or> infix_of ''**'' basename
             then Inl ValueError
             else if basename = ''*'' \<and> \<not> glob_has_magic directory then
               rbind (subst False directory st) (\<lambda>(d, st1).
                 rmap (\<lambda>r. (r, st1)) (new_directory_match DIRECT_CHILDREN_OF_DIR d pt))
             else if directory = ''./**'' \<or> \<not> glob_has_magic directory then
               rbind (subst True basename st) (\<lambda>(g, st1).
                 if directory = ''.'' \<or> directory = ''./**'' then
                   rmap (\<lambda>r. (r, st1)) (new_basename_glob g None pt True)
                 else rbind (subst False directory st1) (\<lambda>(d, st2).
                   rmap (\<lambda>r. (r, st2)) (new_basename_glob g (Some d) pt False)))
             else rmap (\<lambda>r. (r, st)) (new_generic_glob with_prefix pt))))"

lemma from_path_or_glob_st_pure:
  "from_path_or_glob_st (\<lambda>e s st. rmap (\<lambda>t. (t, st)) (f e s)) pt p st = rmap (\<lambda>r. (r, st)) (from_path_or_glob f pt p)"
proof -
  have rb: "rmap g (rbind m k) = rbind m (\<lambda>x. rmap g (k x))" "rbind (rmap h m') k' = rbind m' (\<lambda>x. k' (h x))"
    "rmap g (rmap h' m2) = rmap (\<lambda>x. g (h' x)) m2" for g m k h m' k' h' m2
    by (cases m; cases m'; cases m2; simp)+
  have ri: "rmap g (if b then x else y) = (if b then rmap g x else rmap g y)" for g b x y by simp
  show ?thesis
    unfolding from_path_or_glob_st_def from_path_or_glob_def Let_def rb ri rmap_simps prod.case ..
qed

fun context_match_rules :: "string list \<Rightarrow> 'r parse_state \<Rightarrow> (match_rule list \<times> 'r parse_state) res" where
  "context_match_rules [] st = Inr ([], st)"
| "context_match_rules (p # ps) st =
     rbind (from_path_or_glob_st context_substitute None p st) (\<lambda>(r, st1).
       rmap (\<lambda>(rs, st2). (r # rs, st2)) (context_match_rules ps st1))"

subsection \<open>A match rule as a pattern for the shell\<close>

text \<open>The text that \<^verbatim>\<open>_compile_basename_glob\<close> returns with the matcher.\<close>

definition escaped_basename_pattern :: "string \<Rightarrow> string option" where
  "escaped_basename_pattern g =
     (if \<not> glob_has_magic g then Some (escape_shell [g])
      else
        (let star = startswith g ''*'';
             remainder =
               (if star then (if endswith g ''*'' then drop 1 (butlast g) else drop 1 g) else butlast g);
             escaped_pattern =
               (if star then (if endswith g ''*'' then ''*'' @ escape_shell [remainder] @ ''*'' else ''*'' @ escape_shell [remainder])
                else escape_shell [remainder] @ ''*'')
         in if \<not> glob_has_magic remainder then Some escaped_pattern else None))"

definition without_dots :: "string \<Rightarrow> string" where
  "without_dots s = lstrip (\<lambda>c. c = dot) s"

fun shell_escape_pattern :: "match_rule \<Rightarrow> string res" where
  "shell_escape_pattern (ExactFileSystemPath p) = Inr (escape_shell [without_dots p])"
| "shell_escape_pattern (DirectoryBasedMatch rt directory _) =
     (if rt = ANYTHING_BENEATH_DIR then Inl TypeErr else Inr (escape_shell [without_dots directory] @ ''/*''))"
| "shell_escape_pattern (BasenameGlobMatch g directory _ _) =
     (case (directory, escaped_basename_pattern g) of
        (Some d, Some e) \<Rightarrow> Inr (escape_shell [without_dots d] @ ''/'' @ e)
      | _ \<Rightarrow> Inl TypeErr)"
| "shell_escape_pattern _ = Inl TypeErr"

subsection \<open>The check of a pattern\<close>

definition GLOBS_AND_EXACT_MATCHES :: "string list" where
  "GLOBS_AND_EXACT_MATCHES = [''./var/log'']"

definition EXACT_MATCH_OR_SUBDIR_OF :: "string list" where
  "EXACT_MATCH_OR_SUBDIR_OF =
     [''./etc'', ''./run'', ''./var/lib'', ''./var/cache'', ''./var/backups'', ''./var/spool'', ''./usr/lib/modules'',
      ''./lib/modules'', ''./lib/udev'', ''./usr/lib/udev'', ''./usr/share/misc'']"

text \<open>The loop over the directories above, with what it leaves in \<^verbatim>\<open>acceptable_directory\<close> and in
  \<^verbatim>\<open>would_have_allowed_direct_match\<close>.\<close>

partial_function (option) acceptable_loop :: "bool \<Rightarrow> string \<Rightarrow> (bool \<times> bool) option" where
  "acceptable_loop is_subdir_match matched_directory =
     (if matched_directory \<in> set [''.'', ''./'', []] then Some (False, False)
      else if is_subdir_match \<and> matched_directory \<in> set EXACT_MATCH_OR_SUBDIR_OF then Some (True, False)
      else if matched_directory \<in> set GLOBS_AND_EXACT_MATCHES then Some (True, False)
      else if matched_directory \<in> set EXACT_MATCH_OR_SUBDIR_OF then Some (False, True)
      else acceptable_loop True (path_head matched_directory))"

declare acceptable_loop.simps [code]

fun matched_directory :: "match_rule \<Rightarrow> (bool \<times> string) option" where
  "matched_directory (ExactFileSystemPath p) =
     Some (True, if p \<notin> set [''/'', ''.'', ''./''] then path_head p else p)"
| "matched_directory (DirectoryBasedMatch _ directory _) = Some (False, directory)"
| "matched_directory (BasenameGlobMatch _ directory _ _) = map_option (Pair False) directory"
| "matched_directory _ = None"

text \<open>That the loop ends is \<open>acceptable_loop_returns\<close>; the last branch is not reached.\<close>

definition check_clean_pattern :: "match_rule \<Rightarrow> unit res" where
  "check_clean_pattern r =
     (if r = MatchAnything then Inl ManifestParseError
      else
        (case matched_directory r of
           None \<Rightarrow> Inl ManifestParseError
         | Some (is_subdir_match, d) \<Rightarrow>
             if \<not> (startswith d ''./'' \<or> d \<in> set [''.'', ''./'', []]) then Inl AssertionErr
             else
               (case acceptable_loop is_subdir_match d of
                  Some (acceptable_directory, would_have_allowed_direct_match) \<Rightarrow>
                    if would_have_allowed_direct_match \<and> \<not> acceptable_directory then Inl ManifestParseError
                    else if \<not> acceptable_directory then Inl ManifestParseError
                    else Inr ()
                | None \<Rightarrow> Inl RecursionErr)))"

subsection \<open>The handler\<close>

record clean_after_removal_rule =
  cr_paths :: "string list"
  cr_delete_on :: "string option"
  cr_recursive :: "bool option"
  cr_ignore_non_empty_dir :: "bool option"

text \<open>\<^verbatim>\<open>"${DPKG_ROOT}"\<close>, with its quotes\<close>

definition dpkg_root :: string where
  "dpkg_root = [dquote] @ ''${DPKG_ROOT}'' @ [dquote]"

definition clean_command :: "bool \<Rightarrow> bool \<Rightarrow> string \<Rightarrow> string" where
  "clean_command ignore_non_empty_dir recurse original_pattern =
     (if ignore_non_empty_dir then ''rmdir --ignore-fail-on-non-empty ''
      else if recurse then ''rm -fr ''
      else if endswith original_pattern ''/'' then ''rmdir ''
      else ''rm -f '')"

definition clean_line :: "bool \<Rightarrow> bool \<Rightarrow> string \<Rightarrow> match_rule \<Rightarrow> string res" where
  "clean_line ignore_non_empty_dir recurse original_pattern match_rule =
     rbind (check_clean_pattern match_rule) (\<lambda>_.
       case shell_escape_pattern match_rule of
         Inl e \<Rightarrow> Inl (if e = TypeErr then ManifestParseError else e)
       | Inr shell_escaped_pattern \<Rightarrow>
           Inr (''    '' @ clean_command ignore_non_empty_dir recurse original_pattern @ dpkg_root
                @ shell_escaped_pattern @ [newline]))"

fun clean_lines :: "bool \<Rightarrow> bool \<Rightarrow> (string \<times> match_rule) list \<Rightarrow> string list res" where
  "clean_lines ignore_non_empty_dir recurse [] = Inr []"
| "clean_lines ignore_non_empty_dir recurse ((p, r) # rest) =
     rbind (clean_line ignore_non_empty_dir recurse p r) (\<lambda>l. rmap ((#) l) (clean_lines ignore_non_empty_dir recurse rest))"

definition or_false :: "bool option \<Rightarrow> bool" where
  "or_false b = (case b of None \<Rightarrow> False | Some x \<Rightarrow> x)"

definition clean_condition :: "string option \<Rightarrow> string" where
  "clean_condition delete_on =
     (case delete_on of None \<Rightarrow> called_for ''purge''
      | Some d \<Rightarrow> if d = [] \<or> d = ''purge'' then called_for ''purge'' else called_for ''remove'')"

text \<open>One rule: the snippet for the \<^verbatim>\<open>postrm\<close> script.\<close>

definition clean_rule_snippet ::
    "string \<Rightarrow> clean_after_removal_rule \<Rightarrow> 'r parse_state \<Rightarrow> (maintscript_snippet \<times> 'r parse_state) res" where
  "clean_rule_snippet source r st =
     (let recurse = or_false (cr_recursive r);
          ignore_non_empty_dir = or_false (cr_ignore_non_empty_dir r);
          patterns = cr_paths r
      in if ignore_non_empty_dir \<and> recurse then Inl ManifestParseError
         else if ignore_non_empty_dir \<and> \<not> list_all (\<lambda>p. endswith p ''/'') patterns then Inl ManifestParseError
         else
           rbind (context_match_rules patterns st) (\<lambda>(match_rules, st1).
             rmap (\<lambda>ls.
               (\<lparr> ms_definition_source = source,
                  ms_snippet = ''if '' @ clean_condition (cr_delete_on r) @ ''; then'' @ [newline] @ concat ls
                    @ ''fi'' @ [newline],
                  ms_snippet_order = None \<rparr>, st1))
               (clean_lines ignore_non_empty_dir recurse (zip patterns match_rules))))"

definition current_binary_package_state :: "'r parse_state \<Rightarrow> (string \<times> 'r package_state) res" where
  "current_binary_package_state st =
     (case st_stack st of
        [] \<Rightarrow> Inl RuntimeErr
      | n # _ \<Rightarrow>
          rbind (known_state st n) (\<lambda>p. case p of None \<Rightarrow> Inl KeyError | Some q \<Rightarrow> Inr (n, q)))"

definition append_maintscript_snippet :: "string \<Rightarrow> maintscript_snippet \<Rightarrow> 'r parse_state \<Rightarrow> 'r parse_state res" where
  "append_maintscript_snippet script s st =
     rmap (\<lambda>(n, p). put_state n (p\<lparr>ps_maintscript_snippets := add_snippet script s (ps_maintscript_snippets p)\<rparr>) st)
       (current_binary_package_state st)"

text \<open>\<open>source_of no patterns\<close> is the text of the attribute path of rule \<open>no\<close>, with its hint.\<close>

fun clean_rules_loop ::
    "(yvalue \<Rightarrow> 'r parse_state \<Rightarrow> (clean_after_removal_rule \<times> 'r parse_state) res) \<Rightarrow> (nat \<Rightarrow> string list \<Rightarrow> string) \<Rightarrow>
     nat \<Rightarrow> yvalue list \<Rightarrow> 'r parse_state \<Rightarrow> 'r parse_state res" where
  "clean_rules_loop rule_parser source_of no [] st = Inr st"
| "clean_rules_loop rule_parser source_of no (raw # raws) st =
     rbind (rule_parser raw st) (\<lambda>(r, st1).
       rbind (clean_rule_snippet (source_of no (cr_paths r)) r st1) (\<lambda>(s, st2).
         rbind (append_maintscript_snippet ''postrm'' s st2) (\<lambda>st3.
           clean_rules_loop rule_parser source_of (Suc no) raws st3)))"

fun raw_values :: "'r parsed list \<Rightarrow> yvalue list" where
  "raw_values [] = []"
| "raw_values (PRaw v # xs) = v # raw_values xs"
| "raw_values (_ # xs) = raw_values xs"

definition handle_clean_after_removal ::
    "(yvalue \<Rightarrow> 'r parse_state \<Rightarrow> (clean_after_removal_rule \<times> 'r parse_state) res) \<Rightarrow> (nat \<Rightarrow> string list \<Rightarrow> string) \<Rightarrow>
     string \<Rightarrow> ('r parsed, 'r) state_parser" where
  "handle_clean_after_removal rule_parser source_of name v st =
     (case v of
        PMapping kvs \<Rightarrow>
          (case map_of kvs ''elements'' of
             Some (PList raws) \<Rightarrow>
               rbind (current_binary_package_state st) (\<lambda>_.
                 rmap (\<lambda>st1. (PNone, st1)) (clean_rules_loop rule_parser source_of 0 (raw_values raws) st))
           | _ \<Rightarrow> Inl KeyError)
      | _ \<Rightarrow> Inl TypeErr)"

subsection \<open>The loop over the directories above\<close>














subsection \<open>What a rule removes\<close>

lemma escape_shell_chars: "set (escape_shell [w]) \<subseteq> set w \<union> {backslash, dquote}"
proof -
  have e: "set (escape_with P v) \<subseteq> set v \<union> {backslash}" for P v
    by (auto simp: escape_with_def split: if_splits)
  have "set (escape_shell_word w) \<subseteq> set w \<union> {backslash, dquote}"
  proof (cases "list_ex py_space w")
    case False
    have "escape_shell_word w = escape_with regular_escapee w" unfolding escape_shell_word_def using False by (simp only: if_False)
    then show ?thesis using e[of regular_escapee w] by auto
  next
    case True
    show ?thesis
    proof (cases "if CHR ''='' \<in> set w then word_equal w else None")
      case None
      have "escape_shell_word w = [dquote] @ escape_with double_escapee w @ [dquote]"
        unfolding escape_shell_word_def using True None by (simp only: if_True option.case)
      with e[of double_escapee w] show ?thesis by auto
    next
      case (Some n)
      have "escape_shell_word w = take n w @ [dquote] @ escape_with double_escapee (drop n w) @ [dquote]"
        unfolding escape_shell_word_def using True Some by (simp only: if_True option.case)
      moreover have "set (take n w) \<subseteq> set w" "set (drop n w) \<subseteq> set w" by (rule set_take_subset set_drop_subset)+
      ultimately show ?thesis using e[of double_escapee "drop n w"] unfolding set_append by auto
    qed
  qed
  then show ?thesis by (simp add: escape_shell_def)
qed



















subsection \<open>The lines of the snippet\<close>










definition demo_clean :: "string list \<Rightarrow> clean_after_removal_rule" where
  "demo_clean ps = \<lparr>cr_paths = ps, cr_delete_on = None, cr_recursive = Some True, cr_ignore_non_empty_dir = None\<rparr>"

definition demo_snippet :: "(string \<times> string) list \<Rightarrow> string list \<Rightarrow> (maintscript_snippet \<times> nat parse_state) res" where
  "demo_snippet variables ps =
     clean_rule_snippet ''m'' (demo_clean ps) (demo_parser\<lparr>st_substitution := with_extra_substitutions variables demo_chain\<rparr>)"


text \<open>
  With variables the text of the path is not what the check is about: the value of a variable is put in after the
  path has been normalised.
\<close>

lemma variable_climbs_out:
  "map_sum id (ms_snippet \<circ> fst) (demo_snippet [(''D'', ''..'')] [''/var/lib/{{D}}/{{D}}/home'']) =
     Inr (''if '' @ called_for ''purge'' @ ''; then'' @ [newline]
       @ ''    rm -fr '' @ dpkg_root @ ''/var/lib/../../home'' @ [newline] @ ''fi'' @ [newline])"
  by code_simp

lemma empty_variable_removes_directory:
  "map_sum id (ms_snippet \<circ> fst) (demo_snippet [(''E'', [])] [''/etc/{{E}}'']) =
     Inr (''if '' @ called_for ''purge'' @ ''; then'' @ [newline]
       @ ''    rm -fr '' @ dpkg_root @ ''/etc/'' @ [newline] @ ''fi'' @ [newline])"
  by code_simp

text \<open>A pattern that ends with another glob character than the star becomes one that ends with a star.\<close>

lemma question_mark_becomes_star:
  "shell_escape_pattern (BasenameGlobMatch ''foo.?'' (Some ''./var/log'') None False) = Inr ''/var/log/foo.*''"
  by code_simp

end
