(* ===== verification/ManifestParse.thy ===== *)
theory ManifestParse
  imports CleanRules
begin

section \<open>Reading the whole manifest (\<^verbatim>\<open>highlevel_manifest_parser.py\<close>, \<^verbatim>\<open>manifest_root_rules.py\<close>)\<close>

text \<open>
  The operations of the parser's context that handlers call, the handler of the manifest's own variables, the root
  of the manifest with what its parsed content does to the packages, and the checks at the end.
\<close>

subsection \<open>Operations of the context\<close>

definition add_extra_substitution_variables ::
    "(string \<times> string) list \<Rightarrow> 'r parse_state \<Rightarrow> 'r parse_state res" where
  "add_extra_substitution_variables extra st =
     (if st_stack st \<noteq> [] \<or> st_package_states st \<noteq> None then Inl RuntimeErr
      else Inr (st\<lparr> st_declared_variables := st_declared_variables st @ filter (\<lambda>k. k \<notin> set (st_declared_variables st)) (map fst extra),
                    st_substitution := with_extra_substitutions extra (st_substitution st) \<rparr>))"

definition register_build_environment ::
    "string option \<Rightarrow> 'r \<Rightarrow> bool \<Rightarrow> 'r parse_state \<Rightarrow> 'r parse_state res" where
  "register_build_environment name build_environment is_default st =
     (if st_read_build_environment st then Inl AssertionErr
      else rbind
        (if is_default then
           (if st_has_set_default st then Inl ManifestParseError
            else Inr (st\<lparr>st_has_set_default := True, st_default_environment := Some build_environment\<rparr>))
         else if name = None then Inl ManifestParseError
         else Inr st) (\<lambda>st1.
           case name of
             None \<Rightarrow> Inr st1
           | Some n \<Rightarrow>
               if map_of (st_environments st1) n \<noteq> None then Inl ManifestParseError
               else Inr (st1\<lparr>st_environments := st_environments st1 @ [(n, build_environment)]\<rparr>)))"

text \<open>\<^verbatim>\<open>build_environments()\<close>: \<open>standard\<close> is \<^verbatim>\<open>BuildEnvironmentDefinition()\<close>.\<close>

definition build_environments :: "'r \<Rightarrow> 'r parse_state \<Rightarrow> 'r parse_state" where
  "build_environments standard st =
     (let st1 = (if \<not> st_read_build_environment st \<and> st_environments st = [] \<and> st_default_environment st = None
                 then st\<lparr>st_default_environment := Some standard\<rparr> else st)
      in st1\<lparr>st_read_build_environment := True\<rparr>)"

definition resolve_build_environment ::
    "'r \<Rightarrow> string option \<Rightarrow> 'r parse_state \<Rightarrow> ('r option \<times> 'r parse_state) res" where
  "resolve_build_environment standard name st =
     (let st1 = build_environments standard st in
      case name of
        None \<Rightarrow> Inr (st_default_environment st1, st1)
      | Some n \<Rightarrow>
          (case map_of (st_environments st1) n of
             None \<Rightarrow> Inl ManifestParseError
           | Some env \<Rightarrow> Inr (Some env, st1\<lparr>st_used_named_envs := List.insert n (st_used_named_envs st1)\<rparr>)))"

definition context_normalize_path ::
    "string \<Rightarrow> bool \<Rightarrow> 'r parse_state \<Rightarrow> (match_rule \<times> 'r parse_state) res" where
  "context_normalize_path p allow_root_dir_match st =
     (case normalize_path p True of
        Inl _ \<Rightarrow> Inl ManifestParseError
      | Inr normalized \<Rightarrow>
          if normalized = ''.'' \<and> \<not> allow_root_dir_match then Inl ManifestParseError
          else rmap (\<lambda>(s, st1). (ExactFileSystemPath s, st1)) (context_substitute False normalized st))"

definition context_parse_path_or_glob :: "string \<Rightarrow> 'r parse_state \<Rightarrow> (match_rule \<times> 'r parse_state) res" where
  "context_parse_path_or_glob path_or_glob st =
     rbind (from_path_or_glob_st context_substitute None path_or_glob st) (\<lambda>(match_rule, st1).
       if match_rule = MatchAnything then Inl ManifestParseError else Inr (match_rule, st1))"

subsection \<open>The variables of the manifest\<close>

text \<open>The loop of \<^verbatim>\<open>_handle_manifest_variables\<close>: a value that cannot be replaced yet is tried again after the variables
  that were resolved so far have been added.\<close>

fun declare_variables ::
    "(string \<times> string) list \<Rightarrow> (string \<times> string) list \<Rightarrow> 'r parse_state \<Rightarrow> 'r parse_state res" where
  "declare_variables [] resolved_vars st = Inr st"
| "declare_variables ((key, value_raw) # variables) resolved_vars st =
     (if subst_var_match (''{{'' @ key @ ''}}'') = None then Inl ManifestParseError
      else if variable_state (current_chain st) key \<noteq> UNDEFINED then Inl ManifestParseError
      else
        rbind
          (case context_substitute False value_raw st of
             Inl e \<Rightarrow>
               if e = SubstitutionError \<and> resolved_vars \<noteq> [] then
                 rbind (add_extra_substitution_variables resolved_vars st) (\<lambda>st1.
                   rmap (\<lambda>r. ([], r)) (context_substitute False value_raw st1))
               else Inl e
           | Inr r \<Rightarrow> Inr (resolved_vars, r))
          (\<lambda>(resolved_vars, v, st1).
            let resolved_vars = AList.update key v resolved_vars in
            rbind (add_extra_substitution_variables resolved_vars st1) (\<lambda>st2.
              declare_variables variables resolved_vars st2)))"

fun text_entries :: "'r parsed \<Rightarrow> (string \<times> string) list" where
  "text_entries (PMapping kvs) = concat (map (\<lambda>(k, v). case v of PText t \<Rightarrow> [(k, t)] | _ \<Rightarrow> []) kvs)"
| "text_entries _ = []"

fun list_of :: "'r parsed \<Rightarrow> 'r parsed list" where
  "list_of (PList xs) = xs"
| "list_of _ = []"

definition parsed_at :: "(string \<times> 'r parsed) list \<Rightarrow> string \<Rightarrow> 'r parsed" where
  "parsed_at kvs k = (case map_of kvs k of None \<Rightarrow> PNone | Some v \<Rightarrow> v)"

definition handle_manifest_variables :: "string \<Rightarrow> ('r parsed, 'r) state_parser" where
  "handle_manifest_variables name v st =
     (case v of
        PMapping kvs \<Rightarrow> rmap (\<lambda>st1. (PNone, st1)) (declare_variables (text_entries (parsed_at kvs ''variables'')) [] st)
      | _ \<Rightarrow> Inl AttributeErr)"

definition SUPPORTED_MANIFEST_VERSIONS :: "string list" where
  "SUPPORTED_MANIFEST_VERSIONS = [''0.1'']"

definition handle_version :: "string \<Rightarrow> ('r parsed, 'r) state_parser" where
  "handle_version name v st =
     (case v of
        PMapping kvs \<Rightarrow>
          (case map_of kvs ''manifest_version'' of
             Some (PText version) \<Rightarrow>
               if version \<in> set SUPPORTED_MANIFEST_VERSIONS then Inr (PText version, st) else Inl ManifestParseError
           | Some _ \<Rightarrow> Inl ManifestParseError
           | None \<Rightarrow> Inl KeyError)
      | _ \<Rightarrow> Inl TypeErr)"

definition handle_installation_rules :: "string \<Rightarrow> ('r parsed, 'r) state_parser" where
  "handle_installation_rules name v st = Inr (v, st)"

text \<open>\<^verbatim>\<open>on_end_parse_step\<close> of the mappings \<^verbatim>\<open>definitions\<close> and \<^verbatim>\<open>packages\<close>\<close>

definition end_of_mapping :: "string \<Rightarrow> 'r parsed \<Rightarrow> 'r parse_state \<Rightarrow> 'r parse_state res" where
  "end_of_mapping name v st = Inr (ensure_package_states_is_initialized st)"

text \<open>
  \<^verbatim>\<open>pluggable_manifest_rule\<close> and \<^verbatim>\<open>pluggable_object_parser\<close>: what a plugin brings along is wrapped.
\<close>

definition pluggable_manifest_rule ::
    "string \<Rightarrow> 'r input_parser \<Rightarrow> (string \<Rightarrow> ('r parsed, 'r) state_parser) \<Rightarrow> string \<Rightarrow> 'r parser_table \<Rightarrow> 'r parser_table res" where
  "pluggable_manifest_rule rule_name parser handler plugin =
     register_parser [rule_name] parser (\<lambda>name v st. wrap_errors plugin (handler name v st)) plugin"

definition pluggable_object_parser ::
    "string \<Rightarrow> string list option \<Rightarrow> 'r parser_table \<Rightarrow> (string \<Rightarrow> 'r parsed \<Rightarrow> 'r parse_state \<Rightarrow> 'r parse_state res) option \<Rightarrow>
     bool \<Rightarrow> string \<Rightarrow> 'r parser_table \<Rightarrow> 'r parser_table res" where
  "pluggable_object_parser rule_name modes child on_end_parse_step nested_in_package_context plugin =
     register_child_parser rule_name (ObjectParser modes child) plugin
       (map_option (\<lambda>f name v st. wrap_errors plugin (f name v st)) on_end_parse_step) nested_in_package_context"

text \<open>
  \<^verbatim>\<open>register_manifest_root_rules\<close>: the parsers of the formats are arguments, the keywords under \<^verbatim>\<open>packages\<close> are
  those that are registered for packages, and \<open>register_builds\<close> adds what the build systems register at the end.
\<close>

record 'r root_formats =
  rf_version :: "'r input_parser"
  rf_variables :: "'r input_parser"
  rf_installations :: "'r input_parser"

definition register_manifest_root_rules ::
    "'r root_formats \<Rightarrow> 'r parser_table \<Rightarrow> ('r parser_table \<Rightarrow> 'r parser_table res) \<Rightarrow> 'r parser_table res" where
  "register_manifest_root_rules formats packages register_builds =
     rbind (pluggable_manifest_rule ''variables'' (rf_variables formats) handle_manifest_variables ''debputy'' []) (\<lambda>definitions.
     rbind (pluggable_manifest_rule ''manifest-version'' (rf_version formats) handle_version ''debputy'' []) (\<lambda>root1.
     rbind (pluggable_object_parser ''definitions'' None definitions (Some end_of_mapping) False ''debputy'' root1) (\<lambda>root2.
     rbind (pluggable_manifest_rule ''installations'' (rf_installations formats) handle_installation_rules ''debputy'' root2) (\<lambda>root3.
     rbind (pluggable_object_parser ''packages'' None packages (Some end_of_mapping) True ''debputy'' root3)
       register_builds))))"

subsection \<open>The keywords of a package\<close>

record 'r package_formats =
  pf_binary_version :: "'r input_parser"
  pf_transformations :: "'r input_parser"
  pf_conffile_management :: "'r input_parser"
  pf_services :: "'r input_parser"
  pf_clean_after_removal :: "'r input_parser"
  pf_installation_search_dirs :: "'r input_parser"

definition handle_attribute :: "string \<Rightarrow> string \<Rightarrow> ('r parsed, 'r) state_parser" where
  "handle_attribute attribute name v st =
     (case v of
        PMapping kvs \<Rightarrow> (case map_of kvs attribute of None \<Rightarrow> Inl KeyError | Some x \<Rightarrow> Inr (x, st))
      | _ \<Rightarrow> Inl TypeErr)"

definition unpack_list :: "string \<Rightarrow> ('r parsed, 'r) state_parser" where
  "unpack_list name v st = Inr (v, st)"

text \<open>\<^verbatim>\<open>register_binary_package_rules\<close>; \<open>services\<close> is the handler of the rules for services.\<close>

definition register_binary_package_rules ::
    "'r package_formats \<Rightarrow> (string \<Rightarrow> ('r parsed, 'r) state_parser) \<Rightarrow>
     (yvalue \<Rightarrow> 'r parse_state \<Rightarrow> (clean_after_removal_rule \<times> 'r parse_state) res) \<Rightarrow> (nat \<Rightarrow> string list \<Rightarrow> string) \<Rightarrow>
     'r parser_table \<Rightarrow> 'r parser_table res" where
  "register_binary_package_rules formats services rule_parser source_of packages =
     rbind (pluggable_manifest_rule ''binary-version'' (pf_binary_version formats) (handle_attribute ''binary_version'') ''debputy'' packages) (\<lambda>ps1.
     rbind (pluggable_manifest_rule ''transformations'' (pf_transformations formats) unpack_list ''debputy'' ps1) (\<lambda>ps2.
     rbind (pluggable_manifest_rule ''conffile-management'' (pf_conffile_management formats) unpack_list ''debputy'' ps2) (\<lambda>ps3.
     rbind (pluggable_manifest_rule ''services'' (pf_services formats) services ''debputy'' ps3) (\<lambda>ps4.
     rbind (pluggable_manifest_rule ''clean-after-removal'' (pf_clean_after_removal formats)
             (handle_clean_after_removal rule_parser source_of) ''debputy'' ps4) (\<lambda>ps5.
       pluggable_manifest_rule ''installation-search-dirs'' (pf_installation_search_dirs formats)
         (handle_attribute ''installation_search_dirs'') ''debputy'' ps5)))))"

subsection \<open>What the manifest says about a package\<close>

definition update_current :: "('r package_state \<Rightarrow> 'r package_state) \<Rightarrow> 'r parse_state \<Rightarrow> 'r parse_state res" where
  "update_current f st = rmap (\<lambda>(n, p). put_state n (f p) st) (current_binary_package_state st)"

definition set_binary_version :: "'r parsed \<Rightarrow> 'r parse_state \<Rightarrow> 'r parse_state res" where
  "set_binary_version v st =
     (case v of
        PText raw \<Rightarrow>
          rbind (context_substitute False raw st) (\<lambda>(version, st1).
            update_current (\<lambda>p. p\<lparr>ps_binary_version := Some version\<rparr>) st1)
      | _ \<Rightarrow> Inr st)"

fun helper_commands :: "'r parsed list \<Rightarrow> maintscript_helper_command list" where
  "helper_commands [] = []"
| "helper_commands (PHelper c # xs) = c # helper_commands xs"
| "helper_commands (_ # xs) = helper_commands xs"

definition package_rules :: "(string \<times> 'r parsed) list \<Rightarrow> 'r package_state \<Rightarrow> 'r package_state" where
  "package_rules parsed p =
     p\<lparr> ps_search_dirs := (case parsed_at parsed ''installation_search_dirs'' of PNone \<Rightarrow> ps_search_dirs p | v \<Rightarrow> Some v),
        ps_transformations := ps_transformations p @ list_of (parsed_at parsed ''transformations''),
        ps_dpkg_maintscript_helper_snippets := ps_dpkg_maintscript_helper_snippets p
          @ helper_commands (list_of (parsed_at parsed ''conffile_management'')),
        ps_requested_service_rules := ps_requested_service_rules p @ list_of (parsed_at parsed ''services'') \<rparr>"

fun apply_packages :: "(string \<times> string \<times> 'r parsed) list \<Rightarrow> 'r parse_state \<Rightarrow> 'r parse_state res" where
  "apply_packages [] st = Inr st"
| "apply_packages ((raw, package_name, pcd) # pcds) st =
     rbind (binary_package_context package_name
              (\<lambda>package_state st1.
                 if ps_is_auto_generated_package package_state then Inl ManifestParseError
                 else
                   (case pcd of
                      PMapping parsed \<Rightarrow>
                        rmap (\<lambda>st2. ((), st2))
                          (rbind (set_binary_version (parsed_at parsed ''binary-version'') st1)
                             (update_current (package_rules parsed)))
                    | _ \<Rightarrow> Inl AttributeErr)) st) (\<lambda>(_, st3).
       apply_packages pcds st3)"

subsection \<open>The end of the manifest\<close>

text \<open>\<^verbatim>\<open>build_manifest\<close>; \<open>ppf\<close> gives the rule that installs the packager-provided files of a package, if there are any.\<close>

definition add_install_rule :: "'r parsed \<Rightarrow> 'r package_state \<Rightarrow> 'r package_state" where
  "add_install_rule rule p = p\<lparr>ps_install_rules := ps_install_rules p @ [rule]\<rparr>"

definition transform_helpers :: "'r package_state \<Rightarrow> 'r package_state" where
  "transform_helpers p =
     p\<lparr>ps_maintscript_snippets := add_helper_snippets (ps_dpkg_maintscript_helper_snippets p) (ps_maintscript_snippets p)\<rparr>"

definition finish_context ::
    "(string \<Rightarrow> 'r parsed option) \<Rightarrow> string \<Rightarrow> 'r package_state \<Rightarrow> 'r parse_state \<Rightarrow> (unit \<times> 'r parse_state) res" where
  "finish_context ppf package context st =
     rmap (\<lambda>st2. ((), st2))
       (rbind
         (if ps_is_auto_generated_package context then Inr st
          else (case ppf package of None \<Rightarrow> Inr st | Some rule \<Rightarrow> update_current (add_install_rule rule) st))
         (update_current transform_helpers))"

definition finish_package :: "(string \<Rightarrow> 'r parsed option) \<Rightarrow> string \<Rightarrow> 'r parse_state \<Rightarrow> 'r parse_state res" where
  "finish_package ppf package st = rmap snd (binary_package_context package (finish_context ppf package) st)"

definition self_check :: "'r parse_state \<Rightarrow> unit res" where
  "self_check st =
     rguard (set (map fst (st_environments st)) \<subseteq> set (st_used_named_envs st)) ManifestParseError"

definition build_manifest ::
    "(string \<Rightarrow> 'r parsed option) \<Rightarrow> 'r \<Rightarrow> 'r parse_state \<Rightarrow> 'r parse_state res" where
  "build_manifest ppf standard st =
     rbind (self_check st) (\<lambda>_.
       if st_used st then Inl TypeErr
       else
         let st1 = ensure_package_states_is_initialized (st\<lparr>st_used := True\<rparr>) in
         if \<not> list_all (is_used (current_chain st1)) (st_declared_variables st1) then Inl ManifestParseError
         else
           rbind (rfold (finish_package ppf) (case st_package_states st1 of None \<Rightarrow> [] | Some ps \<Rightarrow> map fst ps) st1) (\<lambda>st2.
             Inr (build_environments standard st2)))"

text \<open>\<^verbatim>\<open>from_yaml_dict\<close>: the rules for installing, the rules for building, and the state of the parser.\<close>

definition from_yaml_dict ::
    "(string \<Rightarrow> 'r parsed option) \<Rightarrow> 'r \<Rightarrow> 'r input_parser \<Rightarrow> yvalue \<Rightarrow> 'r parse_state \<Rightarrow>
     ('r parsed list option \<times> 'r parsed \<times> 'r parse_state) res" where
  "from_yaml_dict ppf standard manifest_root_parser yaml_data st =
     rbind (parse_input manifest_root_parser yaml_data st) (\<lambda>(parsed_data, st1).
       case parsed_data of
         PMapping parsed \<Rightarrow>
           let install_rules = list_of (parsed_at parsed ''installations'') in
           rbind (case parsed_at parsed ''packages'' of
                    PPackages pcds \<Rightarrow> apply_packages pcds st1
                  | PNone \<Rightarrow> Inr st1
                  | _ \<Rightarrow> Inl AttributeErr) (\<lambda>st2.
             rmap (\<lambda>st3. (if install_rules = [] then None else Some install_rules, parsed_at parsed ''builds'', st3))
               (build_manifest ppf standard st2))
       | _ \<Rightarrow> Inl AttributeErr)"

subsection \<open>Values and states of variables\<close>

text \<open>The value that a name has, which does not depend on what is marked as used.\<close>

definition value_of :: "subst_scope list \<Rightarrow> string \<Rightarrow> string option" where
  "value_of chain k = (case replacement chain k of Inl _ \<Rightarrow> None | Inr (_, v) \<Rightarrow> Some v)"

definition without_marks :: "subst_scope list \<Rightarrow> subst_scope list" where
  "without_marks = map (\<lambda>s. s\<lparr>s_used := []\<rparr>)"

lemma without_marks_mark [simp]: "without_marks (mark_used chain k) = without_marks chain"
proof -
  have "without_marks (mark_parents ps k) = without_marks ps" for ps
    by (induction ps) (simp_all add: without_marks_def add_used_def)
  then show ?thesis by (cases chain) (simp_all add: without_marks_def add_used_def)
qed

lemma value_of_rmap:
  "(case rmap (\<lambda>(ps, v). (f ps, v)) m of Inl _ \<Rightarrow> None | Inr (_, v) \<Rightarrow> Some v)
     = (case m of Inl _ \<Rightarrow> None | Inr (_, v) \<Rightarrow> Some v)"
  "(case rmap (\<lambda>v. (c v, v)) m' of Inl _ \<Rightarrow> None | Inr (_, v) \<Rightarrow> Some v) = (case m' of Inl _ \<Rightarrow> None | Inr v \<Rightarrow> Some v)"
  by (cases m; auto) (cases m'; auto)

lemma value_of_Nil [simp]: "value_of [] k = None"
  by (simp add: value_of_def)

lemma value_of_Cons:
  "value_of (s # ps) k =
     (if startswith k ''DEB_'' \<and> map_of (s_arch_table s) k \<noteq> None then map_of (s_arch_table s) k
      else if startswith k ''env:'' then map_of (s_env s) (drop 4 k)
      else
        (case (case s_static s of None \<Rightarrow> None | Some d \<Rightarrow> map_of d k) of
           Some v \<Rightarrow> Some v
         | None \<Rightarrow>
             (case feature s k of
                Some pv \<Rightarrow>
                  (if \<not> is_documentation_placeholder pv
                   then (case resolve_variable pv of Inl _ \<Rightarrow> None | Inr v \<Rightarrow> Some v)
                   else if k \<in> set (s_unresolvable s) then None else value_of ps k)
              | None \<Rightarrow> if k \<in> set (s_unresolvable s) then None else value_of ps k)))"
proof (cases "startswith k ''DEB_'' \<and> map_of (s_arch_table s) k \<noteq> None")
  case True
  then show ?thesis by (auto simp: value_of_def)
next
  case nd: False
  show ?thesis
  proof (cases "startswith k ''env:''")
    case True
    show ?thesis unfolding value_of_def replacement.simps if_not_P[OF nd] if_P[OF True]
      by (cases "map_of (s_env s) (drop 4 k)") simp_all
  next
    case ne: False
    note n = if_not_P[OF nd] if_not_P[OF ne]
    show ?thesis
    proof (cases "case s_static s of None \<Rightarrow> None | Some d \<Rightarrow> map_of d k")
      case (Some v)
      show ?thesis unfolding value_of_def replacement.simps n Some by simp
    next
      case None
      show ?thesis
      proof (cases "feature s k")
        case f: None
        show ?thesis unfolding value_of_def replacement.simps n None f option.case
          by (cases "k \<in> set (s_unresolvable s)") (simp_all only: if_True if_False sum.case value_of_rmap simp_thms)
      next
        case (Some pv)
        show ?thesis unfolding value_of_def replacement.simps n None Some option.case
          by (cases "is_documentation_placeholder pv"; cases "k \<in> set (s_unresolvable s)")
            (simp_all only: if_True if_False sum.case value_of_rmap simp_thms)
      qed
    qed
  qed
qed

lemma marks_irrelevant:
  "variable_state (without_marks chain) k = variable_state chain k \<and> value_of (without_marks chain) k = value_of chain k"
proof (induction chain)
  case (Cons s ps)
  have f: "feature (s\<lparr>s_used := []\<rparr>) = feature s" "static_has (s\<lparr>s_used := []\<rparr>) = static_has s"
    "s_static (s\<lparr>s_used := []\<rparr>) = s_static s" "s_arch_table (s\<lparr>s_used := []\<rparr>) = s_arch_table s"
    "s_env (s\<lparr>s_used := []\<rparr>) = s_env s" "s_unresolvable (s\<lparr>s_used := []\<rparr>) = s_unresolvable s"
    by (simp_all add: fun_eq_iff feature_def static_has_def)
  have w: "without_marks (s # ps) = s\<lparr>s_used := []\<rparr> # without_marks ps" by (simp add: without_marks_def)
  from Cons have "variable_state (without_marks ps) k = variable_state ps k" "value_of (without_marks ps) k = value_of ps k"
    by blast+
  then show ?case unfolding w value_of_Cons variable_state.simps f by (intro conjI) (simp only:)+
qed (simp add: without_marks_def)

lemma variable_state_mark [simp]: "variable_state (mark_used chain k) n = variable_state chain n"
  and value_of_mark [simp]: "value_of (mark_used chain k) n = value_of chain n"
  using marks_irrelevant[of "mark_used chain k"] marks_irrelevant[of chain] by simp_all

text \<open>What resolving a name changes: at most, the value that a plugin computes is remembered where the plugin's
  variables are.\<close>

lemma replacement_changes:
  "replacement chain k = Inr (chain', v) \<Longrightarrow>
     chain' = chain \<or> (\<exists>ss s ps pv. chain = ss @ s # ps \<and> chain' = ss @ cache_value k v s # ps
        \<and> feature s k = Some pv \<and> \<not> is_documentation_placeholder pv)"
proof (induction chain arbitrary: chain')
  case (Cons s ps)
  have up: ?case if "rmap (\<lambda>(ps, v). (s # ps, v)) (replacement ps k) = Inr (chain', v)"
  proof -
    from that obtain ps' where r: "replacement ps k = Inr (ps', v)" and c: "chain' = s # ps'"
      by (auto simp: res_simps)
    from Cons.IH[OF r] show ?thesis
    proof (elim disjE exE conjE)
      assume "ps' = ps"
      with c show ?thesis by simp
    next
      fix ss t qs pv
      assume "ps = ss @ t # qs" "ps' = ss @ cache_value k v t # qs" "feature t k = Some pv" "\<not> is_documentation_placeholder pv"
      then have "s # ps = (s # ss) @ t # qs \<and> chain' = (s # ss) @ cache_value k v t # qs
          \<and> feature t k = Some pv \<and> \<not> is_documentation_placeholder pv" using c by simp
      then show ?thesis by blast
    qed
  qed
  have here: ?case if "chain' = s # ps" using that by simp
  have cached: ?case
    if "feature s k = Some pv" "\<not> is_documentation_placeholder pv"
      "rmap (\<lambda>v. (cache_value k v s # ps, v)) (resolve_variable pv) = Inr (chain', v)" for pv
  proof -
    from that have "s # ps = [] @ s # ps \<and> chain' = [] @ cache_value k v s # ps
        \<and> feature s k = Some pv \<and> \<not> is_documentation_placeholder pv" by (auto simp: res_simps)
    then show ?thesis by blast
  qed
  from Cons.prems show ?case
    using up here cached by (auto split: if_splits option.splits)
qed simp

lemma beneath_scopes:
  "variable_state a n = variable_state b n \<Longrightarrow> variable_state (ss @ a) n = variable_state (ss @ b) n"
  "value_of a n = value_of b n \<Longrightarrow> value_of (ss @ a) n = value_of (ss @ b) n"
proof (induction ss)
  case (Cons s ss)
  {
    case 1
    with Cons show ?case by simp
  next
    case 2
    with Cons show ?case unfolding append_Cons value_of_Cons by (simp only:)
  }
qed simp_all

lemma replacement_keeps:
  assumes "replacement chain k = Inr (chain', v)"
  shows "variable_state chain' n = variable_state chain n" and "value_of chain' n = value_of chain n"
proof -
  have "variable_state chain' n = variable_state chain n \<and> value_of chain' n = value_of chain n"
  proof (cases "chain' = chain")
    case False
    with replacement_changes[OF assms] obtain ss s ps pv where c: "chain = ss @ s # ps" "chain' = ss @ cache_value k v s # ps"
      and f: "feature s k = Some pv" by blast
    have s: "feature (cache_value k v s) n = feature s n" "s_arch_table (cache_value k v s) = s_arch_table s"
      "s_env (cache_value k v s) = s_env s" "s_unresolvable (cache_value k v s) = s_unresolvable s"
      by (simp_all add: cache_value_def feature_def)
    have st: "(case s_static (cache_value k v s) of None \<Rightarrow> None | Some d \<Rightarrow> map_of d n)
        = (case s_static s of None \<Rightarrow> None | Some d \<Rightarrow> map_of d n)" if "n \<noteq> k"
      using that by (auto simp: cache_value_def update_conv split: option.splits)
    show ?thesis
    proof (cases "n = k")
      case True
      have "variable_state (cache_value k v s # ps) k = variable_state (s # ps) k"
        using f s(1)[unfolded True] s(2-4) by simp
      then have "variable_state (ss @ cache_value k v s # ps) k = variable_state (ss @ s # ps) k"
        by (rule beneath_scopes)
      moreover have "value_of chain' k = value_of chain k"
        using replacement_props[OF assms] assms by (simp add: value_of_def)
      ultimately show ?thesis using c True by simp
    next
      case False
      have "static_has (cache_value k v s) n = static_has s n"
        using st[OF False] by (auto simp: static_has_def split: option.splits)
      then have "variable_state (cache_value k v s # ps) n = variable_state (s # ps) n"
        by (simp add: s)
      moreover have "value_of (cache_value k v s # ps) n = value_of (s # ps) n"
        unfolding value_of_Cons s st[OF False] ..
      ultimately show ?thesis using c beneath_scopes by blast
    qed
  qed simp
  then show "variable_state chain' n = variable_state chain n" and "value_of chain' n = value_of chain n" by simp_all
qed

lemma substitute_keeps:
  assumes "substitute e t chain = Inr (chain', u)"
  shows "variable_state chain' n = variable_state chain n" "value_of chain' n = value_of chain n" "length chain' = length chain"
proof -
  have m: "apply_matches e ms r off chain = Inr (chain', u) \<Longrightarrow>
      variable_state chain' n = variable_state chain n \<and> value_of chain' n = value_of chain n \<and> length chain' = length chain"
    for ms r off chain
  proof (induction ms arbitrary: r off chain)
    case (Cons m ms)
    obtain pos pre key suf where mm: "m = (pos, pre, key, suf)" by (cases m)
    from Cons.prems obtain chain1 v r' off' where r: "replacement chain key = Inr (chain1, v)"
      and rest: "apply_matches e ms r' off' (mark_used chain1 key) = Inr (chain', u)"
      by (auto simp: mm res_simps Let_def)
    have "length (mark_parents c key) = length c" for c by (induction c) simp_all
    then have "length (mark_used chain1 key) = length chain1" by (cases chain1) simp_all
    with Cons.IH[OF rest] replacement_keeps[OF r] replacement_props[OF r] show ?case by simp
  qed simp
  from assms m show "variable_state chain' n = variable_state chain n" "value_of chain' n = value_of chain n"
    "length chain' = length chain"
    by (auto simp: substitute_def apply_substitution_def split: if_splits)
qed

text \<open>What a text stands for: its variables replaced by their values.  It depends on the values only.\<close>

definition text_value :: "subst_scope list \<Rightarrow> string \<Rightarrow> string option" where
  "text_value chain t = (case substitute False t chain of Inl _ \<Rightarrow> None | Inr (_, v) \<Rightarrow> Some v)"

lemma expand_values:
  "expand e A s = Inr (c, u) \<Longrightarrow> (\<And>n v. value_of A n = Some v \<Longrightarrow> value_of B n = Some v) \<Longrightarrow> \<exists>c'. expand e B s = Inr (c', u)"
proof (induction e A s arbitrary: B c u rule: expand.induct)
  case (1 e A s)
  consider (empty) "s = []" | (plain) "s \<noteq> []" "subst_var_match s = None"
    | (var) p k f r where "s \<noteq> []" "subst_var_match s = Some (p, k, f, r)"
    by (cases "subst_var_match s") auto
  then show ?case
  proof cases
    case empty
    with 1(3) show ?thesis by (simp add: expand.simps[of e A "[]"] expand.simps[of e B "[]"])
  next
    case plain
    with 1(3) obtain t where t: "expand e A (tl s) = Inr (c, t)" "u = hd s # t"
      by (auto simp: expand.simps[of e A s] res_simps)
    from 1(1)[OF plain t(1) 1(4)] obtain c' where "expand e B (tl s) = Inr (c', t)" by blast
    with plain t(2) show ?thesis by (simp add: expand.simps[of e B s])
  next
    case var
    with 1(3) obtain A1 v t where v: "replacement A k = Inr (A1, v)"
      and t: "expand e (mark_used A1 k) r = Inr (c, t)" "u = (if e then glob_escape v else v) @ t"
      by (auto simp: expand.simps[of e A s] res_simps)
    have "value_of A k = Some v" using v by (simp add: value_of_def)
    then have "value_of B k = Some v" by (rule 1(4))
    then obtain B1 where B: "replacement B k = Inr (B1, v)" by (auto simp: value_of_def split: sum.splits prod.splits)
    have "value_of (mark_used B1 k) n = Some w" if "value_of (mark_used A1 k) n = Some w" for n w
      using that 1(4) replacement_keeps(2)[OF v] replacement_keeps(2)[OF B] by (simp add: value_of_mark)
    from 1(2)[OF var(1) var(2) refl refl refl v refl t(1) this] obtain c' where "expand e (mark_used B1 k) r = Inr (c', t)"
      by blast
    with var B t(2) show ?thesis by (simp add: expand.simps[of e B s])
  qed
qed

lemma text_value_mono:
  assumes "text_value A t = Some u" and "\<And>n v. value_of A n = Some v \<Longrightarrow> value_of B n = Some v"
  shows "text_value B t = Some u"
proof -
  from assms(1) obtain c where "expand False A t = Inr (c, u)"
    by (auto simp: text_value_def substitute_expands split: sum.splits prod.splits)
  from expand_values[OF this assms(2)] show ?thesis by (auto simp: text_value_def substitute_expands)
qed

lemma undefined_has_no_value: "variable_state chain n = UNDEFINED \<Longrightarrow> value_of chain n = None"
proof (induction chain)
  case (Cons s ps)
  then show ?case
    by (auto simp: value_of_Cons static_has_def feature_def split: if_splits option.splits)
qed simp

definition ordinary_name :: "string \<Rightarrow> bool" where
  "ordinary_name n \<longleftrightarrow> \<not> startswith n ''DEB_'' \<and> \<not> startswith n ''env:''"

lemma undefined_ordinary: "chain \<noteq> [] \<Longrightarrow> variable_state chain n = UNDEFINED \<Longrightarrow> ordinary_name n"
  by (cases chain) (auto simp: ordinary_name_def split: if_splits)

lemma with_extra_substitutions_state:
  "ordinary_name n \<Longrightarrow> variable_state (with_extra_substitutions extra chain) n =
     (if map_of extra n \<noteq> None then DEFINED else variable_state chain n)"
  by (auto simp: ordinary_name_def with_extra_substitutions_def feature_def static_has_def)

lemma with_extra_substitutions_value:
  "ordinary_name n \<Longrightarrow> value_of (with_extra_substitutions extra chain) n =
     (case map_of extra n of Some v \<Rightarrow> Some v | None \<Rightarrow> value_of chain n)"
  by (auto simp: ordinary_name_def with_extra_substitutions_def feature_def value_of_Cons split: option.split)

lemma with_extra_substitutions_other:
  "map_of extra n = None \<Longrightarrow> chain \<noteq> [] \<Longrightarrow> value_of (with_extra_substitutions extra chain) n = value_of chain n"
  by (cases chain) (auto simp: with_extra_substitutions_def feature_def value_of_Cons split: option.split)

lemma with_extra_substitutions_Nil [simp]: "with_extra_substitutions extra chain = [] \<longleftrightarrow> extra = [] \<and> chain = []"
  by (simp add: with_extra_substitutions_def)

subsection \<open>Declaring variables\<close>

lemma context_substitute_source:
  assumes "st_stack st = []" and "context_substitute e v st = Inr (u, st1)"
  shows "\<exists>c. substitute e v (st_substitution st) = Inr (c, u) \<and> st1 = st\<lparr>st_substitution := c\<rparr>"
  using assms by (auto simp: context_substitute_def current_chain_def store_chain_def res_simps)

lemma add_extra_facts:
  "add_extra_substitution_variables extra st = Inr st1 \<Longrightarrow>
     st_stack st = [] \<and> st_stack st1 = [] \<and> st_package_states st1 = None
     \<and> st_substitution st1 = with_extra_substitutions extra (st_substitution st)
     \<and> set (st_declared_variables st1) = set (st_declared_variables st) \<union> fst ` set extra"
  by (auto simp: add_extra_substitution_variables_def split: if_splits; force)

text \<open>The variables that were resolved so far are declared and have their values.\<close>

definition resolved_so_far :: "(string \<times> string) list \<Rightarrow> 'r parse_state \<Rightarrow> bool" where
  "resolved_so_far resolved st \<longleftrightarrow>
     st_stack st = [] \<and> st_substitution st \<noteq> []
     \<and> (\<forall>k v. map_of resolved k = Some v \<longrightarrow>
          ordinary_name k \<and> variable_state (st_substitution st) k = DEFINED
          \<and> value_of (st_substitution st) k = Some v \<and> k \<in> set (st_declared_variables st))"

text \<open>Names other than \<open>key\<close> mean the same in both states.\<close>

definition same_names :: "string set \<Rightarrow> 'r parse_state \<Rightarrow> 'r parse_state \<Rightarrow> bool" where
  "same_names new a b \<longleftrightarrow>
     (\<forall>n. n \<notin> new \<longrightarrow>
        (ordinary_name n \<longrightarrow> variable_state (st_substitution b) n = variable_state (st_substitution a) n)
        \<and> value_of (st_substitution b) n = value_of (st_substitution a) n)"

lemma same_names_trans: "same_names A a b \<Longrightarrow> same_names B b c \<Longrightarrow> same_names (A \<union> B) a c"
  by (simp add: same_names_def)

lemma substituted_source:
  assumes "resolved_so_far res st" and "context_substitute False raw st = Inr (v, st1)"
  shows "resolved_so_far res st1 \<and> same_names {} st st1 \<and> st_declared_variables st1 = st_declared_variables st
    \<and> text_value (st_substitution st1) raw = Some v"
proof -
  from assms(1) have "st_stack st = []" by (simp add: resolved_so_far_def)
  from context_substitute_source[OF this assms(2)] obtain c
    where c: "substitute False raw (st_substitution st) = Inr (c, v)" "st1 = st\<lparr>st_substitution := c\<rparr>" by blast
  from c(1) have "c \<noteq> []" using substitute_keeps(3)[OF c(1)] assms(1) by (auto simp: resolved_so_far_def)
  moreover have "text_value c raw = Some v"
    by (rule text_value_mono[of "st_substitution st"]) (use c(1) in \<open>simp_all add: text_value_def substitute_keeps[OF c(1)]\<close>)
  ultimately show ?thesis
    using assms(1) c(2) by (auto simp: resolved_so_far_def same_names_def substitute_keeps[OF c(1)])
qed

lemma added_again:
  assumes "resolved_so_far res st" and "add_extra_substitution_variables res st = Inr st1"
  shows "resolved_so_far res st1 \<and> same_names {} st st1 \<and> set (st_declared_variables st1) = set (st_declared_variables st)"
proof -
  note f = add_extra_facts[OF assms(2)]
  have "fst ` set res \<subseteq> set (st_declared_variables st)"
  proof
    fix k assume "k \<in> fst ` set res"
    then obtain v where "map_of res k = Some v" by (metis map_of_eq_None_iff not_None_eq)
    with assms(1) show "k \<in> set (st_declared_variables st)" by (simp add: resolved_so_far_def)
  qed
  moreover have "same_names {} st st1"
    using assms(1) f by (auto simp: same_names_def resolved_so_far_def with_extra_substitutions_state
        with_extra_substitutions_value with_extra_substitutions_other split: option.split)
  moreover have "resolved_so_far res st1"
    using assms(1) f by (auto simp: resolved_so_far_def with_extra_substitutions_state with_extra_substitutions_value)
  ultimately show ?thesis using f by auto
qed

lemma added_new:
  assumes r: "resolved_so_far res st" and new: "variable_state (st_substitution st) key = UNDEFINED"
    and a: "add_extra_substitution_variables (AList.update key v res) st = Inr st1"
  shows "resolved_so_far (AList.update key v res) st1 \<and> same_names {key} st st1
    \<and> set (st_declared_variables st1) = insert key (set (st_declared_variables st))"
proof -
  note f = add_extra_facts[OF a]
  have o: "ordinary_name key" by (rule undefined_ordinary[OF _ new]) (use r in \<open>simp add: resolved_so_far_def\<close>)
  have "fst ` set res \<subseteq> set (st_declared_variables st)"
  proof
    fix k assume "k \<in> fst ` set res"
    then obtain v where "map_of res k = Some v" by (metis map_of_eq_None_iff not_None_eq)
    with r show "k \<in> set (st_declared_variables st)" by (simp add: resolved_so_far_def)
  qed
  moreover have u: "fst ` set (AList.update key v res) = insert key (fst ` set res)"
    using dom_update[of key v res] by simp
  moreover have "same_names {key} st st1"
    using r f by (auto simp: same_names_def resolved_so_far_def with_extra_substitutions_state
        with_extra_substitutions_value with_extra_substitutions_other update_conv split: option.split)
  moreover have "resolved_so_far (AList.update key v res) st1"
    using r f o u by (auto simp: resolved_so_far_def with_extra_substitutions_state with_extra_substitutions_value
        update_conv split: if_splits)
  ultimately show ?thesis using f by auto
qed

lemma declare_one:
  assumes "declare_variables ((key, raw) # vars) res st = Inr st'" and "resolved_so_far res st"
  obtains res' v st1 where "declare_variables vars res' st1 = Inr st'" "resolved_so_far res' st1"
    "variable_state (st_substitution st) key = UNDEFINED" "map_of res' key = Some v" "same_names {key} st st1"
    "set (st_declared_variables st1) = insert key (set (st_declared_variables st))"
    "text_value (st_substitution st1) raw = Some v"
proof -
  let ?add = "\<lambda>(resolved_vars, v, st1).
        rbind (add_extra_substitution_variables (AList.update key v resolved_vars) st1) (\<lambda>st2.
          declare_variables vars (AList.update key v resolved_vars) st2)"
  have cur: "current_chain st = st_substitution st" using assms(2) by (simp add: current_chain_def resolved_so_far_def)
  from assms(1) obtain x where u: "variable_state (st_substitution st) key = UNDEFINED"
    and x: "(case context_substitute False raw st of
        Inl e \<Rightarrow>
          if e = SubstitutionError \<and> res \<noteq> [] then
            rbind (add_extra_substitution_variables res st) (\<lambda>st1.
              rmap (\<lambda>r. ([], r)) (context_substitute False raw st1))
          else Inl e
      | Inr r \<Rightarrow> Inr (res, r)) = Inr x" and rest: "?add x = Inr st'"
    unfolding declare_variables.simps cur Let_def by (elim if_Inl_InrE rbind_InrE) simp
  obtain res0 v st0 where xx: "x = (res0, v, st0)" by (cases x)
  have st0: "resolved_so_far res0 st0 \<and> same_names {} st st0 \<and> set (st_declared_variables st0) = set (st_declared_variables st)
      \<and> text_value (st_substitution st0) raw = Some v"
  proof (cases "context_substitute False raw st")
    case (Inr r)
    with x xx have "res0 = res" "r = (v, st0)" by simp_all
    with substituted_source[OF assms(2)] Inr show ?thesis by simp
  next
    case (Inl e)
    with x xx obtain sta where a: "add_extra_substitution_variables res st = Inr sta" and b: "res0 = []"
      and c: "context_substitute False raw sta = Inr (v, st0)"
      by (auto simp: res_simps split: if_splits)
    have A: "resolved_so_far res sta" "same_names {} st sta" "set (st_declared_variables sta) = set (st_declared_variables st)"
      using added_again[OF assms(2) a] by blast+
    note B = substituted_source[OF A(1) c]
    have "resolved_so_far res0 st0" using B b by (simp add: resolved_so_far_def)
    moreover have "same_names {} st st0" using same_names_trans[OF A(2), of "{}" st0] B by simp
    ultimately show ?thesis using A(3) B by simp
  qed
  from rest xx obtain st1 where a: "add_extra_substitution_variables (AList.update key v res0) st0 = Inr st1"
    and d: "declare_variables vars (AList.update key v res0) st1 = Inr st'"
    by (auto elim: rbind_InrE)
  have "ordinary_name key" by (rule undefined_ordinary[OF _ u]) (use assms(2) in \<open>simp add: resolved_so_far_def\<close>)
  then have u0: "variable_state (st_substitution st0) key = UNDEFINED" using st0 u by (simp add: same_names_def)
  note n = added_new[OF _ u0 a]
  show ?thesis
  proof (rule that[OF d])
    show "resolved_so_far (AList.update key v res0) st1" using n st0 by blast
    show "same_names {key} st st1" using n st0 same_names_trans[of "{}" st st0 "{key}" st1] by simp
    show "map_of (AList.update key v res0) key = Some v" by (simp add: update_conv)
    show "set (st_declared_variables st1) = insert key (set (st_declared_variables st))" using n st0 by simp
    show "text_value (st_substitution st1) raw = Some v"
    proof (rule text_value_mono[of "st_substitution st0"])
      show "text_value (st_substitution st0) raw = Some v" using st0 by blast
      show "value_of (st_substitution st1) m = Some w" if "value_of (st_substitution st0) m = Some w" for m w
        using that n st0 undefined_has_no_value[OF u0] by (cases "m = key") (auto simp: same_names_def)
    qed
  qed (rule u)
qed

lemma declare_all:
  "declare_variables vars res st = Inr st' \<Longrightarrow> resolved_so_far res st \<Longrightarrow>
     distinct (map fst vars)
     \<and> (\<forall>k \<in> fst ` set vars. variable_state (st_substitution st) k = UNDEFINED \<and> variable_state (st_substitution st') k = DEFINED)
     \<and> (\<forall>(k, raw) \<in> set vars. \<exists>v. value_of (st_substitution st') k = Some v \<and> text_value (st_substitution st') raw = Some v)
     \<and> set (st_declared_variables st') = set (st_declared_variables st) \<union> fst ` set vars
     \<and> same_names (fst ` set vars) st st'
     \<and> (\<forall>k v. map_of res k = Some v \<longrightarrow> value_of (st_substitution st') k = Some v)"
proof (induction vars arbitrary: res st)
  case Nil
  then show ?case by (simp add: same_names_def resolved_so_far_def)
next
  case (Cons kv vars)
  obtain key raw where kv: "kv = (key, raw)" by (cases kv)
  obtain res' v st1 where d: "declare_variables vars res' st1 = Inr st'" and r: "resolved_so_far res' st1"
    and u: "variable_state (st_substitution st) key = UNDEFINED" and v: "map_of res' key = Some v"
    and n: "same_names {key} st st1"
    and l: "set (st_declared_variables st1) = insert key (set (st_declared_variables st))" and raw: "text_value (st_substitution st1) raw = Some v"
    using declare_one[OF Cons.prems[unfolded kv]] .
  note IH = Cons.IH[OF d r]
  have o: "ordinary_name key" "variable_state (st_substitution st1) key = DEFINED"
    using r v by (simp_all add: resolved_so_far_def)
  then have key: "key \<notin> fst ` set vars" using IH by auto
  have names: "same_names (insert key (fst ` set vars)) st st'"
    using same_names_trans[OF n, of "fst ` set vars" st'] IH by simp
  have later: "ordinary_name k \<and> variable_state (st_substitution st) k = UNDEFINED" if "k \<in> fst ` set vars" for k
  proof -
    have k: "variable_state (st_substitution st1) k = UNDEFINED" using IH that by blast
    then have "ordinary_name k" by (rule undefined_ordinary[rotated]) (use r in \<open>simp add: resolved_so_far_def\<close>)
    with n k that key show ?thesis by (auto simp: same_names_def)
  qed
  have "variable_state (st_substitution st') key = DEFINED"
    using IH o key by (simp add: same_names_def)
  moreover have "value_of (st_substitution st') key = Some v" using IH v by blast
  moreover have "value_of (st_substitution st') k = Some w" if "map_of res k = Some w" for k w
  proof -
    from that Cons.prems(2) have "ordinary_name k" "variable_state (st_substitution st) k = DEFINED"
      "value_of (st_substitution st) k = Some w" by (simp_all add: resolved_so_far_def)
    moreover from this have "k \<noteq> key" "k \<notin> fst ` set vars" using u later[of k] by auto
    ultimately show ?thesis using names by (simp add: same_names_def)
  qed
  moreover have "text_value (st_substitution st') raw = Some v"
  proof (rule text_value_mono[OF raw])
    show "value_of (st_substitution st') m = Some w" if "value_of (st_substitution st1) m = Some w" for m w
    proof -
      have "m \<notin> fst ` set vars" using IH that undefined_has_no_value by fastforce
      with IH that show ?thesis by (simp add: same_names_def)
    qed
  qed
  ultimately show ?case using IH later key u names l by (auto simp: kv)
qed

text \<open>C35: the variables that a manifest defines are new and different: before, none of their names had a
  meaning, and afterwards each is recorded as declared and has a value, which is its text with all the
  variables in it replaced by their values; every other name has the value it had.\<close>

theorem variables_declared:
  fixes st :: "'r parse_state"
  assumes ok: "handle_manifest_variables name (PMapping [(''variables'', PMapping (map (\<lambda>(k, t). (k, PText t)) vars))]) st = Inr (x, st')"
    and start: "st_stack st = []" "st_substitution st \<noteq> []"
  shows "distinct (map fst vars)
     \<and> (\<forall>k \<in> fst ` set vars. variable_state (st_substitution st) k = UNDEFINED \<and> variable_state (st_substitution st') k = DEFINED)
     \<and> (\<forall>(k, t) \<in> set vars. \<exists>v. value_of (st_substitution st') k = Some v
          \<and> (\<exists>chain. substitute False t (st_substitution st') = Inr (chain, v)))
     \<and> set (st_declared_variables st') = set (st_declared_variables st) \<union> fst ` set vars
     \<and> (\<forall>n. n \<notin> fst ` set vars \<longrightarrow> value_of (st_substitution st') n = value_of (st_substitution st) n)"
proof -
  have "text_entries (PMapping (map (\<lambda>(k, t). (k, PText t)) vars) :: 'r parsed) = vars"
    by (induction vars) auto
  with ok have "declare_variables vars [] st = Inr st'"
    by (auto simp: handle_manifest_variables_def parsed_at_def res_simps simp del: text_entries.simps)
  from declare_all[OF this] start have all: "distinct (map fst vars)"
     "\<forall>k \<in> fst ` set vars. variable_state (st_substitution st) k = UNDEFINED \<and> variable_state (st_substitution st') k = DEFINED"
     "\<forall>(k, raw) \<in> set vars. \<exists>v. value_of (st_substitution st') k = Some v \<and> text_value (st_substitution st') raw = Some v"
     "set (st_declared_variables st') = set (st_declared_variables st) \<union> fst ` set vars"
     "same_names (fst ` set vars) st st'" by (simp_all add: resolved_so_far_def)
  have tv: "text_value chain t = Some v \<longleftrightarrow> (\<exists>c. substitute False t chain = Inr (c, v))" for chain t v
    by (auto simp: text_value_def split: sum.splits prod.splits)
  from all(5) have "\<forall>n. n \<notin> fst ` set vars \<longrightarrow> value_of (st_substitution st') n = value_of (st_substitution st) n"
    unfolding same_names_def by blast
  with all(1-4) show ?thesis unfolding tv by blast
qed

lemma variables_declared_witness:
  "value_of (st_substitution (snd (projr (handle_manifest_variables ''variables''
      (PMapping [(''variables'', PMapping [(''A'', PText ''x''), (''B'', PText ''{{A}}y'')])])
      (new_manifest_parser demo_chain [''foo''] ''full'' :: nat parse_state))))) ''B'' = Some ''xy''"
proof -
  let ?v = "PMapping [(''variables'', PMapping (map (\<lambda>(k, t). (k, PText t)) [(''A'', ''x''), (''B'', ''{{A}}y'')]))] :: nat parsed"
  let ?st = "new_manifest_parser demo_chain [''foo''] ''full'' :: nat parse_state"
  let ?st' = "snd (projr (handle_manifest_variables ''variables'' ?v ?st))"
  have "\<not> isl (handle_manifest_variables ''variables'' ?v ?st)" by code_simp
  then have ok: "handle_manifest_variables ''variables'' ?v ?st
      = Inr (fst (projr (handle_manifest_variables ''variables'' ?v ?st)), ?st')" by simp
  have start: "st_stack ?st = []" "st_substitution ?st \<noteq> []" by code_simp+
  have "text_value (st_substitution ?st') ''{{A}}y'' = Some ''xy''" by code_simp
  then obtain c where c: "substitute False ''{{A}}y'' (st_substitution ?st') = Inr (c, ''xy'')"
    by (auto simp: text_value_def split: sum.splits prod.splits)
  from variables_declared[OF ok start] c show ?thesis by simp
qed

subsection \<open>An accepted manifest\<close>

lemma update_current_effect:
  assumes "update_current f st = Inr st1"
  obtains ps n p where "st_package_states st = Some ps" "map_of ps n = Some p" "st1 = put_state n (f p) st"
  using assms
  by (auto simp: update_current_def current_binary_package_state_def known_state_def res_simps
      split: list.splits option.splits)

definition keeps_kind :: "('r package_state \<Rightarrow> 'r package_state) \<Rightarrow> bool" where
  "keeps_kind f \<longleftrightarrow>
     (\<forall>p. ps_binary_package (f p) = ps_binary_package p \<and> ps_is_auto_generated_package (f p) = ps_is_auto_generated_package p)"

text \<open>Everything but the states of the packages.\<close>

definition outside_packages ::
    "'r parse_state \<Rightarrow> subst_scope list \<times> string list \<times> (string \<times> 'r) list \<times> string list \<times> bool" where
  "outside_packages st =
     (st_substitution st, st_declared_variables st, st_environments st, st_used_named_envs st, st_used st)"

lemma update_current_kept:
  assumes "keeps_kind f" and "update_current f st = Inr st1"
  shows "context_kept st st1 \<and> outside_packages st1 = outside_packages st"
proof -
  from assms(2) obtain ps n p where ps: "st_package_states st = Some ps" "map_of ps n = Some p"
    and st1: "st1 = put_state n (f p) st" by (rule update_current_effect)
  have "package_kinds st1 = package_kinds st"
    unfolding st1 using assms(1) by (intro package_kinds_put_state[OF ps]) (simp_all add: keeps_kind_def)
  then show ?thesis by (simp add: st1 context_kept_def outside_packages_def put_state_def)
qed

lemma keeps_kind_updates [simp]:
  "keeps_kind (\<lambda>p. p\<lparr>ps_binary_version := v\<rparr>)" "keeps_kind (package_rules parsed)"
  "keeps_kind (add_install_rule rule)" "keeps_kind transform_helpers"
  by (simp_all add: keeps_kind_def package_rules_def add_install_rule_def transform_helpers_def)

lemmas kind_kept = keeps_kind_updates[THEN update_current_kept, THEN conjunct1]

lemma set_binary_version_kept: "set_binary_version v st = Inr st1 \<Longrightarrow> context_kept st st1"
proof (cases v)
  case (PText raw)
  assume "set_binary_version v st = Inr st1"
  then obtain version st2 where "context_substitute False raw st = Inr (version, st2)"
    "update_current (\<lambda>p. p\<lparr>ps_binary_version := Some version\<rparr>) st2 = Inr st1"
    by (auto simp: set_binary_version_def PText res_simps)
  then show ?thesis using kept.substituted kind_kept(1) kept.trans by blast
qed (simp_all add: set_binary_version_def)

lemma package_part_kept:
  assumes "rbind (set_binary_version v st) (update_current (package_rules parsed)) = Inr st1"
  shows "context_kept st st1"
  using assms set_binary_version_kept kind_kept(2) kept.trans by (elim rbind_InrE) blast

lemma apply_packages_kept: "apply_packages pcds st = Inr st1 \<Longrightarrow> context_kept st st1"
proof (induction pcds arbitrary: st)
  case (Cons pcd pcds)
  obtain raw n v where pcd: "pcd = (raw, n, v)" by (cases pcd)
  from Cons.prems obtain u st3 where b: "binary_package_context n (\<lambda>package_state st1.
        if ps_is_auto_generated_package package_state then Inl ManifestParseError
        else (case v of
            PMapping parsed \<Rightarrow>
              rmap (\<lambda>st2. ((), st2))
                (rbind (set_binary_version (parsed_at parsed ''binary-version'') st1) (update_current (package_rules parsed)))
          | _ \<Rightarrow> Inl AttributeErr)) st = Inr (u, st3)" and r: "apply_packages pcds st3 = Inr st1"
    by (auto simp: pcd elim!: rbind_InrE)
  have "context_kept st st3"
    using b by (rule kept.package_context_keeps)
      (auto simp: rmap_eq_Inr split: if_splits parsed.splits dest: package_part_kept)
  with Cons.IH[OF r] show ?case by (blast intro: kept.trans)
qed simp

lemma package_context_effect:
  assumes "binary_package_context n body st = Inr (x, st1)"
  obtains p t where "body p (st\<lparr>st_stack := n # st_stack st\<rparr>) = Inr (x, t)" "st1 = t\<lparr>st_stack := tl (st_stack t)\<rparr>"
  using assms by (auto simp: binary_package_context_def res_simps split: option.splits if_splits)

lemma finish_context_kept:
  assumes "finish_context ppf n p st = Inr (x, st1)"
  shows "context_kept st st1 \<and> outside_packages st1 = outside_packages st"
proof -
  from assms obtain st2 where one: "st2 = st \<or> (\<exists>rule. update_current (add_install_rule rule) st = Inr st2)"
    and two: "update_current transform_helpers st2 = Inr st1"
    by (auto simp: finish_context_def res_simps split: if_splits option.splits)
  have "context_kept st st2 \<and> outside_packages st2 = outside_packages st"
    using one update_current_kept[OF keeps_kind_updates(3)] kept.refl by blast
  with update_current_kept[OF keeps_kind_updates(4) two] show ?thesis using kept.trans by auto
qed

lemma finish_package_kept:
  assumes "finish_package ppf n st = Inr st1"
  shows "context_kept st st1 \<and> outside_packages st1 = outside_packages st"
proof -
  from assms obtain u where b: "binary_package_context n (finish_context ppf n) st = Inr (u, st1)"
    unfolding finish_package_def by (auto simp: res_simps)
  have "context_kept st st1"
    using b by (rule kept.package_context_keeps) (blast dest: finish_context_kept)
  moreover from b obtain p t where "finish_context ppf n p (st\<lparr>st_stack := n # st_stack st\<rparr>) = Inr (u, t)"
    "st1 = t\<lparr>st_stack := tl (st_stack t)\<rparr>" by (rule package_context_effect)
  then have "outside_packages st1 = outside_packages st"
    using finish_context_kept[of ppf n p "st\<lparr>st_stack := n # st_stack st\<rparr>" u t] by (simp add: outside_packages_def)
  ultimately show ?thesis by blast
qed

lemma rfold_finish_kept:
  "rfold (finish_package ppf) ns st = Inr st1 \<Longrightarrow> context_kept st st1 \<and> outside_packages st1 = outside_packages st"
proof (induction ns arbitrary: st)
  case (Cons n ns)
  then obtain st2 where "finish_package ppf n st = Inr st2" "rfold (finish_package ppf) ns st2 = Inr st1"
    by (auto simp: res_simps)
  with Cons.IH finish_package_kept kept.trans show ?case by metis
qed simp

lemma from_yaml_dict_parts:
  assumes ok: "from_yaml_dict ppf standard manifest_root v st = Inr (rules, builds, st')"
  obtains parsed st1 st2 where "parse_input manifest_root v st = Inr (PMapping parsed, st1)"
    "(case parsed_at parsed ''packages'' of
        PPackages pcds \<Rightarrow> apply_packages pcds st1 | PNone \<Rightarrow> Inr st1 | _ \<Rightarrow> Inl AttributeErr) = Inr st2"
    "build_manifest ppf standard st2 = Inr st'" "rules \<noteq> Some []"
proof -
  from ok obtain parsed_data st1 where d: "parse_input manifest_root v st = Inr (parsed_data, st1)"
    unfolding from_yaml_dict_def by (elim rbind_InrE) auto
  with ok obtain parsed where m: "parsed_data = PMapping parsed"
    unfolding from_yaml_dict_def by (cases parsed_data) simp_all
  note p = d[unfolded m]
  from ok obtain st2 where "(case parsed_at parsed ''packages'' of
        PPackages pcds \<Rightarrow> apply_packages pcds st1 | PNone \<Rightarrow> Inr st1 | _ \<Rightarrow> Inl AttributeErr) = Inr st2"
    "build_manifest ppf standard st2 = Inr st'" "rules \<noteq> Some []"
    unfolding from_yaml_dict_def Let_def p rbind_Inr prod.case parsed.case
    by (elim rbind_InrE) (auto simp: rmap_eq_Inr split: if_splits)
  with p show ?thesis by (rule that)
qed

text \<open>C36: a manifest that is accepted leaves nothing unused and nothing open: every variable that it declares is
  used somewhere, every environment with a name is referred to by a rule, no package is left on the stack, and the
  states of all packages are there; the manifest can only be built once.\<close>

theorem accepted_manifest_is_used:
  assumes parsers: "all_keep context_kept manifest_root"
    and ok: "from_yaml_dict ppf standard manifest_root v st = Inr (rules, builds, st')" and start: "st_stack st = []"
  shows "list_all (is_used (st_substitution st')) (st_declared_variables st')
    \<and> set (map fst (st_environments st')) \<subseteq> set (st_used_named_envs st')
    \<and> st_stack st' = [] \<and> st_package_states st' \<noteq> None
    \<and> st_used st' \<and> build_manifest ppf standard st' = Inl TypeErr"
proof -
  obtain parsed st1 st2 where p: "parse_input manifest_root v st = Inr (PMapping parsed, st1)"
    and a: "(case parsed_at parsed ''packages'' of
        PPackages pcds \<Rightarrow> apply_packages pcds st1 | PNone \<Rightarrow> Inr st1 | _ \<Rightarrow> Inl AttributeErr) = Inr st2"
    and b: "build_manifest ppf standard st2 = Inr st'" by (rule from_yaml_dict_parts[OF ok])
  have "context_kept st st1" by (rule kept.parsing_keeps(1)[OF parsers p])
  moreover have "context_kept st1 st2" using a apply_packages_kept by (auto split: parsed.splits)
  ultimately have stack: "st_stack st2 = []" using start by (simp add: context_kept_def)
  define st3 where "st3 = ensure_package_states_is_initialized (st2\<lparr>st_used := True\<rparr>)"
  have st3: "outside_packages st3 = outside_packages (st2\<lparr>st_used := True\<rparr>)" "st_stack st3 = []" "st_package_states st3 \<noteq> None"
    using stack by (simp_all add: st3_def outside_packages_def ensure_package_states_is_initialized_def Let_def split: option.split)
  from b obtain st4 where env: "set (map fst (st_environments st2)) \<subseteq> set (st_used_named_envs st2)"
    and used: "list_all (is_used (current_chain st3)) (st_declared_variables st3)"
    and f: "rfold (finish_package ppf) (case st_package_states st3 of None \<Rightarrow> [] | Some ps \<Rightarrow> map fst ps) st3 = Inr st4"
    and st': "st' = build_environments standard st4"
    unfolding build_manifest_def self_check_def rguard_def Let_def st3_def[symmetric]
    by (auto elim!: rbind_InrE if_Inl_InrE split: if_splits)
  have cur: "current_chain st3 = st_substitution st3" using st3(2) by (simp add: current_chain_def)
  note k = rfold_finish_kept[OF f]
  have o: "outside_packages st' = outside_packages (st2\<lparr>st_used := True\<rparr>)"
    using k st3(1) by (simp add: st' build_environments_def outside_packages_def Let_def)
  have "st_stack st' = []" "st_package_states st' \<noteq> None"
    using k st3(2,3) by (auto simp: st' build_environments_def Let_def context_kept_def package_kinds_def)
  moreover from o have "set (map fst (st_environments st')) \<subseteq> set (st_used_named_envs st')" "st_used st'"
    using env by (simp_all add: outside_packages_def)
  moreover from this have "build_manifest ppf standard st' = Inl TypeErr"
    by (simp add: build_manifest_def self_check_def rguard_def)
  moreover from o st3(1) used cur have "list_all (is_used (st_substitution st')) (st_declared_variables st')"
    by (simp add: outside_packages_def)
  ultimately show ?thesis by blast
qed

subsection \<open>The registered parsers keep the context\<close>

lemma context_substitute_kept: "context_substitute e v st = Inr (u, st1) \<Longrightarrow> context_kept st st1"
  using store_chain_kept by (auto simp: context_substitute_def res_simps)

lemma add_extra_kept:
  "add_extra_substitution_variables extra st = Inr st1 \<Longrightarrow> context_kept st st1"
  by (auto simp: add_extra_substitution_variables_def context_kept_def package_kinds_def split: if_splits)

lemma declare_variables_kept: "declare_variables vars res st = Inr st' \<Longrightarrow> context_kept st st'"
proof (induction vars arbitrary: res st)
  case (Cons kv vars)
  obtain key raw where kv: "kv = (key, raw)" by (cases kv)
  from Cons.prems obtain x where
    x: "(case context_substitute False raw st of
        Inl e \<Rightarrow>
          if e = SubstitutionError \<and> res \<noteq> [] then
            rbind (add_extra_substitution_variables res st) (\<lambda>st1.
              rmap (\<lambda>r. ([], r)) (context_substitute False raw st1))
          else Inl e
      | Inr r \<Rightarrow> Inr (res, r)) = Inr x"
    and rest: "(\<lambda>(resolved_vars, v, st1).
        rbind (add_extra_substitution_variables (AList.update key v resolved_vars) st1) (\<lambda>st2.
          declare_variables vars (AList.update key v resolved_vars) st2)) x = Inr st'"
    unfolding kv declare_variables.simps Let_def by (elim if_Inl_InrE rbind_InrE) simp
  obtain res0 v st0 where xx: "x = (res0, v, st0)" by (cases x)
  have "context_kept st st0"
    using x xx by (cases "context_substitute False raw st")
      (auto simp: res_simps split: if_splits intro: kept.trans dest: context_substitute_kept add_extra_kept)
  moreover from rest xx obtain st1 where "add_extra_substitution_variables (AList.update key v res0) st0 = Inr st1"
    "declare_variables vars (AList.update key v res0) st1 = Inr st'" by (auto elim: rbind_InrE)
  ultimately show ?case using Cons.IH add_extra_kept kept.trans by blast
qed simp

lemma match_rule_kept: "from_path_or_glob_st context_substitute None p st = Inr (r, st1) \<Longrightarrow> context_kept st st1"
  unfolding from_path_or_glob_st_def Let_def
  by (auto simp: res_simps split: if_splits intro: kept.trans dest: context_substitute_kept)

lemma context_match_rules_kept: "context_match_rules ps st = Inr (rs, st1) \<Longrightarrow> context_kept st st1"
  by (induction ps arbitrary: st rs) (auto simp: res_simps intro: kept.trans dest: match_rule_kept)

lemma clean_rule_snippet_kept: "clean_rule_snippet source r st = Inr (s, st1) \<Longrightarrow> context_kept st st1"
  by (auto simp: clean_rule_snippet_def Let_def res_simps split: if_splits dest: context_match_rules_kept)

lemma append_maintscript_snippet_kept: "append_maintscript_snippet script s st = Inr st1 \<Longrightarrow> context_kept st st1"
proof -
  assume a: "append_maintscript_snippet script s st = Inr st1"
  let ?f = "\<lambda>p. p\<lparr>ps_maintscript_snippets := add_snippet script s (ps_maintscript_snippets p)\<rparr>"
  have "append_maintscript_snippet script s st = update_current ?f st"
    by (simp add: append_maintscript_snippet_def update_current_def)
  with a show ?thesis using update_current_kept[of ?f st st1] by (simp add: keeps_kind_def)
qed

lemma clean_rules_loop_kept:
  assumes parser: "\<And>v st r st1. rule_parser v st = Inr (r, st1) \<Longrightarrow> context_kept st st1"
  shows "clean_rules_loop rule_parser source_of no raws st = Inr st1 \<Longrightarrow> context_kept st st1"
proof (induction raws arbitrary: no st)
  case (Cons raw raws)
  then obtain r sta s stb stc where a: "rule_parser raw st = Inr (r, sta)"
    and b: "clean_rule_snippet (source_of no (cr_paths r)) r sta = Inr (s, stb)"
    and c: "append_maintscript_snippet ''postrm'' s stb = Inr stc" and d: "clean_rules_loop rule_parser source_of (Suc no) raws stc = Inr st1"
    by (auto simp: res_simps)
  show ?case
    by (rule kept.trans[OF parser[OF a] kept.trans[OF clean_rule_snippet_kept[OF b]
          kept.trans[OF append_maintscript_snippet_kept[OF c] Cons.IH[OF d]]]])
qed simp

lemma handlers_keep:
  "keeps context_kept (handle_manifest_variables name)" "keeps context_kept (handle_version name)"
  "keeps context_kept (handle_installation_rules name)" "keeps context_kept (handle_attribute attribute name)"
  "keeps context_kept (unpack_list name)"
  unfolding keeps_def handle_manifest_variables_def handle_version_def handle_installation_rules_def
    handle_attribute_def unpack_list_def
  by (auto simp: res_simps split: parsed.splits option.splits if_splits dest: declare_variables_kept)

lemma clean_handler_keeps:
  assumes "\<And>v st r st1. rule_parser v st = Inr (r, st1) \<Longrightarrow> context_kept st st1"
  shows "keeps context_kept (handle_clean_after_removal rule_parser source_of name)"
proof -
  have "clean_rules_loop rule_parser source_of no raws st = Inr st1 \<Longrightarrow> context_kept st st1" for no raws st st1
    by (rule clean_rules_loop_kept) (rule assms)
  then show ?thesis
    unfolding keeps_def handle_clean_after_removal_def by (auto simp: res_simps split: parsed.splits option.splits)
qed

lemma end_of_mapping_kept: "end_of_mapping name v st = Inr st1 \<Longrightarrow> context_kept st st1"
  by (auto simp: end_of_mapping_def ensure_package_states_is_initialized_def Let_def context_kept_def package_kinds_def
      split: option.splits)

lemma all_keep_table_append: "all_keep_table R (ps @ qs) \<longleftrightarrow> all_keep_table R ps \<and> all_keep_table R qs"
proof (induction ps)
  case (Cons p ps)
  obtain k q h pl where "p = (k, Provided q h pl)" by (metis provided_parser.exhaust surj_pair)
  with Cons show ?case by auto
qed simp

lemma register_keeps:
  assumes "pluggable_manifest_rule k p h plugin ps = Inr qs"
    and "all_keep context_kept p" "\<And>name. keeps context_kept (h name)" "all_keep_table context_kept ps"
  shows "all_keep_table context_kept qs \<and> map fst qs = map fst ps @ [k]"
proof -
  have "qs = ps @ [(k, Provided p (\<lambda>name v st. wrap_errors plugin (h name v st)) plugin)]"
    using assms(1) add_parser_keys unfolding pluggable_manifest_rule_def register_parser_def by fastforce
  moreover have "keeps context_kept (\<lambda>v st. wrap_errors plugin (h name v st))" for name
    using assms(3)[of name] by (simp add: keeps_def)
  ultimately show ?thesis using assms(2,4) by (simp add: all_keep_table_append)
qed

lemma register_object_keeps:
  assumes "pluggable_object_parser k modes child (Some f) nested plugin ps = Inr qs"
    and "all_keep_table context_kept child" "\<And>name v st st1. f name v st = Inr st1 \<Longrightarrow> context_kept st st1"
      "all_keep_table context_kept ps"
  shows "all_keep_table context_kept qs \<and> map fst qs = map fst ps @ [k]"
proof -
  let ?h = "child_handler (map_option (\<lambda>f name v st. wrap_errors plugin (f name v st)) (Some f))"
  have "qs = ps @ [(k, Provided (if nested then InPackageContext (ObjectParser modes child) else ObjectParser modes child) ?h plugin)]"
    using assms(1) add_parser_keys unfolding pluggable_object_parser_def register_child_parser_def by fastforce
  moreover have "keeps context_kept (?h name)" for name
    using assms(3) by (auto simp: keeps_def child_handler_def res_simps)
  ultimately show ?thesis using assms(2,4) by (simp add: all_keep_table_append)
qed

lemma binary_package_rules_registered:
  assumes "register_binary_package_rules formats services rule_parser source_of [] = Inr qs"
    and "all_keep context_kept (pf_binary_version formats)" "all_keep context_kept (pf_transformations formats)"
      "all_keep context_kept (pf_conffile_management formats)" "all_keep context_kept (pf_services formats)"
      "all_keep context_kept (pf_clean_after_removal formats)" "all_keep context_kept (pf_installation_search_dirs formats)"
    and "\<And>name. keeps context_kept (services name)" "\<And>v st r st1. rule_parser v st = Inr (r, st1) \<Longrightarrow> context_kept st st1"
  shows "all_keep_table context_kept qs
    \<and> map fst qs = [''binary-version'', ''transformations'', ''conffile-management'', ''services'', ''clean-after-removal'',
        ''installation-search-dirs'']"
proof -
  from assms(1) obtain p1 p2 p3 p4 p5 where
    p1: "pluggable_manifest_rule ''binary-version'' (pf_binary_version formats) (handle_attribute ''binary_version'') ''debputy'' [] = Inr p1"
    and p2: "pluggable_manifest_rule ''transformations'' (pf_transformations formats) unpack_list ''debputy'' p1 = Inr p2"
    and p3: "pluggable_manifest_rule ''conffile-management'' (pf_conffile_management formats) unpack_list ''debputy'' p2 = Inr p3"
    and p4: "pluggable_manifest_rule ''services'' (pf_services formats) services ''debputy'' p3 = Inr p4"
    and p5: "pluggable_manifest_rule ''clean-after-removal'' (pf_clean_after_removal formats)
        (handle_clean_after_removal rule_parser source_of) ''debputy'' p4 = Inr p5"
    and p6: "pluggable_manifest_rule ''installation-search-dirs'' (pf_installation_search_dirs formats)
        (handle_attribute ''installation_search_dirs'') ''debputy'' p5 = Inr qs"
    unfolding register_binary_package_rules_def by (elim rbind_InrE)
  have k1: "all_keep_table context_kept p1 \<and> map fst p1 = [''binary-version'']"
    using register_keeps[OF p1 assms(2) handlers_keep(4)] by simp
  have k2: "all_keep_table context_kept p2 \<and> map fst p2 = map fst p1 @ [''transformations'']"
    by (rule register_keeps[OF p2 assms(3) handlers_keep(5)]) (use k1 in simp)
  have k3: "all_keep_table context_kept p3 \<and> map fst p3 = map fst p2 @ [''conffile-management'']"
    by (rule register_keeps[OF p3 assms(4) handlers_keep(5)]) (use k2 in simp)
  have k4: "all_keep_table context_kept p4 \<and> map fst p4 = map fst p3 @ [''services'']"
    by (rule register_keeps[OF p4 assms(5,8)]) (use k3 in simp)
  have k5: "all_keep_table context_kept p5 \<and> map fst p5 = map fst p4 @ [''clean-after-removal'']"
    by (rule register_keeps[OF p5 assms(6)]) (rule clean_handler_keeps, erule assms(9), use k4 in simp)
  have k6: "all_keep_table context_kept qs \<and> map fst qs = map fst p5 @ [''installation-search-dirs'']"
    by (rule register_keeps[OF p6 assms(7) handlers_keep(4)]) (use k5 in simp)
  show ?thesis using k1 k2 k3 k4 k5 k6 by simp
qed

text \<open>
  The keywords are registered with dashes, but what they say is looked up with underscores: the commands for
  \<^verbatim>\<open>dpkg-maintscript-helper\<close> and the search directories of a package never reach the state of the package.
\<close>

lemma dashed_keywords_not_read:
  assumes "map fst qs = [''binary-version'', ''transformations'', ''conffile-management'', ''services'', ''clean-after-removal'',
        ''installation-search-dirs'']"
    and "parse_input (ObjectParser modes qs) v st = Inr (PMapping parsed, st1)"
  shows "ps_dpkg_maintscript_helper_snippets (package_rules parsed p) = ps_dpkg_maintscript_helper_snippets p"
    and "ps_search_dirs (package_rules parsed p) = ps_search_dirs p"
proof -
  from assms(2) obtain kvs where "parse_entries qs kvs st = Inr (parsed, st1)"
    by (auto simp: res_simps split: yvalue.splits if_splits)
  from parse_entries_keys[OF this] have "set (map fst parsed) \<subseteq> set (map fst qs)" by simp
  moreover have "''conffile_management'' \<notin> set (map fst qs)" "''installation_search_dirs'' \<notin> set (map fst qs)"
    unfolding assms(1) by code_simp+
  ultimately have "''conffile_management'' \<notin> set (map fst parsed)" "''installation_search_dirs'' \<notin> set (map fst parsed)" by blast+
  then have "map_of parsed ''conffile_management'' = None" "map_of parsed ''installation_search_dirs'' = None"
    unfolding map_of_eq_None_iff set_map by blast+
  then have "parsed_at parsed ''conffile_management'' = PNone" "parsed_at parsed ''installation_search_dirs'' = PNone"
    unfolding parsed_at_def by (simp_all only: option.case)
  then show "ps_dpkg_maintscript_helper_snippets (package_rules parsed p) = ps_dpkg_maintscript_helper_snippets p"
    "ps_search_dirs (package_rules parsed p) = ps_search_dirs p"
    unfolding package_rules_def by simp_all
qed

lemma manifest_root_rules_registered:
  assumes "register_manifest_root_rules formats packages (\<lambda>ps. Inr (ps @ builds)) = Inr qs"
    and "all_keep context_kept (rf_version formats)" "all_keep context_kept (rf_variables formats)"
      "all_keep context_kept (rf_installations formats)" "all_keep_table context_kept packages" "all_keep_table context_kept builds"
  shows "all_keep_table context_kept qs
    \<and> map fst qs = [''manifest-version'', ''definitions'', ''installations'', ''packages''] @ map fst builds"
proof -
  from assms(1) obtain d r1 r2 r3 r4 where
    d: "pluggable_manifest_rule ''variables'' (rf_variables formats) handle_manifest_variables ''debputy'' [] = Inr d"
    and r1: "pluggable_manifest_rule ''manifest-version'' (rf_version formats) handle_version ''debputy'' [] = Inr r1"
    and r2: "pluggable_object_parser ''definitions'' None d (Some end_of_mapping) False ''debputy'' r1 = Inr r2"
    and r3: "pluggable_manifest_rule ''installations'' (rf_installations formats) handle_installation_rules ''debputy'' r2 = Inr r3"
    and r4: "pluggable_object_parser ''packages'' None packages (Some end_of_mapping) True ''debputy'' r3 = Inr r4"
    and q: "qs = r4 @ builds"
    unfolding register_manifest_root_rules_def by (elim rbind_InrE) simp
  note k1 = register_keeps[OF d assms(3) handlers_keep(1)] and k2 = register_keeps[OF r1 assms(2) handlers_keep(2)]
  have d': "all_keep_table context_kept d" using k1 by simp
  have r1': "all_keep_table context_kept r1 \<and> map fst r1 = [''manifest-version'']" using k2 by simp
  have r2': "all_keep_table context_kept r2 \<and> map fst r2 = map fst r1 @ [''definitions'']"
    by (rule register_object_keeps[OF r2 d' end_of_mapping_kept]) (use r1' in simp_all)
  have r3': "all_keep_table context_kept r3 \<and> map fst r3 = map fst r2 @ [''installations'']"
    by (rule register_keeps[OF r3 assms(4) handlers_keep(3)]) (use r2' in simp)
  have r4': "all_keep_table context_kept r4 \<and> map fst r4 = map fst r3 @ [''packages'']"
    by (rule register_object_keeps[OF r4 assms(5) end_of_mapping_kept]) (use r3' in simp_all)
  show ?thesis using r1' r2' r3' r4' assms(6) by (simp add: q all_keep_table_append)
qed

text \<open>An empty list of installation rules is the same as none.\<close>

lemma empty_installations_ignored:
  assumes "from_yaml_dict ppf standard manifest_root v st = Inr (rules, builds, st')"
  shows "rules \<noteq> Some []"
  by (rule from_yaml_dict_parts[OF assms])

subsection \<open>A small manifest\<close>

definition text_under :: "string \<Rightarrow> nat input_parser" where
  "text_under attribute = LeafParser (\<lambda>v st. case v of VStr s \<Rightarrow> Inr (PMapping [(attribute, PText s)], st) | _ \<Rightarrow> Inl ManifestParseError)"

definition demo_root_formats :: "nat root_formats" where
  "demo_root_formats =
     \<lparr> rf_version = text_under ''manifest_version'',
       rf_variables = LeafParser (\<lambda>v st.
         case v of
           VDict kvs \<Rightarrow> Inr (PMapping [(''variables'', PMapping (concat (map (\<lambda>(k, w).
             case (k, w) of (VStr a, VStr b) \<Rightarrow> [(a, PText b)] | _ \<Rightarrow> []) kvs)))], st)
         | _ \<Rightarrow> Inl ManifestParseError),
       rf_installations = demo_leaf \<rparr>"

definition demo_package_formats :: "nat package_formats" where
  "demo_package_formats =
     \<lparr> pf_binary_version = text_under ''binary_version'', pf_transformations = demo_leaf, pf_conffile_management = demo_leaf,
       pf_services = demo_leaf, pf_clean_after_removal = demo_leaf, pf_installation_search_dirs = demo_leaf \<rparr>"

definition demo_packages :: "nat parser_table" where
  "demo_packages = projr (register_binary_package_rules demo_package_formats unpack_list (\<lambda>v st. Inl ManifestParseError) (\<lambda>_ _. []) [])"

definition demo_root :: "nat parser_table" where
  "demo_root = projr (register_manifest_root_rules demo_root_formats demo_packages (\<lambda>ps. Inr (ps @ [])))"

definition demo_manifest :: yvalue where
  "demo_manifest = VDict [
     (VStr ''manifest-version'', VStr ''0.1''),
     (VStr ''packages'', VDict [(VStr ''foo'', VDict [(VStr ''binary-version'', VStr ''{{V}}-1'')])]),
     (VStr ''definitions'', VDict [(VStr ''variables'', VDict [(VStr ''V'', VStr ''3'')])])]"

definition demo_start :: "nat parse_state" where
  "demo_start = new_manifest_parser demo_chain [''foo''] ''full''"

lemma demo_root_keeps: "all_keep context_kept (ObjectParser None demo_root)"
proof -
  have t: "all_keep context_kept (text_under a)" for a
    by (auto simp: text_under_def keeps_def split: yvalue.splits)
  have "\<not> isl (register_binary_package_rules demo_package_formats unpack_list (\<lambda>v st. Inl ManifestParseError) (\<lambda>_ _. []) [])"
    by code_simp
  then have p: "register_binary_package_rules demo_package_formats unpack_list (\<lambda>v st. Inl ManifestParseError) (\<lambda>_ _. []) []
      = Inr demo_packages"
    unfolding demo_packages_def by (simp add: isl_def sum.collapse(2))
  have ps: "all_keep_table context_kept demo_packages"
    by (rule binary_package_rules_registered[OF p, THEN conjunct1])
      (simp_all add: demo_package_formats_def demo_leaf_keeps t handlers_keep)
  have "\<not> isl (register_manifest_root_rules demo_root_formats demo_packages (\<lambda>ps. Inr (ps @ [])))" by code_simp
  then have "register_manifest_root_rules demo_root_formats demo_packages (\<lambda>ps. Inr (ps @ [])) = Inr demo_root"
    unfolding demo_root_def by (simp add: sum.collapse(2))
  from manifest_root_rules_registered[OF this] show ?thesis
    using ps t demo_leaf_keeps by (auto simp: demo_root_formats_def keeps_def split: yvalue.splits)
qed

lemma accepted_manifest_is_used_witness:
  "case from_yaml_dict (\<lambda>_. None) 0 (ObjectParser None demo_root) demo_manifest demo_start of
     Inl _ \<Rightarrow> False
   | Inr (rules, builds, st') \<Rightarrow> st_declared_variables st' = [''V''] \<and> is_used (st_substitution st') ''V''
       \<and> build_manifest (\<lambda>_. None) 0 st' = Inl TypeErr"
proof -
  have "case from_yaml_dict (\<lambda>_. None) 0 (ObjectParser None demo_root) demo_manifest demo_start of
      Inl _ \<Rightarrow> False | Inr (rules, builds, st') \<Rightarrow> st_declared_variables st' = [''V'']" by code_simp
  then obtain rules builds st' where ok: "from_yaml_dict (\<lambda>_. None) 0 (ObjectParser None demo_root) demo_manifest demo_start
      = Inr (rules, builds, st')" and v: "st_declared_variables st' = [''V'']"
    by (auto split: sum.splits)
  have "st_stack demo_start = []" by code_simp
  from accepted_manifest_is_used[OF demo_root_keeps ok this] v ok show ?thesis by simp
qed

end
