(* ===== verification/Services.thy ===== *)
theory Services
  imports Prelude "HOL-Library.AList"
begin

section \<open>Rules for services (\<^verbatim>\<open>binary_package_rules.py\<close>, \<^verbatim>\<open>handle_service_management\<close>)\<close>

text \<open>
  Plugins detect the services of a package, each for its service manager (such as \<^verbatim>\<open>systemd\<close>).  The rules of
  the manifest change the definitions that they are about; then each service manager gets its definitions to
  integrate them.  What the detectors find is an argument.
\<close>

subsection \<open>Rules and definitions\<close>

record service_rule =
  sr_definition_source :: string
  sr_service :: string
  sr_type_of_service :: string
  sr_service_scope :: string
  sr_enable_on_install :: "bool option"
  sr_start_on_install :: "bool option"
  sr_on_upgrade :: "string option"
  sr_service_managers :: "string list option"

text \<open>\<^verbatim>\<open>ServiceRuleParsedFormat\<close>\<close>

record service_rule_format =
  sf_service :: string
  sf_type_of_service :: "string option"
  sf_service_scope :: "string option"
  sf_enable_on_install :: "bool option"
  sf_start_on_install :: "bool option"
  sf_on_upgrade :: "string option"
  sf_service_managers :: "string list option"

definition from_service_rule_parsed_format :: "service_rule_format \<Rightarrow> string \<Rightarrow> service_rule" where
  "from_service_rule_parsed_format data attribute_path =
     \<lparr> sr_definition_source = attribute_path, sr_service = sf_service data,
       sr_type_of_service = (case sf_type_of_service data of None \<Rightarrow> ''service'' | Some t \<Rightarrow> t),
       sr_service_scope = (case sf_service_scope data of None \<Rightarrow> ''system'' | Some s \<Rightarrow> s),
       sr_enable_on_install = sf_enable_on_install data, sr_start_on_install = sf_start_on_install data,
       sr_on_upgrade = sf_on_upgrade data, sr_service_managers = map_option remdups (sf_service_managers data) \<rparr>"

record 'c service_definition =
  sd_name :: string
  sd_names :: "string list"
  sd_path :: string
  sd_type_of_service :: string
  sd_service_scope :: string
  sd_auto_enable_on_install :: bool
  sd_auto_start_on_install :: bool
  sd_on_upgrade :: string
  sd_definition_source :: string
  sd_is_plugin_provided_definition :: bool
  sd_service_context :: 'c

definition applies_to_service_manager :: "service_rule \<Rightarrow> string \<Rightarrow> bool" where
  "applies_to_service_manager rule service_manager \<longleftrightarrow>
     (case sr_service_managers rule of None \<Rightarrow> True | Some ms \<Rightarrow> service_manager \<in> set ms)"

definition apply_to_service_definition ::
    "service_rule \<Rightarrow> 'c service_definition \<Rightarrow> 'c service_definition res" where
  "apply_to_service_definition rule d =
     (if \<not> sd_is_plugin_provided_definition d then Inl UserError
      else
        (let d1 = d\<lparr>sd_definition_source := sr_definition_source rule, sd_is_plugin_provided_definition := False\<rparr>;
             d2 = (if sr_service rule \<noteq> sd_name d \<and> sr_service rule \<in> set (sd_names d)
                   then d1\<lparr>sd_name := sr_service rule\<rparr> else d1);
             d3 = (case sr_enable_on_install rule of None \<Rightarrow> d2 | Some b \<Rightarrow> d2\<lparr>sd_auto_start_on_install := b\<rparr>);
             d4 = (case sr_start_on_install rule of None \<Rightarrow> d3 | Some b \<Rightarrow> d3\<lparr>sd_auto_start_on_install := b\<rparr>);
             d5 = (case sr_on_upgrade rule of None \<Rightarrow> d4 | Some u \<Rightarrow> d4\<lparr>sd_on_upgrade := u\<rparr>)
         in Inr d5))"

subsection \<open>What a detector registers\<close>

record 'c service_registry =
  rg_service_definitions :: "'c service_definition list"
  rg_seen_services :: "(string \<times> string \<times> string) list"

definition new_registry :: "'c service_registry" where
  "new_registry = \<lparr>rg_service_definitions = [], rg_seen_services = []\<rparr>"

text \<open>The arguments of one call of \<^verbatim>\<open>register_service\<close>; a single name is a list with that name.\<close>

record 'c service_call =
  sc_path :: string
  sc_names :: "string list"
  sc_type_of_service :: string
  sc_service_scope :: string
  sc_enable_by_default :: bool
  sc_start_by_default :: bool
  sc_default_upgrade_rule :: string
  sc_service_context :: 'c

definition register_service ::
    "string \<Rightarrow> 'c service_call \<Rightarrow> 'c service_registry \<Rightarrow> 'c service_registry res" where
  "register_service plugin c reg =
     (case sc_names c of
        [] \<Rightarrow> Inl ValueError
      | name # _ \<Rightarrow>
          if list_ex (\<lambda>n. (n, sc_type_of_service c, sc_service_scope c) \<in> set (rg_seen_services reg)) (sc_names c)
          then Inl PluginAPIViolation
          else
            Inr (reg\<lparr>rg_service_definitions := rg_service_definitions reg @
              [\<lparr> sd_name = name, sd_names = sc_names c, sd_path = sc_path c, sd_type_of_service = sc_type_of_service c,
                 sd_service_scope = sc_service_scope c, sd_auto_enable_on_install = sc_enable_by_default c,
                 sd_auto_start_on_install = sc_start_by_default c, sd_on_upgrade = sc_default_upgrade_rule c,
                 sd_definition_source = ''Auto-detected by plugin '' @ plugin,
                 sd_is_plugin_provided_definition = True, sd_service_context = sc_service_context c \<rparr>]\<rparr>))"

text \<open>A service manager with the plugin that brings it and the calls that its detector makes, in order.\<close>

record 'c service_manager_details =
  sm_service_manager :: string
  sm_plugin_name :: string
  sm_detector :: "'c service_call list"

definition run_detector :: "'c service_manager_details \<Rightarrow> 'c service_registry res" where
  "run_detector m = rfold (register_service (sm_plugin_name m)) (sm_detector m) new_registry"

subsection \<open>The table of definitions\<close>

type_synonym service_key = "string \<times> string \<times> string \<times> string"
type_synonym 'c service_table = "(service_key \<times> 'c service_definition) list"

fun manager_of :: "service_key \<Rightarrow> string" where
  "manager_of (_, _, _, m) = m"

definition key_of :: "string \<Rightarrow> 'c service_definition \<Rightarrow> service_key" where
  "key_of service_manager d = (sd_name d, sd_type_of_service d, sd_service_scope d, service_manager)"

text \<open>The definitions by their key, and for each name the keys that have it, after the detectors of all managers.\<close>

definition add_definition ::
    "string \<Rightarrow> 'c service_definition \<Rightarrow> 'c service_table \<times> (string \<Rightarrow> service_key list) \<Rightarrow>
     'c service_table \<times> (string \<Rightarrow> service_key list)" where
  "add_definition service_manager d tables =
     (case tables of (by_key, aliases) \<Rightarrow>
        (let key = key_of service_manager d in
         (AList.update key d by_key,
          fold (\<lambda>name aliases. aliases(name := aliases name @ [key])) (sd_names d) aliases)))"

fun detected_services ::
    "'c service_manager_details list \<Rightarrow> 'c service_table \<times> (string \<Rightarrow> service_key list) \<Rightarrow>
     ('c service_table \<times> (string \<Rightarrow> service_key list)) res" where
  "detected_services [] tables = Inr tables"
| "detected_services (m # ms) tables =
     rbind (run_detector m) (\<lambda>reg.
       detected_services ms (fold (add_definition (sm_service_manager m)) (rg_service_definitions reg) tables))"

subsection \<open>The definitions that a rule is about\<close>

text \<open>
  The generator \<^verbatim>\<open>_relevant_service_definitions\<close> and the loop of its caller run in turns, so they are one
  loop here: it takes a key out of the set of pending keys, applies the rule to that definition and adds
  the other definitions that have one of its names.  \<open>pick\<close> is the choice that \<^verbatim>\<open>set.pop\<close> makes.
\<close>

definition start_keys :: "service_rule \<Rightarrow> 'c service_table \<Rightarrow> (string \<Rightarrow> service_key list) \<Rightarrow> service_key list" where
  "start_keys rule by_key aliases =
     remdups (filter (\<lambda>k. map_of by_key k \<noteq> None \<and> applies_to_service_manager rule (manager_of k)) (aliases (sr_service rule)))"

definition next_keys ::
    "service_rule \<Rightarrow> (string \<Rightarrow> service_key list) \<Rightarrow> service_key list \<Rightarrow> 'c service_definition \<Rightarrow> service_key list" where
  "next_keys rule aliases seen d =
     filter (\<lambda>k. k \<notin> set seen \<and> applies_to_service_manager rule (manager_of k)) (concat (map aliases (sd_names d)))"

partial_function (option) relevant_service_definitions ::
    "(service_key list \<Rightarrow> service_key) \<Rightarrow> service_rule \<Rightarrow> (string \<Rightarrow> service_key list) \<Rightarrow> service_key list \<Rightarrow>
     service_key list \<Rightarrow> 'c service_table \<Rightarrow> ('c service_table \<times> service_key list) res option" where
  "relevant_service_definitions pick rule aliases pending seen by_key =
     (if pending = [] then Some (Inr (by_key, seen))
      else
        (let key = pick pending; seen' = key # seen in
         case map_of by_key key of
           None \<Rightarrow> Some (Inl KeyError)
         | Some d \<Rightarrow>
             (case apply_to_service_definition rule d of
                Inl e \<Rightarrow> Some (Inl e)
              | Inr d' \<Rightarrow>
                  relevant_service_definitions pick rule aliases
                    (fold List.insert (next_keys rule aliases seen' d) (removeAll key pending)) seen'
                    (AList.update key d' by_key))))"

declare relevant_service_definitions.simps [code]

definition apply_service_rule ::
    "(service_key list \<Rightarrow> service_key) \<Rightarrow> (string \<Rightarrow> service_key list) \<Rightarrow> service_rule \<Rightarrow> 'c service_table \<Rightarrow>
     'c service_table res option" where
  "apply_service_rule pick aliases rule by_key =
     (let pending_queue = start_keys rule by_key aliases in
      if pending_queue = [] then Some (Inl UserError)
      else
        (case relevant_service_definitions pick rule aliases pending_queue [] by_key of
           None \<Rightarrow> None
         | Some (Inl e) \<Rightarrow> Some (Inl e)
         | Some (Inr (by_key', seen)) \<Rightarrow>
             (case sr_service_managers rule of
                None \<Rightarrow> Some (Inr by_key')
              | Some managers \<Rightarrow>
                  if manager_of ` set seen \<noteq> set managers then Some (Inl UserError) else Some (Inr by_key'))))"

fun apply_service_rules ::
    "(service_key list \<Rightarrow> service_key) \<Rightarrow> (string \<Rightarrow> service_key list) \<Rightarrow> service_rule list \<Rightarrow> 'c service_table \<Rightarrow>
     'c service_table res option" where
  "apply_service_rules pick aliases [] by_key = Some (Inr by_key)"
| "apply_service_rules pick aliases (rule # rules) by_key =
     (case apply_service_rule pick aliases rule by_key of
        None \<Rightarrow> None
      | Some (Inl e) \<Rightarrow> Some (Inl e)
      | Some (Inr by_key') \<Rightarrow> apply_service_rules pick aliases rules by_key')"

text \<open>The definitions of each manager, in the order of the table.\<close>

definition per_service_manager :: "'c service_table \<Rightarrow> (string \<times> 'c service_definition list) list" where
  "per_service_manager by_key =
     map (\<lambda>m. (m, map snd (filter (\<lambda>(k, _). manager_of k = m) by_key))) (rev (remdups (rev (map (manager_of \<circ> fst) by_key))))"

definition unknown_service_manager :: "string list \<Rightarrow> service_rule \<Rightarrow> bool" where
  "unknown_service_manager known rule \<longleftrightarrow>
     (case sr_service_managers rule of None \<Rightarrow> False | Some ms \<Rightarrow> list_ex (\<lambda>m. m \<notin> set known) ms)"

text \<open>What each service manager gets to integrate, in the order in which they get it.\<close>

definition handle_service_management ::
    "(service_key list \<Rightarrow> service_key) \<Rightarrow> 'c service_manager_details list \<Rightarrow> service_rule list \<Rightarrow>
     (string \<times> 'c service_definition list) list res option" where
  "handle_service_management pick managers rules =
     (if list_ex (unknown_service_manager (map sm_service_manager managers)) rules then Some (Inl UserError)
      else
        (case detected_services managers ([], \<lambda>_. []) of
           Inl e \<Rightarrow> Some (Inl e)
         | Inr (by_key, aliases) \<Rightarrow>
             map_option (rmap per_service_manager) (apply_service_rules pick aliases rules by_key)))"

subsection \<open>What the loop computes\<close>

text \<open>The keys the loop reaches: from the rule's service name, through every name of a definition that it reaches.\<close>

inductive_set reached :: "service_rule \<Rightarrow> (string \<Rightarrow> service_key list) \<Rightarrow> 'c service_table \<Rightarrow> service_key set"
  for rule and aliases and by_key where
  reached_start: "k \<in> set (aliases (sr_service rule)) \<Longrightarrow> applies_to_service_manager rule (manager_of k) \<Longrightarrow>
     k \<in> reached rule aliases by_key"
| reached_step: "k \<in> reached rule aliases by_key \<Longrightarrow> map_of by_key k = Some d \<Longrightarrow> n \<in> set (sd_names d) \<Longrightarrow>
     k' \<in> set (aliases n) \<Longrightarrow> applies_to_service_manager rule (manager_of k') \<Longrightarrow> k' \<in> reached rule aliases by_key"

definition rewritten :: "service_rule \<Rightarrow> 'c service_definition \<Rightarrow> 'c service_definition" where
  "rewritten rule d =
     d\<lparr> sd_name := (if sr_service rule \<in> set (sd_names d) then sr_service rule else sd_name d),
        sd_auto_start_on_install :=
          (case sr_start_on_install rule of
             Some b \<Rightarrow> b
           | None \<Rightarrow> (case sr_enable_on_install rule of Some b \<Rightarrow> b | None \<Rightarrow> sd_auto_start_on_install d)),
        sd_on_upgrade := (case sr_on_upgrade rule of Some u \<Rightarrow> u | None \<Rightarrow> sd_on_upgrade d),
        sd_definition_source := sr_definition_source rule,
        sd_is_plugin_provided_definition := False \<rparr>"

definition rewritten_at :: "service_rule \<Rightarrow> service_key set \<Rightarrow> 'c service_table \<Rightarrow> 'c service_table" where
  "rewritten_at rule K by_key = map (\<lambda>(k, d). (k, if k \<in> K then rewritten rule d else d)) by_key"

definition code_effect ::
    "(string \<Rightarrow> service_key list) \<Rightarrow> service_rule \<Rightarrow> 'c service_table \<Rightarrow> 'c service_table res" where
  "code_effect aliases rule by_key =
     (let K = reached rule aliases by_key in
      if K = {} \<or> (\<exists>k\<in>K. \<exists>d. map_of by_key k = Some d \<and> \<not> sd_is_plugin_provided_definition d)
         \<or> (\<exists>ms. sr_service_managers rule = Some ms \<and> manager_of ` K \<noteq> set ms)
      then Inl UserError
      else Inr (rewritten_at rule K by_key))"

subsection \<open>One rule\<close>

definition table_ok :: "'c service_table \<Rightarrow> (string \<Rightarrow> service_key list) \<Rightarrow> bool" where
  "table_ok by_key aliases \<longleftrightarrow> distinct (map fst by_key) \<and> (\<forall>n. set (aliases n) \<subseteq> fst ` set by_key)"

lemma apply_to_service_definition_rewritten:
  "apply_to_service_definition rule d =
     (if sd_is_plugin_provided_definition d then Inr (rewritten rule d) else Inl UserError)"
  by (cases d) (auto simp: apply_to_service_definition_def rewritten_def Let_def split: option.splits)

lemma rewritten_at_map_of:
  "map_of (rewritten_at rule K by_key) k =
     map_option (\<lambda>d. if k \<in> K then rewritten rule d else d) (map_of by_key k)"
  by (induction by_key) (auto simp: rewritten_at_def)

lemma rewritten_at_keys: "map fst (rewritten_at rule K by_key) = map fst by_key"
  by (simp add: rewritten_at_def case_prod_unfold)

lemma rewritten_at_empty: "rewritten_at rule {} by_key = by_key"
  by (simp add: rewritten_at_def)

lemma rewritten_at_outside: "k \<notin> fst ` set by_key \<Longrightarrow> rewritten_at rule (insert k K) by_key = rewritten_at rule K by_key"
  unfolding rewritten_at_def by (rule map_cong[OF HOL.refl]) force

lemma rewritten_at_update:
  assumes "distinct (map fst by_key)" "map_of by_key k = Some d" "k \<notin> K"
  shows "AList.update k (rewritten rule d) (rewritten_at rule K by_key) = rewritten_at rule (insert k K) by_key"
  using assms
proof (induction by_key)
  case (Cons a by_key)
  obtain k0 d0 where a: "a = (k0, d0)" by (cases a)
  show ?case
  proof (cases "k0 = k")
    case True
    with Cons.prems a have "k \<notin> fst ` set by_key" "d0 = d" by auto
    with rewritten_at_outside[of k by_key rule K] True a Cons.prems(3) show ?thesis by (simp add: rewritten_at_def)
  next
    case False
    with Cons a show ?thesis by (simp add: rewritten_at_def)
  qed
qed simp

lemma reached_dom:
  assumes "table_ok by_key aliases"
  shows "reached rule aliases by_key \<subseteq> fst ` set by_key"
proof
  fix k assume "k \<in> reached rule aliases by_key"
  then show "k \<in> fst ` set by_key"
    by induction (use assms in \<open>auto simp: table_ok_def\<close>)
qed


text \<open>
  Where the loop is, for the table \<open>T\<close> at its start: the keys seen have been changed, the pending ones have
  not, and everything a seen definition or the rule's own name leads to is seen or pending.
\<close>

definition loop_inv ::
    "service_rule \<Rightarrow> (string \<Rightarrow> service_key list) \<Rightarrow> 'c service_table \<Rightarrow> service_key set \<Rightarrow> service_key set \<Rightarrow> bool" where
  "loop_inv rule aliases T seen pending \<longleftrightarrow>
     seen \<inter> pending = {} \<and> seen \<union> pending \<subseteq> reached rule aliases T
     \<and> (\<forall>k\<in>set (aliases (sr_service rule)). applies_to_service_manager rule (manager_of k) \<longrightarrow> k \<in> seen \<union> pending)
     \<and> (\<forall>k\<in>seen. \<forall>d. map_of T k = Some d \<longrightarrow> sd_is_plugin_provided_definition d
          \<and> (\<forall>n\<in>set (sd_names d). \<forall>k'\<in>set (aliases n).
               applies_to_service_manager rule (manager_of k') \<longrightarrow> k' \<in> seen \<union> pending))"

lemma loop_inv_done:
  assumes "loop_inv rule aliases T seen {}"
  shows "seen = reached rule aliases T"
    and "k \<in> reached rule aliases T \<Longrightarrow> map_of T k = Some d \<Longrightarrow> sd_is_plugin_provided_definition d"
proof -
  note inv = assms[unfolded loop_inv_def Un_empty_right]
  have "k \<in> seen" if "k \<in> reached rule aliases T" for k
    using that
  proof induction
    case (reached_start k)
    with inv show ?case by blast
  next
    case (reached_step k d n k')
    with inv show ?case by blast
  qed
  with inv show "seen = reached rule aliases T" by blast
  show "sd_is_plugin_provided_definition d" if "k \<in> reached rule aliases T" "map_of T k = Some d"
    using inv that \<open>\<And>k. k \<in> reached rule aliases T \<Longrightarrow> k \<in> seen\<close> by blast
qed

lemma set_next_keys:
  "set (next_keys rule aliases seen d) =
     {k. k \<notin> set seen \<and> applies_to_service_manager rule (manager_of k) \<and> (\<exists>n\<in>set (sd_names d). k \<in> set (aliases n))}"
  by (auto simp: next_keys_def)

lemma set_fold_insert: "set (fold List.insert xs ys) = set xs \<union> set ys"
  by (induction xs arbitrary: ys) auto

lemma loop_inv_step:
  assumes inv: "loop_inv rule aliases T (set seen) (set pending)" and k: "k \<in> set pending"
    and d: "map_of T k = Some d" "sd_is_plugin_provided_definition d"
  shows "loop_inv rule aliases T (set (k # seen))
    (set (fold List.insert (next_keys rule aliases (k # seen) d) (removeAll k pending)))"
proof -
  have kc: "k \<in> reached rule aliases T" using inv k by (auto simp: loop_inv_def)
  have new: "k' \<in> reached rule aliases T" if "k' \<in> set (next_keys rule aliases (k # seen) d)" for k'
    using that unfolding set_next_keys by (blast intro: reached_step[OF kc d(1)])
  have all: "set seen \<union> set pending \<subseteq> set (k # seen) \<union>
      set (fold List.insert (next_keys rule aliases (k # seen) d) (removeAll k pending))"
    by (auto simp: set_fold_insert)
  have reached: "k' \<in> set (k # seen) \<union> set (fold List.insert (next_keys rule aliases (k # seen) d) (removeAll k pending))"
    if "n \<in> set (sd_names d)" "k' \<in> set (aliases n)" "applies_to_service_manager rule (manager_of k')" for n k'
    using that by (auto simp: set_fold_insert set_next_keys)
  show ?thesis
    unfolding loop_inv_def
  proof (intro conjI ballI allI impI)
    show "set (k # seen) \<inter> set (fold List.insert (next_keys rule aliases (k # seen) d) (removeAll k pending)) = {}"
      using inv by (auto simp: loop_inv_def set_fold_insert set_next_keys)
    show "set (k # seen) \<union> set (fold List.insert (next_keys rule aliases (k # seen) d) (removeAll k pending))
        \<subseteq> reached rule aliases T"
      using inv kc new by (auto simp: loop_inv_def set_fold_insert)
  next
    fix k' assume "k' \<in> set (aliases (sr_service rule))" "applies_to_service_manager rule (manager_of k')"
    then have "k' \<in> set seen \<union> set pending" using inv by (auto simp: loop_inv_def)
    with all show "k' \<in> set (k # seen) \<union>
        set (fold List.insert (next_keys rule aliases (k # seen) d) (removeAll k pending))" by blast
  next
    fix k1 d1 assume k1: "k1 \<in> set (k # seen)" "map_of T k1 = Some d1"
    then show "sd_is_plugin_provided_definition d1" using inv d by (auto simp: loop_inv_def)
    fix n k' assume n: "n \<in> set (sd_names d1)" "k' \<in> set (aliases n)" "applies_to_service_manager rule (manager_of k')"
    show "k' \<in> set (k # seen) \<union> set (fold List.insert (next_keys rule aliases (k # seen) d) (removeAll k pending))"
    proof (cases "k1 = k")
      case True
      with k1 d n reached show ?thesis by auto
    next
      case False
      with k1 n inv have "k' \<in> set seen \<union> set pending" by (auto simp: loop_inv_def)
      with all show ?thesis by blast
    qed
  qed
qed

text \<open>The loop ends, because every turn takes a key of the table that was not seen before.\<close>

lemma relevant_service_definitions_result:
  assumes pick: "\<And>ks. ks \<noteq> [] \<Longrightarrow> pick ks \<in> set ks" and ok: "table_ok T aliases"
    and inv: "loop_inv rule aliases T (set seen) (set pending)"
  shows "if \<exists>k\<in>reached rule aliases T. \<exists>d. map_of T k = Some d \<and> \<not> sd_is_plugin_provided_definition d
    then relevant_service_definitions pick rule aliases pending seen (rewritten_at rule (set seen) T) = Some (Inl UserError)
    else \<exists>seen'. set seen' = reached rule aliases T
      \<and> relevant_service_definitions pick rule aliases pending seen (rewritten_at rule (set seen) T)
          = Some (Inr (rewritten_at rule (reached rule aliases T) T, seen'))"
  using inv
proof (induction "card (reached rule aliases T - set seen)" arbitrary: pending seen rule: less_induct)
  case less
  show ?case
  proof (cases "pending = []")
    case True
    with less.prems have "loop_inv rule aliases T (set seen) {}" by simp
    from loop_inv_done[OF this] True show ?thesis by (auto simp: relevant_service_definitions.simps)
  next
    case False
    define key where "key = pick pending"
    have key: "key \<in> set pending" using pick[OF False] by (simp add: key_def)
    with less.prems have fresh: "key \<notin> set seen" and con: "key \<in> reached rule aliases T" by (auto simp: loop_inv_def)
    from con reached_dom[OF ok] obtain d where d: "map_of T key = Some d"
      by (metis map_of_eq_None_iff option.exhaust subsetD)
    have now: "map_of (rewritten_at rule (set seen) T) key = Some d" using d fresh by (simp add: rewritten_at_map_of)
    show ?thesis
    proof (cases "sd_is_plugin_provided_definition d")
      case provided: False
      with now have "relevant_service_definitions pick rule aliases pending seen (rewritten_at rule (set seen) T) = Some (Inl UserError)"
        using False by (simp add: relevant_service_definitions.simps[of _ _ _ pending] key_def[symmetric]
            apply_to_service_definition_rewritten)
      with con d provided show ?thesis by auto
    next
      case True
      have finite: "finite (reached rule aliases T)"
        using reached_dom[OF ok] by (rule finite_subset) simp
      have smaller: "card (reached rule aliases T - set (key # seen)) < card (reached rule aliases T - set seen)"
        by (rule psubset_card_mono) (use finite fresh con in auto)
      have upd: "AList.update key (rewritten rule d) (rewritten_at rule (set seen) T) = rewritten_at rule (set (key # seen)) T"
        using rewritten_at_update[OF _ d fresh, of rule] ok by (simp add: table_ok_def)
      have eq: "relevant_service_definitions pick rule aliases pending seen (rewritten_at rule (set seen) T) =
          relevant_service_definitions pick rule aliases
            (fold List.insert (next_keys rule aliases (key # seen) d) (removeAll key pending)) (key # seen)
            (rewritten_at rule (set (key # seen)) T)"
        using False now True upd by (simp add: relevant_service_definitions.simps[of _ _ _ pending] key_def[symmetric]
            apply_to_service_definition_rewritten Let_def)
      show ?thesis unfolding eq by (rule less.hyps[OF smaller loop_inv_step[OF less.prems key d True]])
    qed
  qed
qed

lemma start_keys_inv:
  assumes "table_ok T aliases"
  shows "loop_inv rule aliases T {} (set (start_keys rule T aliases))"
    and "start_keys rule T aliases = [] \<longleftrightarrow> reached rule aliases T = {}"
proof -
  have s: "set (start_keys rule T aliases) =
      {k \<in> set (aliases (sr_service rule)). applies_to_service_manager rule (manager_of k)}"
    using assms by (auto simp: start_keys_def table_ok_def map_of_eq_None_iff)
  show "loop_inv rule aliases T {} (set (start_keys rule T aliases))"
    unfolding loop_inv_def s by (auto intro: reached_start)
  have "k \<notin> reached rule aliases T" if "start_keys rule T aliases = []" for k
  proof
    assume "k \<in> reached rule aliases T"
    then show False by induction (use that s in auto)
  qed
  moreover have "start_keys rule T aliases = []" if "reached rule aliases T = {}"
    proof -
    have "set (start_keys rule T aliases) = {}" unfolding s using that reached_start[of _ aliases rule T] by blast
    then show ?thesis by simp
  qed
  ultimately show "start_keys rule T aliases = [] \<longleftrightarrow> reached rule aliases T = {}" by blast
qed

lemma apply_service_rule_effect:
  assumes pick: "\<And>ks. ks \<noteq> [] \<Longrightarrow> pick ks \<in> set ks" and ok: "table_ok T aliases"
  shows "apply_service_rule pick aliases rule T = Some (code_effect aliases rule T)"
proof (cases "reached rule aliases T = {}")
  case True
  with start_keys_inv(2)[OF ok, of rule] show ?thesis by (simp add: apply_service_rule_def code_effect_def)
next
  case False
  note start = start_keys_inv[OF ok, of rule]
  from start(1) have "loop_inv rule aliases T (set []) (set (start_keys rule T aliases))" by simp
  note result = relevant_service_definitions_result[OF pick ok this, unfolded list.set rewritten_at_empty]
  show ?thesis
  proof (cases "\<exists>k\<in>reached rule aliases T. \<exists>d. map_of T k = Some d \<and> \<not> sd_is_plugin_provided_definition d")
    case True
    with result False start(2) show ?thesis by (simp add: apply_service_rule_def code_effect_def Let_def)
  next
    case ok: False
    with result obtain seen where "set seen = reached rule aliases T"
        "relevant_service_definitions pick rule aliases (start_keys rule T aliases) [] T
           = Some (Inr (rewritten_at rule (reached rule aliases T) T, seen))"
      by (auto simp del: split_paired_Ex split_paired_All)
    with ok False start(2) show ?thesis
      by (simp add: apply_service_rule_def code_effect_def Let_def split: option.split del: split_paired_Ex split_paired_All)
  qed
qed


subsection \<open>The table that the detectors leave\<close>

lemma register_service_Inr:
  assumes "register_service plugin c reg = Inr reg'"
  shows "rg_seen_services reg' = rg_seen_services reg"
    and "\<exists>d. rg_service_definitions reg' = rg_service_definitions reg @ [d] \<and> sd_is_plugin_provided_definition d
      \<and> sd_names d = sc_names c \<and> sd_name d = hd (sc_names c) \<and> sc_names c \<noteq> []
      \<and> sd_type_of_service d = sc_type_of_service c \<and> sd_service_scope d = sc_service_scope c"
  using assms by (auto simp: register_service_def split: list.splits if_splits)

definition registered_definition :: "'c service_definition \<Rightarrow> bool" where
  "registered_definition d \<longleftrightarrow> sd_is_plugin_provided_definition d \<and> sd_name d \<in> set (sd_names d)"

lemma run_detector_registered:
  assumes "run_detector m = Inr reg"
  shows "\<forall>d\<in>set (rg_service_definitions reg). registered_definition d"
proof (rule rfold_invariant[OF assms[unfolded run_detector_def]])
  fix c and r r' :: "'a service_registry"
  assume r: "\<forall>d\<in>set (rg_service_definitions r). registered_definition d" and "register_service (sm_plugin_name m) c r = Inr r'"
  from register_service_Inr(2)[OF this(2)] r show "\<forall>d\<in>set (rg_service_definitions r'). registered_definition d"
    by (auto simp: registered_definition_def)
qed (simp add: new_registry_def)

text \<open>The table between two registrations: each entry is a registered definition under its own key.\<close>

definition detected_ok :: "'c service_table \<times> (string \<Rightarrow> service_key list) \<Rightarrow> bool" where
  "detected_ok tables \<longleftrightarrow>
     (case tables of (by_key, aliases) \<Rightarrow>
        table_ok by_key aliases \<and> (\<forall>(k, d)\<in>set by_key. registered_definition d \<and> k = key_of (manager_of k) d))"

lemma add_alias_set:
  "set (fold (\<lambda>name aliases. aliases(name := aliases name @ [key])) names aliases n) \<subseteq> insert key (set (aliases n))"
proof (induction names arbitrary: aliases)
  case (Cons a names)
  show ?case using Cons.IH[of "aliases(a := aliases a @ [key])"] by (cases "n = a") auto
qed auto

lemma add_definition_ok:
  assumes "detected_ok tables" "registered_definition d"
  shows "detected_ok (add_definition m d tables)"
proof -
  obtain by_key aliases where t: "tables = (by_key, aliases)" by (cases tables)
  let ?key = "key_of m d" and ?new = "fold (\<lambda>name aliases. aliases(name := aliases name @ [key_of m d])) (sd_names d) aliases"
  from assms t have ok: "distinct (map fst by_key)" "\<And>n. set (aliases n) \<subseteq> fst ` set by_key"
      "\<And>k d. (k, d) \<in> set by_key \<Longrightarrow> registered_definition d \<and> k = key_of (manager_of k) d"
    unfolding detected_ok_def table_ok_def by blast+
  have keys: "fst ` set (AList.update ?key d by_key) = insert ?key (fst ` set by_key)"
    using dom_update[of ?key d by_key] by (simp add: dom_map_of_conv_image_fst)
  have "set (?new n) \<subseteq> insert ?key (fst ` set by_key)" for n
    using add_alias_set[of ?key "sd_names d" aliases n] ok(2)[of n] by blast
  moreover have "distinct (map fst (AList.update ?key d by_key))" by (rule distinct_update[OF ok(1)])
  moreover have "registered_definition d' \<and> k = key_of (manager_of k) d'" if "(k, d') \<in> set (AList.update ?key d by_key)" for k d'
  proof (cases "k = ?key")
    case True
    with that \<open>distinct (map fst (AList.update ?key d by_key))\<close> have "map_of (AList.update ?key d by_key) ?key = Some d'"
      by simp
    with assms(2) True show ?thesis by (simp add: update_conv key_of_def)
  next
    case False
    from that \<open>distinct (map fst (AList.update ?key d by_key))\<close> have "map_of (AList.update ?key d by_key) k = Some d'"
      by (rule map_of_is_SomeI[rotated])
    with False have "map_of by_key k = Some d'" unfolding update_conv fun_upd_def by (simp split: if_splits)
    with ok(3) show ?thesis by (blast dest: map_of_SomeD)
  qed
  ultimately show ?thesis unfolding t add_definition_def detected_ok_def table_ok_def Let_def prod.case keys
    by (intro conjI allI ballI) auto
qed

lemma detected_services_ok:
  "detected_services managers tables = Inr tables' \<Longrightarrow> detected_ok tables \<Longrightarrow> detected_ok tables'"
proof (induction managers arbitrary: tables)
  case (Cons m managers)
  from Cons.prems(1) obtain reg where reg: "run_detector m = Inr reg"
      and rest: "detected_services managers (fold (add_definition (sm_service_manager m)) (rg_service_definitions reg) tables) = Inr tables'"
    by (auto simp: res_simps)
  have "detected_ok (fold (add_definition (sm_service_manager m)) ds tables)"
    if "\<forall>d\<in>set ds. registered_definition d" "detected_ok tables" for ds and tables :: "'a service_table \<times> (string \<Rightarrow> service_key list)"
    using that
  proof (induction ds arbitrary: tables)
    case (Cons d ds)
    from Cons.IH[OF _ add_definition_ok[OF Cons.prems(2)]] Cons.prems(1) show ?case by simp
  qed simp
  with Cons.IH[OF rest] run_detector_registered[OF reg] Cons.prems(2) show ?case by blast
qed simp

lemma detected_services_start: "detected_ok ([], \<lambda>_. [])"
  by (simp add: detected_ok_def table_ok_def)

subsection \<open>All rules\<close>

lemma code_effect_keys: "code_effect aliases rule T = Inr T' \<Longrightarrow> map fst T' = map fst T"
  by (auto simp: code_effect_def Let_def rewritten_at_keys split: if_splits)

lemma code_effect_ok: "code_effect aliases rule T = Inr T' \<Longrightarrow> table_ok T aliases \<Longrightarrow> table_ok T' aliases"
  using code_effect_keys[of aliases rule T T'] by (metis list.set_map table_ok_def)

lemma apply_service_rules_effect:
  assumes pick: "\<And>ks. ks \<noteq> [] \<Longrightarrow> pick ks \<in> set ks"
  shows "table_ok T aliases \<Longrightarrow> apply_service_rules pick aliases rules T = Some (rfold (code_effect aliases) rules T)"
proof (induction rules arbitrary: T)
  case (Cons rule rules)
  note step = apply_service_rule_effect[of pick T aliases rule, OF pick Cons.prems]
  show ?case
  proof (cases "code_effect aliases rule T")
    case (Inr T')
    with step Cons.IH[OF code_effect_ok[OF Inr Cons.prems]] show ?thesis by simp
  qed (simp add: step)
qed simp

subsection \<open>The reference: what a rule is about and what it changes\<close>

text \<open>
  The reference follows the section on services of \<^verbatim>\<open>MANIFEST-FORMAT.md\<close>.  A rule is about the definitions of its
  type, in its scope and for its service managers that have its service name, or that share a name with a
  definition that it is about; it changes only what its attributes stand for, where \<^verbatim>\<open>enable-on-install\<close> is
  about enabling and \<^verbatim>\<open>start-on-install\<close> about starting.
\<close>

fun kind_of :: "service_key \<Rightarrow> string \<times> string" where
  "kind_of (_, t, s, _) = (t, s)"

definition rule_kind :: "service_rule \<Rightarrow> string \<times> string" where
  "rule_kind rule = (sr_type_of_service rule, sr_service_scope rule)"

definition in_range :: "service_rule \<Rightarrow> service_key \<Rightarrow> bool" where
  "in_range rule k \<longleftrightarrow> kind_of k = rule_kind rule \<and> applies_to_service_manager rule (manager_of k)"

inductive_set concerned :: "service_rule \<Rightarrow> (string \<Rightarrow> service_key list) \<Rightarrow> 'c service_table \<Rightarrow> service_key set"
  for rule and aliases and by_key where
  by_service_name: "k \<in> set (aliases (sr_service rule)) \<Longrightarrow> in_range rule k \<Longrightarrow> k \<in> concerned rule aliases by_key"
| by_shared_name: "k \<in> concerned rule aliases by_key \<Longrightarrow> map_of by_key k = Some d \<Longrightarrow> n \<in> set (sd_names d) \<Longrightarrow>
     k' \<in> set (aliases n) \<Longrightarrow> in_range rule k' \<Longrightarrow> k' \<in> concerned rule aliases by_key"

definition changed :: "service_rule \<Rightarrow> 'c service_definition \<Rightarrow> 'c service_definition" where
  "changed rule d =
     d\<lparr> sd_name := (if sr_service rule \<in> set (sd_names d) then sr_service rule else sd_name d),
        sd_auto_enable_on_install :=
          (case sr_enable_on_install rule of Some b \<Rightarrow> b | None \<Rightarrow> sd_auto_enable_on_install d),
        sd_auto_start_on_install :=
          (case sr_start_on_install rule of Some b \<Rightarrow> b | None \<Rightarrow> sd_auto_start_on_install d),
        sd_on_upgrade := (case sr_on_upgrade rule of Some u \<Rightarrow> u | None \<Rightarrow> sd_on_upgrade d),
        sd_definition_source := sr_definition_source rule,
        sd_is_plugin_provided_definition := False \<rparr>"

text \<open>
  A rule without a definition is an error, and so is a second rule for a definition, and a service manager that
  a rule lists and that has no definition for it.
\<close>

definition rule_effect ::
    "(string \<Rightarrow> service_key list) \<Rightarrow> service_rule \<Rightarrow> 'c service_table \<Rightarrow> 'c service_table res" where
  "rule_effect aliases rule by_key =
     (let K = concerned rule aliases by_key in
      if K = {} \<or> (\<exists>k\<in>K. \<exists>d. map_of by_key k = Some d \<and> \<not> sd_is_plugin_provided_definition d)
         \<or> (\<exists>ms. sr_service_managers rule = Some ms \<and> manager_of ` K \<noteq> set ms)
      then Inl UserError
      else Inr (map (\<lambda>(k, d). (k, if k \<in> K then changed rule d else d)) by_key))"

text \<open>
  The code differs from it in two ways (\<open>enable_on_install_changes_start\<close> and \<open>type_and_scope_ignored\<close> below):
  it takes \<^verbatim>\<open>enable-on-install\<close> for \<^verbatim>\<open>start-on-install\<close>, and it does not look at the type and the scope.  So they
  agree where no rule says \<^verbatim>\<open>enable-on-install\<close>, and where services and rules with a name in common are of the
  same type and scope.
\<close>

definition call_kind :: "'c service_call \<Rightarrow> string \<times> string" where
  "call_kind c = (sc_type_of_service c, sc_service_scope c)"

definition one_kind_per_name :: "'c service_manager_details list \<Rightarrow> service_rule list \<Rightarrow> bool" where
  "one_kind_per_name managers rules \<longleftrightarrow>
     (let calls = concat (map sm_detector managers) in
      list_all (\<lambda>c. list_all (\<lambda>c'.
          list_ex (\<lambda>n. n \<in> set (sc_names c')) (sc_names c) \<longrightarrow> call_kind c = call_kind c') calls) calls
      \<and> list_all (\<lambda>r. list_all (\<lambda>c. sr_service r \<in> set (sc_names c) \<longrightarrow> rule_kind r = call_kind c) calls) rules)"

lemma rewritten_changed: "sr_enable_on_install rule = None \<Longrightarrow> rewritten rule d = changed rule d"
  by (simp add: rewritten_def changed_def split: option.split)

text \<open>The keys and the names of the tables come from what the detectors registered.\<close>

definition stems_from :: "'c service_call set \<Rightarrow> 'c service_table \<Rightarrow> (string \<Rightarrow> service_key list) \<Rightarrow> bool" where
  "stems_from C by_key aliases \<longleftrightarrow>
     (\<forall>k d. map_of by_key k = Some d \<longrightarrow> (\<exists>c\<in>C. sd_names d = sc_names c \<and> kind_of k = call_kind c))
     \<and> (\<forall>n. \<forall>k\<in>set (aliases n). \<exists>c\<in>C. n \<in> set (sc_names c) \<and> kind_of k = call_kind c)"

lemma run_detector_stems:
  assumes "run_detector m = Inr reg"
  shows "\<forall>d\<in>set (rg_service_definitions reg). \<exists>c\<in>set (sm_detector m). sd_names d = sc_names c
    \<and> (sd_type_of_service d, sd_service_scope d) = call_kind c"
proof (rule rfold_invariant[OF assms[unfolded run_detector_def]])
  fix c and r r' :: "'a service_registry"
  assume "c \<in> set (sm_detector m)"
    and r: "\<forall>d\<in>set (rg_service_definitions r). \<exists>c\<in>set (sm_detector m). sd_names d = sc_names c
      \<and> (sd_type_of_service d, sd_service_scope d) = call_kind c"
    and "register_service (sm_plugin_name m) c r = Inr r'"
  with register_service_Inr(2)[OF this(3)] show "\<forall>d\<in>set (rg_service_definitions r'). \<exists>c\<in>set (sm_detector m).
      sd_names d = sc_names c \<and> (sd_type_of_service d, sd_service_scope d) = call_kind c"
    by (auto simp: call_kind_def)
qed (simp add: new_registry_def)

lemma add_alias_member:
  "k \<in> set (fold (\<lambda>name aliases. aliases(name := aliases name @ [key])) names aliases n) \<Longrightarrow>
   k \<in> set (aliases n) \<or> k = key \<and> n \<in> set names"
proof (induction names arbitrary: aliases)
  case (Cons a names)
  from Cons.IH[of "aliases(a := aliases a @ [key])"] Cons.prems show ?case by (auto split: if_splits)
qed simp

lemma add_definition_stems:
  assumes "stems_from C by_key aliases" and c: "c \<in> C" "sd_names d = sc_names c"
    "(sd_type_of_service d, sd_service_scope d) = call_kind c"
    and "add_definition m d (by_key, aliases) = (by_key', aliases')"
  shows "stems_from C by_key' aliases'"
proof -
  from assms(5) have new: "by_key' = AList.update (key_of m d) d by_key"
      "aliases' = fold (\<lambda>name aliases. aliases(name := aliases name @ [key_of m d])) (sd_names d) aliases"
    by (simp_all add: add_definition_def Let_def)
  have kind: "kind_of (key_of m d) = call_kind c" using c(3) by (simp add: key_of_def)
  have "\<exists>c\<in>C. n \<in> set (sc_names c) \<and> kind_of k = call_kind c" if k: "k \<in> set (aliases' n)" for k n
    using add_alias_member[OF k[unfolded new(2)]] assms(1) c kind unfolding stems_from_def by auto
  moreover have "\<exists>c\<in>C. sd_names d' = sc_names c \<and> kind_of k = call_kind c" if "map_of by_key' k = Some d'" for k d'
  proof (cases "k = key_of m d")
    case True
    with that c kind show ?thesis unfolding new(1) update_conv by auto
  next
    case False
    with that have "map_of by_key k = Some d'" unfolding new(1) update_conv by simp
    with assms(1) show ?thesis unfolding stems_from_def by blast
  qed
  ultimately show ?thesis unfolding stems_from_def by blast
qed

lemma detected_services_stem:
  "detected_services managers (T, al) = Inr (T', al') \<Longrightarrow> stems_from C T al \<Longrightarrow>
   \<Union>(set ` sm_detector ` set managers) \<subseteq> C \<Longrightarrow> stems_from C T' al'"
proof (induction managers arbitrary: T al)
  case (Cons m managers)
  from Cons.prems(1) obtain reg where reg: "run_detector m = Inr reg"
      and rest: "detected_services managers (fold (add_definition (sm_service_manager m)) (rg_service_definitions reg) (T, al)) = Inr (T', al')"
    by (auto simp: res_simps)
  have "stems_from C T2 al2"
    if "\<forall>d\<in>set ds. \<exists>c\<in>C. sd_names d = sc_names c \<and> (sd_type_of_service d, sd_service_scope d) = call_kind c"
      "stems_from C T1 al1" "fold (add_definition (sm_service_manager m)) ds (T1, al1) = (T2, al2)" for ds T1 al1 T2 al2
    using that
  proof (induction ds arbitrary: T1 al1)
    case (Cons d ds)
    obtain T3 al3 where t: "add_definition (sm_service_manager m) d (T1, al1) = (T3, al3)"
      by (cases "add_definition (sm_service_manager m) d (T1, al1)")
    with Cons.prems add_definition_stems[OF Cons.prems(2) _ _ _ t] have "stems_from C T3 al3" by auto
    from Cons.IH[OF _ this] Cons.prems t show ?case by simp
  qed simp
  moreover obtain T2 al2 where t: "fold (add_definition (sm_service_manager m)) (rg_service_definitions reg) (T, al) = (T2, al2)"
    by (cases "fold (add_definition (sm_service_manager m)) (rg_service_definitions reg) (T, al)")
  moreover have "\<forall>d\<in>set (rg_service_definitions reg). \<exists>c\<in>C. sd_names d = sc_names c
      \<and> (sd_type_of_service d, sd_service_scope d) = call_kind c"
    using run_detector_stems[OF reg] Cons.prems(3) by auto blast
  ultimately have "stems_from C T2 al2" using Cons.prems(2) by blast
  from Cons.IH[OF rest[unfolded t] this] Cons.prems(3) show ?case by simp
qed simp

definition calls_of :: "'c service_manager_details list \<Rightarrow> 'c service_call set" where
  "calls_of managers = \<Union>(set ` sm_detector ` set managers)"

lemma one_kind_per_nameD:
  assumes "one_kind_per_name managers rules"
  shows "c \<in> calls_of managers \<Longrightarrow> c' \<in> calls_of managers \<Longrightarrow> n \<in> set (sc_names c) \<Longrightarrow> n \<in> set (sc_names c') \<Longrightarrow>
      call_kind c = call_kind c'"
    and "rule \<in> set rules \<Longrightarrow> c \<in> calls_of managers \<Longrightarrow> sr_service rule \<in> set (sc_names c) \<Longrightarrow> rule_kind rule = call_kind c"
  using assms unfolding one_kind_per_name_def Let_def list_all_iff list_ex_iff calls_of_def by auto blast

lemma reached_concerned:
  assumes one: "one_kind_per_name managers rules" and rule: "rule \<in> set rules"
    and stems: "stems_from (calls_of managers) T aliases"
  shows "reached rule aliases T = concerned rule aliases T"
proof
  have kind: "kind_of k = rule_kind rule" if "k \<in> reached rule aliases T" for k
    using that
  proof induction
    case (reached_start k)
    with stems one_kind_per_nameD(2)[OF one rule] show ?case unfolding stems_from_def by metis
  next
    case (reached_step k d n k')
    from stems reached_step(2) obtain c where c: "c \<in> calls_of managers" "sd_names d = sc_names c" "kind_of k = call_kind c"
      unfolding stems_from_def by blast
    from stems reached_step(4) obtain c' where "c' \<in> calls_of managers" "n \<in> set (sc_names c')" "kind_of k' = call_kind c'"
      unfolding stems_from_def by blast
    with one_kind_per_nameD(1)[OF one c(1), of c' n] c reached_step(3,6) show ?case by simp
  qed
  show "reached rule aliases T \<subseteq> concerned rule aliases T"
  proof
    fix k assume "k \<in> reached rule aliases T"
    then show "k \<in> concerned rule aliases T"
    proof induction
      case (reached_start k)
      then have "k \<in> reached rule aliases T" by (rule reached.reached_start)
      from kind[OF this] reached_start show ?case by (intro by_service_name) (simp_all add: in_range_def)
    next
      case (reached_step k d n k')
      then have "k' \<in> reached rule aliases T" by (blast intro: reached.reached_step)
      from kind[OF this] reached_step show ?case
        by (intro by_shared_name[of k rule aliases T d n k']) (simp_all add: in_range_def)
    qed
  qed
  show "concerned rule aliases T \<subseteq> reached rule aliases T"
  proof
    fix k assume "k \<in> concerned rule aliases T"
    then show "k \<in> reached rule aliases T"
      by induction (auto simp: in_range_def intro: reached.intros)
  qed
qed

lemma code_effect_rule_effect:
  assumes "one_kind_per_name managers rules" "rule \<in> set rules" "stems_from (calls_of managers) T aliases"
    and "sr_enable_on_install rule = None"
  shows "code_effect aliases rule T = rule_effect aliases rule T"
  unfolding code_effect_def rule_effect_def reached_concerned[OF assms(1-3)] rewritten_at_def rewritten_changed[OF assms(4)] ..

text \<open>The rules keep the names of the definitions, so that they concern the same ones before and after other rules.\<close>

definition same_names :: "'c service_table \<Rightarrow> 'c service_table \<Rightarrow> bool" where
  "same_names T T' \<longleftrightarrow> (\<forall>k. map_option sd_names (map_of T k) = map_option sd_names (map_of T' k))"

lemma rewritten_names [simp]: "sd_names (rewritten rule d) = sd_names d"
  by (simp add: rewritten_def)

lemma code_effect_names:
  assumes "code_effect aliases rule T = Inr T'"
  shows "same_names T T'"
proof -
  from assms have "T' = rewritten_at rule (reached rule aliases T) T"
    by (simp add: code_effect_def Let_def split: if_splits)
  then show ?thesis unfolding same_names_def by (simp add: rewritten_at_map_of option.map_comp comp_def if_distrib cong: if_cong)
qed

lemma same_namesD:
  assumes "same_names T T'" "map_of T' k = Some d"
  shows "\<exists>d'. map_of T k = Some d' \<and> sd_names d' = sd_names d"
proof -
  from assms(1) have "map_option sd_names (map_of T k) = map_option sd_names (map_of T' k)"
    unfolding same_names_def by (rule spec)
  with assms(2) show ?thesis by simp
qed

lemma same_names_stems:
  assumes same: "same_names T T'" and stems: "stems_from C T aliases"
  shows "stems_from C T' aliases"
proof -
  have "\<exists>c\<in>C. sd_names d = sc_names c \<and> kind_of k = call_kind c" if k: "map_of T' k = Some d" for k d
  proof -
    from same_namesD[OF same k] obtain d' where d': "map_of T k = Some d'" "sd_names d' = sd_names d" by blast
    from stems d'(1) obtain c where "c \<in> C" "sd_names d' = sc_names c" "kind_of k = call_kind c"
      unfolding stems_from_def by blast
    with d'(2) show ?thesis by (intro bexI[of _ c]) simp_all
  qed
  with stems show ?thesis unfolding stems_from_def by blast
qed

lemma code_effects_rule_effects:
  assumes one: "one_kind_per_name managers rules" and enable: "\<forall>rule\<in>set rules. sr_enable_on_install rule = None"
  shows "set rs \<subseteq> set rules \<Longrightarrow> stems_from (calls_of managers) T aliases \<Longrightarrow>
    rfold (code_effect aliases) rs T = rfold (rule_effect aliases) rs T"
proof (induction rs arbitrary: T)
  case (Cons rule rs)
  with enable have eq: "code_effect aliases rule T = rule_effect aliases rule T"
    by (intro code_effect_rule_effect[OF one]) auto
  show ?case
  proof (cases "code_effect aliases rule T")
    case (Inr T')
    from Cons.IH[OF _ same_names_stems[OF code_effect_names[OF Inr] Cons.prems(2)]] Cons.prems(1) Inr eq show ?thesis by simp
  qed (use eq in simp)
qed simp

lemma detected_tables:
  assumes "detected_services managers ([], \<lambda>_. []) = Inr (T, aliases)"
  shows "table_ok T aliases"
    and "(k, d) \<in> set T \<Longrightarrow> registered_definition d \<and> k = key_of (manager_of k) d"
    and "stems_from (calls_of managers) T aliases"
  using detected_services_ok[OF assms detected_services_start]
    detected_services_stem[OF assms, of "calls_of managers"]
  unfolding detected_ok_def calls_of_def stems_from_def by auto

text \<open>C37: Where no rule says \<^verbatim>\<open>enable-on-install\<close>, and services and rules with a name in common are of the same type and
  scope: for any order in which Python's set yields the pending keys, handling the services of a package ends,
  and its outcome is that of the documentation.  The detectors fill the table, each rule in turn changes exactly
  the definitions of its type, scope and service managers that it reaches from its service name through shared
  names, and it is an error when there are none, when one of them was changed by an earlier rule, or when one of
  the service managers it lists explicitly has no such definition; an unknown service manager is refused first.\<close>

theorem service_rules_applied:
  assumes pick: "\<And>ks. ks \<noteq> [] \<Longrightarrow> pick ks \<in> set ks"
    and one: "one_kind_per_name managers rules"
    and enable: "\<forall>rule\<in>set rules. sr_enable_on_install rule = None"
  shows "handle_service_management pick managers rules =
    Some (if list_ex (unknown_service_manager (map sm_service_manager managers)) rules then Inl UserError
          else rbind (detected_services managers ([], \<lambda>_. [])) (\<lambda>(by_key, aliases).
                 rmap per_service_manager (rfold (rule_effect aliases) rules by_key)))"
proof (cases "detected_services managers ([], \<lambda>_. [])")
  case (Inr tables)
  then obtain by_key aliases where t: "tables = (by_key, aliases)" by (cases tables)
  note detected = detected_tables[OF Inr[unfolded t]]
  from apply_service_rules_effect[of pick, OF pick detected(1)]
    code_effects_rule_effects[OF one enable Set.subset_refl detected(3)] Inr t
  show ?thesis by (simp add: handle_service_management_def)
qed (simp add: handle_service_management_def)

text \<open>
  The table after some of the rules, for the table \<open>T\<close> that the detectors left: a definition is as registered
  when none of the rules concerns it, and changed once when one does.
\<close>

fun changed_by :: "service_rule list \<Rightarrow> 'c service_definition \<Rightarrow> 'c service_definition \<Rightarrow> bool" where
  "changed_by [] d0 d = (d = d0)"
| "changed_by [rule] d0 d = (d = changed rule d0)"
| "changed_by _ d0 d = False"

definition changed_once ::
    "(string \<Rightarrow> service_key list) \<Rightarrow> 'c service_table \<Rightarrow> service_rule list \<Rightarrow>
     service_key \<times> 'c service_definition \<Rightarrow> service_key \<times> 'c service_definition \<Rightarrow> bool" where
  "changed_once aliases T rules x y \<longleftrightarrow>
     fst y = fst x \<and> registered_definition (snd x)
     \<and> changed_by (filter (\<lambda>r. fst x \<in> concerned r aliases T) rules) (snd x) (snd y)"

lemma changed_names [simp]: "sd_names (changed r d) = sd_names d"
  by (simp add: changed_def)

lemma changed_not_provided [simp]: "\<not> sd_is_plugin_provided_definition (changed r d)"
  by (simp add: changed_def)

lemma changed_by_facts:
  "changed_by rs d0 d \<Longrightarrow> sd_names d = sd_names d0 \<and> (sd_is_plugin_provided_definition d \<longrightarrow> rs = [] \<and> d = d0)"
  by (cases "(rs, d0, d)" rule: changed_by.cases) auto

lemma changed_once_names: "list_all2 (changed_once aliases T0 rs) T T' \<Longrightarrow> same_names T T'"
proof (induction rule: list_all2_induct)
  case (Cons x T y T')
  from Cons(1) have "fst y = fst x" "sd_names (snd y) = sd_names (snd x)"
    by (auto simp: changed_once_def dest: changed_by_facts)
  with Cons(3) show ?case unfolding same_names_def by (cases x, cases y) simp
qed (simp add: same_names_def)

lemma same_names_concerned:
  assumes "same_names T T'"
  shows "concerned r aliases T' = concerned r aliases T"
proof -
  have sub: "concerned r aliases T1 \<subseteq> concerned r aliases T2" if same: "same_names T2 T1" for T1 T2 :: "'a service_table"
  proof
    fix k assume "k \<in> concerned r aliases T1"
    then show "k \<in> concerned r aliases T2"
    proof induction
      case (by_shared_name k d n k')
      from same_namesD[OF same by_shared_name(2)] obtain d' where "map_of T2 k = Some d'" "sd_names d' = sd_names d" by blast
      with by_shared_name show ?case by (intro concerned.by_shared_name[of k r aliases T2 d' n k']) simp_all
    qed (rule concerned.by_service_name)
  qed
  from assms have "same_names T' T" unfolding same_names_def by (rule all_forward) (rule sym)
  from sub[OF this] sub[OF assms] show ?thesis by blast
qed

lemma rule_effect_once:
  assumes effect: "rule_effect aliases rule T = Inr T'" and once: "list_all2 (changed_once aliases T0 rs) T0 T"
    and dist: "distinct (map fst T)"
  shows "list_all2 (changed_once aliases T0 (rs @ [rule])) T0 T'"
proof -
  let ?K = "concerned rule aliases T"
  from effect have T': "T' = map (\<lambda>(k, d). (k, if k \<in> ?K then changed rule d else d)) T"
    and provided: "\<And>k d. k \<in> ?K \<Longrightarrow> map_of T k = Some d \<Longrightarrow> sd_is_plugin_provided_definition d"
    by (auto simp: rule_effect_def Let_def split: if_splits)
  have K: "?K = concerned rule aliases T0" by (rule same_names_concerned[OF changed_once_names[OF once]])
  have "changed_once aliases T0 (rs @ [rule]) x (case y of (k, d) \<Rightarrow> (k, if k \<in> ?K then changed rule d else d))"
    if x: "changed_once aliases T0 rs x y" and y: "y \<in> set T" for x y
  proof -
    obtain k d k0 d0 where kd: "y = (k, d)" "x = (k0, d0)" by (cases y, cases x)
    show ?thesis
    proof (cases "k \<in> ?K")
      case True
      from provided[OF True] kd y dist have "sd_is_plugin_provided_definition d" by simp
      with x kd have "filter (\<lambda>r. k0 \<in> concerned r aliases T0) rs = []" "d = d0" "k = k0" "registered_definition d0"
        by (auto simp: changed_once_def dest: changed_by_facts)
      with True K kd show ?thesis by (simp add: changed_once_def)
    next
      case False
      with x kd K show ?thesis by (simp add: changed_once_def)
    qed
  qed
  then show ?thesis unfolding T' list.rel_map by (blast intro: list.rel_mono_strong[OF once])
qed

lemma rules_once:
  "rfold (rule_effect aliases) rules T = Inr T' \<Longrightarrow> distinct (map fst T) \<Longrightarrow>
   list_all2 (changed_once aliases T0 rs) T0 T \<Longrightarrow> list_all2 (changed_once aliases T0 (rs @ rules)) T0 T'"
proof (induction rules arbitrary: T rs)
  case (Cons rule rules)
  then obtain T1 where T1: "rule_effect aliases rule T = Inr T1" "rfold (rule_effect aliases) rules T1 = Inr T'"
    by (auto simp: res_simps)
  then have "map fst T1 = map fst T"
    by (auto simp: rule_effect_def Let_def comp_def case_prod_unfold split: if_splits)
  with Cons.IH[OF T1(2) _ rule_effect_once[OF T1(1) Cons.prems(3,2)]] Cons.prems(2) show ?case by simp
qed simp

lemma per_service_manager_member:
  "(m, ds) \<in> set (per_service_manager T) \<Longrightarrow> d \<in> set ds \<Longrightarrow> \<exists>k. (k, d) \<in> set T \<and> manager_of k = m"
  unfolding per_service_manager_def by fastforce

text \<open>C38: Where no rule says \<^verbatim>\<open>enable-on-install\<close>, and services and rules with a name in common are of the same type and
  scope: every definition that a service manager gets to integrate was registered for that manager, under its
  own name, type and scope.  It is as registered when no rule of the manifest is about it, and otherwise exactly
  one rule is, and it is changed the way that rule says.\<close>

theorem service_changed_once:
  assumes pick: "\<And>ks. ks \<noteq> [] \<Longrightarrow> pick ks \<in> set ks"
    and one: "one_kind_per_name managers rules"
    and enable: "\<forall>rule\<in>set rules. sr_enable_on_install rule = None"
    and ok: "handle_service_management pick managers rules = Some (Inr out)"
    and d: "(m, ds) \<in> set out" "d \<in> set ds"
  shows "\<exists>by_key aliases k d0. detected_services managers ([], \<lambda>_. []) = Inr (by_key, aliases)
    \<and> map_of by_key k = Some d0 \<and> k = key_of m d0 \<and> sd_is_plugin_provided_definition d0
    \<and> changed_by (filter (\<lambda>r. k \<in> concerned r aliases by_key) rules) d0 d"
proof -
  from ok[unfolded handle_service_management_def] obtain T aliases
    where T: "detected_services managers ([], \<lambda>_. []) = Inr (T, aliases)"
      and r: "map_option (rmap per_service_manager) (apply_service_rules pick aliases rules T) = Some (Inr out)"
    by (auto split: if_splits sum.splits prod.splits)
  note detected = detected_tables[OF T]
  from r apply_service_rules_effect[of pick, OF pick detected(1)]
    code_effects_rule_effects[OF one enable Set.subset_refl detected(3)] obtain T'
    where T': "rfold (rule_effect aliases) rules T = Inr T'" "out = per_service_manager T'"
    by (auto simp: rmap_eq_Inr)
  have "list_all2 (changed_once aliases T []) T T"
    by (rule list.rel_refl_strong) (use detected(2) in \<open>force simp: changed_once_def\<close>)
  from rules_once[OF T'(1) _ this] detected(1) have once: "list_all2 (changed_once aliases T rules) T T'"
    by (simp add: table_ok_def)
  from per_service_manager_member d T'(2) obtain k where k: "(k, d) \<in> set T'" "manager_of k = m" by blast
  from once k(1) obtain x where x: "x \<in> set T" "changed_once aliases T rules x (k, d)"
    by (metis in_set_conv_nth list_all2_conv_all_nth)
  obtain d0 where d0: "x = (k, d0)" using x(2) unfolding changed_once_def by (metis fst_conv prod.collapse)
  have "map_of T k = Some d0" using x(1) d0 detected(1) by (simp add: table_ok_def)
  moreover have "k = key_of m d0" using detected(2)[of k d0] x(1) d0 k(2) by simp
  moreover have "sd_is_plugin_provided_definition d0"
    using x(2) d0 by (simp add: changed_once_def registered_definition_def)
  moreover have "changed_by (filter (\<lambda>r. k \<in> concerned r aliases T) rules) d0 d"
    using x(2) d0 by (simp add: changed_once_def)
  ultimately show ?thesis using T by blast
qed

subsection \<open>What the code does not do\<close>

text \<open>\<^verbatim>\<open>enable-on-install\<close> sets whether the service is started, not whether it is enabled.\<close>

lemma enable_on_install_changes_start:
  assumes "apply_to_service_definition rule d = Inr d'" "sr_enable_on_install rule = Some b" "sr_start_on_install rule = None"
  shows "sd_auto_start_on_install d' = b \<and> sd_auto_enable_on_install d' = sd_auto_enable_on_install d"
  using assms by (auto simp: apply_to_service_definition_rewritten rewritten_def split: if_splits)

text \<open>The services seen are never noted, so that registering the same service twice goes unnoticed.\<close>

lemma duplicate_services_accepted: "run_detector m \<noteq> Inl PluginAPIViolation"
proof -
  have "rfold (register_service p) cs reg \<noteq> Inl PluginAPIViolation" if "rg_seen_services reg = []"
    for p and cs :: "'a service_call list" and reg
    using that
  proof (induction cs arbitrary: reg)
    case (Cons c cs)
    show ?case
    proof (cases "register_service p c reg")
      case (Inl e)
      with Cons.prems show ?thesis by (auto simp: register_service_def list_ex_iff split: list.splits if_splits)
    next
      case (Inr reg')
      with register_service_Inr(1)[OF Inr] Cons show ?thesis by simp
    qed
  qed simp
  then show ?thesis by (simp add: run_detector_def new_registry_def)
qed

text \<open>The type and the scope of a rule play no role in what it is applied to.\<close>

lemma rewritten_type_scope: "rewritten (rule\<lparr>sr_type_of_service := t, sr_service_scope := s\<rparr>) d = rewritten rule d"
  by (simp add: rewritten_def split: option.split)

lemma type_and_scope_ignored:
  assumes pick: "\<And>ks. ks \<noteq> [] \<Longrightarrow> pick ks \<in> set ks" and ok: "table_ok T aliases"
  shows "apply_service_rule pick aliases (rule\<lparr>sr_type_of_service := t, sr_service_scope := s\<rparr>) T
    = apply_service_rule pick aliases rule T"
proof -
  let ?rule = "rule\<lparr>sr_type_of_service := t, sr_service_scope := s\<rparr>"
  have app: "applies_to_service_manager ?rule = applies_to_service_manager rule"
    by (simp add: fun_eq_iff applies_to_service_manager_def)
  have "k \<in> reached ?rule aliases T" if "k \<in> reached rule aliases T" for k
    using that
  proof induction
    case (reached_start k)
    then show ?case by (intro reached.reached_start) (simp_all add: app)
  next
    case (reached_step k d n k')
    then show ?case by (intro reached.reached_step[of k ?rule aliases T d n k']) (simp_all add: app)
  qed
  moreover have "k \<in> reached rule aliases T" if "k \<in> reached ?rule aliases T" for k
    using that
  proof induction
    case (reached_start k)
    then show ?case by (intro reached.reached_start) (simp_all add: app)
  next
    case (reached_step k d n k')
    then show ?case by (intro reached.reached_step[of k rule aliases T d n k']) (simp_all add: app)
  qed
  ultimately have "reached ?rule aliases T = reached rule aliases T" by blast
  then have "code_effect aliases ?rule T = code_effect aliases rule T"
    unfolding code_effect_def Let_def rewritten_at_def rewritten_type_scope by simp
  with apply_service_rule_effect[of pick, OF pick ok] show ?thesis by simp
qed

subsection \<open>A worked example\<close>

definition demo_call :: "string list \<Rightarrow> unit service_call" where
  "demo_call names =
     \<lparr> sc_path = ''./x'', sc_names = names, sc_type_of_service = ''service'', sc_service_scope = ''system'',
       sc_enable_by_default = True, sc_start_by_default = True, sc_default_upgrade_rule = ''restart'',
       sc_service_context = () \<rparr>"

definition demo_managers :: "unit service_manager_details list" where
  "demo_managers =
     [\<lparr> sm_service_manager = ''systemd'', sm_plugin_name = ''p'',
        sm_detector = [demo_call [''foo'', ''fooa''], demo_call [''bar'']] \<rparr>,
      \<lparr> sm_service_manager = ''sysvinit'', sm_plugin_name = ''p'', sm_detector = [demo_call [''fooa'']] \<rparr>]"

definition demo_rule :: service_rule where
  "demo_rule = from_service_rule_parsed_format
     \<lparr> sf_service = ''foo'', sf_type_of_service = None, sf_service_scope = None, sf_enable_on_install = None,
       sf_start_on_install = None, sf_on_upgrade = Some ''reload'', sf_service_managers = None \<rparr> ''at''"

lemma demo_fits:
  "one_kind_per_name demo_managers [demo_rule] \<and> (\<forall>rule\<in>set [demo_rule]. sr_enable_on_install rule = None)"
  by code_simp

lemma service_rules_applied_witness:
  "map_option (map_sum id (map (\<lambda>(m, ds). (m, map (\<lambda>d. (sd_name d, sd_on_upgrade d)) ds))))
     (handle_service_management last demo_managers [demo_rule])
   = Some (Inr [(''systemd'', [(''foo'', ''reload''), (''bar'', ''restart'')]), (''sysvinit'', [(''fooa'', ''reload'')])])"
proof -
  have "handle_service_management last demo_managers [demo_rule] = handle_service_management hd demo_managers [demo_rule]"
    by (rule trans[OF service_rules_applied service_rules_applied[symmetric]]) (simp, rule demo_fits[THEN conjunct1], rule demo_fits[THEN conjunct2])+
  moreover have "map_option (map_sum id (map (\<lambda>(m, ds). (m, map (\<lambda>d. (sd_name d, sd_on_upgrade d)) ds))))
     (handle_service_management hd demo_managers [demo_rule])
   = Some (Inr [(''systemd'', [(''foo'', ''reload''), (''bar'', ''restart'')]), (''sysvinit'', [(''fooa'', ''reload'')])])"
    by code_simp
  ultimately show ?thesis by simp
qed


lemma service_changed_once_witness:
  "\<exists>d0. sd_names d0 = [''foo'', ''fooa''] \<and> sd_is_plugin_provided_definition d0 \<and>
     (hd (snd (hd (projr (the (handle_service_management hd demo_managers [demo_rule])))))) = changed demo_rule d0"
proof -
  let ?out = "handle_service_management hd demo_managers [demo_rule]"
  have "?out \<noteq> None \<and> \<not> isl (the ?out) \<and> fst (hd (projr (the ?out))) = ''systemd'' \<and> projr (the ?out) \<noteq> []
      \<and> snd (hd (projr (the ?out))) \<noteq> []" by code_simp
  then obtain ds out where out: "?out = Some (Inr ((''systemd'', ds) # out))" and ds: "ds \<noteq> []"
    by (cases ?out; cases "the ?out"; cases "projr (the ?out)") auto
  from service_changed_once[OF hd_in_set demo_fits[THEN conjunct1] demo_fits[THEN conjunct2] out, of "''systemd''" ds "hd ds"] ds
  obtain d0 where d0: "sd_is_plugin_provided_definition d0" "hd ds = d0 \<or> hd ds = changed demo_rule d0"
    by (auto split: if_splits)
  moreover have "\<not> sd_is_plugin_provided_definition (hd (snd (hd (projr (the ?out)))))
      \<and> sd_names (hd (snd (hd (projr (the ?out))))) = [''foo'', ''fooa'']" by code_simp
  ultimately show ?thesis unfolding out by (auto simp: changed_def intro!: exI[of _ d0])
qed

end
