(* ===== verification/PackagerFiles.thy ===== *)
theory PackagerFiles
  imports Packages PathUtil
begin

section \<open>Packager-provided files (\<^verbatim>\<open>packager_provided_files.py\<close>)\<close>

text \<open>
  A file of \<^verbatim>\<open>debian/\<close> is named after the package, an optional name, the kind of the file (its stem) and an
  optional architecture, with periods between them; package names, names and stems may contain periods
  themselves.  The theory models the registration of the kinds, how a file name is taken apart, which file wins
  when several are for the same purpose, and the place where the file is installed.  The edit distance of the
  Levenshtein package, the values of \<^verbatim>\<open>dpkg-architecture\<close> and the functions that plugins bring are arguments.
\<close>

subsection \<open>Kinds of packager-provided files\<close>

record ppf_spec =
  ps_plugin_name :: string
  ps_stem :: string
  ps_installed_as_format :: string
  ps_default_mode :: int
  ps_default_priority :: "int option"
  ps_allow_name_segment :: bool
  ps_allow_architecture_segment :: bool
  ps_post_formatting_rewrite :: "(string \<Rightarrow> string) option"
  ps_packageless_is_fallback_for_all_packages :: bool
  ps_reservation_only :: bool
  ps_bug_950723 :: bool

type_synonym ppf_specs = "(string \<times> ppf_spec) list"

text \<open>
  \<^verbatim>\<open>packager_provided_file\<close> of the plugin initializer; the callbacks that only the built-in plugin may use are
  left out, and the specification is given as what the arguments of the call make of it.
\<close>

definition register_packager_provided_file :: "ppf_spec \<Rightarrow> ppf_specs \<Rightarrow> ppf_specs res" where
  "register_packager_provided_file spec specs =
     (let stem = ps_stem spec; plugin = ps_plugin_name spec in
      if endswith (ps_installed_as_format spec) ''/'' then Inl ValueError
      else
        rbind (normalize_path (ps_installed_as_format spec) True) (\<lambda>installed_path.
          let has_name_var = infix_of ''{name}'' installed_path in
          rbind (if startswith installed_path ''./DEBIAN'' \<or> ps_reservation_only spec
                 then rguard (plugin = ''debputy'') ValueError
                 else rguard (has_name_var \<or> infix_of ''{owning_package}'' installed_path) ValueError) (\<lambda>_.
            rbind (rguard (ps_allow_name_segment spec \<longrightarrow> has_name_var) ValueError) (\<lambda>_.
              rbind (rguard (ps_default_priority spec \<noteq> None \<longrightarrow>
                       infix_of ''{priority}'' installed_path \<or> infix_of ''{priority:02}'' installed_path) ValueError) (\<lambda>_.
                if map_of specs stem \<noteq> None then Inl PluginConflictError
                else Inr (specs @ [(stem, spec\<lparr>ps_installed_as_format := installed_path\<rparr>)]))))))"

subsection \<open>Files\<close>

record debian_entry =
  en_name :: string
  en_path :: string
  en_parent_path :: "string option"
  en_is_dir :: bool

record provided_file =
  pf_path :: debian_entry
  pf_package_name :: string
  pf_installed_as_basename :: string
  pf_provided_key :: string
  pf_definition :: ppf_spec
  pf_match_priority :: int
  pf_fuzzy_match :: bool
  pf_uses_explicit_package_name :: bool
  pf_name_segment :: "string option"
  pf_architecture_restriction :: "string option"
  pf_expected_path :: "string option"

type_synonym package_table = "(string \<times> binary_package) list"

definition lookup_package :: "package_table \<Rightarrow> string \<Rightarrow> binary_package res" where
  "lookup_package packages n = (case map_of packages n of None \<Rightarrow> Inl KeyError | Some b \<Rightarrow> Inr b)"

definition is_arch_all :: "binary_package \<Rightarrow> bool" where
  "is_arch_all b \<longleftrightarrow> map_of (bp_fields b) ''Architecture'' = Some ''all''"

subsection \<open>Taking the name apart\<close>

text \<open>\<^verbatim>\<open>s.split(c, n)\<close>\<close>

fun split_max :: "char \<Rightarrow> nat \<Rightarrow> string \<Rightarrow> string list" where
  "split_max c 0 s = [s]"
| "split_max c (Suc n) s =
     (case split1 c s of (a, None) \<Rightarrow> [s] | (a, Some b) \<Rightarrow> a # split_max c n b)"

text \<open>The package, the rest of the name, whether the package is explicit and whether it had the suffix \<^verbatim>\<open>@\<close>.\<close>

definition find_package_name_prefix ::
    "bool \<Rightarrow> string set \<Rightarrow> string \<Rightarrow> nat \<Rightarrow> string \<Rightarrow> (string \<times> string \<times> bool \<times> bool) list res" where
  "find_package_name_prefix allow_fuzzy_matches packages main_binary_package max_periods name =
     (if max_periods < 1 then
        (case split1 CHR ''.'' name of
           (_, None) \<Rightarrow> Inl ValueError
         | (before, Some remaining) \<Rightarrow>
             (let bug_950723 = (allow_fuzzy_matches \<and> endswith before ''@'');
                  package_name = (if bug_950723 then butlast before else before)
              in if package_name \<in> packages then Inr [(package_name, remaining, True, bug_950723)]
                 else Inr [(main_binary_package, name, False, False)]))
      else
        (let parts = split_max CHR ''.'' (max_periods + 1) name in
         Inr (concat (map (\<lambda>p.
                let n = join ''.'' (take p parts);
                    bug_950723 = (allow_fuzzy_matches \<and> endswith n ''@'');
                    n' = (if bug_950723 then butlast n else n)
                in if n' \<in> packages then [(n', join ''.'' (drop p parts), True, bug_950723)] else [])
              (rev [1..<length parts])) @ [(main_binary_package, name, False, False)])))"

text \<open>The stems that the name could end in, each with the name before it and its number of periods.\<close>

fun stem_splits :: "nat \<Rightarrow> string \<Rightarrow> string \<Rightarrow> (string \<times> string option \<times> nat) list" where
  "stem_splits 0 install_as_name stem = []"
| "stem_splits (Suc n) install_as_name stem =
     (case split1 CHR ''.'' stem of
        (_, None) \<Rightarrow> []
      | (part, Some rest) \<Rightarrow>
          (let i = (if install_as_name \<noteq> [] then install_as_name @ ''.'' @ part else part)
           in (rest, Some i, n) # stem_splits n i rest))"

definition iterate_stem_splits :: "string \<Rightarrow> (string \<times> string option \<times> nat) list" where
  "iterate_stem_splits basename =
     (let n = count_list basename CHR ''.'' in (basename, None, n) # stem_splits n [] basename)"

definition KNOWN_NON_TYPO_EXTENSIONS :: "string list" where
  "KNOWN_NON_TYPO_EXTENSIONS =
     [''conf'', ''sh'', ''yml'', ''yaml'', ''json'', ''bash'', ''pl'', ''py'', ''xpm'']"

definition KNOWN_NON_PPFS :: "string list" where
  "KNOWN_NON_PPFS =
     [''gbp.conf'', ''salsa-ci.yml'', ''clean'', ''control'', ''compat'', ''debputy.manifest'', ''rules'']"

definition possible_typos :: "(string \<Rightarrow> string \<Rightarrow> nat) \<Rightarrow> string \<Rightarrow> string list \<Rightarrow> string list" where
  "possible_typos distance provided_value known_values =
     filter (\<lambda>k. \<bar>int (length provided_value) - int (length k)\<bar> \<le> 2 \<and> distance provided_value k \<le> 2) known_values"

text \<open>\<^verbatim>\<open>_period_stem\<close>; without the search for typos there are no stems to compare with.\<close>

definition period_stem :: "bool \<Rightarrow> string list \<Rightarrow> nat \<Rightarrow> string list" where
  "period_stem detect stems n = (if detect then filter (\<lambda>s. count_list s CHR ''.'' = n) stems else [])"

fun find_definition_in ::
    "(string \<Rightarrow> string \<Rightarrow> nat) \<Rightarrow> ppf_specs \<Rightarrow> (nat \<Rightarrow> string list) \<Rightarrow> bool \<Rightarrow> (string \<times> string option \<times> nat) list \<Rightarrow>
     (string option \<times> ppf_spec \<times> string option) option res" where
  "find_definition_in distance specs period2stems had_arch [] = Inr None"
| "find_definition_in distance specs period2stems had_arch ((stem, install_as_name, period_count) # rest) =
     (case map_of specs stem of
        Some definition \<Rightarrow> Inr (Some (install_as_name, definition, None))
      | None \<Rightarrow>
          if period2stems period_count = [] then find_definition_in distance specs period2stems had_arch rest
          else if \<not> had_arch \<and> (stem \<in> set KNOWN_NON_TYPO_EXTENSIONS \<or> py_isdigit stem)
          then find_definition_in distance specs period2stems had_arch rest
          else
            (case possible_typos distance stem (period2stems period_count) of
               [m] \<Rightarrow>
                 (case map_of specs m of
                    None \<Rightarrow> Inl KeyError
                  | Some definition \<Rightarrow> Inr (Some (install_as_name, definition, Some stem)))
             | _ \<Rightarrow> find_definition_in distance specs period2stems had_arch rest))"

definition find_definition ::
    "(string \<Rightarrow> string \<Rightarrow> nat) \<Rightarrow> ppf_specs \<Rightarrow> (nat \<Rightarrow> string list) \<Rightarrow> bool \<Rightarrow> string \<Rightarrow>
     (string option \<times> ppf_spec \<times> string option) option res" where
  "find_definition distance specs period2stems had_arch basename =
     find_definition_in distance specs period2stems had_arch (iterate_stem_splits basename)"

definition check_mismatches :: "ppf_spec \<Rightarrow> binary_package \<Rightarrow> string option \<Rightarrow> bool \<Rightarrow> unit res" where
  "check_mismatches definition owning_package install_as_name had_arch =
     (if install_as_name \<noteq> None \<and> \<not> ps_allow_name_segment definition then Inl UserError
      else if had_arch \<and> is_arch_all owning_package then Inl UserError
      else if had_arch \<and> \<not> ps_allow_architecture_segment definition then Inl UserError
      else Inr ())"

text \<open>The architecture at the end of the name, with the priority that it gives.\<close>

definition architecture_suffix ::
    "(string \<Rightarrow> string res) \<Rightarrow> binary_package \<Rightarrow> string \<Rightarrow> (string \<times> int option \<times> string option) res" where
  "architecture_suffix vars owning_package basename =
     (case rsplit1 CHR ''.'' basename of
        None \<Rightarrow> Inr (basename, None, None)
      | Some (remaining, last_word) \<Rightarrow>
          rbind (package_deb_architecture_variable vars (bp_fields owning_package) ''ARCH'') (\<lambda>arch.
            if last_word = arch then Inr (remaining, Some 3, Some last_word)
            else
              rbind (package_deb_architecture_variable vars (bp_fields owning_package) ''ARCH_OS'') (\<lambda>os.
                if last_word = os then Inr (remaining, Some 2, Some last_word)
                else if last_word = ''all'' \<and> is_arch_all owning_package then Inr (remaining, Some (-1), Some last_word)
                else Inr (basename, None, None))))"

subsection \<open>The files that one entry stands for\<close>

definition expected_in :: "debian_entry \<Rightarrow> bool \<Rightarrow> string \<Rightarrow> string" where
  "expected_in path fuzzy_match basename =
     (case en_parent_path path of None \<Rightarrow> [] | Some p \<Rightarrow> p @ ''/'') @ basename
       @ (if fuzzy_match \<and> endswith (en_name path) ''.in'' then ''.in'' else [])"

definition fallback_file :: "debian_entry \<Rightarrow> string \<Rightarrow> ppf_spec \<Rightarrow> int \<Rightarrow> bool \<Rightarrow> string option \<Rightarrow> string \<Rightarrow> provided_file" where
  "fallback_file path key definition match_priority fuzzy_match expected_path n =
     \<lparr> pf_path = path, pf_package_name = n, pf_installed_as_basename = n, pf_provided_key = key,
       pf_definition = definition, pf_match_priority = match_priority, pf_fuzzy_match = fuzzy_match,
       pf_uses_explicit_package_name = False, pf_name_segment = None, pf_architecture_restriction = None,
       pf_expected_path = expected_path \<rparr>"

text \<open>A name without a period is the stem itself.\<close>

definition unprefixed_files :: "ppf_specs \<Rightarrow> package_table \<Rightarrow> string \<Rightarrow> debian_entry \<Rightarrow> provided_file list" where
  "unprefixed_files specs packages main_binary_package path =
     (case map_of specs (en_name path) of
        None \<Rightarrow> []
      | Some definition \<Rightarrow>
          if ps_packageless_is_fallback_for_all_packages definition
          then map (fallback_file path ''.UNNAMED.'' definition 0 False None) (map fst packages)
          else [fallback_file path ''.UNNAMED.'' definition 0 False None main_binary_package])"

text \<open>The file for one way to find the package; \<open>None\<close> goes on with the next way.\<close>

definition named_file ::
    "debian_entry \<Rightarrow> string \<Rightarrow> bool \<Rightarrow> bool \<Rightarrow> bool \<Rightarrow> int \<Rightarrow> string option \<Rightarrow> string option \<Rightarrow> ppf_spec \<Rightarrow> string option \<Rightarrow> provided_file" where
  "named_file path owning_package_name explicit_package bug_950723 fuzzy_match match_priority arch_restriction
       install_as_name definition typoed_stem =
     (let key = (case install_as_name of None \<Rightarrow> ''.UNNAMED.'' | Some n \<Rightarrow> n);
          base = (case install_as_name of None \<Rightarrow> owning_package_name | Some n \<Rightarrow> n);
          provided_key = (if bug_950723 then key @ ''@'' else key);
          basename = (if bug_950723 then base @ ''@'' else base);
          package_prefix = (if bug_950723 then owning_package_name @ ''@'' else owning_package_name);
          stem_name = (case install_as_name of None \<Rightarrow> ps_stem definition | Some n \<Rightarrow> n @ ''.'' @ ps_stem definition);
          full_name = (if explicit_package then package_prefix @ ''.'' @ stem_name else stem_name);
          arch_name = (case arch_restriction of
                         None \<Rightarrow> full_name
                       | Some a \<Rightarrow> if a = ''all'' then full_name else full_name @ ''.'' @ a)
      in \<lparr> pf_path = path, pf_package_name = owning_package_name,
           pf_installed_as_basename = (if typoed_stem \<noteq> None \<and> typoed_stem \<noteq> Some [] then arch_name else basename),
           pf_provided_key = provided_key, pf_definition = definition, pf_match_priority = match_priority,
           pf_fuzzy_match = fuzzy_match, pf_uses_explicit_package_name = explicit_package,
           pf_name_segment = install_as_name, pf_architecture_restriction = arch_restriction,
           pf_expected_path =
             (if typoed_stem \<noteq> None \<and> typoed_stem \<noteq> Some [] then Some (expected_in path fuzzy_match arch_name) else None) \<rparr>)"

record split_config =
  sc_distance :: "string \<Rightarrow> string \<Rightarrow> nat"
  sc_vars :: "string \<Rightarrow> string res"
  sc_specs :: ppf_specs
  sc_packages :: package_table
  sc_main_binary_package :: string
  sc_max_periods :: nat
  sc_allow_fuzzy_matches :: bool
  sc_period2stems :: "nat \<Rightarrow> string list"

definition files_for_prefix ::
    "split_config \<Rightarrow> debian_entry \<Rightarrow> string \<times> string \<times> bool \<times> bool \<Rightarrow> provided_file list option res" where
  "files_for_prefix c path way =
     (case way of (owning_package_name, rest, explicit_package, bug_950723) \<Rightarrow>
        rbind (lookup_package (sc_packages c) owning_package_name) (\<lambda>owning_package.
          let fuzzy_match = (sc_allow_fuzzy_matches c \<and> endswith rest ''.in'' \<and> length rest > 3);
              basename = (if fuzzy_match then take (length rest - 3) rest else rest)
          in rbind (architecture_suffix (sc_vars c) owning_package basename) (\<lambda>(stem_part, arch_priority, arch_restriction).
               let match_priority =
                     (case arch_priority of Some p \<Rightarrow> p | None \<Rightarrow> if explicit_package then 1 else 0)
               in rbind (find_definition (sc_distance c) (sc_specs c) (sc_period2stems c)
                           (arch_restriction \<noteq> None \<and> arch_restriction \<noteq> Some []) stem_part) (\<lambda>found.
                    case found of
                      None \<Rightarrow> Inr None
                    | Some (install_as_name, definition, typoed_stem) \<Rightarrow>
                        if bug_950723 \<and> \<not> ps_bug_950723 definition then Inr None
                        else
                          rbind (if \<not> sc_allow_fuzzy_matches c
                                 then check_mismatches definition owning_package install_as_name (arch_restriction \<noteq> None)
                                 else Inr ()) (\<lambda>_.
                            if ps_packageless_is_fallback_for_all_packages definition \<and> install_as_name = None
                               \<and> \<not> explicit_package \<and> arch_restriction = None
                            then
                              Inr (Some (map (\<lambda>n.
                                (fallback_file path (if bug_950723 then ''.UNNAMED.'' else ''.UNNAMED@.'') definition
                                   match_priority fuzzy_match
                                   (if typoed_stem \<noteq> None then Some (expected_in path fuzzy_match (ps_stem definition)) else None) n)
                                \<lparr>pf_installed_as_basename := (if bug_950723 then n @ ''@'' else n)\<rparr>)
                                (map fst (sc_packages c))))
                            else
                              Inr (Some [named_file path owning_package_name explicit_package bug_950723 fuzzy_match
                                           match_priority arch_restriction install_as_name definition typoed_stem]))))))"

fun first_prefix ::
    "split_config \<Rightarrow> debian_entry \<Rightarrow> (string \<times> string \<times> bool \<times> bool) list \<Rightarrow> provided_file list res" where
  "first_prefix c path [] = Inr []"
| "first_prefix c path (way # ways) =
     rbind (files_for_prefix c path way) (\<lambda>r.
       case r of None \<Rightarrow> first_prefix c path ways | Some files \<Rightarrow> Inr files)"

definition split_path :: "split_config \<Rightarrow> debian_entry \<Rightarrow> provided_file list res" where
  "split_path c path =
     (if CHR ''.'' \<notin> set (en_name path)
      then Inr (unprefixed_files (sc_specs c) (sc_packages c) (sc_main_binary_package c) path)
      else
        rbind (find_package_name_prefix (sc_allow_fuzzy_matches c) (set (map fst (sc_packages c)))
                 (sc_main_binary_package c) (sc_max_periods c) (en_name path)) (first_prefix c path))"

subsection \<open>All files of \<^verbatim>\<open>debian/\<close>\<close>

type_synonym provided_table = "((string \<times> string) \<times> provided_file) list"

definition match_key :: "provided_file \<Rightarrow> string \<times> string" where
  "match_key f = (ps_stem (pf_definition f), pf_provided_key f)"

definition provide :: "provided_file \<Rightarrow> (string \<times> provided_table) list \<Rightarrow> (string \<times> provided_table) list res" where
  "provide f provided_files =
     (case map_of provided_files (pf_package_name f) of
        None \<Rightarrow> Inl KeyError
      | Some data \<Rightarrow>
          (case map_of data (match_key f) of
             Some existing \<Rightarrow>
               if pf_match_priority existing > pf_match_priority f then Inr provided_files
               else Inr (AList.update (pf_package_name f) (AList.update (match_key f) f data) provided_files)
           | None \<Rightarrow> Inr (AList.update (pf_package_name f) (AList.update (match_key f) f data) provided_files)))"

definition ignored_entry :: "string set \<Rightarrow> debian_entry \<Rightarrow> bool" where
  "ignored_entry ignore_paths entry \<longleftrightarrow>
     en_is_dir entry \<or> en_path entry \<in> ignore_paths \<or> en_name entry \<in> set KNOWN_NON_PPFS"

fun provide_entries ::
    "split_config \<Rightarrow> string set \<Rightarrow> debian_entry list \<Rightarrow> (string \<times> provided_table) list \<Rightarrow> (string \<times> provided_table) list res" where
  "provide_entries c ignore_paths [] provided_files = Inr provided_files"
| "provide_entries c ignore_paths (entry # entries) provided_files =
     (if ignored_entry ignore_paths entry then provide_entries c ignore_paths entries provided_files
      else
        rbind (split_path c entry) (\<lambda>files.
          rbind (rfold provide files provided_files) (provide_entries c ignore_paths entries)))"

record provided_result =
  pr_auto_installable :: "provided_file list"
  pr_reserved_only :: "(string \<times> provided_file list) list"

text \<open>\<^verbatim>\<open>defaultdict(list)\<close>: the files by their stem, in the order in which the stems come up.\<close>

definition add_reserved :: "provided_file \<Rightarrow> (string \<times> provided_file list) list \<Rightarrow> (string \<times> provided_file list) list" where
  "add_reserved f reserved =
     (let stem = ps_stem (pf_definition f) in
      AList.update stem ((case map_of reserved stem of None \<Rightarrow> [] | Some fs \<Rightarrow> fs) @ [f]) reserved)"

definition provided_result_of :: "provided_table \<Rightarrow> provided_result" where
  "provided_result_of data =
     \<lparr> pr_auto_installable = filter (\<lambda>f. \<not> ps_reservation_only (pf_definition f)) (map snd data),
       pr_reserved_only = fold add_reserved (filter (\<lambda>f. ps_reservation_only (pf_definition f)) (map snd data)) [] \<rparr>"

definition main_package :: "bool \<Rightarrow> package_table \<Rightarrow> string option res" where
  "main_package allow_fuzzy_matches packages =
     rbind (rmapM (\<lambda>b. field (bp_fields b) ''Package'') (filter bp_is_main (map snd packages))) (\<lambda>main_packages.
       case main_packages of
         m # _ \<Rightarrow> Inr (Some m)
       | [] \<Rightarrow>
           if \<not> allow_fuzzy_matches then Inl AssertionErr
           else Inr (case List.map_filter (\<lambda>b. map_of (bp_fields b) ''Package'') (map snd packages) of
                       [] \<Rightarrow> None | n # _ \<Rightarrow> Some n))"

definition max_periods_in :: "package_table \<Rightarrow> nat" where
  "max_periods_in packages = foldr max (map (\<lambda>n. count_list n CHR ''.'') (map fst packages)) 0"

definition detect_config ::
    "(string \<Rightarrow> string \<Rightarrow> nat) \<Rightarrow> (string \<Rightarrow> string res) \<Rightarrow> ppf_specs \<Rightarrow> package_table \<Rightarrow> bool \<Rightarrow> bool \<Rightarrow> string \<Rightarrow> split_config" where
  "detect_config distance vars specs packages allow_fuzzy_matches detect_typos main =
     \<lparr> sc_distance = distance, sc_vars = vars, sc_specs = specs, sc_packages = packages, sc_main_binary_package = main,
       sc_max_periods = max_periods_in packages, sc_allow_fuzzy_matches = allow_fuzzy_matches,
       sc_period2stems = period_stem detect_typos (map fst specs) \<rparr>"

definition detect_all_packager_provided_files ::
    "(string \<Rightarrow> string \<Rightarrow> nat) \<Rightarrow> (string \<Rightarrow> string res) \<Rightarrow> ppf_specs \<Rightarrow> debian_entry list \<Rightarrow> package_table \<Rightarrow> bool \<Rightarrow> bool \<Rightarrow>
     string set \<Rightarrow> (string \<times> provided_result) list res" where
  "detect_all_packager_provided_files distance vars specs debian_dir packages allow_fuzzy_matches detect_typos ignore_paths =
     rbind (main_package allow_fuzzy_matches packages) (\<lambda>main.
       case main of
         None \<Rightarrow> Inr []
       | Some m \<Rightarrow>
           rmap (map (\<lambda>(n, data). (n, provided_result_of data)))
             (provide_entries (detect_config distance vars specs packages allow_fuzzy_matches detect_typos m) ignore_paths
                debian_dir (map (\<lambda>(n, _). (n, [])) packages)))"


subsection \<open>Which file wins\<close>

definition rival :: "provided_file \<Rightarrow> provided_file \<Rightarrow> bool" where
  "rival f g \<longleftrightarrow> pf_package_name f = pf_package_name g \<and> match_key f = match_key g"

text \<open>The last one of the highest priority among the files for the same package and purpose.\<close>

definition winner :: "provided_file list \<Rightarrow> provided_file \<Rightarrow> bool" where
  "winner fs f \<longleftrightarrow>
     (\<exists>pre post. fs = pre @ f # post
        \<and> (\<forall>g\<in>set pre. rival g f \<longrightarrow> pf_match_priority g \<le> pf_match_priority f)
        \<and> (\<forall>g\<in>set post. rival g f \<longrightarrow> pf_match_priority g < pf_match_priority f))"

lemma winner_Nil [simp]: "\<not> winner [] f"
  by (simp add: winner_def)

lemma winner_highest: "winner fs f \<Longrightarrow> g \<in> set fs \<Longrightarrow> rival g f \<Longrightarrow> pf_match_priority g \<le> pf_match_priority f"
  by (force simp: winner_def)

lemma winner_snoc:
  "winner (fs @ [f]) g \<longleftrightarrow>
     g = f \<and> (\<forall>x\<in>set fs. rival x f \<longrightarrow> pf_match_priority x \<le> pf_match_priority f)
     \<or> winner fs g \<and> (rival f g \<longrightarrow> pf_match_priority f < pf_match_priority g)"
proof
  assume "winner (fs @ [f]) g"
  then obtain pre post where w: "fs @ [f] = pre @ g # post"
      "\<forall>x\<in>set pre. rival x g \<longrightarrow> pf_match_priority x \<le> pf_match_priority g"
      "\<forall>x\<in>set post. rival x g \<longrightarrow> pf_match_priority x < pf_match_priority g"
    unfolding winner_def by blast
  show "g = f \<and> (\<forall>x\<in>set fs. rival x f \<longrightarrow> pf_match_priority x \<le> pf_match_priority f)
      \<or> winner fs g \<and> (rival f g \<longrightarrow> pf_match_priority f < pf_match_priority g)"
  proof (cases post rule: rev_cases)
    case Nil
    with w show ?thesis by simp
  next
    case (snoc post' x)
    with w(1) have "x = f" "fs = pre @ g # post'" by auto
    with w(2,3) snoc show ?thesis unfolding winner_def by auto
  qed
next
  assume "g = f \<and> (\<forall>x\<in>set fs. rival x f \<longrightarrow> pf_match_priority x \<le> pf_match_priority f)
      \<or> winner fs g \<and> (rival f g \<longrightarrow> pf_match_priority f < pf_match_priority g)"
  then show "winner (fs @ [f]) g"
  proof
    assume "g = f \<and> (\<forall>x\<in>set fs. rival x f \<longrightarrow> pf_match_priority x \<le> pf_match_priority f)"
    then show ?thesis unfolding winner_def by (intro exI[of _ fs] exI[of _ "[]"]) simp
  next
    assume g: "winner fs g \<and> (rival f g \<longrightarrow> pf_match_priority f < pf_match_priority g)"
    then obtain pre post where "fs = pre @ g # post"
        "\<forall>x\<in>set pre. rival x g \<longrightarrow> pf_match_priority x \<le> pf_match_priority g"
        "\<forall>x\<in>set post. rival x g \<longrightarrow> pf_match_priority x < pf_match_priority g"
      unfolding winner_def by blast
    with g show ?thesis unfolding winner_def by (intro exI[of _ pre] exI[of _ "post @ [f]"]) auto
  qed
qed

lemma rival_refl [simp]: "rival f f"
  by (simp add: rival_def)

lemma rival_sym: "rival f g \<Longrightarrow> rival g f"
  by (simp add: rival_def)

lemma rival_trans: "rival f g \<Longrightarrow> rival g h \<Longrightarrow> rival f h"
  by (simp add: rival_def)

lemma winner_exists: "f \<in> set fs \<Longrightarrow> \<exists>g. winner fs g \<and> rival f g"
proof (induction fs arbitrary: f rule: rev_induct)
  case (snoc x fs)
  show ?case
  proof (cases "rival f x \<and> (\<forall>y\<in>set fs. rival y x \<longrightarrow> pf_match_priority y \<le> pf_match_priority x)")
    case True
    then show ?thesis by (auto simp: winner_snoc)
  next
    case False
    have "\<exists>y\<in>set fs. rival f y \<and> (rival f x \<longrightarrow> pf_match_priority x < pf_match_priority y)"
    proof (cases "rival f x")
      case True
      with False obtain y where "y \<in> set fs" "rival y x" "pf_match_priority x < pf_match_priority y" by auto
      with True show ?thesis by (blast intro: rival_sym rival_trans)
    next
      case False
      then have "f \<noteq> x" by auto
      with snoc.prems have "f \<in> set fs" by simp
      with False show ?thesis by (auto intro!: bexI[of _ f])
    qed
    then obtain y where y: "y \<in> set fs" "rival f y" "rival f x \<longrightarrow> pf_match_priority x < pf_match_priority y" by blast
    from snoc.IH[OF y(1)] obtain g where g: "winner fs g" "rival y g" by blast
    then have fg: "rival f g" using y(2) by (blast intro: rival_trans)
    have "pf_match_priority x < pf_match_priority g" if "rival x g"
    proof -
      have "rival f x" using fg that by (blast intro: rival_sym rival_trans)
      with y(3) winner_highest[OF g(1) y(1) g(2)] show ?thesis by simp
    qed
    with g(1) fg show ?thesis by (auto simp: winner_snoc)
  qed
qed simp

text \<open>What the tables hold after some files: for each package and purpose the winner.\<close>

definition holds_winners :: "provided_file list \<Rightarrow> (string \<times> provided_table) list \<Rightarrow> bool" where
  "holds_winners fs t \<longleftrightarrow>
     (\<forall>n data. map_of t n = Some data \<longrightarrow>
        distinct (map fst data) \<and>
        (\<forall>k g. map_of data k = Some g \<longleftrightarrow> winner fs g \<and> pf_package_name g = n \<and> match_key g = k))"

lemma holds_winnersD:
  assumes "holds_winners fs t" "map_of t n = Some data"
  shows "distinct (map fst data)"
    and "map_of data k = Some g \<longleftrightarrow> winner fs g \<and> pf_package_name g = n \<and> match_key g = k"
  using assms unfolding holds_winners_def by blast+

lemma provide_keys: "provide f t = Inr t' \<Longrightarrow> map fst t' = map fst t"
  by (force simp: provide_def update_keys split: option.splits if_splits dest: map_of_SomeD)

lemma provide_holds_winners:
  assumes h: "holds_winners fs t" and p: "provide f t = Inr t'"
  shows "holds_winners (fs @ [f]) t'"
proof -
  let ?n = "pf_package_name f" and ?k = "match_key f"
  from p obtain data where data: "map_of t ?n = Some data" by (auto simp: provide_def split: option.splits)
  note dist = holds_winnersD(1)[OF h data] and win = holds_winnersD(2)[OF h data]
  have other: "winner (fs @ [f]) g \<longleftrightarrow> winner fs g" if "\<not> rival f g" for g
    using that by (auto simp: winner_snoc)
  have this_key: "rival f g \<longleftrightarrow> pf_package_name g = ?n \<and> match_key g = ?k" for g
    by (auto simp: rival_def)
  show ?thesis
  proof (cases "\<exists>e. map_of data ?k = Some e \<and> pf_match_priority e > pf_match_priority f")
    case True
    then obtain e where e: "map_of data ?k = Some e" "pf_match_priority e > pf_match_priority f" by blast
    then have "winner fs e" "rival e f" using win[of ?k e] by (auto simp: rival_def)
    have same: "winner (fs @ [f]) g \<longleftrightarrow> winner fs g" for g
    proof (cases "rival f g")
      case True
      have "g = e" if "winner fs g" using win[of ?k g] e(1) that True by (simp add: this_key)
      moreover have "e \<in> set fs" using \<open>winner fs e\<close> by (auto simp: winner_def)
      ultimately show ?thesis using e(2) \<open>rival e f\<close> by (auto simp: winner_snoc dest!: bspec)
    qed (rule other)
    from p data e have "t' = t" by (simp add: provide_def)
    with h show ?thesis unfolding holds_winners_def same by blast
  next
    case False
    with p data have t': "t' = AList.update ?n (AList.update ?k f data) t"
      by (auto simp: provide_def split: option.splits)
    have low: "pf_match_priority x \<le> pf_match_priority f" if "x \<in> set fs" "rival x f" for x
    proof -
      from winner_exists[OF that(1)] obtain g where g: "winner fs g" "rival x g" by blast
      then have "map_of data ?k = Some g" using win[of ?k g] that(2) by (auto simp: rival_def)
      with False winner_highest[OF g(1) that(1) g(2)] show ?thesis by fastforce
    qed
    have now: "winner (fs @ [f]) g \<longleftrightarrow> g = f" if "rival f g" for g
    proof
      assume "winner (fs @ [f]) g"
      then show "g = f"
      proof (rule winner_snoc[THEN iffD1, THEN disjE])
        assume g: "winner fs g \<and> (rival f g \<longrightarrow> pf_match_priority f < pf_match_priority g)"
        then have "g \<in> set fs" by (auto simp: winner_def)
        with low[of g] g that show ?thesis by (auto dest: rival_sym)
      qed simp
    next
      assume "g = f" with low show "winner (fs @ [f]) g" by (simp add: winner_snoc)
    qed
    show ?thesis
      unfolding holds_winners_def
    proof (intro allI impI)
      fix n data' assume d': "map_of t' n = Some data'"
      show "distinct (map fst data') \<and>
          (\<forall>k g. map_of data' k = Some g \<longleftrightarrow> winner (fs @ [f]) g \<and> pf_package_name g = n \<and> match_key g = k)"
      proof (cases "n = ?n")
        case True
        with d' t' have d: "data' = AList.update ?k f data" by (simp add: update_conv)
        have "map_of data' k = Some g \<longleftrightarrow> winner (fs @ [f]) g \<and> pf_package_name g = n \<and> match_key g = k" for k g
        proof (cases "k = ?k")
          case k: True
          then show ?thesis using now[of g] True unfolding d by (auto simp: update_conv this_key)
        next
          case k: False
          then have "map_of data' k = map_of data k" unfolding d by (simp add: update_conv')
          moreover have "\<not> rival f g" if "match_key g = k" using that k by (auto simp: rival_def)
          ultimately show ?thesis using win[of k g] other[of g] True by auto
        qed
        then show ?thesis using distinct_update[OF dist] d by simp
      next
        case False
        with d' t' have "map_of t n = Some data'" by (simp add: update_conv')
        note d = holds_winnersD(1)[OF h this] and w = holds_winnersD(2)[OF h this]
        have "\<not> rival f g" if "pf_package_name g = n" for g using that False by (auto simp: rival_def)
        with other have "winner (fs @ [f]) g \<and> pf_package_name g = n \<longleftrightarrow> winner fs g \<and> pf_package_name g = n" for g by blast
        with d w show ?thesis by blast
      qed
    qed
  qed
qed


lemma provide_all:
  "rfold provide fs t = Inr t' \<Longrightarrow> holds_winners gs t \<Longrightarrow> holds_winners (gs @ fs) t' \<and> map fst t' = map fst t"
proof (induction fs arbitrary: t gs)
  case (Cons f fs)
  then obtain t1 where t1: "provide f t = Inr t1" "rfold provide fs t1 = Inr t'" by (auto simp: res_simps)
  from Cons.IH[OF t1(2) provide_holds_winners[OF Cons.prems(2) t1(1)]] provide_keys[OF t1(1)] show ?case by simp
qed simp

lemma provide_entries_fold:
  "provide_entries c ig es t = Inr t' \<Longrightarrow>
   \<exists>fss. rmapM (split_path c) (filter (\<lambda>e. \<not> ignored_entry ig e) es) = Inr fss \<and> rfold provide (concat fss) t = Inr t'"
proof (induction es arbitrary: t)
  case (Cons e es)
  show ?case
  proof (cases "ignored_entry ig e")
    case False
    with Cons.prems obtain fs t1 where f: "split_path c e = Inr fs" "rfold provide fs t = Inr t1"
        "provide_entries c ig es t1 = Inr t'"
      by (auto simp: res_simps)
    from Cons.IH[OF f(3)] f(1,2) False show ?thesis by (auto simp: res_simps rfold_append)
  qed (use Cons in simp)
qed simp

definition reserved_for :: "string \<Rightarrow> provided_result \<Rightarrow> provided_file list" where
  "reserved_for s r = (case map_of (pr_reserved_only r) s of None \<Rightarrow> [] | Some fs \<Rightarrow> fs)"

lemma reserved_by_stem:
  "(case map_of (fold add_reserved fs r) s of None \<Rightarrow> [] | Some x \<Rightarrow> x) =
     (case map_of r s of None \<Rightarrow> [] | Some x \<Rightarrow> x) @ filter (\<lambda>f. ps_stem (pf_definition f) = s) fs"
  by (induction fs arbitrary: r) (auto simp: add_reserved_def Let_def update_conv' split: option.splits)

text \<open>C40: For each package and purpose (the stem with the name or the kind of default), the detection keeps the last
  file of the highest priority among all files that the entries of \<^verbatim>\<open>debian/\<close> stand for, and nothing else;
  those of kinds that are only reserved are kept apart by their stem, and every package has a result.\<close>

theorem packager_provided_files_best:
  assumes ok: "detect_all_packager_provided_files distance vars specs debian_dir packages fuzzy typos ignore_paths = Inr result"
    and main: "main_package fuzzy packages = Inr (Some m)" and keys: "distinct (map fst packages)"
  shows "\<exists>candidates.
      rmapM (split_path (detect_config distance vars specs packages fuzzy typos m))
        (filter (\<lambda>e. \<not> ignored_entry ignore_paths e) debian_dir) = Inr candidates
      \<and> map fst result = map fst packages
      \<and> (\<forall>(n, r)\<in>set result.
           set (pr_auto_installable r) =
             {f. winner (concat candidates) f \<and> pf_package_name f = n \<and> \<not> ps_reservation_only (pf_definition f)}
           \<and> (\<forall>s. set (reserved_for s r) =
                {f. winner (concat candidates) f \<and> pf_package_name f = n \<and> ps_reservation_only (pf_definition f)
                  \<and> ps_stem (pf_definition f) = s}))"
proof -
  let ?start = "map (\<lambda>(n, _). (n, [])) packages :: (string \<times> provided_table) list"
  from ok main obtain t where t: "provide_entries (detect_config distance vars specs packages fuzzy typos m) ignore_paths
        debian_dir ?start = Inr t"
      and result: "result = map (\<lambda>(n, data). (n, provided_result_of data)) t"
    by (auto simp: detect_all_packager_provided_files_def res_simps)
  from provide_entries_fold[OF t] obtain fss where
      fss: "rmapM (split_path (detect_config distance vars specs packages fuzzy typos m))
        (filter (\<lambda>e. \<not> ignored_entry ignore_paths e) debian_dir) = Inr fss"
      and fold: "rfold provide (concat fss) ?start = Inr t" by blast
  have "holds_winners [] ?start"
    by (auto simp: holds_winners_def dest!: map_of_SomeD)
  from provide_all[OF fold this] have h: "holds_winners (concat fss) t" and k: "map fst t = map fst packages"
    by (simp_all add: case_prod_unfold)
  have "set (pr_auto_installable (provided_result_of data)) =
             {f. winner (concat fss) f \<and> pf_package_name f = n \<and> \<not> ps_reservation_only (pf_definition f)}
           \<and> (\<forall>s. set (reserved_for s (provided_result_of data)) =
                {f. winner (concat fss) f \<and> pf_package_name f = n \<and> ps_reservation_only (pf_definition f)
                  \<and> ps_stem (pf_definition f) = s})" if nd: "(n, data) \<in> set t" for n data
  proof -
    have "map_of t n = Some data" using nd keys k by simp
    note d = holds_winnersD(1)[OF h this] and w = holds_winnersD(2)[OF h this]
    have s: "g \<in> snd ` set data \<longleftrightarrow> winner (concat fss) g \<and> pf_package_name g = n" for g
    proof
      assume "g \<in> snd ` set data"
      then obtain k where "(k, g) \<in> set data" by force
      then have "map_of data k = Some g" using d by (simp del: split_paired_All)
      with w show "winner (concat fss) g \<and> pf_package_name g = n" by blast
    next
      assume "winner (concat fss) g \<and> pf_package_name g = n"
      with w have "map_of data (match_key g) = Some g" by blast
      then show "g \<in> snd ` set data" by (force dest: map_of_SomeD)
    qed
    show ?thesis by (auto simp: provided_result_of_def reserved_for_def reserved_by_stem s)
  qed
  then have "\<forall>(n, r)\<in>set result.
           set (pr_auto_installable r) =
             {f. winner (concat fss) f \<and> pf_package_name f = n \<and> \<not> ps_reservation_only (pf_definition f)}
           \<and> (\<forall>s. set (reserved_for s r) =
                {f. winner (concat fss) f \<and> pf_package_name f = n \<and> ps_reservation_only (pf_definition f)
                  \<and> ps_stem (pf_definition f) = s})"
    unfolding result by force
  moreover have "map fst result = map fst packages" unfolding result k[symmetric] by (auto simp: case_prod_unfold)
  ultimately show ?thesis using fss by blast
qed


subsection \<open>Taking a composed name apart\<close>

lemma split_max_not_Nil [simp]: "split_max c n s \<noteq> []"
  by (induction c n s rule: split_max.induct) (auto split: prod.splits option.splits)

lemma join_split_max [simp]: "join [c] (split_max c n s) = s"
  by (induction c n s rule: split_max.induct)
    (auto split: prod.splits option.splits simp: join_Cons dest: split1_Some split1_None)

lemma count_absent: "c \<notin> set s \<Longrightarrow> count_list s c = 0"
  by (induction s) auto

lemma length_split_max: "length (split_max c n s) = Suc (min n (count_list s c))"
proof (induction c n s rule: split_max.induct)
  case (2 c n s)
  show ?case
  proof (cases "split1 c s")
    case (Pair a b)
    show ?thesis
    proof (cases b)
      case None
      with Pair split1_None[of c s a] show ?thesis by (simp add: count_absent)
    next
      case (Some r)
      with Pair split1_Some[of c s a r] 2[OF Pair[symmetric]] show ?thesis by (simp add: count_absent)
    qed
  qed
qed simp

lemma split_max_part:
  "1 \<le> p \<Longrightarrow> p < length (split_max c n s) \<Longrightarrow>
     s = join [c] (take p (split_max c n s)) @ c # join [c] (drop p (split_max c n s))
     \<and> count_list (join [c] (take p (split_max c n s))) c = p - 1"
proof (induction c n s arbitrary: p rule: split_max.induct)
  case (2 c n s)
  then obtain a r where s1: "split1 c s = (a, Some r)" by (auto split: prod.splits option.splits)
  then have s: "s = a @ c # r" "c \<notin> set a" by (auto dest: split1_Some)
  show ?case
  proof (cases "p = 1")
    case True
    with s1 s show ?thesis by (simp add: count_absent)
  next
    case False
    with 2(2,3) s1 have p: "1 \<le> p - 1" "p - 1 < length (split_max c n r)" by auto
    from p have t: "take p (a # split_max c n r) = a # take (p - 1) (split_max c n r)"
        "drop p (a # split_max c n r) = drop (p - 1) (split_max c n r)"
      by (simp_all add: take_Cons' drop_Cons')
    have "take (p - 1) (split_max c n r) \<noteq> []" using p by simp
    with 2(1)[OF s1[symmetric] _ p] s s1 p show ?thesis unfolding split_max.simps(2) s1
      by (simp add: t join_Cons count_absent)
  qed
qed simp

lemma sep_unique:
  assumes "a @ c # b = a' @ c # b'" "count_list a c = count_list a' c"
  shows "a = a' \<and> b = b'"
proof -
  from assms(1) obtain u where "a = a' @ u \<and> u @ c # b = c # b' \<or> a @ u = a' \<and> c # b = u @ c # b'"
    by (auto simp: append_eq_append_conv2)
  with assms(2) show ?thesis by (cases u) (auto split: if_splits)
qed

lemma upt_split_at: "i \<le> p \<Longrightarrow> p < n \<Longrightarrow> [i..<n] = [i..<p] @ p # [Suc p..<n]" for i p n :: nat
  by (metis le_add_diff_inverse less_imp_le_nat upt_add_eq_append upt_conv_Cons)

lemma prefix_found_first:
  assumes pkg: "pkg \<in> packages" "count_list pkg CHR ''.'' \<le> max_periods" and name: "name = pkg @ ''.'' @ rest"
    and longest: "\<And>q. q \<in> packages \<Longrightarrow> startswith name (q @ ''.'') \<Longrightarrow> length q \<le> length pkg"
  shows "\<exists>others. find_package_name_prefix False packages main max_periods name = Inr ((pkg, rest, True, False) # others)"
proof (cases "max_periods < 1")
  case True
  with pkg(2) have "CHR ''.'' \<notin> set pkg" by (simp add: count_list_0_iff)
  then have "split1 CHR ''.'' name = (pkg, Some rest)" unfolding name by (simp add: split1_append)
  with True pkg(1) show ?thesis by (simp add: find_package_name_prefix_def)
next
  case False
  define parts where "parts = split_max CHR ''.'' (max_periods + 1) name"
  let ?p = "Suc (count_list pkg CHR ''.'')"
  have len: "?p < length parts" using pkg(2) unfolding parts_def length_split_max name by simp
  have split: "name = join ''.'' (take p parts) @ CHR ''.'' # join ''.'' (drop p parts)"
      "count_list (join ''.'' (take p parts)) CHR ''.'' = p - 1" if "1 \<le> p" "p < length parts" for p
    using split_max_part[of p "CHR ''.''" "max_periods + 1" name] that unfolding parts_def by blast+
  have "join ''.'' (take ?p parts) @ CHR ''.'' # join ''.'' (drop ?p parts) = pkg @ CHR ''.'' # rest"
    using split(1)[of ?p] len name by simp
  from sep_unique[OF this] split(2)[of ?p] len
  have here: "join ''.'' (take ?p parts) = pkg" "join ''.'' (drop ?p parts) = rest" by simp_all
  have longer: "join ''.'' (take p parts) \<notin> packages" if p: "?p < p" "p < length parts" for p
  proof
    let ?q = "join ''.'' (take p parts)"
    assume "?q \<in> packages"
    moreover have q: "name = ?q @ CHR ''.'' # join ''.'' (drop p parts)" "count_list ?q CHR ''.'' = p - 1"
      using split[of p] p by auto
    moreover have "startswith name (?q @ ''.'')" using q(1) by (auto simp: startswith_iff)
    ultimately have "length ?q \<le> length pkg" using longest by blast
    then have "?q = take (length ?q) pkg" using q(1) name
      by (metis append_eq_append_conv_if append_Cons append_Nil)
    then have "count_list pkg CHR ''.'' = count_list ?q CHR ''.'' + count_list (drop (length ?q) pkg) CHR ''.''"
      by (metis append_take_drop_id count_list_append)
    with q(2) p show False by simp
  qed
  let ?way = "\<lambda>p. if join ''.'' (take p parts) \<in> packages
      then [(join ''.'' (take p parts), join ''.'' (drop p parts), True, False)] else []"
  have ways: "find_package_name_prefix False packages main max_periods name =
      Inr (concat (map ?way (rev [1..<length parts])) @ [(main, name, False, False)])"
    using False unfolding find_package_name_prefix_def parts_def[symmetric] Let_def by (simp cong: if_cong)
  have "concat (map ?way (rev [Suc ?p..<length parts])) = []" using longer by auto
  moreover have "?way ?p = [(pkg, rest, True, False)]" using here pkg(1) by simp
  moreover have "rev [1..<length parts] = rev [Suc ?p..<length parts] @ ?p # rev [1..<?p]"
    using upt_split_at[OF _ len, of 1] by simp
  ultimately have "concat (map ?way (rev [1..<length parts])) =
      (pkg, rest, True, False) # concat (map ?way (rev [1..<?p]))"
    by (simp only: map_append concat_append list.map concat.simps append_Nil append_Cons)
  with ways show ?thesis by (simp only: append_Cons) blast
qed

lemma stem_found:
  assumes none: "\<And>s. map_of specs s \<noteq> None \<Longrightarrow> endswith (j @ ''.'' @ stem) (''.'' @ s) \<Longrightarrow> length s \<le> length stem"
    and stem: "map_of specs stem = Some d" and acc: "acc \<noteq> [] \<or> j \<noteq> [] \<and> hd j \<noteq> CHR ''.''"
  shows "find_definition_in distance specs (\<lambda>_. []) had_arch
      (stem_splits (count_list (j @ ''.'' @ stem) CHR ''.'') acc (j @ ''.'' @ stem))
    = Inr (Some (Some (if acc = [] then j else acc @ ''.'' @ j), d, None))"
  using none acc
proof (induction "length j" arbitrary: j acc rule: less_induct)
  case less
  show ?case
  proof (cases "CHR ''.'' \<in> set j")
    case False
    then have "split1 CHR ''.'' (j @ ''.'' @ stem) = (j, Some stem)" by (simp add: split1_append)
    with False stem show ?thesis by (simp add: count_absent Let_def)
  next
    case True
    then obtain part j' where j: "j = part @ CHR ''.'' # j'" "CHR ''.'' \<notin> set part" by (meson split_list_first)
    have s1: "split1 CHR ''.'' (j @ ''.'' @ stem) = (part, Some (j' @ ''.'' @ stem))"
      using j by (simp add: split1_append)
    have longer: "map_of specs (j' @ ''.'' @ stem) = None"
    proof (rule ccontr)
      assume "map_of specs (j' @ ''.'' @ stem) \<noteq> None"
      moreover have "endswith (j @ ''.'' @ stem) (''.'' @ (j' @ ''.'' @ stem))" unfolding endswith_iff using j(1) by simp
      ultimately show False using less.prems(1) by fastforce
    qed
    let ?acc = "if acc \<noteq> [] then acc @ ''.'' @ part else part"
    have acc': "?acc \<noteq> []" using less.prems(2) j by (cases part) auto
    have "endswith (j @ ''.'' @ stem) (''.'' @ s)" if "endswith (j' @ ''.'' @ stem) (''.'' @ s)" for s
      using that j(1) by (auto simp: endswith_iff)
    then have none': "\<And>s. map_of specs s \<noteq> None \<Longrightarrow> endswith (j' @ ''.'' @ stem) (''.'' @ s) \<Longrightarrow> length s \<le> length stem"
      using less.prems(1) by blast
    have "length j' < length j" using j(1) by simp
    from less.hyps[OF this none', of ?acc] acc'
    have IH: "find_definition_in distance specs (\<lambda>_. []) had_arch
        (stem_splits (count_list (j' @ ''.'' @ stem) CHR ''.'') ?acc (j' @ ''.'' @ stem))
      = Inr (Some (Some (?acc @ ''.'' @ j'), d, None))" by simp
    have "count_list (j @ ''.'' @ stem) CHR ''.'' = Suc (count_list (j' @ ''.'' @ stem) CHR ''.'')"
      using j by (simp add: count_absent)
    then have "stem_splits (count_list (j @ ''.'' @ stem) CHR ''.'') acc (j @ ''.'' @ stem) =
        (j' @ ''.'' @ stem, Some ?acc, count_list (j' @ ''.'' @ stem) CHR ''.'')
        # stem_splits (count_list (j' @ ''.'' @ stem) CHR ''.'') ?acc (j' @ ''.'' @ stem)"
      by (simp only: stem_splits.simps s1 prod.case option.case Let_def)
    with IH longer j show ?thesis by simp
  qed
qed


text \<open>A file name of its parts, and what makes its parts unambiguous.\<close>

definition composed_name :: "string \<Rightarrow> string option \<Rightarrow> string \<Rightarrow> string option \<Rightarrow> string" where
  "composed_name package name_segment stem arch =
     package @ ''.'' @ (case name_segment of None \<Rightarrow> [] | Some i \<Rightarrow> i @ ''.'') @ stem
       @ (case arch of None \<Rightarrow> [] | Some a \<Rightarrow> ''.'' @ a)"

definition no_longer_package :: "package_table \<Rightarrow> string \<Rightarrow> string \<Rightarrow> bool" where
  "no_longer_package packages package name \<longleftrightarrow>
     (\<forall>q\<in>set (map fst packages). startswith name (q @ ''.'') \<longrightarrow> length q \<le> length package)"

definition no_longer_stem :: "ppf_specs \<Rightarrow> string option \<Rightarrow> string \<Rightarrow> bool" where
  "no_longer_stem specs name_segment stem \<longleftrightarrow>
     (case name_segment of
        None \<Rightarrow> True
      | Some i \<Rightarrow> i \<noteq> [] \<and> hd i \<noteq> CHR ''.''
          \<and> (\<forall>s\<in>set (map fst specs). endswith (''.'' @ i @ ''.'' @ stem) (''.'' @ s) \<longrightarrow> length s \<le> length stem))"

definition unambiguous_arch :: "(string \<Rightarrow> string res) \<Rightarrow> binary_package \<Rightarrow> ppf_spec \<Rightarrow> string \<Rightarrow> string option \<Rightarrow> bool" where
  "unambiguous_arch vars b d rest arch \<longleftrightarrow>
     (case arch of
        None \<Rightarrow> architecture_suffix vars b rest = Inr (rest, None, None)
      | Some a \<Rightarrow>
          a \<noteq> [] \<and> CHR ''.'' \<notin> set a \<and> \<not> is_arch_all b \<and> ps_allow_architecture_segment d
          \<and> (package_deb_architecture_variable vars (bp_fields b) ''ARCH'' = Inr a
             \<or> package_deb_architecture_variable vars (bp_fields b) ''ARCH_OS'' = Inr a
               \<and> (\<exists>x. x \<noteq> a \<and> package_deb_architecture_variable vars (bp_fields b) ''ARCH'' = Inr x)))"

lemma find_definition_composed:
  assumes "map_of specs stem = Some d" "no_longer_stem specs name_segment stem"
  shows "find_definition distance specs (\<lambda>_. []) had_arch
      ((case name_segment of None \<Rightarrow> [] | Some i \<Rightarrow> i @ ''.'') @ stem) = Inr (Some (name_segment, d, None))"
proof (cases name_segment)
  case None
  with assms(1) show ?thesis by (simp add: find_definition_def iterate_stem_splits_def Let_def)
next
  case (Some i)
  with assms(2) have i: "i \<noteq> []" "hd i \<noteq> CHR ''.''"
    and s: "\<And>s. map_of specs s \<noteq> None \<Longrightarrow> endswith (''.'' @ i @ ''.'' @ stem) (''.'' @ s) \<Longrightarrow> length s \<le> length stem"
    by (auto simp: no_longer_stem_def map_of_eq_None_iff)
  have "map_of specs (i @ ''.'' @ stem) = None" using s[of "i @ ''.'' @ stem"] by (fastforce simp: endswith_iff)
  moreover have "\<And>s. map_of specs s \<noteq> None \<Longrightarrow> endswith (i @ ''.'' @ stem) (''.'' @ s) \<Longrightarrow> length s \<le> length stem"
    using s by (auto simp: endswith_iff)
  from stem_found[OF this assms(1), where acc = "[]" and distance = distance and had_arch = had_arch] i
  have "find_definition_in distance specs (\<lambda>_. []) had_arch
      (stem_splits (count_list (i @ ''.'' @ stem) CHR ''.'') [] (i @ ''.'' @ stem)) = Inr (Some (Some i, d, None))" by simp
  ultimately show ?thesis unfolding find_definition_def iterate_stem_splits_def Let_def Some by simp
qed

lemma architecture_suffix_composed:
  assumes "unambiguous_arch vars b d (rest @ (case arch of None \<Rightarrow> [] | Some a \<Rightarrow> ''.'' @ a)) arch"
  shows "\<exists>p. architecture_suffix vars b (rest @ (case arch of None \<Rightarrow> [] | Some a \<Rightarrow> ''.'' @ a)) = Inr (rest, p, arch)
    \<and> (p = None \<longleftrightarrow> arch = None) \<and> (p = None \<or> p = Some 2 \<or> p = Some 3)"
proof (cases arch)
  case None
  with assms show ?thesis by (simp add: unambiguous_arch_def)
next
  case (Some a)
  with assms have a: "CHR ''.'' \<notin> set a"
      "package_deb_architecture_variable vars (bp_fields b) ''ARCH'' = Inr a
       \<or> package_deb_architecture_variable vars (bp_fields b) ''ARCH_OS'' = Inr a
         \<and> (\<exists>x. x \<noteq> a \<and> package_deb_architecture_variable vars (bp_fields b) ''ARCH'' = Inr x)"
    by (simp_all add: unambiguous_arch_def)
  have "rsplit1 CHR ''.'' (rest @ ''.'' @ a) = Some (rest, a)" using rsplit1_append[OF a(1), of rest] by simp
  with a(2) Some show ?thesis by (auto simp: architecture_suffix_def)
qed

text \<open>C39: A file name composed of a package, an optional name, a registered stem and an optional architecture is
  taken apart into just these parts, when no other package name and no longer stem fits it as well, and when
  the stem allows for the name and the architecture; the priority is higher with an architecture.\<close>

theorem composed_name_taken_apart:
  assumes name: "en_name entry = composed_name package name_segment stem arch"
    and package: "map_of (sc_packages c) package = Some b" "no_longer_package (sc_packages c) package (en_name entry)"
      "sc_max_periods c = max_periods_in (sc_packages c)"
    and stem: "map_of (sc_specs c) stem = Some d" "no_longer_stem (sc_specs c) name_segment stem"
      "name_segment \<noteq> None \<longrightarrow> ps_allow_name_segment d"
    and arch: "unambiguous_arch (sc_vars c) b d (drop (Suc (length package)) (en_name entry)) arch"
    and plain: "\<not> sc_allow_fuzzy_matches c" "sc_period2stems c = (\<lambda>_. [])"
  shows "\<exists>f. split_path c entry = Inr [f] \<and> pf_path f = entry \<and> pf_package_name f = package \<and> pf_name_segment f = name_segment
    \<and> pf_definition f = d \<and> pf_architecture_restriction f = arch \<and> pf_uses_explicit_package_name f
    \<and> pf_installed_as_basename f = (case name_segment of None \<Rightarrow> package | Some i \<Rightarrow> i)
    \<and> (if arch = None then pf_match_priority f = 1 else pf_match_priority f > 1)"
proof -
  let ?stem_part = "(case name_segment of None \<Rightarrow> [] | Some i \<Rightarrow> i @ ''.'') @ stem"
  let ?rest = "?stem_part @ (case arch of None \<Rightarrow> [] | Some a \<Rightarrow> ''.'' @ a)"
  have n: "en_name entry = package @ ''.'' @ ?rest" unfolding name composed_name_def by simp
  have mem: "package \<in> set (map fst (sc_packages c))" using package(1) by (force dest: map_of_SomeD)
  have "count_list package CHR ''.'' \<le> max_periods_in ps" if "package \<in> set (map fst ps)" for ps :: package_table
    using that by (induction ps) (fastforce simp: max_periods_in_def)+
  with mem package(3) have periods: "count_list package CHR ''.'' \<le> sc_max_periods c" by simp
  obtain others where prefixes: "find_package_name_prefix False (set (map fst (sc_packages c))) (sc_main_binary_package c)
      (sc_max_periods c) (en_name entry) = Inr ((package, ?rest, True, False) # others)"
    using prefix_found_first[OF mem periods n] package(2) unfolding no_longer_package_def by blast
  have "unambiguous_arch (sc_vars c) b d ?rest arch" using arch by (simp add: n)
  from architecture_suffix_composed[OF this] obtain p where
      suffix: "architecture_suffix (sc_vars c) b ?rest = Inr (?stem_part, p, arch)"
    and p: "p = None \<longleftrightarrow> arch = None" "p = None \<or> p = Some 2 \<or> p = Some 3" by blast
  have no_mismatch: "check_mismatches d b name_segment (arch \<noteq> None) = Inr ()"
    using stem(3) \<open>unambiguous_arch (sc_vars c) b d ?rest arch\<close>
    by (auto simp: check_mismatches_def unambiguous_arch_def)
  have "files_for_prefix c entry (package, ?rest, True, False) =
      Inr (Some [named_file entry package True False False (case p of Some p \<Rightarrow> p | None \<Rightarrow> 1) arch name_segment d None])"
    unfolding files_for_prefix_def prod.case
    using package(1) plain suffix find_definition_composed[OF stem(1,2), of "sc_distance c"] no_mismatch
    by (simp add: lookup_package_def)
  moreover have "CHR ''.'' \<in> set (en_name entry)" unfolding n by simp
  ultimately have "split_path c entry =
      Inr [named_file entry package True False False (case p of Some p \<Rightarrow> p | None \<Rightarrow> 1) arch name_segment d None]"
    using prefixes plain(1) by (simp add: split_path_def)
  then show ?thesis using p by (auto simp: named_file_def Let_def split: option.splits)
qed


subsection \<open>Worked examples\<close>

definition demo_spec :: "string \<Rightarrow> bool \<Rightarrow> ppf_spec" where
  "demo_spec stem fallback =
     \<lparr> ps_plugin_name = ''p'', ps_stem = stem, ps_installed_as_format = ''./usr/{name}'', ps_default_mode = 420,
       ps_default_priority = None, ps_allow_name_segment = True, ps_allow_architecture_segment = True,
       ps_post_formatting_rewrite = None, ps_packageless_is_fallback_for_all_packages = fallback,
       ps_reservation_only = False, ps_bug_950723 = False \<rparr>"

definition demo_pkg :: "string \<Rightarrow> bool \<Rightarrow> string \<times> binary_package" where
  "demo_pkg n main =
     (n, \<lparr> bp_fields = [(''Package'', n), (''Architecture'', ''any'')], bp_should_be_acted_on = True,
           bp_declared_arch_matches = True, bp_is_main = main \<rparr>)"

definition demo_vars :: "string \<Rightarrow> string res" where
  "demo_vars v =
     (if v = ''DEB_HOST_ARCH'' then Inr ''amd64'' else if v = ''DEB_HOST_ARCH_OS'' then Inr ''linux'' else Inl KeyError)"

definition demo_entry :: "string \<Rightarrow> debian_entry" where
  "demo_entry n = \<lparr> en_name = n, en_path = ''debian/'' @ n, en_parent_path = Some ''debian'', en_is_dir = False \<rparr>"

definition demo_detect :: "ppf_specs \<Rightarrow> string list \<Rightarrow> string list \<Rightarrow> (string \<times> provided_result) list res" where
  "demo_detect specs packages names =
     detect_all_packager_provided_files (\<lambda>_ _. 9) demo_vars specs (map demo_entry names)
       (map (\<lambda>n. demo_pkg n (n = hd packages)) packages) False False {}"

definition demo_files :: "ppf_specs \<Rightarrow> string list \<Rightarrow> string list \<Rightarrow> (string \<times> string list) list" where
  "demo_files specs packages names =
     map (\<lambda>(n, r). (n, map (\<lambda>f. en_name (pf_path f)) (pr_auto_installable r))) (projr (demo_detect specs packages names))"

lemma packager_provided_files_best_witness:
  "\<exists>candidates. map (map (\<lambda>f. (en_name (pf_path f), pf_match_priority f))) candidates
      = [[(''docs'', 0)], [(''foo.docs.amd64'', 3)], [(''foo.docs'', 1)]]
    \<and> (\<exists>n r. projr (demo_detect [(''docs'', demo_spec ''docs'' False)] [''foo''] [''docs'', ''foo.docs.amd64'', ''control'', ''foo.docs''])
          = [(n, r)]
        \<and> set (pr_auto_installable r) =
            {f. winner (concat candidates) f \<and> pf_package_name f = n \<and> \<not> ps_reservation_only (pf_definition f)})"
proof -
  let ?specs = "[(''docs'', demo_spec ''docs'' False)]"
  let ?d = "demo_detect ?specs [''foo''] [''docs'', ''foo.docs.amd64'', ''control'', ''foo.docs'']"
  let ?packages = "map (\<lambda>n. demo_pkg n (n = hd [''foo''])) [''foo'']"
  let ?config = "detect_config (\<lambda>_ _. 9) demo_vars ?specs ?packages False False ''foo''"
  let ?entries = "map demo_entry [''docs'', ''foo.docs.amd64'', ''control'', ''foo.docs'']"
  have "\<not> isl ?d \<and> length (projr ?d) = 1" by code_simp
  then obtain n r where ok: "?d = Inr [(n, r)]"
    by (cases ?d) (auto simp: length_Suc_conv)
  have main: "main_package False ?packages = Inr (Some ''foo'')" by code_simp
  have keys: "distinct (map fst ?packages)" by simp
  from packager_provided_files_best[OF ok[unfolded demo_detect_def] main keys] obtain candidates where
    c: "rmapM (split_path ?config) (filter (\<lambda>e. \<not> ignored_entry {} e) ?entries) = Inr candidates"
    and s: "set (pr_auto_installable r) =
            {f. winner (concat candidates) f \<and> pf_package_name f = n \<and> \<not> ps_reservation_only (pf_definition f)}"
    by auto
  have shown: "map (map (\<lambda>f. (en_name (pf_path f), pf_match_priority f)))
      (projr (rmapM (split_path ?config) (filter (\<lambda>e. \<not> ignored_entry {} e) ?entries)))
      = [[(''docs'', 0)], [(''foo.docs.amd64'', 3)], [(''foo.docs'', 1)]]" by code_simp
  from shown[unfolded c sum.sel] s show ?thesis unfolding ok sum.sel by (intro exI conjI) (assumption | rule HOL.refl)+
qed

lemma composed_name_taken_apart_witness:
  "\<exists>f. split_path (detect_config (\<lambda>_ _. 9) demo_vars [(''docs.d'', demo_spec ''docs.d'' False), (''d'', demo_spec ''d'' False)]
        [demo_pkg ''foo'' True, demo_pkg ''foo.bar'' False] False False ''foo'')
      (demo_entry ''foo.bar.x.y.docs.d.amd64'') = Inr [f]
    \<and> pf_package_name f = ''foo.bar'' \<and> pf_name_segment f = Some ''x.y'' \<and> ps_stem (pf_definition f) = ''docs.d''
    \<and> pf_architecture_restriction f = Some ''amd64''"
proof -
  let ?specs = "[(''docs.d'', demo_spec ''docs.d'' False), (''d'', demo_spec ''d'' False)]"
  let ?packages = "[demo_pkg ''foo'' True, demo_pkg ''foo.bar'' False]"
  let ?config = "detect_config (\<lambda>_ _. 9) demo_vars ?specs ?packages False False ''foo''"
  let ?entry = "demo_entry ''foo.bar.x.y.docs.d.amd64''"
  have 1: "en_name ?entry = composed_name ''foo.bar'' (Some ''x.y'') ''docs.d'' (Some ''amd64'')" by code_simp
  have 2: "map_of (sc_packages ?config) ''foo.bar'' = Some (snd (demo_pkg ''foo.bar'' False))" by code_simp
  have 3: "no_longer_package (sc_packages ?config) ''foo.bar'' (en_name ?entry)" by code_simp
  have 4: "sc_max_periods ?config = max_periods_in (sc_packages ?config)" by code_simp
  have 5: "map_of (sc_specs ?config) ''docs.d'' = Some (demo_spec ''docs.d'' False)"
    by (simp add: detect_config_def)
  have 6: "no_longer_stem (sc_specs ?config) (Some ''x.y'') ''docs.d''" by code_simp
  have 7: "Some ''x.y'' \<noteq> None \<longrightarrow> ps_allow_name_segment (demo_spec ''docs.d'' False)" by (simp add: demo_spec_def)
  have 8: "unambiguous_arch (sc_vars ?config) (snd (demo_pkg ''foo.bar'' False)) (demo_spec ''docs.d'' False)
      (drop (Suc (length ''foo.bar'')) (en_name ?entry)) (Some ''amd64'')"
    by (simp add: unambiguous_arch_def is_arch_all_def demo_pkg_def demo_spec_def detect_config_def
        package_deb_architecture_variable_def build_for_type_def demo_vars_def)
  have 9: "\<not> sc_allow_fuzzy_matches ?config" "sc_period2stems ?config = (\<lambda>_. [])"
    by (simp_all add: detect_config_def period_stem_def fun_eq_iff)
  have "ps_stem (demo_spec ''docs.d'' False) = ''docs.d''" by (simp add: demo_spec_def)
  with composed_name_taken_apart[OF 1 2 3 4 5 6 7 8 9] show ?thesis by fastforce
qed

text \<open>
  The default for all packages has another key when it is found by the second way than by the first, so that
  for a stem with a period the file of a package does not replace the default: the package gets both.
\<close>

lemma dotted_fallback_not_replaced:
  "demo_files [(''doc'', demo_spec ''doc'' True)] [''foo'', ''bar''] [''doc'', ''bar.doc'']
     = [(''foo'', [''doc'']), (''bar'', [''bar.doc''])]
   \<and> demo_files [(''doc.x'', demo_spec ''doc.x'' True)] [''foo'', ''bar''] [''doc.x'', ''bar.doc.x'']
     = [(''foo'', [''doc.x'']), (''bar'', [''doc.x'', ''bar.doc.x''])]"
  by code_simp

text \<open>
  When no package name has a period, a name that starts with a package is not tried for the main package; as soon as
  an unrelated package has one, it is.
\<close>

lemma unrelated_package_changes_detection:
  "demo_files [(''bar.doc'', demo_spec ''bar.doc'' False)] [''foo'', ''bar''] [''bar.doc''] = [(''foo'', []), (''bar'', [])]
   \<and> demo_files [(''bar.doc'', demo_spec ''bar.doc'' False)] [''foo'', ''bar'', ''x.y''] [''bar.doc'']
     = [(''foo'', [''bar.doc'']), (''bar'', []), (''x.y'', [])]"
  by code_simp

end
