(* ===== verification/EnvMod.thy ===== *)
theory EnvMod
  imports Util "HOL-Library.AList"
begin

section \<open>Changes of the environment (\<^verbatim>\<open>types.py\<close>, \<^verbatim>\<open>util.py\<close>)\<close>

text \<open>
  A build environment replaces and removes variables of the processes that a build runs.  An environment is the
  list of its variables in the order of Python's dict; the fields of a change are tuples.
\<close>

record environment_modification =
  em_replacements :: "(string \<times> string) list"
  em_removals :: "string list"

type_synonym environment = "(string \<times> string) list"

text \<open>\<^verbatim>\<open>__bool__\<close>\<close>

definition env_mod_true :: "environment_modification \<Rightarrow> bool" where
  "env_mod_true m \<longleftrightarrow> em_removals m = [] \<and> em_replacements m = []"

text \<open>\<^verbatim>\<open>for k, v in\<close> over the keys of a dict: each key has to be a string of two characters.\<close>

fun unpack_key :: "string \<Rightarrow> (string \<times> string) res" where
  "unpack_key [a, b] = Inr ([a], [b])"
| "unpack_key _ = Inl ValueError"

definition combine :: "environment_modification \<Rightarrow> environment_modification option \<Rightarrow> environment_modification res" where
  "combine m oth =
     (case oth of
        None \<Rightarrow> Inr m
      | Some x \<Rightarrow>
          if \<not> env_mod_true x then Inr m
          else
            (let existing = fold (\<lambda>(k, v). AList.update k v) (em_replacements m) [];
                 extra = fold (\<lambda>(k, v) e. if map_of existing k \<noteq> Some v then AList.update k v e else e) (em_replacements x) [];
                 extra_removals = filter (\<lambda>r. r \<notin> set (em_removals m)) (em_removals x)
             in rbind (if extra = [] then Inr (em_replacements m)
                       else
                         rbind (rmapM unpack_key (map fst existing)) (\<lambda>kvs.
                           Inr (filter (\<lambda>(k, _). map_of extra k = None) kvs
                                @ filter (\<lambda>(k, _). map_of extra k \<noteq> None) (em_replacements x)))) (\<lambda>new_replacements.
                  Inr \<lparr> em_replacements = new_replacements, em_removals = em_removals m @ extra_removals \<rparr>)))"

definition update_inplace :: "environment_modification \<Rightarrow> environment \<Rightarrow> environment" where
  "update_inplace m env =
     fold (\<lambda>k env. if map_of env k = None then env else AList.delete k env) (em_removals m)
       (fold (\<lambda>(k, v) env. if map_of env k = Some v then env else AList.update k v env) (em_replacements m) env)"

text \<open>The environment so far; \<open>None\<close> is the unchanged \<open>base_env\<close>.\<close>

definition current :: "environment \<Rightarrow> environment option \<Rightarrow> environment" where
  "current base_env updated_env = (case updated_env of None \<Rightarrow> base_env | Some e \<Rightarrow> e)"

fun compute_replacements :: "environment \<Rightarrow> (string \<times> string) list \<Rightarrow> environment option \<Rightarrow> environment option" where
  "compute_replacements base_env [] updated_env = updated_env"
| "compute_replacements base_env ((k, v) # rs) updated_env =
     compute_replacements base_env rs
       (if map_of base_env k = Some v then updated_env
        else Some (AList.update k v (current base_env updated_env)))"

fun compute_removals :: "environment \<Rightarrow> string list \<Rightarrow> environment option \<Rightarrow> environment option res" where
  "compute_removals base_env [] updated_env = Inr updated_env"
| "compute_removals base_env (k # ks) updated_env =
     (if map_of base_env k = None then compute_removals base_env ks updated_env
      else if map_of (current base_env updated_env) k = None then Inl KeyError
      else compute_removals base_env ks (Some (AList.delete k (current base_env updated_env))))"

definition compute_env :: "environment_modification \<Rightarrow> environment \<Rightarrow> environment res" where
  "compute_env m base_env =
     rmap (current base_env)
       (compute_removals base_env (em_removals m) (compute_replacements base_env (em_replacements m) None))"

text \<open>\<^verbatim>\<open>render_command\<close>: the parts for the environment are collected, but never make it into the prefix.\<close>

definition render_command :: "string list \<Rightarrow> string option \<Rightarrow> environment_modification option \<Rightarrow> string" where
  "render_command args cwd env_mod =
     (let env_mod_prefix = [];
          chdir_prefix =
            (case cwd of None \<Rightarrow> [] | Some d \<Rightarrow> if d = ''.'' then [] else ''cd '' @ escape_shell [d] @ '' && '')
      in chdir_prefix @ env_mod_prefix @ escape_shell args)"

subsection \<open>The two ways to apply a change agree\<close>

lemma compute_replacements_current:
  assumes "distinct (map fst rs)" "\<forall>k\<in>fst ` set rs. map_of (current base u) k = map_of base k"
  shows "current base (compute_replacements base rs u)
    = fold (\<lambda>(k, v) env. if map_of env k = Some v then env else AList.update k v env) rs (current base u)"
  using assms
proof (induction rs arbitrary: u)
  case (Cons r rs)
  obtain k v where r: "r = (k, v)" by (cases r)
  let ?u = "if map_of base k = Some v then u else Some (AList.update k v (current base u))"
  have "current base ?u = (if map_of (current base u) k = Some v then current base u else AList.update k v (current base u))"
    using Cons.prems(2) r by (simp add: current_def)
  moreover have "map_of (current base ?u) j = map_of base j" if "j \<in> fst ` set rs" for j
  proof -
    have "j \<noteq> k" using that Cons.prems(1) r by auto
    then show ?thesis using that Cons.prems(2) r by (auto simp: current_def update_conv')
  qed
  ultimately show ?case using Cons.IH[of ?u] Cons.prems(1) r by simp
qed simp

lemma compute_removals_current:
  assumes "distinct ks" "\<forall>k\<in>set ks. map_of (current base u) k = None \<longleftrightarrow> map_of base k = None"
  shows "\<exists>u'. compute_removals base ks u = Inr u' \<and> current base u'
    = fold (\<lambda>k env. if map_of env k = None then env else AList.delete k env) ks (current base u)"
  using assms
proof (induction ks arbitrary: u)
  case (Cons k ks)
  show ?case
  proof (cases "map_of base k = None")
    case True
    with Cons show ?thesis by simp
  next
    case False
    let ?u = "Some (AList.delete k (current base u))"
    have "\<forall>j\<in>set ks. map_of (current base ?u) j = None \<longleftrightarrow> map_of base j = None"
    proof
      fix j assume j: "j \<in> set ks"
      then have "j \<noteq> k" using Cons.prems(1) by auto
      with j Cons.prems(2) show "map_of (current base ?u) j = None \<longleftrightarrow> map_of base j = None"
        by (simp add: current_def[of base "Some _"] delete_conv')
    qed
    from Cons.IH[OF _ this] Cons.prems(1) obtain u' where "compute_removals base ks ?u = Inr u'" "current base u' =
        fold (\<lambda>k env. if map_of env k = None then env else AList.delete k env) ks (AList.delete k (current base u))"
      by (auto simp: current_def[of base "Some _"])
    moreover have "map_of (current base u) k \<noteq> None" using Cons.prems(2) False by simp
    ultimately show ?thesis using False by auto
  qed
qed simp

lemma map_of_replaced:
  "map_of (fold (\<lambda>(k, v) env. if map_of env k = Some v then env else AList.update k v env) rs env) j
     = (case map_of (rev rs) j of None \<Rightarrow> map_of env j | Some v \<Rightarrow> Some v)"
  by (induction rs arbitrary: env) (auto simp: update_conv' map_add_def split: option.splits)

text \<open>When no variable is replaced twice or removed twice, and every variable that is both replaced and removed was set
  before, \<^verbatim>\<open>compute_env\<close> succeeds and gives the environment that \<^verbatim>\<open>update_inplace\<close> leaves.\<close>

theorem compute_env_is_update_inplace:
  assumes "distinct (map fst (em_replacements m))" "distinct (em_removals m)"
    and "\<forall>k\<in>set (em_removals m). k \<in> fst ` set (em_replacements m) \<longrightarrow> map_of base k \<noteq> None"
  shows "compute_env m base = Inr (update_inplace m base)"
proof -
  let ?env = "fold (\<lambda>(k, v) env. if map_of env k = Some v then env else AList.update k v env) (em_replacements m) base"
  let ?u = "compute_replacements base (em_replacements m) None"
  have u: "current base ?u = ?env"
    using compute_replacements_current[OF assms(1), of base None] by (simp add: current_def)
  have "map_of ?env k = None \<longleftrightarrow> map_of base k = None" if "k \<in> set (em_removals m)" for k
  proof -
    have "map_of (rev (em_replacements m)) k = None" if "k \<notin> fst ` set (em_replacements m)"
      using that by (simp add: map_of_eq_None_iff)
    with assms(3) that show ?thesis by (auto simp: map_of_replaced split: option.splits)
  qed
  with compute_removals_current[OF assms(2), of base ?u] u
  show ?thesis by (auto simp: compute_env_def update_inplace_def)
qed

lemma compute_env_is_update_inplace_witness:
  "compute_env \<lparr>em_replacements = [(''A'', ''1''), (''B'', ''2'')], em_removals = [''C'']\<rparr> [(''B'', ''0''), (''C'', ''3'')]
     = Inr (update_inplace \<lparr>em_replacements = [(''A'', ''1''), (''B'', ''2'')], em_removals = [''C'']\<rparr> [(''B'', ''0''), (''C'', ''3'')])"
  by (rule compute_env_is_update_inplace) simp_all

subsection \<open>Where they do not, and what is lost\<close>

text \<open>The test of \<^verbatim>\<open>compute_env\<close> looks into the environment before the changes.\<close>

lemma compute_env_differs:
  "compute_env \<lparr>em_replacements = [(''A'', ''1''), (''A'', ''0'')], em_removals = []\<rparr> [(''A'', ''0'')] = Inr [(''A'', ''1'')]
   \<and> update_inplace \<lparr>em_replacements = [(''A'', ''1''), (''A'', ''0'')], em_removals = []\<rparr> [(''A'', ''0'')] = [(''A'', ''0'')]
   \<and> compute_env \<lparr>em_replacements = [], em_removals = [''A'', ''A'']\<rparr> [(''A'', ''0'')] = Inl KeyError
   \<and> compute_env \<lparr>em_replacements = [(''B'', ''1'')], em_removals = [''B'']\<rparr> [(''A'', ''0'')] = Inr [(''A'', ''0''), (''B'', ''1'')]
   \<and> update_inplace \<lparr>em_replacements = [(''B'', ''1'')], em_removals = [''B'']\<rparr> [(''A'', ''0'')] = [(''A'', ''0'')]"
  by code_simp

text \<open>\<^verbatim>\<open>__bool__\<close> is true exactly of the change that changes nothing, so that \<^verbatim>\<open>combine\<close> never adds anything.\<close>

lemma combine_changes_nothing: "combine m oth = Inr m"
  by (cases oth) (auto simp: combine_def env_mod_true_def Let_def)

lemma render_command_without_environment: "render_command args cwd env_mod = render_command args cwd None"
  by (simp add: render_command_def)

end
