(* ===== verification/Spec2Isabelle.thy ===== *)
theory Spec2Isabelle
  imports VirtFsProps PathUtil Util Subst PathMatch FsMode Packages Conditions TransformProps
    Overlay ManPage SourceMatch Install TarManifest SearchDirs DeclProps Interp RefineFs Maintscript ManifestParse Services
    PackagerFiles EnvMod
begin

section \<open>The core of debputy\<close>

text \<open>
  \<^verbatim>\<open>debputy\<close> builds Debian packages from a declarative manifest.  It reads \<^verbatim>\<open>debian/control\<close> and
  \<^verbatim>\<open>debian/debputy.manifest\<close>, distributes the files that the build left in its search directories over
  an in-memory tree for each binary package, transforms these trees as the manifest asks, generates maintainer
  scripts and other control files, and writes each tree as the members of a \<^verbatim>\<open>data.tar\<close>.  All paths below are
  relative to \<^verbatim>\<open>src/src/debputy/\<close>.

  \<^bold>\<open>How the parts interact.\<close>  The parser of the manifest (\<open>ManifestTypes\<close>, \<open>DeclParser\<close>) is generated from typed
  dictionaries that the plugins register; a rule of the manifest becomes a match rule (\<open>PathMatch\<close>), a condition
  (\<open>Conditions\<close>), a mode or an owner (\<open>FsMode\<close>), with its variables replaced (\<open>Subst\<close>).  The architecture values and
  the packages that conditions ask about come from \<open>Packages\<close>.  The generated parsers hang in one tree of keywords
  (\<open>Dispatch\<close>); reading a manifest runs it in a context with the packages, the variables and the build environments
  (\<open>ManifestParse\<close>), whose handlers leave conditions, transformations, snippets of maintainer scripts
  (\<open>Maintscript\<close>, \<open>CleanRules\<close>) and service rules (\<open>Services\<close>) with each package.  The files of \<^verbatim>\<open>debian/\<close> that are
  named after packages are found by \<open>PackagerFiles\<close> and become an installation rule.  Installation rules (\<open>Install\<close>) take paths out of
  the search directories (\<open>Overlay\<close>, in the order of \<open>SearchDirs\<close>) through one shared matcher (\<open>SourceMatch\<close>) and
  put them into the tree of a package (\<open>VirtFs\<close>); transformations (\<open>Transform\<close>, \<open>Interp\<close>) change this tree, and
  \<open>TarManifest\<close> writes it as the list of archive members that another process reads back.

  \<^bold>\<open>The library.\<close>
  \<^item> \<open>Prelude\<close>, \<open>PyStr\<close>, \<open>PyInt\<close>, \<open>Digits\<close>: errors as one datatype \<open>exn\<close>, results as sums with \<open>rbind\<close> and the
    collection \<open>res_simps\<close>, loops that may raise (\<open>rmapM\<close>, \<open>rfold\<close>), and the functions of Python's \<^verbatim>\<open>str\<close>, \<^verbatim>\<open>os.path\<close>
    and \<^verbatim>\<open>int\<close> that the sources call, on characters below 256.
  \<^item> \<open>PathUtil\<close>, \<open>Util\<close> (\<^verbatim>\<open>util.py\<close>): path normalisation and the policy for symlink targets, shell quoting with a
    reader of POSIX words as its specification, argument lists, globs and build profiles.
  \<^item> \<open>VirtFs\<close>, \<open>VirtFsInv\<close>, \<open>VirtFsProps\<close>, \<open>RefineFs\<close> (\<^verbatim>\<open>filesystem_scan.py\<close>): the tree of a package.  Objects are
    indices into a list of nodes, so that two references to an object are one index; a node has its parent, its
    entries, its class and its attributes.  \<open>VirtFsInv\<close> has the invariant \<open>wf_fs\<close> and that every operation keeps it,
    \<open>VirtFsProps\<close> the calls as a step relation with its reachable stores, \<open>RefineFs\<close> the refinement of a map from
    lists of names to entries.
  \<^item> \<open>Overlay\<close> (\<^verbatim>\<open>FSROOverlay\<close> of the same file): the read-only view of a directory on disk; the content of the disk
    is the parameter \<open>os_node\<close>.
  \<^item> \<open>Subst\<close> (\<^verbatim>\<open>substitution.py\<close>): a chain of scopes as a list, the innermost first, with use marks and caching.
  \<^item> \<open>PathMatch\<close> (\<^verbatim>\<open>path_matcher.py\<close>): match rules over an interface of trees.  The locale \<open>path_tree\<close> states what a
    rule relies on (complete and duplicate-free listings, lookups that stay in the tree); \<open>fs_tree\<close> interprets it
    on the store of \<open>VirtFs\<close>.  \<open>Overlay\<close> extends it to \<open>source_tree\<close> (parents, chains up to the search directory,
    paths on disk that identify), interpreted as \<open>ov_tree\<close>; the lemmas about the matcher and the installation are
    proved in these contexts and used through the interpretations.
  \<^item> \<open>FsMode\<close> (\<^verbatim>\<open>manifest_parser/util.py\<close>, \<^verbatim>\<open>manifest_parser/base_types.py\<close>): symbolic and octal modes, owners.
  \<^item> \<open>Packages\<close> (\<^verbatim>\<open>architecture_support.py\<close>, \<^verbatim>\<open>packages.py\<close>, \<^verbatim>\<open>_deb_options_profiles.py\<close>): architecture tables, the
    stanzas of \<^verbatim>\<open>debian/control\<close>, which packages are acted on.
  \<^item> \<open>Conditions\<close> (\<^verbatim>\<open>manifest_conditions.py\<close>): conditions, negation, grouping, evaluation.
  \<^item> \<open>Transform\<close>, \<open>TransformProps\<close> (\<^verbatim>\<open>transformation_rules.py\<close>), \<open>Interp\<close> (\<^verbatim>\<open>interpreter.py\<close>): the transformations
    with the effect of each on the tree, and the rewriting of interpreter lines.
  \<^item> \<open>ManPage\<close>, \<open>SourceMatch\<close>, \<open>Install\<close> (\<^verbatim>\<open>installations.py\<close>), \<open>SearchDirs\<close> (\<^verbatim>\<open>highlevel_manifest.py\<close>): where
    manual pages go, the shared matcher with its reservations and discard cache, the installation rules, the
    order of the search directories.
  \<^item> \<open>TarManifest\<close> (\<^verbatim>\<open>intermediate_manifest.py\<close> and its writer in \<^verbatim>\<open>highlevel_manifest.py\<close>): the members of the
    archive, their JSON form and the checks of the reader.
  \<^item> \<open>ManifestTypes\<close>, \<open>DeclParser\<close>, \<open>DeclProps\<close> (\<^verbatim>\<open>manifest_parser/\<close>): the types that describe a rule, the generator of
    parsers with its mappers and validators, and that what a generated parser returns has the declared type.
  \<^item> \<open>Maintscript\<close> (\<^verbatim>\<open>maintscript_snippet.py\<close>, \<^verbatim>\<open>packaging/alternatives.py\<close>): the snippets of a package, the script
    that is generated from them, the commands of \<^verbatim>\<open>dpkg-maintscript-helper\<close>, and the snippets of alternatives, which a
    reader of shell words reads back.
  \<^item> \<open>Dispatch\<close> (\<^verbatim>\<open>plugin/api/impl_types.py\<close>, \<^verbatim>\<open>highlevel_manifest_parser.py\<close>): \<open>input_parser\<close> is the tree of parsers
    with its keywords, \<open>parse_state\<close> the context they share, \<open>parse_input\<close> the recursive reading.  The locale
    \<open>context_relation\<close> states when a relation between the contexts before and after holds of the whole tree once it holds of
    the leaves; its interpretation \<open>kept\<close> gives that the stack of packages is balanced.
  \<^item> \<open>CleanRules\<close> (\<^verbatim>\<open>plugin/debputy/binary_package_rules.py\<close>): the rules for cleaning up after the removal of a
    package, from the parsed rules to the snippet of \<^verbatim>\<open>postrm\<close>.
  \<^item> \<open>ManifestParse\<close> (\<^verbatim>\<open>highlevel_manifest_parser.py\<close>, \<^verbatim>\<open>plugin/debputy/manifest_root_rules.py\<close>): the operations of the
    context, the manifest's own variables, the registration of the keywords of the root and of a package,
    \<^verbatim>\<open>from_yaml_dict\<close> and \<^verbatim>\<open>build_manifest\<close> with the checks at the end.
  \<^item> \<open>Services\<close> (\<^verbatim>\<open>deb_packaging_support.py\<close>, \<^verbatim>\<open>plugin/api/impl.py\<close>, \<^verbatim>\<open>plugin/debputy/binary_package_rules.py\<close>): what the
    detectors of the service managers register, and the loop that applies the service rules; its reference
    (\<open>concerned\<close>, \<open>changed\<close>, \<open>rule_effect\<close>) is the manual's description, with which the loop agrees where no rule says
    \<^verbatim>\<open>enable-on-install\<close> and a name stands for one type and scope.
  \<^item> \<open>PackagerFiles\<close> (\<^verbatim>\<open>packager_provided_files.py\<close>, \<^verbatim>\<open>plugin/api/impl.py\<close>): the kinds of packager-provided files, how the
    name of a file of \<^verbatim>\<open>debian/\<close> is taken apart, and which file wins.
  \<^item> \<open>EnvMod\<close> (\<^verbatim>\<open>types.py\<close>): the changes a build environment makes to the variables of processes.

  \<^bold>\<open>What the lemmas show.\<close>  For the tree: its invariant, read-only stores do not change, unlinking removes exactly a
  subtree, listings are complete, an object is found under its own path, and the calls implement their
  specification on maps.  For the strings: normal forms, and round trips against independent readers (a POSIX
  shell, a reader of the manual page path, the parser of the intermediate manifest).  For the matchers: a rule
  yields what it describes exactly once (a directory rule the directory itself as well), and taken or discarded paths are never taken again.  For the parsers:
  typing and presence of attributes, independence of the order of keys, rules only for declared packages, and no
  declared variable or build environment left unused.  For clean-up rules: the script is about the patterns of
  the rule, escaped, and patterns without variables stay beneath the directories that are meant for it.  For services and packager-provided files: agreement with a declarative
  description of which definition is changed and which file is kept.  For loops: termination with the stated result.  Where the code does not do
  what its comments or messages say, a lemma with a concrete input shows it; these are the findings of the manifest
  of this development.

  \<^bold>\<open>Bounds, fuel and loops.\<close>  Python's integers are \<open>int\<close> with its bit operations.  Loops that follow references
  (parents, symlinks, discard chains) are \<open>partial_function (option)\<close> or \<open>function\<close> with a measure; \<open>None\<close> is a call that
  overflows the stack (\<open>RecursionErr\<close>), and for well-formed stores the results are shown to be defined.  The loop over
  the pending keys of a service rule takes the choice of \<^verbatim>\<open>set.pop\<close> as an argument and is shown to end with the same
  result for every choice.  The generator
  of parsers has a fuel argument that is the recursion limit of Python; the typing results hold for every fuel.
  Paths that are created while a tree is walked are handled as the code does: the listing is computed first where
  the code's body does not change the tree.

  \<^bold>\<open>Parameters.\<close>  The disk (contents, types, modes and times of files), \<^verbatim>\<open>dpkg-architecture\<close>, the clock, temporary file
  names, the passwd tables of \<^verbatim>\<open>base-passwd\<close>, the deb822 parser, the loading of YAML, the edit distance of the Levenshtein
  package and the rules that plugins bring along are arguments of the definitions that use them.  So are, in \<open>Dispatch\<close>
  and \<open>ManifestParse\<close>, the parsers and handlers of single rules and the rule that installs packager-provided files, and in
  \<open>Services\<close> the calls that a detector makes.  The text of messages is not modelled, the class of the exception is; \<^verbatim>\<open>_error\<close>,
  which ends the process, is \<open>UserError\<close>.

  \<^bold>\<open>Not modelled.\<close>  The language server and its vendored deb822 parser (\<^verbatim>\<open>lsp/\<close>, \<^verbatim>\<open>linting/\<close>, \<^verbatim>\<open>lsprotocol/\<close>): an editor
  front end whose core is reference data and a third-party parser.  The rest of the registration interface of plugins and its test
  harness (\<^verbatim>\<open>plugin/api/\<close>), the built-in plugin's tables of rules and its build systems (\<^verbatim>\<open>plugin/debputy/\<close>): mostly
  data, documentation and calls of external programs.  The command line, the migration from debhelper, the
  emulation of debhelper, the analysis of \<^verbatim>\<open>debian/\<close>, the drivers of \<^verbatim>\<open>dpkg-deb\<close>, \<^verbatim>\<open>strip\<close>, \<^verbatim>\<open>dh_shlibdeps\<close> and of
  upstream build systems: input, output and processes.  ELF scanning reads binaries through \<^verbatim>\<open>struct\<close>.
\<close>

end
